(* ===== verification/MC_Prelude.thy ===== *)
theory MC_Prelude
  imports Complex_Main "HOL-Library.Word" "HOL-Library.Multiset" "HOL-Library.Monad_Syntax"
begin

text \<open>
  Shared vocabulary of the development: the machine types of an LP64 target, C's integer
  conversions, page arithmetic on addresses, and the generic lemmas on words and lists that
  every component uses.

  A function whose result type is an option returns \<open>None\<close> where the code would follow a
  null pointer or loop for ever, so a theorem that it returns \<open>Some\<close> is a theorem that the
  code neither faults nor hangs.
\<close>

unbundle bit_operations_syntax

type_synonym addr = "64 word"      \<comment> \<open>any pointer\<close>
type_synonym size_t = "64 word"
type_synonym u8 = "8 word"
type_synonym u64 = "64 word"
type_synonym i32 = "32 word"       \<comment> \<open>an \<open>int\<close> that may wrap\<close>

abbreviation NULL :: addr where "NULL \<equiv> 0"

text \<open>The facts that describe what an operation leaves alone, and the page arithmetic.\<close>

named_theorems frame_simps
named_theorems page_simps

text \<open>Conversion of an unsigned 64-bit value to a C \<open>int\<close> (modulo, as gcc defines it).\<close>

definition int_of_u64 :: "u64 \<Rightarrow> int" where
  "int_of_u64 w = sint (ucast w :: 32 word)"

lemma int_of_u64_small: "unat w < 2 ^ 31 \<Longrightarrow> int_of_u64 w = int (unat w)"
proof -
  assume small: "unat w < 2 ^ 31"
  have "int_of_u64 w = signed_take_bit 31 (uint w)"
    by (simp add: int_of_u64_def signed_ucast_eq)
  also have "\<dots> = uint w"
  proof -
    have "int (unat w) < int (2 ^ 31)" using small by (simp only: of_nat_less_iff)
    then have "uint w < 2 ^ 31" by (simp only: uint_nat of_nat_power of_nat_numeral)
    moreover have "- (2 ^ 31) \<le> uint w"
      by (rule order_trans [OF _ uint_ge_0]) simp
    ultimately show ?thesis by (intro signed_take_bit_int_eq_self)
  qed
  finally show ?thesis by simp
qed

text \<open>Conversion of an \<open>int\<close> to \<open>size_t\<close>, as in a comparison of the two.\<close>

definition size_of_int :: "int \<Rightarrow> size_t" where
  "size_of_int i = of_int i"

section \<open>Words\<close>

lemma unat_add_bounded: "unat (a::u64) + n < 2 ^ 64 \<Longrightarrow> unat (a + of_nat n) = unat a + n"
  by (simp add: unat_word_ariths unat_of_nat)

lemma unat_of_nat_u64: "n < 2 ^ 64 \<Longrightarrow> unat (of_nat n :: u64) = n"
  by (simp add: unat_of_nat)

lemma unat_lt_u64 [simp]: "unat (a::u64) < 18446744073709551616"
proof -
  have "unat a < 2 ^ LENGTH(64)" by (rule unsigned_less)
  then show ?thesis by simp
qed

lemma and_not_mask_push: "(x::u64) AND NOT (mask n) = push_bit n (drop_bit n x)"
  by (rule bit_word_eqI) (auto simp: bit_simps)

lemma unat_and_not_mask: "unat ((x::u64) AND NOT (mask n)) = unat x div 2 ^ n * 2 ^ n"
proof -
  have "unat (push_bit n (drop_bit n x)) = take_bit LENGTH(64) (push_bit n (unat (drop_bit n x)))"
    by (rule unsigned_push_bit_eq)
  also have "\<dots> = take_bit 64 (push_bit n (drop_bit n (unat x)))"
    by (simp add: unsigned_drop_bit_eq take_bit_nat_eq_self)
  also have "\<dots> = push_bit n (drop_bit n (unat x))"
  proof -
    have "push_bit n (drop_bit n (unat x)) \<le> unat x"
      by (simp add: push_bit_eq_mult drop_bit_eq_div)
    also have "\<dots> < 2 ^ 64" by simp
    finally show ?thesis by (simp add: take_bit_nat_eq_self)
  qed
  finally show ?thesis
    by (simp add: and_not_mask_push push_bit_eq_mult drop_bit_eq_div)
qed

lemma size_of_int_nat: "n < 2 ^ 64 \<Longrightarrow> unat (size_of_int (int n)) = n"
  by (simp add: size_of_int_def unat_of_nat)

section \<open>Pages\<close>

definition PAGE_SIZE :: nat where "PAGE_SIZE = 4096"

text \<open>\<open>a & ~(PAGE_SIZE - 1)\<close>: the first byte of the page of \<open>a\<close>.\<close>

definition page_down :: "addr \<Rightarrow> addr" where
  "page_down a = a AND NOT (of_nat PAGE_SIZE - 1)"

definition page_aligned :: "addr \<Rightarrow> bool" where
  "page_aligned a \<longleftrightarrow> unat a mod PAGE_SIZE = 0"

lemma page_mask: "of_nat PAGE_SIZE - 1 = (mask 12 :: u64)"
  by (simp add: PAGE_SIZE_def mask_eq_exp_minus_1)

lemma unat_page_down: "unat (page_down a) = unat a div PAGE_SIZE * PAGE_SIZE"
  unfolding page_down_def page_mask by (subst unat_and_not_mask) (simp add: PAGE_SIZE_def)

lemma page_down_aligned [simp]: "page_aligned (page_down a)"
  by (simp add: page_aligned_def unat_page_down)

lemma page_aligned_room: "page_aligned h \<Longrightarrow> off < PAGE_SIZE \<Longrightarrow> unat h + off < 2 ^ 64"
proof -
  assume al: "page_aligned h" and off: "off < PAGE_SIZE"
  have "unat h < 2 ^ 64" by simp
  moreover from al obtain k where "unat h = PAGE_SIZE * k"
    by (auto simp: page_aligned_def dvd_def mod_eq_0_iff_dvd)
  ultimately show ?thesis using off by (simp add: PAGE_SIZE_def)
qed

lemma unat_page_off [page_simps]:
  "page_aligned h \<Longrightarrow> off < PAGE_SIZE \<Longrightarrow> unat (h + of_nat off) = unat h + off"
  by (rule unat_add_bounded) (rule page_aligned_room)

lemma page_down_off [page_simps]:
  "page_aligned h \<Longrightarrow> off < PAGE_SIZE \<Longrightarrow> page_down (h + of_nat off) = h"
proof -
  assume a: "page_aligned h" "off < PAGE_SIZE"
  then have "unat (page_down (h + of_nat off)) = (unat h + off) div PAGE_SIZE * PAGE_SIZE"
    by (simp add: unat_page_down unat_page_off)
  also have "\<dots> = unat h"
    using a by (auto simp: page_aligned_def dvd_def mod_eq_0_iff_dvd div_add1_eq)
  finally show ?thesis by (simp add: word_unat_eq_iff)
qed

lemma page_off_nonnull: "page_aligned h \<Longrightarrow> h \<noteq> 0 \<Longrightarrow> off < PAGE_SIZE \<Longrightarrow> h + of_nat off \<noteq> 0"
  by (metis add_is_0 unat_0 unat_eq_zero unat_page_off)

lemma multiples_apart: "m \<noteq> k \<Longrightarrow> m * n + n \<le> k * n \<or> k * n + n \<le> m * (n :: nat)"
proof -
  assume "m \<noteq> k"
  then have "Suc m \<le> k \<or> Suc k \<le> m" by linarith
  then show ?thesis using mult_le_mono1 [of "Suc m" k n] mult_le_mono1 [of "Suc k" m n] by auto
qed

lemma page_down_apart:
  "page_down p \<noteq> page_down q \<Longrightarrow>
     unat (page_down p) + PAGE_SIZE \<le> unat (page_down q) \<or>
     unat (page_down q) + PAGE_SIZE \<le> unat (page_down p)"
  by (metis multiples_apart unat_page_down word_unat_eq_iff)

section \<open>Sets and lists\<close>

lemma UN_upd_insert:
  assumes "h \<in> A" "F' h = insert x (F h)" "\<And>k. k \<noteq> h \<Longrightarrow> F' k = F k"
  shows "(\<Union>k\<in>A. F' k) = insert x (\<Union>k\<in>A. F k)"
proof -
  have "F' k = (F(h := insert x (F h))) k" for k by (cases "k = h") (simp_all add: assms)
  then show ?thesis using assms(1) by (auto split: if_splits)
qed

lemma UN_upd_remove:
  assumes "h \<in> A" "F' h = F h - {x}" "\<And>k. k \<noteq> h \<Longrightarrow> F' k = F k"
    "\<And>k. k \<in> A \<Longrightarrow> k \<noteq> h \<Longrightarrow> x \<notin> F k"
  shows "(\<Union>k\<in>A. F' k) = (\<Union>k\<in>A. F k) - {x}"
proof -
  have "F' k = (F(h := F h - {x})) k" for k by (cases "k = h") (simp_all add: assms)
  then show ?thesis using assms(1,4) by (auto split: if_splits)
qed

end
