(* ===== verification/MC_Align.thy ===== *)
theory MC_Align
  imports MC_Prelude
begin

text \<open>
  The size rounding of \<open>memchk_alloc.h\<close>: \<open>__get_aligned_size\<close> adds the alignment until the
  sum reaches the size. The theorems give the exact result and the bound under which the loop
  returns; beyond the bound the 64-bit sum wraps and the loop never ends.
\<close>

definition MMAP_BATCH_PAGE_NUM :: nat where "MMAP_BATCH_PAGE_NUM = 4"

definition ALIGNMENT_SIZE :: size_t where "ALIGNMENT_SIZE = 8"

partial_function (option) aligned_size_loop :: "size_t \<Rightarrow> size_t \<Rightarrow> size_t \<Rightarrow> size_t option" where
  "aligned_size_loop ret sz alignment =
     (if ret < sz then aligned_size_loop (ret + alignment) sz alignment else Some ret)"

definition get_aligned_size :: "size_t \<Rightarrow> size_t \<Rightarrow> size_t option" where
  "get_aligned_size sz alignment = aligned_size_loop alignment sz alignment"

text \<open>The multiple the loop stops at: at least one alignment, otherwise the least one that fits.\<close>

definition aligned_up :: "nat \<Rightarrow> nat \<Rightarrow> nat" where
  "aligned_up n a = a * max 1 ((n + a - 1) div a)"

lemma aligned_up_dvd: "a dvd aligned_up n a"
  by (simp add: aligned_up_def)

lemma aligned_up_ge: "0 < a \<Longrightarrow> n \<le> aligned_up n a"
proof -
  assume a: "0 < a"
  have "n \<le> a * ((n + a - 1) div a)"
    using a mult_div_mod_eq [of a "n + a - 1"] mod_less_divisor [OF a, of "n + a - 1"]
    by linarith
  also have "\<dots> \<le> aligned_up n a" by (simp add: aligned_up_def)
  finally show ?thesis .
qed

lemma aligned_up_least: "0 < a \<Longrightarrow> a dvd m \<Longrightarrow> 0 < m \<Longrightarrow> n \<le> m \<Longrightarrow> aligned_up n a \<le> m"
proof -
  assume a: "0 < a" and "a dvd m" "0 < m" "n \<le> m"
  then obtain k where m: "m = a * k" "1 \<le> k" by (auto simp: dvd_def Suc_le_eq)
  have "(n + a - 1) div a \<le> (a * k + (a - 1)) div a"
    using a m \<open>n \<le> m\<close> by (intro div_le_mono) simp
  also have "\<dots> = k" using a by (intro div_nat_eqI) simp_all
  finally show ?thesis using m by (simp add: aligned_up_def)
qed

text \<open>
  Started at a multiple that is not past the goal, the loop climbs to the goal. The measure is
  the distance left, so the loop returns.
\<close>

lemma aligned_size_loop_goal:
  assumes "0 < unat al" "unat al dvd unat r" "0 < unat r" "unat r \<le> aligned_up (unat sz) (unat al)"
    and "aligned_up (unat sz) (unat al) < 2 ^ 64"
  shows "aligned_size_loop r sz al = Some (of_nat (aligned_up (unat sz) (unat al)))"
  using assms(2-4)
proof (induction "aligned_up (unat sz) (unat al) - unat r" arbitrary: r rule: less_induct)
  case less
  let ?g = "aligned_up (unat sz) (unat al)"
  show ?case
  proof (cases "r < sz")
    case True
    then have lt: "unat r < unat sz" by (simp add: word_less_nat_alt)
    have "unat sz \<le> ?g" using assms(1) by (rule aligned_up_ge)
    with lt have "unat r < ?g" by simp
    moreover have "unat al dvd ?g" by (rule aligned_up_dvd)
    ultimately have step: "unat r + unat al \<le> ?g"
      using less.prems(1) assms(1) by (metis dvd_add_right_iff le_add_diff_inverse dvd_diff_nat
          dvd_imp_le zero_less_diff less_imp_le nat_add_left_cancel_le)
    then have "unat (r + al) = unat r + unat al"
      using assms(5) by (simp add: unat_word_ariths)
    then have "aligned_size_loop (r + al) sz al = Some (of_nat ?g)"
      using step less.prems assms(1) by (intro less.hyps) auto
    then show ?thesis using True by (subst aligned_size_loop.simps) simp
  next
    case False
    then have "unat sz \<le> unat r" by (simp add: word_less_nat_alt)
    then have "?g \<le> unat r" using assms(1) less.prems by (intro aligned_up_least) auto
    then have "unat r = ?g" using less.prems by simp
    then have "of_nat ?g = (of_nat (unat r) :: u64)" by simp
    then have "r = of_nat ?g" by simp
    then show ?thesis using False by (subst aligned_size_loop.simps) simp
  qed
qed

lemma get_aligned_size_exact:
  assumes "0 < unat alignment" "aligned_up (unat sz) (unat alignment) < 2 ^ 64"
  shows "get_aligned_size sz alignment = Some (of_nat (aligned_up (unat sz) (unat alignment)))"
proof -
  have "unat alignment \<le> aligned_up (unat sz) (unat alignment)"
    by (simp add: aligned_up_def)
  then show ?thesis
    using assms by (simp add: get_aligned_size_def aligned_size_loop_goal)
qed

text \<open>In words: the least positive multiple of the alignment that is not below the size.\<close>

lemma get_aligned_size_least:
  assumes al: "0 < unat alignment" and fits: "aligned_up (unat sz) (unat alignment) < 2 ^ 64"
  shows "\<exists>r. get_aligned_size sz alignment = Some r \<and> unat alignment dvd unat r \<and> sz \<le> r \<and>
     (\<forall>k. 0 < k \<longrightarrow> unat alignment dvd k \<longrightarrow> unat sz \<le> k \<longrightarrow> unat r \<le> k)"
proof -
  let ?n = "aligned_up (unat sz) (unat alignment)"
  have u: "unat (of_nat ?n :: size_t) = ?n" using fits by (rule unat_of_nat_u64)
  show ?thesis
    using get_aligned_size_exact [OF assms] aligned_up_ge [OF al] aligned_up_dvd aligned_up_least [OF al]
    by (auto simp: u word_le_nat_alt)
qed

text \<open>A size in the last alignment unit of the address space is never reached: the sum wraps.\<close>

lemma aligned_size_loop_wraps:
  assumes ret: "aligned_size_loop r sz al = Some y"
  shows "al = 8 \<Longrightarrow> sz = - 1 \<Longrightarrow> unat r mod 8 = 0 \<Longrightarrow> False"
proof (rule aligned_size_loop.raw_induct
    [where P = "\<lambda>r sz al y. al = 8 \<longrightarrow> sz = - 1 \<longrightarrow> unat r mod 8 = 0 \<longrightarrow> False",
      OF _ ret, THEN mp, THEN mp, THEN mp], intro impI)
  fix f :: "u64 \<Rightarrow> u64 \<Rightarrow> u64 \<Rightarrow> u64 option" and r sz al y
  assume IH: "\<And>r sz al y. f r sz al = Some y \<Longrightarrow> al = 8 \<longrightarrow> sz = - 1 \<longrightarrow> unat r mod 8 = 0 \<longrightarrow> False"
    and eq: "(if r < sz then f (r + al) sz al else Some r) = Some y"
    and a: "al = 8" "sz = - 1" "unat r mod 8 = 0"
  have "unat (- 1 :: u64) = 2 ^ 64 - 1" by (simp add: unsigned_minus_1_eq_mask mask_eq_exp_minus_1)
  then have "r \<noteq> - 1" using a(3) by auto
  then have "r < sz" using a(2) word_order.not_eq_extremum by auto
  then have "f (r + al) sz al = Some y" using eq by simp
  moreover have "unat (r + 8) mod 8 = 0"
  proof -
    have "unat (r + 8) mod 8 = (unat r + 8) mod 8"
      by (simp add: unat_word_ariths mod_mod_cancel)
    then show ?thesis using a(3) by simp
  qed
  ultimately show False using IH [of "r + al" sz al y] a by simp
qed

lemma get_aligned_size_diverges: "get_aligned_size (- 1) ALIGNMENT_SIZE = None"
proof (cases "get_aligned_size (- 1) ALIGNMENT_SIZE")
  case (Some y)
  then show ?thesis
    using aligned_size_loop_wraps [of "8" "- 1" "8" y]
    by (simp add: get_aligned_size_def ALIGNMENT_SIZE_def)
qed

end
