(* ===== verification/MC_Chain.thy ===== *)
theory MC_Chain
  imports MC_Prelude
begin

text \<open>
  Null-terminated chains of objects linked through a pointer field, the shape of every list in
  the program: hash buckets (\<open>hash_next\<close>), pool headers (\<open>next_pool_link\<close>), page regions
  (\<open>next\<close>) and call-stack groups (\<open>same_callstack_group_next\<close>).

  \<open>lst nx p xs\<close> says that following the field \<open>nx\<close> from \<open>p\<close> visits exactly the nodes \<open>xs\<close>
  and ends in the null pointer. The three loops of the code over such chains are here too:
  a search (\<open>chain_find\<close>), a search that remembers the predecessor (\<open>chain_find_prev\<close>), and
  the loop of the macro \<open>for_each_hashnode\<close> (\<open>walk\<close>), each with the theorem that it returns on
  a proper chain and what it returns.
\<close>

section \<open>Chains\<close>

fun lst :: "(addr \<Rightarrow> addr) \<Rightarrow> addr \<Rightarrow> addr list \<Rightarrow> bool" where
  "lst nx p [] \<longleftrightarrow> p = NULL"
| "lst nx p (x # xs) \<longleftrightarrow> p = x \<and> x \<noteq> NULL \<and> lst nx (nx x) xs"

lemma lst_NULL [simp]: "lst nx 0 xs \<longleftrightarrow> xs = []"
  by (cases xs) auto

lemma lst_nonnull: "p \<noteq> 0 \<Longrightarrow> lst nx p xs \<longleftrightarrow> (\<exists>ys. xs = p # ys \<and> lst nx (nx p) ys)"
  by (cases xs) auto

lemma lst_nonnull_mem: "lst nx p xs \<Longrightarrow> x \<in> set xs \<Longrightarrow> x \<noteq> 0"
  by (induction xs arbitrary: p) auto

lemma lst_null_notin [dest]: "lst nx p xs \<Longrightarrow> 0 \<in> set xs \<Longrightarrow> False"
  using lst_nonnull_mem by blast

lemma lst_unique: "lst nx p xs \<Longrightarrow> lst nx p ys \<Longrightarrow> xs = ys"
proof (induction xs arbitrary: p ys)
  case Nil
  then show ?case by simp
next
  case (Cons x xs)
  then show ?case by (cases ys) auto
qed

lemma lst_suffix: "lst nx p (xs @ x # ys) \<Longrightarrow> lst nx (nx x) ys"
  by (induction xs arbitrary: p) auto

lemma lst_notin_tail:
  assumes "lst nx (nx x) xs"
  shows "x \<notin> set xs"
proof
  assume "x \<in> set xs"
  then obtain us vs where xs: "xs = us @ x # vs" by (meson split_list)
  with assms have "lst nx (nx x) vs" by (blast dest: lst_suffix)
  with assms have "xs = vs" by (rule lst_unique)
  with xs show False by simp
qed

lemma lst_distinct: "lst nx p xs \<Longrightarrow> distinct xs"
  by (induction xs arbitrary: p) (auto dest: lst_notin_tail)

lemma lst_cong: "(\<And>x. x \<in> set xs \<Longrightarrow> nx x = nx' x) \<Longrightarrow> lst nx p xs \<longleftrightarrow> lst nx' p xs"
  by (induction xs arbitrary: p) auto

lemma lst_upd_notin [simp]: "a \<notin> set xs \<Longrightarrow> lst (nx(a := q)) p xs \<longleftrightarrow> lst nx p xs"
  by (rule lst_cong) auto

lemma lst_push: "lst nx p xs \<Longrightarrow> a \<noteq> 0 \<Longrightarrow> a \<notin> set xs \<Longrightarrow> lst (nx(a := p)) a (a # xs)"
  by simp

text \<open>Taking a node out of a chain: the head pointer or the predecessor's field skips it.\<close>

lemma lst_unlink_inner:
  "lst nx p (us @ [u] @ x # ys) \<Longrightarrow> lst (nx(u := nx x)) p (us @ [u] @ ys)"
proof (induction us arbitrary: p)
  case Nil
  then have u: "u \<notin> set ys" "p = u" "u \<noteq> 0" "lst nx (nx x) ys"
    using lst_notin_tail [of nx u "x # ys"] by auto
  have "lst (nx(u := nx x)) (nx x) ys" using u by (simp del: fun_upd_apply)
  with u show ?case by (simp del: fun_upd_apply add: fun_upd_same)
next
  case (Cons w us)
  then have "w \<noteq> u" using lst_distinct [OF Cons.prems] by auto
  with Cons show ?case by (simp del: fun_upd_apply add: fun_upd_other)
qed

text \<open>Linking a node at the tail, and between two nodes.\<close>

lemma lst_insert_after:
  "lst nx p (us @ [u] @ ys) \<Longrightarrow> a \<noteq> 0 \<Longrightarrow> a \<notin> set (us @ [u] @ ys) \<Longrightarrow>
     lst (nx(a := nx u, u := a)) p (us @ [u] @ a # ys)"
proof (induction us arbitrary: p)
  case Nil
  then have u: "u \<notin> set ys" "p = u" "u \<noteq> 0" "a \<noteq> u" "a \<notin> set ys" "lst nx (nx u) ys"
    using lst_notin_tail [of nx u ys] by auto
  have "lst (nx(a := nx u, u := a)) (nx u) ys" using u by (simp del: fun_upd_apply)
  with u Nil show ?case by (simp del: fun_upd_apply add: fun_upd_same fun_upd_other)
next
  case (Cons w us)
  then have "w \<noteq> u" "w \<noteq> a" using lst_distinct [OF Cons.prems(1)] by auto
  with Cons show ?case by (simp del: fun_upd_apply add: fun_upd_other)
qed

section \<open>Searching a chain\<close>

text \<open>\<open>while (node && !P(node)) node = node->next;\<close> the result is null when nothing matches.\<close>

partial_function (option) chain_find :: "(addr \<Rightarrow> addr) \<Rightarrow> (addr \<Rightarrow> bool) \<Rightarrow> addr \<Rightarrow> addr option" where
  "chain_find nx P node =
     (if node = NULL then Some NULL
      else if P node then Some node
      else chain_find nx P (nx node))"

text \<open>The same search with the predecessor kept: \<open>prev = node; node = node->next;\<close>.\<close>

partial_function (option) chain_find_prev ::
  "(addr \<Rightarrow> addr) \<Rightarrow> (addr \<Rightarrow> bool) \<Rightarrow> addr \<Rightarrow> addr \<Rightarrow> (addr \<times> addr) option" where
  "chain_find_prev nx P prev node =
     (if node = NULL then Some (prev, NULL)
      else if P node then Some (prev, node)
      else chain_find_prev nx P node (nx node))"

definition first_match :: "(addr \<Rightarrow> bool) \<Rightarrow> addr list \<Rightarrow> addr" where
  "first_match P xs = (case find P xs of None \<Rightarrow> NULL | Some x \<Rightarrow> x)"

lemma first_match_simps [simp]:
  "first_match P [] = NULL"
  "first_match P (x # xs) = (if P x then x else first_match P xs)"
  by (simp_all add: first_match_def)

lemma first_match_cases:
  assumes "0 \<notin> set xs"
  obtains "first_match P xs = 0" "\<forall>x\<in>set xs. \<not> P x"
  | us x vs where "first_match P xs = x" "xs = us @ x # vs" "P x" "x \<noteq> 0" "\<forall>u\<in>set us. \<not> P u"
proof (cases "find P xs")
  case None
  then have "\<forall>x\<in>set xs. \<not> P x" by (auto simp: find_None_iff)
  then show ?thesis using that(1) None by (simp add: first_match_def)
next
  case (Some x)
  then obtain i where i: "i < length xs" "P (xs ! i)" "x = xs ! i" "\<forall>j<i. \<not> P (xs ! j)"
    by (auto simp: find_Some_iff)
  have "xs = take i xs @ x # drop (Suc i) xs" using i by (simp add: id_take_nth_drop)
  moreover have "\<forall>u\<in>set (take i xs). \<not> P u" using i by (auto simp: in_set_conv_nth)
  moreover have "x \<noteq> 0" using i assms by (metis nth_mem)
  ultimately show ?thesis using that(2) [of x "take i xs" "drop (Suc i) xs"] Some i(2,3)
    by (simp add: first_match_def)
qed

lemma chain_find_lst: "lst nx p xs \<Longrightarrow> chain_find nx P p = Some (first_match P xs)"
proof (induction xs arbitrary: p)
  case Nil
  then show ?case by (simp add: chain_find.simps)
next
  case (Cons x xs)
  then show ?case by (subst chain_find.simps) simp
qed

text \<open>On a chain the search with a predecessor finds the same node and the node before it.\<close>

lemma chain_find_prev_none:
  "lst nx p xs \<Longrightarrow> \<forall>x\<in>set xs. \<not> P x \<Longrightarrow>
     chain_find_prev nx P prev p = Some (if xs = [] then prev else last xs, 0)"
proof (induction xs arbitrary: p prev)
  case Nil
  then show ?case by (simp add: chain_find_prev.simps)
next
  case (Cons x xs)
  then show ?case by (subst chain_find_prev.simps) simp
qed

lemma chain_find_prev_some:
  "lst nx p (us @ x # vs) \<Longrightarrow> P x \<Longrightarrow> \<forall>u\<in>set us. \<not> P u \<Longrightarrow>
     chain_find_prev nx P prev p = Some (if us = [] then prev else last us, x)"
proof (induction us arbitrary: p prev)
  case Nil
  then show ?case by (subst chain_find_prev.simps) simp
next
  case (Cons u us)
  then show ?case by (subst chain_find_prev.simps) simp
qed

section \<open>Walking a chain\<close>

text \<open>
  The inner loop of \<open>for_each_hashnode\<close>: the successor is read after the body ran, from the
  state the body left. A body falls through to the next node or returns from the function.
\<close>

datatype ('r, 's) flow = Next 's | Ret 'r 's

partial_function (option) walk ::
  "('s \<Rightarrow> addr \<Rightarrow> addr) \<Rightarrow> (addr \<Rightarrow> 's \<Rightarrow> ('r, 's) flow option) \<Rightarrow> addr \<Rightarrow> 's \<Rightarrow> ('r, 's) flow option"
where
  "walk nx body n s =
     (if n = NULL then Some (Next s)
      else do {
        fl \<leftarrow> body n s;
        (case fl of
           Ret r s' \<Rightarrow> Some (Ret r s')
         | Next s' \<Rightarrow> walk nx body (nx s' n) s')
      })"

fun fold_flow :: "(addr \<Rightarrow> 's \<Rightarrow> ('r, 's) flow option) \<Rightarrow> addr list \<Rightarrow> 's \<Rightarrow> ('r, 's) flow option" where
  "fold_flow body [] s = Some (Next s)"
| "fold_flow body (x # xs) s =
     do {
       fl \<leftarrow> body x s;
       (case fl of Ret r s' \<Rightarrow> Some (Ret r s') | Next s' \<Rightarrow> fold_flow body xs s')
     }"

text \<open>
  A walk is a fold over the nodes the chain had at the start as long as no body changes the
  links of the node it is at and of the nodes still to come.
\<close>

lemma walk_fold:
  assumes "lst (nx s) p xs" "I s"
    and step: "\<And>n s s' us ys. body n s = Some (Next s') \<Longrightarrow> I s \<Longrightarrow> xs = us @ n # ys \<Longrightarrow>
                 lst (nx s) n (n # ys) \<Longrightarrow> I s' \<and> (\<forall>m\<in>set (n # ys). nx s' m = nx s m)"
  shows "walk nx body p s = fold_flow body xs s"
    and "fold_flow body xs s = Some (Next s') \<Longrightarrow> I s'"
proof -
  have "walk nx body p s = fold_flow body xs s \<and> (\<forall>s'. fold_flow body xs s = Some (Next s') \<longrightarrow> I s')"
    using assms
  proof (induction xs arbitrary: p s)
    case Nil
    then show ?case by (simp add: walk.simps)
  next
    case (Cons x xs)
    have p: "p = x" "x \<noteq> 0" and tail: "lst (nx s) (nx s x) xs" using Cons.prems(1) by auto
    show ?case
    proof (cases "body x s")
      case None
      then show ?thesis using p by (subst walk.simps) simp
    next
      case (Some fl)
      show ?thesis
      proof (cases fl)
        case (Ret r s')
        then show ?thesis using Some p by (subst walk.simps) simp
      next
        case (Next s')
        have "I s' \<and> (\<forall>m\<in>set (x # xs). nx s' m = nx s m)"
          using Cons.prems(1,2) Some Next p
          by (intro Cons.prems(3) [where n = x and us = "[]"]) auto
        then have I': "I s'" and same: "\<forall>m\<in>set (x # xs). nx s' m = nx s m" by auto
        then have "lst (nx s') (nx s' x) xs" using tail lst_cong [of xs "nx s" "nx s'"] by auto
        then have "walk nx body (nx s' x) s' = fold_flow body xs s' \<and>
            (\<forall>t. fold_flow body xs s' = Some (Next t) \<longrightarrow> I t)"
          using I'
        proof (rule Cons.IH)
          fix n t t' us ys
          assume "body n t = Some (Next t')" "I t" "xs = us @ n # ys" "lst (nx t) n (n # ys)"
          then show "I t' \<and> (\<forall>m\<in>set (n # ys). nx t' m = nx t m)"
            by (intro Cons.prems(3) [where us = "x # us"]) auto
        qed
        then show ?thesis using Some Next p by (subst walk.simps) simp
      qed
    qed
  qed
  then show "walk nx body p s = fold_flow body xs s"
    and "fold_flow body xs s = Some (Next s') \<Longrightarrow> I s'" by blast+
qed

lemma fold_flow_append:
  "fold_flow body (xs @ ys) s =
     do { fl \<leftarrow> fold_flow body xs s;
          (case fl of Ret r s' \<Rightarrow> Some (Ret r s') | Next s' \<Rightarrow> fold_flow body ys s') }"
  by (induction xs arbitrary: s) (auto split: Option.bind_splits flow.splits)

text \<open>A body that always falls through makes the walk an ordinary fold.\<close>

lemma fold_flow_fold:
  "(\<And>x s. x \<in> set xs \<Longrightarrow> body x s = Some (Next (f x s))) \<Longrightarrow> fold_flow body xs s = Some (Next (fold f xs s))"
  by (induction xs arbitrary: s) auto

end
