(* ===== verification/MC_Allocator.thy ===== *)
theory MC_Allocator
  imports MC_Align MC_Chain
begin

text \<open>
  The block allocator of \<open>memchk_allocator.c\<close>: every kind of bookkeeping object comes from a
  chain of one-page pools of equal blocks, each page headed by a \<open>struct memblk_pool_header\<close>
  with a bitmap of its free blocks. The first page is static, further pages come from \<open>mmap\<close>
  four at a time. The header of a block is found by rounding its address down to its page.

  The store maps every address to the header that lies there. The kernel's answers to the
  calls of \<open>mmap\<close> are a list in the state, consumed from the front; \<open>mmaps_ok\<close> states what the
  kernel promises of them (fresh, page-aligned, mapped ranges). The mutex around the operations
  is not part of the sequential model.
\<close>

section \<open>Data\<close>

record pool_header =
  ph_size :: int
  ph_num_memblk_in_pool :: int
  ph_num_free :: int
  ph_seqno :: u64
  ph_bitmap :: "u64 list"                \<comment> \<open>\<open>uint64_t bitmap[3]\<close>\<close>
  ph_top :: addr
  ph_prev_pool_link :: addr
  ph_next_pool_link :: addr
  ph_next_available_pool :: addr         \<comment> \<open>only used in the first header\<close>

record alloc_state =
  headers :: "addr \<Rightarrow> pool_header"
  mmaps :: "addr list"

definition SIZEOF_POOL_HEADER :: size_t where "SIZEOF_POOL_HEADER = 80"

definition MAP_FAILED :: addr where "MAP_FAILED = - 1"

definition upd_header :: "addr \<Rightarrow> (pool_header \<Rightarrow> pool_header) \<Rightarrow> alloc_state \<Rightarrow> alloc_state" where
  "upd_header h f st = st\<lparr>headers := (headers st)(h := f (headers st h))\<rparr>"

text \<open>A call of \<open>mmap\<close>: the kernel's next answer, failure when it has none.\<close>

definition mmap_pages :: "alloc_state \<Rightarrow> addr \<times> alloc_state" where
  "mmap_pages st =
     (case mmaps st of [] \<Rightarrow> (MAP_FAILED, st) | a # as \<Rightarrow> (a, st\<lparr>mmaps := as\<rparr>))"

section \<open>The bitmap\<close>

text \<open>The builtin \<open>__builtin_ffsl\<close>: one plus the index of the lowest set bit, 0 for 0.\<close>

definition ffsl :: "u64 \<Rightarrow> int" where
  "ffsl w = (case find (bit w) [0..<64] of None \<Rightarrow> 0 | Some i \<Rightarrow> int i + 1)"

text \<open>
  The index is an \<open>int\<close> compared with an unsigned constant, so it is converted first; the
  shift distances are below 64 for indices below 192.
\<close>

definition set_bitmap :: "pool_header \<Rightarrow> int \<Rightarrow> pool_header" where
  "set_bitmap hdr index =
     (let i = size_of_int index; bm = ph_bitmap hdr in
      if i < 64 then hdr\<lparr>ph_bitmap := bm[0 := bm ! 0 OR push_bit (unat i) 1]\<rparr>
      else if i < 128 then hdr\<lparr>ph_bitmap := bm[1 := bm ! 1 OR push_bit (unat (i - 64)) 1]\<rparr>
      else hdr\<lparr>ph_bitmap := bm[2 := bm ! 2 OR push_bit (unat (i - 128)) 1]\<rparr>)"

definition clear_bitmap :: "pool_header \<Rightarrow> int \<Rightarrow> pool_header" where
  "clear_bitmap hdr index =
     (let i = size_of_int index; bm = ph_bitmap hdr in
      if i < 64 then hdr\<lparr>ph_bitmap := bm[0 := bm ! 0 AND NOT (push_bit (unat i) 1)]\<rparr>
      else if i < 128 then hdr\<lparr>ph_bitmap := bm[1 := bm ! 1 AND NOT (push_bit (unat (i - 64)) 1)]\<rparr>
      else hdr\<lparr>ph_bitmap := bm[2 := bm ! 2 AND NOT (push_bit (unat (i - 128)) 1)]\<rparr>)"

definition get_lowest_bit :: "pool_header \<Rightarrow> int" where
  "get_lowest_bit hdr =
     (let num = ph_num_memblk_in_pool hdr; ret = ffsl (ph_bitmap hdr ! 0) in
      if ret = 0 then
        (if size_of_int num \<le> 64 then - 1
         else
           let ret = ffsl (ph_bitmap hdr ! 1) in
           if ret = 0 then
             (if size_of_int num \<le> 128 then - 1
              else
                let ret = ffsl (ph_bitmap hdr ! 2) in
                if size_of_int ret + 128 \<le> size_of_int num
                then int_of_u64 (size_of_int ret + 128 - 1) else - 1)
           else if size_of_int ret + 64 \<le> size_of_int num
                then int_of_u64 (size_of_int ret + 64 - 1) else - 1)
      else if ret \<le> num then ret - 1 else - 1)"

section \<open>Headers and blocks\<close>

definition get_index :: "alloc_state \<Rightarrow> addr \<Rightarrow> addr \<Rightarrow> size_t \<Rightarrow> int" where
  "get_index st header memblk memblk_size =
     int_of_u64 ((memblk - header - size_of_int (ph_size (headers st header))) div memblk_size)"

definition get_bufaddr :: "alloc_state \<Rightarrow> addr \<Rightarrow> int \<Rightarrow> size_t \<Rightarrow> addr" where
  "get_bufaddr st header index memblk_size =
     header + size_of_int (ph_size (headers st header)) + memblk_size * size_of_int index"

definition init_header :: "addr \<Rightarrow> size_t \<Rightarrow> addr option \<Rightarrow> alloc_state \<Rightarrow> alloc_state option" where
  "init_header header memblk_size prev st =
     do {
       hsz \<leftarrow> get_aligned_size SIZEOF_POOL_HEADER ALIGNMENT_SIZE;
       let sz = int_of_u64 hsz;
       let num = int_of_u64 (size_of_int (int PAGE_SIZE - sz) div memblk_size);
       let st = upd_header header
         (\<lambda>h. h\<lparr>ph_size := sz, ph_num_memblk_in_pool := num, ph_num_free := num,
               ph_bitmap := [- 1, - 1, - 1]\<rparr>) st;
       st \<leftarrow> (case prev of
         Some p \<Rightarrow>
           (if p = NULL then None
            else
              let st = upd_header header (\<lambda>h. h\<lparr>ph_top := ph_top (headers st p)\<rparr>) st;
                  st = upd_header header (\<lambda>h. h\<lparr>ph_prev_pool_link := p\<rparr>) st;
                  st = upd_header header
                    (\<lambda>h. h\<lparr>ph_next_pool_link := ph_next_pool_link (headers st p)\<rparr>) st;
                  st = upd_header p (\<lambda>h. h\<lparr>ph_next_pool_link := header\<rparr>) st;
                  tp = ph_top (headers st header);
                  st = upd_header header (\<lambda>h. h\<lparr>ph_seqno := ph_seqno (headers st tp)\<rparr>) st
              in Some (upd_header tp (\<lambda>h. h\<lparr>ph_seqno := ph_seqno h + 1\<rparr>) st))
       | None \<Rightarrow>
           Some (upd_header header
             (\<lambda>h. h\<lparr>ph_top := header, ph_prev_pool_link := NULL,
                   ph_next_pool_link := NULL, ph_seqno := 0\<rparr>) st));
       Some (upd_header (ph_top (headers st header)) (\<lambda>h. h\<lparr>ph_next_available_pool := header\<rparr>) st)
     }"

section \<open>The operations\<close>

definition mc_allocator_init :: "addr \<Rightarrow> size_t \<Rightarrow> alloc_state \<Rightarrow> alloc_state option" where
  "mc_allocator_init buf memblk_size st = init_header buf memblk_size None st"

text \<open>The loop over the pages of a fresh mapping: \<open>tmp\<close> is the page, \<open>prev\<close> the one before.\<close>

fun init_batch :: "nat \<Rightarrow> addr \<Rightarrow> addr \<Rightarrow> size_t \<Rightarrow> alloc_state \<Rightarrow> alloc_state option" where
  "init_batch 0 tmp prev memblk_size st = Some st"
| "init_batch (Suc n) tmp prev memblk_size st =
     do {
       st' \<leftarrow> init_header tmp memblk_size (Some prev) st;
       init_batch n (tmp + of_nat PAGE_SIZE) tmp memblk_size st'
     }"

text \<open>
  The part of \<open>mc_allocator_alloc\<close> that looks for a page with a free block when the page at
  hand has none: the rest of the chain first, then a new mapping. The null pointer is the
  failed \<open>mmap\<close>, with which the caller returns.
\<close>

definition find_pool :: "addr \<Rightarrow> size_t \<Rightarrow> alloc_state \<Rightarrow> (addr \<times> alloc_state) option" where
  "find_pool header memblk_size st =
     do {
       (prev, hdr) \<leftarrow> chain_find_prev (\<lambda>h. ph_next_pool_link (headers st h))
                        (\<lambda>h. ph_num_free (headers st h) \<noteq> 0) NULL header;
       if hdr \<noteq> NULL then Some (hdr, st)
       else
         (let (m, st') = mmap_pages st in
          if m = MAP_FAILED then Some (NULL, st')
          else do {
            st'' \<leftarrow> init_batch MMAP_BATCH_PAGE_NUM m prev memblk_size st';
            Some (m, st'')
          })
     }"

definition mc_allocator_alloc :: "addr \<Rightarrow> size_t \<Rightarrow> alloc_state \<Rightarrow> (addr \<times> alloc_state) option" where
  "mc_allocator_alloc buf memblk_size st =
     do {
       let header = ph_next_available_pool (headers st buf);
       let index = get_lowest_bit (headers st header);
       (header, index, st) \<leftarrow>
         (if index = - 1 then
            do {
              (hdr, st') \<leftarrow> find_pool header memblk_size st;
              if hdr = NULL then Some (NULL, - 1, st')
              else
                Some (hdr, get_lowest_bit (headers st' hdr),
                      upd_header buf (\<lambda>h. h\<lparr>ph_next_available_pool := hdr\<rparr>) st')
            }
          else Some (header, index, st));
       if header = NULL then Some (NULL, st)
       else
         (let ret = get_bufaddr st header index memblk_size;
              st = upd_header header (\<lambda>h. clear_bitmap h index) st;
              st = upd_header header (\<lambda>h. h\<lparr>ph_num_free := ph_num_free h - 1\<rparr>) st
          in Some (ret, st))
     }"

definition mc_allocator_free :: "addr \<Rightarrow> size_t \<Rightarrow> alloc_state \<Rightarrow> alloc_state" where
  "mc_allocator_free buf memblk_size st =
     (let header = page_down buf;
          tp = ph_top (headers st header);
          index = get_index st header buf memblk_size;
          st = upd_header header (\<lambda>h. set_bitmap h index) st;
          st = upd_header header (\<lambda>h. h\<lparr>ph_num_free := ph_num_free h + 1\<rparr>) st
      in if ph_num_free (headers st (ph_next_available_pool (headers st tp)))
              < ph_num_free (headers st header)
         then upd_header tp (\<lambda>h. h\<lparr>ph_next_available_pool := header\<rparr>) st
         else st)"

end
