(* ===== verification/MC_Allocator_Bits.thy ===== *)
theory MC_Allocator_Bits
  imports MC_Allocator
begin

text \<open>
  The bitmap of a pool header as a set of free block numbers: \<open>slot_free\<close> reads bit \<open>i\<close> of the
  three words as the code lays them out. \<open>__set_bitmap\<close> and \<open>__clear_bitmap\<close> change exactly
  one number, \<open>__get_lowest_bit\<close> is the least free one below the pool's capacity or -1, as
  long as a bit beyond the capacity is left set: with all three words zero and a capacity
  above 128 it answers 127, since the third word's \<open>ffsl\<close> is not compared with 0.
\<close>

definition slot_free :: "pool_header \<Rightarrow> nat \<Rightarrow> bool" where
  "slot_free hdr i \<longleftrightarrow> bit (ph_bitmap hdr ! (i div 64)) (i mod 64)"

lemma slot_free_words:
  "i < 192 \<Longrightarrow> slot_free hdr i \<longleftrightarrow>
     (if i < 64 then bit (ph_bitmap hdr ! 0) i
      else if i < 128 then bit (ph_bitmap hdr ! 1) (i - 64)
      else bit (ph_bitmap hdr ! 2) (i - 128))"
proof -
  assume i: "i < 192"
  have d: "i div 64 = (if i < 64 then 0 else if i < 128 then 1 else 2)"
    using i by (auto intro!: div_nat_eqI)
  moreover have "i mod 64 = i - i div 64 * 64" by (rule minus_div_mult_eq_mod [symmetric])
  ultimately show ?thesis by (simp add: slot_free_def)
qed

lemma ffsl_cases:
  obtains "ffsl w = 0" "\<forall>i<64. \<not> bit w i"
  | i where "ffsl w = int i + 1" "i < 64" "bit w i" "\<forall>j<i. \<not> bit w j"
proof (cases "find (bit w) [0..<64]")
  case None
  then have "\<forall>i<64. \<not> bit w i" by (auto simp: find_None_iff)
  then show ?thesis using that(1) None by (simp add: ffsl_def)
next
  case (Some i)
  then obtain k where "k < 64" "bit w ([0..<64] ! k)" "i = [0..<64] ! k" "\<forall>j<k. \<not> bit w ([0..<64] ! j)"
    by (auto simp: find_Some_iff)
  then show ?thesis using that(2) [of i] Some by (auto simp: ffsl_def)
qed

text \<open>The conversions in \<open>__get_lowest_bit\<close> are exact on a pool's numbers.\<close>

lemma size_of_int_le:
  "n \<le> 192 \<Longrightarrow> size_of_int (int n) \<le> 64 \<longleftrightarrow> n \<le> 64"
  "n \<le> 192 \<Longrightarrow> size_of_int (int n) \<le> 128 \<longleftrightarrow> n \<le> 128"
  "n \<le> 192 \<Longrightarrow> size_of_int (int n) < 64 \<longleftrightarrow> n < 64"
  "n \<le> 192 \<Longrightarrow> size_of_int (int n) < 128 \<longleftrightarrow> n < 128"
  by (simp_all add: word_le_nat_alt word_less_nat_alt size_of_int_nat)

lemma size_of_int_plus: "i < 64 \<Longrightarrow> b \<le> 128 \<Longrightarrow> unat (size_of_int (int i + 1) + of_nat b) = i + 1 + b"
proof -
  assume a: "i < 64" "b \<le> 128"
  have "size_of_int (int i + 1) + of_nat b = of_nat (i + 1 + b)" by (simp add: size_of_int_def)
  moreover have "unat (of_nat (i + 1 + b) :: u64) = i + 1 + b"
    using a by (intro unat_of_nat_u64) simp
  ultimately show ?thesis by (simp only:)
qed

lemma size_of_int_slot:
  "i < 64 \<Longrightarrow> n \<le> 192 \<Longrightarrow> size_of_int (int i + 1) + 64 \<le> size_of_int (int n) \<longleftrightarrow> i + 64 < n"
  "i < 64 \<Longrightarrow> n \<le> 192 \<Longrightarrow> size_of_int (int i + 1) + 128 \<le> size_of_int (int n) \<longleftrightarrow> i + 128 < n"
  using size_of_int_plus [of i 64] size_of_int_plus [of i 128] size_of_int_nat [of n]
  by (auto simp: word_le_nat_alt)

lemma int_of_u64_of_nat: "n < 2 ^ 31 \<Longrightarrow> int_of_u64 (of_nat n) = int n"
proof -
  assume n: "n < 2 ^ 31"
  then have "unat (of_nat n :: u64) = n" by (intro unat_of_nat_u64) simp
  then show ?thesis using n int_of_u64_small [of "of_nat n"] by simp
qed

lemma int_of_u64_slot:
  "i < 64 \<Longrightarrow> int_of_u64 (63 + size_of_int (int i + 1)) = int i + 64"
  "i < 64 \<Longrightarrow> int_of_u64 (127 + size_of_int (int i + 1)) = int i + 128"
  using int_of_u64_of_nat [of "i + 64"] int_of_u64_of_nat [of "i + 128"]
  by (simp_all add: size_of_int_def add.commute)

lemma get_lowest_bit_spec:
  assumes num: "ph_num_memblk_in_pool hdr = int n" "n < 192"
    and spare: "\<forall>i. n \<le> i \<longrightarrow> i < 192 \<longrightarrow> slot_free hdr i"
  obtains "get_lowest_bit hdr = - 1" "\<forall>i<n. \<not> slot_free hdr i"
  | i where "get_lowest_bit hdr = int i" "i < n" "slot_free hdr i" "\<forall>j<i. \<not> slot_free hdr j"
proof -
  let ?b = "\<lambda>k. ph_bitmap hdr ! k"
  have slots: "\<And>i. i < n \<Longrightarrow> slot_free hdr i \<longleftrightarrow>
      (if i < 64 then bit (?b 0) i else if i < 128 then bit (?b 1) (i - 64) else bit (?b 2) (i - 128))"
    using num(2) slot_free_words by simp
  show ?thesis
  proof (cases rule: ffsl_cases [of "?b 0"])
    case (2 i)
    then have low: "get_lowest_bit hdr = (if i < n then int i else - 1)"
      by (simp add: get_lowest_bit_def num(1))
    show ?thesis
    proof (cases "i < n")
      case True
      then show ?thesis using 2 low slots by (intro that(2) [of i]) auto
    next
      case False
      then show ?thesis using 2 low slots by (intro that(1)) auto
    qed
  next
    case no0: 1
    show ?thesis
    proof (cases "n \<le> 64")
      case True
      then have "get_lowest_bit hdr = - 1"
        using no0 num by (simp add: get_lowest_bit_def size_of_int_le size_of_int_slot int_of_u64_slot)
      then show ?thesis using no0 slots True by (intro that(1)) auto
    next
      case n64: False
      show ?thesis
      proof (cases rule: ffsl_cases [of "?b 1"])
        case (2 i)
        then have low: "get_lowest_bit hdr = (if i + 64 < n then int (i + 64) else - 1)"
          using no0 num n64
          by (simp add: get_lowest_bit_def size_of_int_le size_of_int_slot int_of_u64_slot)
        show ?thesis
        proof (cases "i + 64 < n")
          case True
          then show ?thesis using 2 low slots no0
            by (intro that(2) [of "i + 64"]) (auto simp: less_diff_conv)
        next
          case False
          then show ?thesis using 2 low slots no0 by (intro that(1)) auto
        qed
      next
        case no1: 1
        show ?thesis
        proof (cases "n \<le> 128")
          case True
          then have "get_lowest_bit hdr = - 1"
            using no0 no1 num n64 by (simp add: get_lowest_bit_def size_of_int_le size_of_int_slot int_of_u64_slot)
          then show ?thesis using no0 no1 slots True by (intro that(1)) auto
        next
          case n128: False
          show ?thesis
          proof (cases rule: ffsl_cases [of "?b 2"])
            case (2 i)
            then have low: "get_lowest_bit hdr = (if i + 128 < n then int (i + 128) else - 1)"
              using no0 no1 num n64 n128
              by (simp add: get_lowest_bit_def size_of_int_le size_of_int_slot int_of_u64_slot)
            show ?thesis
            proof (cases "i + 128 < n")
              case True
              then show ?thesis using 2 low slots no0 no1
                by (intro that(2) [of "i + 128"]) (auto simp: less_diff_conv)
            next
              case False
              then show ?thesis using 2 low slots no0 no1 num(2) by (intro that(1)) auto
            qed
          next
            case no2: 1
            then have "\<not> slot_free hdr 191" by (simp add: slot_free_def)
            then show ?thesis using spare num(2) by simp
          qed
        qed
      qed
    qed
  qed
qed

text \<open>One bit at a time.\<close>

lemma bitmap_fields [simp]:
  "ph_size (set_bitmap hdr k) = ph_size hdr"
  "ph_num_memblk_in_pool (set_bitmap hdr k) = ph_num_memblk_in_pool hdr"
  "ph_num_free (set_bitmap hdr k) = ph_num_free hdr"
  "ph_top (set_bitmap hdr k) = ph_top hdr"
  "ph_next_pool_link (set_bitmap hdr k) = ph_next_pool_link hdr"
  "ph_next_available_pool (set_bitmap hdr k) = ph_next_available_pool hdr"
  "length (ph_bitmap (set_bitmap hdr k)) = length (ph_bitmap hdr)"
  "ph_size (clear_bitmap hdr k) = ph_size hdr"
  "ph_num_memblk_in_pool (clear_bitmap hdr k) = ph_num_memblk_in_pool hdr"
  "ph_num_free (clear_bitmap hdr k) = ph_num_free hdr"
  "ph_top (clear_bitmap hdr k) = ph_top hdr"
  "ph_next_pool_link (clear_bitmap hdr k) = ph_next_pool_link hdr"
  "ph_next_available_pool (clear_bitmap hdr k) = ph_next_available_pool hdr"
  "length (ph_bitmap (clear_bitmap hdr k)) = length (ph_bitmap hdr)"
  by (auto simp: set_bitmap_def clear_bitmap_def Let_def)

lemma size_of_int_minus:
  "64 \<le> k \<Longrightarrow> k < 192 \<Longrightarrow> unat (size_of_int (int k) - 64) = k - 64"
  "128 \<le> k \<Longrightarrow> k < 192 \<Longrightarrow> unat (size_of_int (int k) - 128) = k - 128"
  using size_of_int_nat [of k] by (simp_all add: unat_sub word_le_nat_alt)

lemma slot_free_set_bitmap:
  assumes "length (ph_bitmap hdr) = 3" "k < 192" "i < 192"
  shows "slot_free (set_bitmap hdr (int k)) i \<longleftrightarrow> i = k \<or> slot_free hdr i"
proof -
  consider "k < 64" | "64 \<le> k" "k < 128" | "128 \<le> k" by linarith
  then show ?thesis
  proof cases
    case 1
    then show ?thesis using assms
      by (auto simp: slot_free_words set_bitmap_def Let_def size_of_int_le size_of_int_nat bit_simps)
  next
    case 2
    then show ?thesis using assms
      by (auto simp: slot_free_words set_bitmap_def Let_def size_of_int_le size_of_int_minus bit_simps)
  next
    case 3
    then show ?thesis using assms
      by (auto simp: slot_free_words set_bitmap_def Let_def size_of_int_le size_of_int_minus bit_simps)
  qed
qed

lemma slot_free_clear_bitmap:
  assumes "length (ph_bitmap hdr) = 3" "k < 192" "i < 192"
  shows "slot_free (clear_bitmap hdr (int k)) i \<longleftrightarrow> i \<noteq> k \<and> slot_free hdr i"
proof -
  consider "k < 64" | "64 \<le> k" "k < 128" | "128 \<le> k" by linarith
  then show ?thesis
  proof cases
    case 1
    then show ?thesis using assms
      by (auto simp: slot_free_words clear_bitmap_def Let_def size_of_int_le size_of_int_nat bit_simps)
  next
    case 2
    then show ?thesis using assms
      by (auto simp: slot_free_words clear_bitmap_def Let_def size_of_int_le size_of_int_minus bit_simps)
  next
    case 3
    then show ?thesis using assms
      by (auto simp: slot_free_words clear_bitmap_def Let_def size_of_int_le size_of_int_minus bit_simps)
  qed
qed

lemma get_lowest_bit_no_spare:
  "ph_bitmap hdr = [0, 0, 0] \<Longrightarrow> ph_num_memblk_in_pool hdr = 192 \<Longrightarrow> get_lowest_bit hdr = 127"
proof -
  assume a: "ph_bitmap hdr = [0, 0, 0]" "ph_num_memblk_in_pool hdr = 192"
  have "ffsl 0 = 0" by (cases rule: ffsl_cases [of 0]) auto
  then show ?thesis
    using a by (simp add: get_lowest_bit_def size_of_int_def int_of_u64_def)
qed

end
