(* ===== verification/MC_Pool.thy ===== *)
theory MC_Pool
  imports MC_Allocator_Bits
begin

text \<open>
  The invariant of a chain of pools and what the operations of the allocator do under it.
  \<open>pool_ok bsz tp cs st\<close>: the pool that starts at the page \<open>tp\<close> and gives blocks of \<open>bsz\<close> bytes
  consists of the pages \<open>cs\<close>, linked in that order; every header counts its free blocks. The
  blocks handed out (\<open>live_blocks\<close>) are those whose bit is clear.
\<close>

section \<open>The invariant\<close>

definition HDR_SIZE :: nat where "HDR_SIZE = 80"

definition capacity :: "size_t \<Rightarrow> nat" where
  "capacity bsz = (PAGE_SIZE - HDR_SIZE) div unat bsz"

definition blk_size_ok :: "size_t \<Rightarrow> bool" where
  "blk_size_ok bsz \<longleftrightarrow> 21 \<le> unat bsz \<and> unat bsz \<le> PAGE_SIZE - HDR_SIZE"

definition slot_addr :: "addr \<Rightarrow> size_t \<Rightarrow> nat \<Rightarrow> addr" where
  "slot_addr h bsz i = h + of_nat (HDR_SIZE + i * unat bsz)"

abbreviation nxt_pool :: "alloc_state \<Rightarrow> addr \<Rightarrow> addr" where
  "nxt_pool st \<equiv> (\<lambda>h. ph_next_pool_link (headers st h))"

definition free_slots :: "size_t \<Rightarrow> pool_header \<Rightarrow> nat set" where
  "free_slots bsz hdr = {i. i < capacity bsz \<and> slot_free hdr i}"

definition hdr_ok :: "size_t \<Rightarrow> addr \<Rightarrow> pool_header \<Rightarrow> bool" where
  "hdr_ok bsz tp hdr \<longleftrightarrow>
     ph_size hdr = int HDR_SIZE \<and> ph_num_memblk_in_pool hdr = int (capacity bsz) \<and>
     length (ph_bitmap hdr) = 3 \<and> ph_num_free hdr = int (card (free_slots bsz hdr)) \<and>
     ph_top hdr = tp \<and> (\<forall>i. capacity bsz \<le> i \<longrightarrow> i < 192 \<longrightarrow> slot_free hdr i)"

definition pool_ok :: "size_t \<Rightarrow> addr \<Rightarrow> addr list \<Rightarrow> alloc_state \<Rightarrow> bool" where
  "pool_ok bsz tp cs st \<longleftrightarrow>
     blk_size_ok bsz \<and> lst (nxt_pool st) tp cs \<and> tp \<noteq> NULL \<and>
     (\<forall>h\<in>set cs. page_aligned h \<and> hdr_ok bsz tp (headers st h)) \<and>
     ph_next_available_pool (headers st tp) \<in> set cs"

definition used_slots :: "size_t \<Rightarrow> pool_header \<Rightarrow> nat set" where
  "used_slots bsz hdr = {i. i < capacity bsz \<and> \<not> slot_free hdr i}"

definition live_blocks :: "size_t \<Rightarrow> addr list \<Rightarrow> alloc_state \<Rightarrow> addr set" where
  "live_blocks bsz cs st = (\<Union>h\<in>set cs. slot_addr h bsz ` used_slots bsz (headers st h))"

text \<open>The pages of one mapping, and what the kernel promises of its answers.\<close>

definition pages :: "addr \<Rightarrow> nat \<Rightarrow> addr list" where
  "pages a n = map (\<lambda>k. a + of_nat (k * PAGE_SIZE)) [0..<n]"

fun mmaps_ok :: "addr list \<Rightarrow> addr set \<Rightarrow> bool" where
  "mmaps_ok [] U \<longleftrightarrow> True"
| "mmaps_ok (a # as) U \<longleftrightarrow>
     (if a = MAP_FAILED then mmaps_ok as U
      else page_aligned a \<and> a \<noteq> NULL \<and> unat a + MMAP_BATCH_PAGE_NUM * PAGE_SIZE \<le> 2 ^ 64 \<and>
           set (pages a MMAP_BATCH_PAGE_NUM) \<inter> U = {} \<and>
           mmaps_ok as (U \<union> set (pages a MMAP_BATCH_PAGE_NUM)))"

lemma mmaps_ok_mono: "mmaps_ok as U \<Longrightarrow> V \<subseteq> U \<Longrightarrow> mmaps_ok as V"
proof (induction as arbitrary: U V)
  case Nil
  then show ?case by simp
next
  case (Cons a as)
  have "V \<union> set (pages a MMAP_BATCH_PAGE_NUM) \<subseteq> U \<union> set (pages a MMAP_BATCH_PAGE_NUM)"
    using Cons.prems(2) by blast
  with Cons show ?case by (auto split: if_splits)
qed

section \<open>Capacities and block addresses\<close>

lemma capacity_bounds: "blk_size_ok bsz \<Longrightarrow> 0 < capacity bsz \<and> capacity bsz < 192"
proof -
  assume b: "blk_size_ok bsz"
  have "capacity bsz \<le> 4016 div 21"
    using b div_le_mono2 [of 21 "unat bsz" 4016]
    by (simp add: capacity_def blk_size_ok_def PAGE_SIZE_def HDR_SIZE_def)
  then show ?thesis
    using b by (auto simp: capacity_def blk_size_ok_def PAGE_SIZE_def HDR_SIZE_def div_greater_zero_iff)
qed

lemma slot_end: "i < capacity bsz \<Longrightarrow> HDR_SIZE + i * unat bsz + unat bsz \<le> PAGE_SIZE"
proof -
  assume i: "i < capacity bsz"
  have "(i + 1) * unat bsz \<le> capacity bsz * unat bsz" using i by (intro mult_le_mono) simp_all
  also have "\<dots> \<le> PAGE_SIZE - HDR_SIZE" by (simp add: capacity_def)
  finally show ?thesis by (simp add: PAGE_SIZE_def HDR_SIZE_def)
qed

lemma slot_off: "blk_size_ok bsz \<Longrightarrow> i < capacity bsz \<Longrightarrow> HDR_SIZE + i * unat bsz < PAGE_SIZE"
  using slot_end [of i bsz] by (simp add: blk_size_ok_def)

lemma unat_slot_addr:
  "page_aligned h \<Longrightarrow> blk_size_ok bsz \<Longrightarrow> i < capacity bsz \<Longrightarrow>
     unat (slot_addr h bsz i) = unat h + HDR_SIZE + i * unat bsz"
  unfolding slot_addr_def by (subst unat_page_off) (simp_all add: slot_off)

lemma page_down_slot_addr:
  "page_aligned h \<Longrightarrow> blk_size_ok bsz \<Longrightarrow> i < capacity bsz \<Longrightarrow> page_down (slot_addr h bsz i) = h"
  unfolding slot_addr_def by (rule page_down_off) (simp_all add: slot_off)

lemma slot_addr_inj:
  assumes "page_aligned h" "page_aligned h'" "blk_size_ok bsz" "i < capacity bsz" "j < capacity bsz"
    and eq: "slot_addr h bsz i = slot_addr h' bsz j"
  shows "h = h' \<and> i = j"
proof -
  have "h = h'" using assms page_down_slot_addr by metis
  moreover have "i * unat bsz = j * unat bsz"
    using assms unat_slot_addr [of h bsz i] unat_slot_addr [of h bsz j] \<open>h = h'\<close> by simp
  ultimately show ?thesis using assms(3) by (simp add: blk_size_ok_def)
qed

lemma slot_addr_nonnull:
  "page_aligned h \<Longrightarrow> h \<noteq> 0 \<Longrightarrow> blk_size_ok bsz \<Longrightarrow> i < capacity bsz \<Longrightarrow> slot_addr h bsz i \<noteq> 0"
  unfolding slot_addr_def by (rule page_off_nonnull) (simp_all add: slot_off)

lemma get_bufaddr_slot:
  "hdr_ok bsz tp (headers st h) \<Longrightarrow> get_bufaddr st h (int i) bsz = slot_addr h bsz i"
  by (simp add: get_bufaddr_def hdr_ok_def slot_addr_def size_of_int_def algebra_simps)

lemma get_index_slot:
  assumes "hdr_ok bsz tp (headers st h)" "blk_size_ok bsz" "i < capacity bsz"
  shows "get_index st h (slot_addr h bsz i) bsz = int i"
proof -
  have "i * unat bsz < PAGE_SIZE" using slot_off [of bsz i] assms by simp
  then have small: "i * unat bsz < 2 ^ 64" by (simp add: PAGE_SIZE_def)
  have "slot_addr h bsz i - h - size_of_int (ph_size (headers st h)) = of_nat (i * unat bsz)"
    using assms(1) by (simp add: slot_addr_def hdr_ok_def size_of_int_def algebra_simps)
  moreover have "of_nat (i * unat bsz) div bsz = of_nat i"
  proof -
    have "unat (of_nat (i * unat bsz) div bsz) = i * unat bsz div unat bsz"
      using small by (simp only: unat_div_distrib unat_of_nat_u64)
    also have "\<dots> = i" using assms(2) by (simp add: blk_size_ok_def)
    finally have "unat (of_nat (i * unat bsz) div bsz) = i" .
    then have "(of_nat (unat (of_nat (i * unat bsz) div bsz)) :: u64) = of_nat i" by (simp only:)
    then show ?thesis by simp
  qed
  moreover have "int_of_u64 (of_nat i) = int i"
    using capacity_bounds [OF assms(2)] assms(3) by (intro int_of_u64_of_nat) simp
  ultimately show ?thesis by (simp add: get_index_def)
qed

section \<open>Headers\<close>

lemma finite_free_slots [simp]: "finite (free_slots bsz hdr)"
  by (simp add: free_slots_def)

lemma hdr_ok_full: "hdr_ok bsz tp hdr \<Longrightarrow> ph_num_free hdr = 0 \<longleftrightarrow> free_slots bsz hdr = {}"
  by (simp add: hdr_ok_def)

lemma get_lowest_bit_hdr:
  assumes "hdr_ok bsz tp hdr" "blk_size_ok bsz"
  obtains "get_lowest_bit hdr = - 1" "free_slots bsz hdr = {}"
  | i where "get_lowest_bit hdr = int i" "i < capacity bsz" "slot_free hdr i"
proof (cases rule: get_lowest_bit_spec [of hdr "capacity bsz"])
  show "ph_num_memblk_in_pool hdr = int (capacity bsz)" "capacity bsz < 192"
    "\<forall>i\<ge>capacity bsz. i < 192 \<longrightarrow> slot_free hdr i"
    using assms capacity_bounds by (simp_all add: hdr_ok_def)
qed (auto simp: free_slots_def intro: that)

lemma hdr_ok_take:
  assumes "hdr_ok bsz tp hdr" "blk_size_ok bsz" "i < capacity bsz" "slot_free hdr i"
  shows "hdr_ok bsz tp ((clear_bitmap hdr (int i))\<lparr>ph_num_free := ph_num_free hdr - 1\<rparr>)"
    and "j < 192 \<Longrightarrow> slot_free ((clear_bitmap hdr (int i))\<lparr>ph_num_free := ph_num_free hdr - 1\<rparr>) j
           \<longleftrightarrow> j \<noteq> i \<and> slot_free hdr j"
proof -
  let ?hdr = "(clear_bitmap hdr (int i))\<lparr>ph_num_free := ph_num_free hdr - 1\<rparr>"
  note cap = capacity_bounds [OF assms(2)]
  have s: "slot_free ?hdr j \<longleftrightarrow> j \<noteq> i \<and> slot_free hdr j" if "j < 192" for j
    using that slot_free_clear_bitmap [of hdr i j] assms(1,3) cap
    by (simp add: slot_free_def hdr_ok_def)
  then have fs: "free_slots bsz ?hdr = free_slots bsz hdr - {i}"
    using cap by (auto simp: free_slots_def)
  have i: "i \<in> free_slots bsz hdr" using assms by (simp add: free_slots_def)
  then have "0 < card (free_slots bsz hdr)" by (simp add: card_gt_0_iff) blast
  moreover have "card (free_slots bsz ?hdr) = card (free_slots bsz hdr) - 1"
    unfolding fs using i by simp
  moreover have "ph_num_free hdr = int (card (free_slots bsz hdr))"
    using assms(1) by (simp add: hdr_ok_def)
  ultimately have "int (card (free_slots bsz ?hdr)) = ph_num_free hdr - 1" by linarith
  then show "hdr_ok bsz tp ?hdr" using assms(1,3) s by (auto simp: hdr_ok_def)
  show "j < 192 \<Longrightarrow> slot_free ?hdr j \<longleftrightarrow> j \<noteq> i \<and> slot_free hdr j" by (rule s)
qed

lemma hdr_ok_give:
  assumes "hdr_ok bsz tp hdr" "blk_size_ok bsz" "i < capacity bsz" "\<not> slot_free hdr i"
  shows "hdr_ok bsz tp ((set_bitmap hdr (int i))\<lparr>ph_num_free := ph_num_free hdr + 1\<rparr>)"
    and "j < 192 \<Longrightarrow> slot_free ((set_bitmap hdr (int i))\<lparr>ph_num_free := ph_num_free hdr + 1\<rparr>) j
           \<longleftrightarrow> j = i \<or> slot_free hdr j"
proof -
  let ?hdr = "(set_bitmap hdr (int i))\<lparr>ph_num_free := ph_num_free hdr + 1\<rparr>"
  note cap = capacity_bounds [OF assms(2)]
  have s: "slot_free ?hdr j \<longleftrightarrow> j = i \<or> slot_free hdr j" if "j < 192" for j
    using that slot_free_set_bitmap [of hdr i j] assms(1,3) cap
    by (simp add: slot_free_def hdr_ok_def)
  then have fs: "free_slots bsz ?hdr = insert i (free_slots bsz hdr)"
    using cap assms(3) by (auto simp: free_slots_def)
  have "i \<notin> free_slots bsz hdr" using assms by (simp add: free_slots_def)
  then have "card (free_slots bsz ?hdr) = card (free_slots bsz hdr) + 1"
    unfolding fs by simp
  moreover have "ph_num_free hdr = int (card (free_slots bsz hdr))"
    using assms(1) by (simp add: hdr_ok_def)
  ultimately have "int (card (free_slots bsz ?hdr)) = ph_num_free hdr + 1" by linarith
  then show "hdr_ok bsz tp ?hdr" using assms(1,3) s by (auto simp: hdr_ok_def)
  show "j < 192 \<Longrightarrow> slot_free ?hdr j \<longleftrightarrow> j = i \<or> slot_free hdr j" by (rule s)
qed

end
