(* ===== verification/MC_Pool_Ops.thy ===== *)
theory MC_Pool_Ops
  imports MC_Pool
begin

text \<open>
  The operations of the allocator under the pool invariant: initialisation makes an empty pool,
  an allocation hands out a block that was free (or null when the kernel refuses memory), a
  release makes exactly that block free again. Other pools in the same store keep their
  headers.
\<close>

lemma headers_upd_header [simp]:
  "headers (upd_header h f st) k = (if k = h then f (headers st h) else headers st k)"
  by (simp add: upd_header_def)

lemma mmaps_upd_header [simp]: "mmaps (upd_header h f st) = mmaps st"
  by (simp add: upd_header_def)

lemma header_size_80: "get_aligned_size SIZEOF_POOL_HEADER ALIGNMENT_SIZE = Some 80"
  by (simp add: get_aligned_size_exact aligned_up_def SIZEOF_POOL_HEADER_def ALIGNMENT_SIZE_def)

lemma header_capacity: "blk_size_ok bsz \<Longrightarrow> int_of_u64 (size_of_int (int PAGE_SIZE - 80) div bsz) = int (capacity bsz)"
proof -
  assume b: "blk_size_ok bsz"
  have "unat (size_of_int (int PAGE_SIZE - 80) div bsz) = capacity bsz"
    by (simp add: unat_div_distrib size_of_int_def capacity_def PAGE_SIZE_def HDR_SIZE_def)
  then show ?thesis using capacity_bounds [OF b] by (simp add: int_of_u64_small)
qed

lemma int_of_u64_80: "int_of_u64 80 = 80"
  by (simp add: int_of_u64_small)

text \<open>A header as \<open>__init_header\<close> leaves it: every block free.\<close>

lemma fresh_hdr_ok:
  assumes "blk_size_ok bsz" "ph_size hdr = 80" "ph_num_memblk_in_pool hdr = int (capacity bsz)"
    "ph_num_free hdr = int (capacity bsz)" "ph_bitmap hdr = [- 1, - 1, - 1]" "ph_top hdr = tp"
  shows "hdr_ok bsz tp hdr" and "i < 192 \<Longrightarrow> slot_free hdr i"
proof -
  have s: "slot_free hdr i" if "i < 192" for i
    using that assms(5) slot_free_words [of i hdr] by (simp add: less_diff_conv2)
  then have "free_slots bsz hdr = {..<capacity bsz}"
    using capacity_bounds [OF assms(1)] by (auto simp: free_slots_def)
  then show "hdr_ok bsz tp hdr" using assms s by (simp add: hdr_ok_def HDR_SIZE_def)
  show "i < 192 \<Longrightarrow> slot_free hdr i" by (rule s)
qed

section \<open>Initialisation\<close>

lemma mc_allocator_init_ok:
  assumes "blk_size_ok bsz" "page_aligned buf" "buf \<noteq> NULL"
  shows "\<exists>st'. mc_allocator_init buf bsz st = Some st' \<and> pool_ok bsz buf [buf] st' \<and>
     live_blocks bsz [buf] st' = {} \<and> mmaps st' = mmaps st \<and>
     (\<forall>h. h \<noteq> buf \<longrightarrow> headers st' h = headers st h)"
proof -
  let ?hdr = "headers st buf\<lparr>ph_size := 80, ph_num_memblk_in_pool := int (capacity bsz),
      ph_num_free := int (capacity bsz), ph_bitmap := [- 1, - 1, - 1], ph_top := buf,
      ph_prev_pool_link := NULL, ph_next_pool_link := NULL, ph_seqno := 0,
      ph_next_available_pool := buf\<rparr>"
  have hok: "hdr_ok bsz buf ?hdr" and free: "\<And>i. i < 192 \<Longrightarrow> slot_free ?hdr i"
    using assms(1) by (auto intro: fresh_hdr_ok)
  obtain st' where st': "mc_allocator_init buf bsz st = Some st'"
    and new: "headers st' buf = ?hdr" and frame: "\<forall>h. h \<noteq> buf \<longrightarrow> headers st' h = headers st h"
    and mm: "mmaps st' = mmaps st"
    by (simp add: mc_allocator_init_def init_header_def header_size_80 int_of_u64_80
        header_capacity [OF assms(1)] Let_def)
  have "live_blocks bsz [buf] st' = {}"
    using free capacity_bounds [OF assms(1)] by (auto simp: live_blocks_def used_slots_def new)
  then show ?thesis
    using st' new frame mm hok assms by (auto simp: pool_ok_def)
qed

text \<open>
  Appending a page to a pool. Beside the new header only the link of the old last page, and
  the sequence number and hint of the first, change.
\<close>

definition same_slots :: "pool_header \<Rightarrow> pool_header \<Rightarrow> bool" where
  "same_slots a b \<longleftrightarrow> ph_size a = ph_size b \<and> ph_num_memblk_in_pool a = ph_num_memblk_in_pool b \<and>
     ph_num_free a = ph_num_free b \<and> ph_bitmap a = ph_bitmap b \<and> ph_top a = ph_top b"

lemma same_slots_refl [simp]: "same_slots a a"
  by (simp add: same_slots_def)

lemma same_slots_trans: "same_slots a b \<Longrightarrow> same_slots b c \<Longrightarrow> same_slots a c"
  by (simp add: same_slots_def)

lemma same_slots_hdr_ok: "same_slots a b \<Longrightarrow> hdr_ok bsz tp a \<longleftrightarrow> hdr_ok bsz tp b"
  by (simp add: same_slots_def hdr_ok_def slot_free_def free_slots_def)

lemma same_slots_free: "same_slots a b \<Longrightarrow> slot_free a i \<longleftrightarrow> slot_free b i"
  by (simp add: same_slots_def slot_free_def)

lemma same_slots_used: "same_slots a b \<Longrightarrow> used_slots bsz a = used_slots bsz b"
  by (simp add: same_slots_def slot_free_def used_slots_def)

lemma init_header_append:
  assumes "blk_size_ok bsz" "p \<noteq> NULL" "p \<noteq> header" "ph_top (headers st p) = tp" "tp \<noteq> header"
  shows "\<exists>st'. init_header header bsz (Some p) st = Some st' \<and> mmaps st' = mmaps st \<and>
     hdr_ok bsz tp (headers st' header) \<and> (\<forall>i<192. slot_free (headers st' header) i) \<and>
     nxt_pool st' = (nxt_pool st)(header := nxt_pool st p, p := header) \<and>
     ph_next_available_pool (headers st' tp) = header \<and>
     (\<forall>h. h \<noteq> header \<longrightarrow> same_slots (headers st' h) (headers st h)) \<and>
     (\<forall>h. h \<notin> {header, p, tp} \<longrightarrow> headers st' h = headers st h)"
proof -
  obtain st' where st': "init_header header bsz (Some p) st = Some st'" and mm: "mmaps st' = mmaps st"
    and new: "headers st' header = headers st header\<lparr>ph_size := 80,
      ph_num_memblk_in_pool := int (capacity bsz), ph_num_free := int (capacity bsz),
      ph_bitmap := [- 1, - 1, - 1], ph_top := tp, ph_prev_pool_link := p,
      ph_next_pool_link := nxt_pool st p, ph_seqno := ph_seqno (headers st tp)\<rparr>"
    and other: "\<And>h. h \<noteq> header \<Longrightarrow> headers st' h =
      (let a = (if h = p then headers st h\<lparr>ph_next_pool_link := header\<rparr> else headers st h) in
       if h = tp then a\<lparr>ph_seqno := ph_seqno a + 1, ph_next_available_pool := header\<rparr> else a)"
    using assms
    by (simp add: init_header_def header_size_80 int_of_u64_80 header_capacity Let_def)
  have "hdr_ok bsz tp (headers st' header)" "\<forall>i<192. slot_free (headers st' header) i"
    using assms(1) new by (auto intro: fresh_hdr_ok)
  moreover have "nxt_pool st' = (nxt_pool st)(header := nxt_pool st p, p := header)"
    using new other assms(3) by (auto simp: Let_def fun_eq_iff)
  moreover have "\<forall>h. h \<noteq> header \<longrightarrow> same_slots (headers st' h) (headers st h)"
    using other by (auto simp: same_slots_def Let_def)
  moreover have "ph_next_available_pool (headers st' tp) = header"
    using other [of tp] assms(5) by (simp add: Let_def)
  moreover have "\<forall>h. h \<notin> {header, p, tp} \<longrightarrow> headers st' h = headers st h"
    using other by (auto simp: Let_def)
  ultimately show ?thesis using st' mm by blast
qed

lemma pool_ok_cong:
  assumes "\<And>h. h \<in> set cs \<Longrightarrow> headers st' h = headers st h"
  shows "pool_ok bsz tp cs st' \<longleftrightarrow> pool_ok bsz tp cs st"
    and "live_blocks bsz cs st' = live_blocks bsz cs st"
proof -
  have "lst (nxt_pool st') tp cs \<longleftrightarrow> lst (nxt_pool st) tp cs"
    using assms by (intro lst_cong) simp
  moreover have "lst (nxt_pool st) tp cs \<Longrightarrow> tp \<noteq> 0 \<Longrightarrow> tp \<in> set cs"
    by (auto simp: lst_nonnull)
  ultimately show "pool_ok bsz tp cs st' \<longleftrightarrow> pool_ok bsz tp cs st"
    using assms by (auto simp: pool_ok_def)
  show "live_blocks bsz cs st' = live_blocks bsz cs st"
    using assms by (auto simp: live_blocks_def)
qed

lemma pool_ok_ne: "pool_ok bsz tp cs st \<Longrightarrow> cs \<noteq> [] \<and> tp \<in> set cs"
  by (auto simp: pool_ok_def lst_nonnull)

lemma pool_okD:
  assumes "pool_ok bsz tp cs st" "h \<in> set cs"
  shows "h \<noteq> NULL" "page_aligned h" "hdr_ok bsz tp (headers st h)"
  using assms lst_nonnull_mem by (auto simp: pool_ok_def)

text \<open>One page of a fresh mapping.\<close>

lemma init_header_pool:
  assumes ok: "pool_ok bsz tp cs st" and a: "a \<notin> set cs" "a \<noteq> NULL" "page_aligned a"
  shows "\<exists>st'. init_header a bsz (Some (last cs)) st = Some st' \<and> pool_ok bsz tp (cs @ [a]) st' \<and>
     live_blocks bsz (cs @ [a]) st' = live_blocks bsz cs st \<and> mmaps st' = mmaps st \<and>
     (\<forall>h. h \<notin> set (cs @ [a]) \<longrightarrow> headers st' h = headers st h) \<and>
     (\<forall>i<192. slot_free (headers st' a) i) \<and>
     (\<forall>h\<in>set cs. same_slots (headers st' h) (headers st h))"
proof -
  note ne = pool_ok_ne [OF ok]
  then have l: "last cs \<in> set cs" by simp
  have bs: "blk_size_ok bsz" using ok by (simp add: pool_ok_def)
  have "last cs \<noteq> NULL" "last cs \<noteq> a" "ph_top (headers st (last cs)) = tp" "tp \<noteq> a"
    using pool_okD [OF ok l] l a(1) ne by (auto simp: hdr_ok_def)
  then obtain st' where st': "init_header a bsz (Some (last cs)) st = Some st'" "mmaps st' = mmaps st"
      "hdr_ok bsz tp (headers st' a)" "\<forall>i<192. slot_free (headers st' a) i"
      "nxt_pool st' = (nxt_pool st)(a := nxt_pool st (last cs), last cs := a)"
      "ph_next_available_pool (headers st' tp) = a"
      "\<forall>h. h \<noteq> a \<longrightarrow> same_slots (headers st' h) (headers st h)"
      "\<forall>h. h \<notin> {a, last cs, tp} \<longrightarrow> headers st' h = headers st h"
    using init_header_append [OF bs, of "last cs" a st tp] by blast
  have chain: "lst (nxt_pool st') tp (cs @ [a])"
  proof -
    have "lst (nxt_pool st) tp (butlast cs @ [last cs] @ [])"
      using ok ne by (simp add: pool_ok_def)
    then have "lst ((nxt_pool st)(a := nxt_pool st (last cs), last cs := a)) tp
        (butlast cs @ [last cs] @ a # [])"
      using a ne by (intro lst_insert_after) (auto dest: in_set_butlastD)
    moreover have "butlast cs @ [last cs] @ [a] = cs @ [a]"
      using ne append_butlast_last_id [of cs] by (metis append.assoc)
    ultimately show ?thesis by (simp only: st'(5))
  qed
  have same: "same_slots (headers st' h) (headers st h)" if "h \<in> set cs" for h
    using that st'(7) a(1) by auto
  have hdrs: "hdr_ok bsz tp (headers st' h)" if "h \<in> set cs" for h
    using pool_okD(3) [OF ok that] same_slots_hdr_ok [OF same [OF that]] by simp
  have live: "live_blocks bsz (cs @ [a]) st' = live_blocks bsz cs st"
  proof -
    have "used_slots bsz (headers st' a) = {}"
      using st'(4) capacity_bounds [OF bs] by (auto simp: used_slots_def)
    then show ?thesis using same_slots_used [OF same] by (simp add: live_blocks_def)
  qed
  have "pool_ok bsz tp (cs @ [a]) st'"
    using ok chain hdrs st'(3,6) a(3) by (simp add: pool_ok_def)
  moreover have "\<forall>h. h \<notin> set (cs @ [a]) \<longrightarrow> headers st' h = headers st h"
    using st'(8) l ne by auto
  ultimately show ?thesis using st'(1,2,4) live same by blast
qed

lemma pages_Suc: "pages a (Suc n) = a # pages (a + of_nat PAGE_SIZE) n"
proof -
  have "[0..<Suc n] = 0 # map Suc [0..<n]" by (simp add: upt_conv_Cons map_Suc_upt del: upt_Suc)
  then show ?thesis by (simp add: pages_def algebra_simps del: upt_Suc)
qed

lemma init_batch_ok:
  assumes "pool_ok bsz tp cs st" "set (pages a n) \<inter> set cs = {}" "distinct (pages a n)"
    "\<forall>h\<in>set (pages a n). h \<noteq> NULL \<and> page_aligned h"
  shows "\<exists>st'. init_batch n a (last cs) bsz st = Some st' \<and> pool_ok bsz tp (cs @ pages a n) st' \<and>
     live_blocks bsz (cs @ pages a n) st' = live_blocks bsz cs st \<and> mmaps st' = mmaps st \<and>
     (\<forall>h. h \<notin> set (cs @ pages a n) \<longrightarrow> headers st' h = headers st h) \<and>
     (\<forall>h\<in>set (pages a n). \<forall>i<192. slot_free (headers st' h) i) \<and>
     (\<forall>h\<in>set cs. same_slots (headers st' h) (headers st h))"
  using assms
proof (induction n arbitrary: a cs st)
  case 0
  then show ?case by (simp add: pages_def)
next
  case (Suc n)
  let ?a = "a + of_nat PAGE_SIZE"
  have a: "a \<notin> set cs" "a \<noteq> NULL" "page_aligned a"
    using Suc.prems(2,4) by (simp_all add: pages_Suc)
  obtain st1 where st1: "init_header a bsz (Some (last cs)) st = Some st1"
      "pool_ok bsz tp (cs @ [a]) st1" "live_blocks bsz (cs @ [a]) st1 = live_blocks bsz cs st"
      "mmaps st1 = mmaps st" "\<forall>h. h \<notin> set (cs @ [a]) \<longrightarrow> headers st1 h = headers st h"
      "\<forall>i<192. slot_free (headers st1 a) i" "\<forall>h\<in>set cs. same_slots (headers st1 h) (headers st h)"
    using init_header_pool [OF Suc.prems(1) a] by blast
  have b: "set (pages ?a n) \<inter> set (cs @ [a]) = {}" "distinct (pages ?a n)"
      "\<forall>h\<in>set (pages ?a n). h \<noteq> NULL \<and> page_aligned h"
    using Suc.prems(2-4) by (auto simp: pages_Suc)
  obtain st2 where st2: "init_batch n ?a (last (cs @ [a])) bsz st1 = Some st2"
      "pool_ok bsz tp ((cs @ [a]) @ pages ?a n) st2"
      "live_blocks bsz ((cs @ [a]) @ pages ?a n) st2 = live_blocks bsz (cs @ [a]) st1"
      "mmaps st2 = mmaps st1"
      "\<forall>h. h \<notin> set ((cs @ [a]) @ pages ?a n) \<longrightarrow> headers st2 h = headers st1 h"
      "\<forall>h\<in>set (pages ?a n). \<forall>i<192. slot_free (headers st2 h) i"
      "\<forall>h\<in>set (cs @ [a]). same_slots (headers st2 h) (headers st1 h)"
    using Suc.IH [OF st1(2) b] by blast
  have app: "cs @ pages a (Suc n) = (cs @ [a]) @ pages ?a n" by (simp add: pages_Suc)
  have "same_slots (headers st2 a) (headers st1 a)" using st2(7) by simp
  then have "\<forall>i<192. slot_free (headers st2 a) i"
    using st1(6) by (simp add: same_slots_free)
  then have fresh: "\<forall>h\<in>set (pages a (Suc n)). \<forall>i<192. slot_free (headers st2 h) i"
    using st2(6) by (simp add: pages_Suc)
  have same: "same_slots (headers st2 h) (headers st h)" if "h \<in> set cs" for h
  proof (rule same_slots_trans)
    show "same_slots (headers st2 h) (headers st1 h)" using that st2(7) by simp
    show "same_slots (headers st1 h) (headers st h)" using that st1(7) by blast
  qed
  have frame: "\<forall>h. h \<notin> set (cs @ pages a (Suc n)) \<longrightarrow> headers st2 h = headers st h"
    using st1(5) st2(5) unfolding app by simp
  have "init_batch (Suc n) a (last cs) bsz st = Some st2"
    using st1(1) st2(1) by simp
  moreover have "live_blocks bsz (cs @ pages a (Suc n)) st2 = live_blocks bsz cs st"
    using st1(3) st2(3) by (simp only: app)
  moreover have "pool_ok bsz tp (cs @ pages a (Suc n)) st2"
    using st2(2) by (simp only: app)
  ultimately show ?case using fresh same frame st1(4) st2(4) by (metis (no_types))
qed

section \<open>Allocation\<close>

text \<open>
  An allocation either hands out a new block, possibly after appending the four pages of a
  fresh mapping, or returns null because the kernel refused one.
\<close>

lemma take_block:
  assumes ok: "pool_ok bsz tp cs st" and h: "h \<in> set cs" "i < capacity bsz" "slot_free (headers st h) i"
    and st': "st' = upd_header h (\<lambda>x. x\<lparr>ph_num_free := ph_num_free x - 1\<rparr>)
                      (upd_header h (\<lambda>x. clear_bitmap x (int i)) st)"
  shows "pool_ok bsz tp cs st'" "slot_addr h bsz i \<notin> live_blocks bsz cs st"
    "live_blocks bsz cs st' = insert (slot_addr h bsz i) (live_blocks bsz cs st)"
proof -
  note D = pool_okD [OF ok]
  have bs: "blk_size_ok bsz" using ok by (simp add: pool_ok_def)
  have new: "headers st' h = (clear_bitmap (headers st h) (int i))\<lparr>ph_num_free := ph_num_free (headers st h) - 1\<rparr>"
    and other: "\<And>k. k \<noteq> h \<Longrightarrow> headers st' k = headers st k"
    by (simp_all add: st')
  note T = hdr_ok_take [OF D(3) [OF h(1)] bs h(2,3)]
  have nxt: "nxt_pool st' = nxt_pool st" and avail: "ph_next_available_pool (headers st' tp) =
      ph_next_available_pool (headers st tp)"
    by (auto simp: st')
  have hdrs: "hdr_ok bsz tp (headers st' k)" if "k \<in> set cs" for k
    using T(1) D(3) [OF that] other [of k] new by (cases "k = h") simp_all
  show "pool_ok bsz tp cs st'"
    using ok hdrs avail nxt by (simp add: pool_ok_def)
  have used_h: "used_slots bsz (headers st' h) = insert i (used_slots bsz (headers st h))"
    using T(2) capacity_bounds [OF bs] h(2) by (auto simp: used_slots_def new)
  show "live_blocks bsz cs st' = insert (slot_addr h bsz i) (live_blocks bsz cs st)"
    unfolding live_blocks_def by (rule UN_upd_insert [OF h(1)]) (simp_all add: used_h other)
  show "slot_addr h bsz i \<notin> live_blocks bsz cs st"
  proof
    assume "slot_addr h bsz i \<in> live_blocks bsz cs st"
    then obtain k j where kj: "k \<in> set cs" "j < capacity bsz" "\<not> slot_free (headers st k) j"
        "slot_addr h bsz i = slot_addr k bsz j"
      by (auto simp: live_blocks_def used_slots_def)
    then have "h = k \<and> i = j" using slot_addr_inj D(2) h bs by blast
    then show False using kj(3) h(3) by simp
  qed
qed

lemma batch_pages:
  assumes "page_aligned a" "a \<noteq> NULL" "unat a + MMAP_BATCH_PAGE_NUM * PAGE_SIZE \<le> 2 ^ 64"
  shows "distinct (pages a MMAP_BATCH_PAGE_NUM)"
    "\<forall>h\<in>set (pages a MMAP_BATCH_PAGE_NUM). h \<noteq> NULL \<and> page_aligned h"
    "a \<in> set (pages a MMAP_BATCH_PAGE_NUM)"
proof -
  have u: "unat (a + of_nat (k * PAGE_SIZE)) = unat a + k * PAGE_SIZE" if "k < MMAP_BATCH_PAGE_NUM" for k
    using that assms(3) by (intro unat_add_bounded) (simp add: MMAP_BATCH_PAGE_NUM_def PAGE_SIZE_def)
  have inj: "inj_on (\<lambda>k. a + of_nat (k * PAGE_SIZE)) {0..<MMAP_BATCH_PAGE_NUM}"
  proof (rule inj_onI)
    fix j k assume jk: "j \<in> {0..<MMAP_BATCH_PAGE_NUM}" "k \<in> {0..<MMAP_BATCH_PAGE_NUM}"
      and eq: "a + of_nat (j * PAGE_SIZE) = a + of_nat (k * PAGE_SIZE)"
    have "unat a + j * PAGE_SIZE = unat a + k * PAGE_SIZE"
      using u [of j] u [of k] jk eq by (metis atLeastLessThan_iff)
    then show "j = k" by (simp add: PAGE_SIZE_def)
  qed
  show "distinct (pages a MMAP_BATCH_PAGE_NUM)"
    using inj by (simp add: pages_def distinct_map)
  show "a \<in> set (pages a MMAP_BATCH_PAGE_NUM)"
    by (auto simp: pages_def MMAP_BATCH_PAGE_NUM_def intro: image_eqI [of _ _ 0])
  show "\<forall>h\<in>set (pages a MMAP_BATCH_PAGE_NUM). h \<noteq> NULL \<and> page_aligned h"
  proof
    fix h assume "h \<in> set (pages a MMAP_BATCH_PAGE_NUM)"
    then obtain k where k: "k < MMAP_BATCH_PAGE_NUM" "h = a + of_nat (k * PAGE_SIZE)"
      by (auto simp: pages_def)
    then have h: "unat h = unat a + k * PAGE_SIZE" using u by simp
    moreover have "0 < unat a" using assms(2) by (simp add: unat_gt_0)
    ultimately have "0 < unat h" by simp
    then show "h \<noteq> NULL \<and> page_aligned h" using h assms(1) by (auto simp: page_aligned_def)
  qed
qed

text \<open>What \<open>find_pool\<close> delivers when the page at hand is full.\<close>

lemma find_pool_ok:
  assumes ok: "pool_ok bsz tp cs st" and kern: "mmaps_ok (mmaps st) U" "set cs \<subseteq> U"
    and h: "header \<in> set cs"
  shows "\<exists>hdr st'. find_pool header bsz st = Some (hdr, st') \<and>
     ((hdr = NULL \<and> (\<exists>r. mmaps st = MAP_FAILED # r \<and> mmaps st' = r \<or> mmaps st = [] \<and> mmaps st' = []) \<and>
         headers st' = headers st) \<or>
      (\<exists>new. hdr \<in> set (cs @ new) \<and> set new \<inter> U = {} \<and> pool_ok bsz tp (cs @ new) st' \<and>
         live_blocks bsz (cs @ new) st' = live_blocks bsz cs st \<and>
         free_slots bsz (headers st' hdr) \<noteq> {} \<and> mmaps_ok (mmaps st') (U \<union> set new) \<and>
         (\<forall>k. k \<notin> set (cs @ new) \<longrightarrow> headers st' k = headers st k)))"
proof -
  have bs: "blk_size_ok bsz" using ok by (simp add: pool_ok_def)
  obtain us vs where cs: "cs = us @ header # vs" using h by (meson split_list)
  have chain: "lst (nxt_pool st) header (header # vs)"
    using ok cs lst_suffix [of "nxt_pool st" tp us header vs] lst_nonnull_mem [of "nxt_pool st" tp cs header]
    by (simp add: pool_ok_def)
  have no_null: "0 \<notin> set (header # vs)" using chain by auto
  let ?P = "\<lambda>h. ph_num_free (headers st h) \<noteq> 0"
  show ?thesis
  proof (cases rule: first_match_cases [OF no_null, of ?P])
    case (2 us' x vs')
    have "lst (nxt_pool st) header (us' @ x # vs')" using chain 2(2) by simp
    from chain_find_prev_some [OF this 2(3) 2(5), of NULL]
    have "chain_find_prev (nxt_pool st) ?P NULL header = Some (if us' = [] then NULL else last us', x)" .
    then have r: "find_pool header bsz st = Some (x, st)" using 2(4) by (simp add: find_pool_def)
    have x: "x \<in> set cs" using 2(2) cs by (metis Un_iff in_set_conv_decomp set_append)
    have "free_slots bsz (headers st x) \<noteq> {}"
      using 2(3) hdr_ok_full [OF pool_okD(3) [OF ok x]] by simp
    then have "x \<in> set (cs @ []) \<and> set [] \<inter> U = {} \<and> pool_ok bsz tp (cs @ []) st \<and>
         live_blocks bsz (cs @ []) st = live_blocks bsz cs st \<and>
         free_slots bsz (headers st x) \<noteq> {} \<and> mmaps_ok (mmaps st) (U \<union> set []) \<and>
         (\<forall>k. k \<notin> set (cs @ []) \<longrightarrow> headers st k = headers st k)"
      using x ok kern by simp
    then show ?thesis using r by blast
  next
    case 1
    have "last (header # vs) = last cs" using cs by simp
    then have q: "chain_find_prev (nxt_pool st) ?P NULL header = Some (last cs, NULL)"
      using chain_find_prev_none [OF chain 1(2), of NULL] by simp
    show ?thesis
    proof (cases "mmaps st")
      case Nil
      then have "find_pool header bsz st = Some (NULL, st)"
        using q by (simp add: find_pool_def mmap_pages_def)
      then show ?thesis using Nil by blast
    next
      case (Cons a as)
      let ?st = "st\<lparr>mmaps := as\<rparr>"
      show ?thesis
      proof (cases "a = MAP_FAILED")
        case True
        then have "find_pool header bsz st = Some (NULL, ?st)"
          using q Cons by (simp add: find_pool_def mmap_pages_def)
        then show ?thesis using True Cons by fastforce
      next
        case False
        let ?new = "pages a MMAP_BATCH_PAGE_NUM"
        have k: "page_aligned a" "a \<noteq> NULL" "unat a + MMAP_BATCH_PAGE_NUM * PAGE_SIZE \<le> 2 ^ 64"
            "set ?new \<inter> U = {}" "mmaps_ok as (U \<union> set ?new)"
          using kern(1) Cons False by simp_all
        have "pool_ok bsz tp cs ?st" using ok by (simp add: pool_ok_def)
        moreover have "set ?new \<inter> set cs = {}" using k(4) kern(2) by blast
        ultimately obtain st' where st': "init_batch MMAP_BATCH_PAGE_NUM a (last cs) bsz ?st = Some st'"
            "pool_ok bsz tp (cs @ ?new) st'" "live_blocks bsz (cs @ ?new) st' = live_blocks bsz cs ?st"
            "mmaps st' = mmaps ?st" "\<forall>h. h \<notin> set (cs @ ?new) \<longrightarrow> headers st' h = headers ?st h"
            "\<forall>h\<in>set ?new. \<forall>i<192. slot_free (headers st' h) i"
          using init_batch_ok [OF _ _ batch_pages(1,2) [OF k(1-3)], of bsz tp cs ?st] by blast
        note a_new = batch_pages(3) [OF k(1-3)]
        have "find_pool header bsz st = Some (a, st')"
          using q Cons False st'(1) by (simp add: find_pool_def mmap_pages_def)
        moreover have "free_slots bsz (headers st' a) \<noteq> {}"
          using st'(6) a_new capacity_bounds [OF bs] by (auto simp: free_slots_def)
        moreover have "live_blocks bsz cs ?st = live_blocks bsz cs st"
          by (simp add: live_blocks_def)
        moreover have "mmaps_ok (mmaps st') (U \<union> set ?new)" using st'(4) k(5) by simp
        moreover have "\<forall>h. h \<notin> set (cs @ ?new) \<longrightarrow> headers st' h = headers st h"
          using st'(5) by simp
        moreover have "a \<in> set (cs @ ?new)" using a_new by simp
        ultimately show ?thesis using st'(2,3) k(4) by metis
      qed
    qed
  qed
qed

text \<open>The hint \<open>next_available_pool\<close> may point to any page of the pool.\<close>

lemma set_hint:
  assumes ok: "pool_ok bsz tp cs st" and h: "h \<in> set cs"
  shows "pool_ok bsz tp cs (upd_header tp (\<lambda>x. x\<lparr>ph_next_available_pool := h\<rparr>) st)"
    "live_blocks bsz cs (upd_header tp (\<lambda>x. x\<lparr>ph_next_available_pool := h\<rparr>) st) = live_blocks bsz cs st"
proof -
  let ?st = "upd_header tp (\<lambda>x. x\<lparr>ph_next_available_pool := h\<rparr>) st"
  have same: "same_slots (headers ?st k) (headers st k)" for k by (simp add: same_slots_def)
  have "nxt_pool ?st = nxt_pool st" by auto
  moreover have "hdr_ok bsz tp (headers ?st k) \<longleftrightarrow> hdr_ok bsz tp (headers st k)" for k
    by (rule same_slots_hdr_ok [OF same])
  ultimately show "pool_ok bsz tp cs ?st"
    using ok h unfolding pool_ok_def by (simp del: headers_upd_header add: headers_upd_header [of tp _ _ tp])
  show "live_blocks bsz cs ?st = live_blocks bsz cs st"
    unfolding live_blocks_def by (simp only: same_slots_used [OF same])
qed

definition took :: "addr \<Rightarrow> size_t \<Rightarrow> addr \<Rightarrow> nat \<Rightarrow> alloc_state \<Rightarrow> addr \<times> alloc_state" where
  "took h bsz tp i st =
     (slot_addr h bsz i,
      upd_header h (\<lambda>x. x\<lparr>ph_num_free := ph_num_free x - 1\<rparr>) (upd_header h (\<lambda>x. clear_bitmap x (int i)) st))"

lemma mc_allocator_alloc_here:
  assumes ok: "pool_ok bsz tp cs st"
    and hit: "get_lowest_bit (headers st (ph_next_available_pool (headers st tp))) = int i" "i < capacity bsz"
  shows "mc_allocator_alloc tp bsz st = Some (took (ph_next_available_pool (headers st tp)) bsz tp i st)"
proof -
  let ?h = "ph_next_available_pool (headers st tp)"
  have h: "?h \<in> set cs" using ok by (simp add: pool_ok_def)
  have "get_bufaddr st ?h (int i) bsz = slot_addr ?h bsz i"
    using get_bufaddr_slot [OF pool_okD(3) [OF ok h]] .
  then show ?thesis
    using hit pool_okD(1) [OF ok h] by (simp add: mc_allocator_alloc_def took_def Let_def)
qed

lemma mc_allocator_alloc_search:
  assumes miss: "get_lowest_bit (headers st (ph_next_available_pool (headers st tp))) = - 1"
    and find: "find_pool (ph_next_available_pool (headers st tp)) bsz st = Some (h, st')"
    and h: "h \<noteq> NULL" "hdr_ok bsz tp (headers st' h)" "get_lowest_bit (headers st' h) = int i"
  shows "mc_allocator_alloc tp bsz st =
     Some (took h bsz tp i (upd_header tp (\<lambda>x. x\<lparr>ph_next_available_pool := h\<rparr>) st'))"
proof -
  let ?st = "upd_header tp (\<lambda>x. x\<lparr>ph_next_available_pool := h\<rparr>) st'"
  have "same_slots (headers ?st h) (headers st' h)" by (simp add: same_slots_def)
  then have "hdr_ok bsz tp (headers ?st h)" using h(2) same_slots_hdr_ok by blast
  then have "get_bufaddr ?st h (int i) bsz = slot_addr h bsz i" by (rule get_bufaddr_slot)
  then show ?thesis
    using miss find h by (simp add: mc_allocator_alloc_def took_def Let_def)
qed

text \<open>The contract of an allocation.\<close>

definition alloc_post :: "size_t \<Rightarrow> addr \<Rightarrow> addr list \<Rightarrow> addr set \<Rightarrow> alloc_state \<Rightarrow> addr \<Rightarrow> addr list \<Rightarrow> alloc_state \<Rightarrow> bool" where
  "alloc_post bsz tp cs U st p new st' \<longleftrightarrow>
     pool_ok bsz tp (cs @ new) st' \<and> set new \<inter> U = {} \<and> mmaps_ok (mmaps st') (U \<union> set new) \<and>
     (\<forall>k. k \<notin> set (cs @ new) \<longrightarrow> headers st' k = headers st k) \<and>
     (if p = NULL then live_blocks bsz (cs @ new) st' = live_blocks bsz cs st \<and> hd (mmaps st @ [MAP_FAILED]) = MAP_FAILED
      else p \<notin> live_blocks bsz cs st \<and> live_blocks bsz (cs @ new) st' = insert p (live_blocks bsz cs st))"

lemma took_post:
  assumes ok: "pool_ok bsz tp (cs @ new) st1" and h: "h \<in> set (cs @ new)" "i < capacity bsz"
      "slot_free (headers st1 h) i"
    and rest: "set new \<inter> U = {}" "mmaps_ok (mmaps st1) (U \<union> set new)"
      "\<forall>k. k \<notin> set (cs @ new) \<longrightarrow> headers st1 k = headers st k"
      "live_blocks bsz (cs @ new) st1 = live_blocks bsz cs st"
  shows "case took h bsz tp i st1 of (p, st') \<Rightarrow> p \<noteq> NULL \<and> alloc_post bsz tp cs U st p new st'"
proof -
  let ?st' = "upd_header h (\<lambda>x. x\<lparr>ph_num_free := ph_num_free x - 1\<rparr>)
                (upd_header h (\<lambda>x. clear_bitmap x (int i)) st1)"
  note T = take_block [OF ok h refl]
  have "slot_addr h bsz i \<noteq> NULL"
    using ok pool_okD(1,2) [OF ok h(1)] h(2) by (intro slot_addr_nonnull) (simp_all add: pool_ok_def)
  moreover have "\<forall>k. k \<notin> set (cs @ new) \<longrightarrow> headers ?st' k = headers st k"
    using rest(3) h(1) by auto
  ultimately show ?thesis using T rest by (simp add: took_def alloc_post_def)
qed

lemma mc_allocator_alloc_ok:
  assumes ok: "pool_ok bsz tp cs st" and kern: "mmaps_ok (mmaps st) U" "set cs \<subseteq> U"
  shows "\<exists>p new st'. mc_allocator_alloc tp bsz st = Some (p, st') \<and> alloc_post bsz tp cs U st p new st'"
proof -
  let ?h = "ph_next_available_pool (headers st tp)"
  have bs: "blk_size_ok bsz" and h: "?h \<in> set cs" using ok by (simp_all add: pool_ok_def)
  show ?thesis
  proof (cases rule: get_lowest_bit_hdr [OF pool_okD(3) [OF ok h] bs])
    case (2 i)
    have "case took ?h bsz tp i st of (p, st') \<Rightarrow> p \<noteq> NULL \<and> alloc_post bsz tp cs U st p [] st'"
      using ok h 2 kern by (intro took_post) simp_all
    then show ?thesis using mc_allocator_alloc_here [OF ok 2(1,2)] by (auto simp: took_def)
  next
    case 1
    obtain hdr st1 where find: "find_pool ?h bsz st = Some (hdr, st1)" and
      post: "(hdr = NULL \<and> (\<exists>r. mmaps st = MAP_FAILED # r \<and> mmaps st1 = r \<or> mmaps st = [] \<and> mmaps st1 = []) \<and>
         headers st1 = headers st) \<or>
      (\<exists>new. hdr \<in> set (cs @ new) \<and> set new \<inter> U = {} \<and> pool_ok bsz tp (cs @ new) st1 \<and>
         live_blocks bsz (cs @ new) st1 = live_blocks bsz cs st \<and>
         free_slots bsz (headers st1 hdr) \<noteq> {} \<and> mmaps_ok (mmaps st1) (U \<union> set new) \<and>
         (\<forall>k. k \<notin> set (cs @ new) \<longrightarrow> headers st1 k = headers st k))"
      using find_pool_ok [OF ok kern h] by blast
    from post show ?thesis
    proof (elim disjE exE conjE)
      fix r assume null: "hdr = NULL" and same: "headers st1 = headers st"
        and r: "mmaps st = MAP_FAILED # r" "mmaps st1 = r"
      have "pool_ok bsz tp (cs @ []) st1" "live_blocks bsz (cs @ []) st1 = live_blocks bsz cs st"
        using ok same by (simp_all add: pool_ok_def live_blocks_def)
      moreover have "mc_allocator_alloc tp bsz st = Some (NULL, st1)"
        using find null 1(1) by (simp add: mc_allocator_alloc_def)
      ultimately show ?thesis
        using same r kern by (intro exI [of _ NULL] exI [of _ "[]"] exI [of _ st1]) (simp add: alloc_post_def)
    next
      fix r assume null: "hdr = NULL" and same: "headers st1 = headers st"
        and r: "mmaps st = []" "mmaps st1 = []"
      have "pool_ok bsz tp (cs @ []) st1" "live_blocks bsz (cs @ []) st1 = live_blocks bsz cs st"
        using ok same by (simp_all add: pool_ok_def live_blocks_def)
      moreover have "mc_allocator_alloc tp bsz st = Some (NULL, st1)"
        using find null 1(1) by (simp add: mc_allocator_alloc_def)
      ultimately show ?thesis
        using same r by (intro exI [of _ NULL] exI [of _ "[]"] exI [of _ st1]) (simp add: alloc_post_def)
    next
      fix new assume N: "hdr \<in> set (cs @ new)" "set new \<inter> U = {}" "pool_ok bsz tp (cs @ new) st1"
         "live_blocks bsz (cs @ new) st1 = live_blocks bsz cs st"
         "free_slots bsz (headers st1 hdr) \<noteq> {}" "mmaps_ok (mmaps st1) (U \<union> set new)"
         "\<forall>k. k \<notin> set (cs @ new) \<longrightarrow> headers st1 k = headers st k"
      let ?st2 = "upd_header tp (\<lambda>x. x\<lparr>ph_next_available_pool := hdr\<rparr>) st1"
      note D = pool_okD [OF N(3) N(1)]
      obtain i where i: "get_lowest_bit (headers st1 hdr) = int i" "i < capacity bsz" "slot_free (headers st1 hdr) i"
        using get_lowest_bit_hdr [OF D(3) bs] N(5) by metis
      have "mc_allocator_alloc tp bsz st = Some (took hdr bsz tp i ?st2)"
        by (rule mc_allocator_alloc_search [OF 1(1) find D(1,3) i(1)])
      moreover have "case took hdr bsz tp i ?st2 of (p, st') \<Rightarrow> p \<noteq> NULL \<and> alloc_post bsz tp cs U st p new st'"
      proof (rule took_post)
        show "pool_ok bsz tp (cs @ new) ?st2" by (rule set_hint(1) [OF N(3,1)])
        show "live_blocks bsz (cs @ new) ?st2 = live_blocks bsz cs st"
          using set_hint(2) [OF N(3,1)] N(4) by simp
        show "slot_free (headers ?st2 hdr) i" using i(3) by (auto simp: slot_free_def)
        show "\<forall>k. k \<notin> set (cs @ new) \<longrightarrow> headers ?st2 k = headers st k"
          using N(7) pool_ok_ne [OF ok] by auto
      qed (use N i in simp_all)
      ultimately show ?thesis by (auto simp: took_def)
    qed
  qed
qed

section \<open>Release\<close>

lemma mc_allocator_free_ok:
  assumes ok: "pool_ok bsz tp cs st" and p: "p \<in> live_blocks bsz cs st"
  shows "pool_ok bsz tp cs (mc_allocator_free p bsz st)"
    "live_blocks bsz cs (mc_allocator_free p bsz st) = live_blocks bsz cs st - {p}"
    "mmaps (mc_allocator_free p bsz st) = mmaps st"
    "\<forall>k. k \<notin> set cs \<longrightarrow> headers (mc_allocator_free p bsz st) k = headers st k"
proof -
  have bs: "blk_size_ok bsz" using ok by (simp add: pool_ok_def)
  obtain h i where h: "h \<in> set cs" "i < capacity bsz" "\<not> slot_free (headers st h) i" "p = slot_addr h bsz i"
    using p by (auto simp: live_blocks_def used_slots_def)
  note D = pool_okD [OF ok h(1)]
  let ?st1 = "upd_header h (\<lambda>x. x\<lparr>ph_num_free := ph_num_free x + 1\<rparr>)
                (upd_header h (\<lambda>x. set_bitmap x (int i)) st)"
  have "page_down p = h" using page_down_slot_addr [OF D(2) bs h(2)] h(4) by simp
  moreover have "get_index st h p bsz = int i" using get_index_slot [OF D(3) bs h(2)] h(4) by simp
  moreover have "ph_top (headers st h) = tp" using D(3) by (simp add: hdr_ok_def)
  ultimately have free: "mc_allocator_free p bsz st = ?st1 \<or>
      mc_allocator_free p bsz st = upd_header tp (\<lambda>x. x\<lparr>ph_next_available_pool := h\<rparr>) ?st1"
    by (simp add: mc_allocator_free_def Let_def)
  note G = hdr_ok_give [OF D(3) bs h(2,3)]
  have new: "headers ?st1 h = (set_bitmap (headers st h) (int i))\<lparr>ph_num_free := ph_num_free (headers st h) + 1\<rparr>"
    and other: "\<And>k. k \<noteq> h \<Longrightarrow> headers ?st1 k = headers st k"
    by simp_all
  have hdrs: "hdr_ok bsz tp (headers ?st1 k)" if "k \<in> set cs" for k
    using G(1) pool_okD(3) [OF ok that] other [of k] new by (cases "k = h") simp_all
  have "nxt_pool ?st1 = nxt_pool st" by auto
  moreover have "ph_next_available_pool (headers ?st1 tp) = ph_next_available_pool (headers st tp)" by simp
  ultimately have ok1: "pool_ok bsz tp cs ?st1"
    using ok hdrs unfolding pool_ok_def by (simp del: headers_upd_header)
  have used_h: "used_slots bsz (headers ?st1 h) = used_slots bsz (headers st h) - {i}"
    using G(2) capacity_bounds [OF bs] h(2) by (auto simp: used_slots_def new simp del: headers_upd_header)
  have inj: "slot_addr k bsz j = p \<Longrightarrow> k \<in> set cs \<Longrightarrow> j < capacity bsz \<Longrightarrow> k = h \<and> j = i" for k j
    using slot_addr_inj [OF pool_okD(2) [OF ok] D(2) bs _ h(2)] h(4) by blast
  have live1: "live_blocks bsz cs ?st1 = live_blocks bsz cs st - {p}"
    unfolding live_blocks_def
  proof (rule UN_upd_remove [OF h(1)])
    show "slot_addr h bsz ` used_slots bsz (headers ?st1 h) =
        slot_addr h bsz ` used_slots bsz (headers st h) - {p}"
      unfolding used_h using inj h(1,4) by (auto simp: used_slots_def)
    show "\<And>k. k \<noteq> h \<Longrightarrow> slot_addr k bsz ` used_slots bsz (headers ?st1 k) =
        slot_addr k bsz ` used_slots bsz (headers st k)"
      using other by simp
    show "\<And>k. k \<in> set cs \<Longrightarrow> k \<noteq> h \<Longrightarrow> p \<notin> slot_addr k bsz ` used_slots bsz (headers st k)"
      using inj by (auto simp: used_slots_def)
  qed
  note H = set_hint [OF ok1 h(1)]
  show "pool_ok bsz tp cs (mc_allocator_free p bsz st)" using free by (rule disjE) (simp_all only: ok1 H)
  show "live_blocks bsz cs (mc_allocator_free p bsz st) = live_blocks bsz cs st - {p}"
    using free by (rule disjE) (simp_all only: live1 H)
  show "mmaps (mc_allocator_free p bsz st) = mmaps st" using free by (rule disjE) simp_all
  show "\<forall>k. k \<notin> set cs \<longrightarrow> headers (mc_allocator_free p bsz st) k = headers st k"
    using free h(1) pool_ok_ne [OF ok] by (auto elim!: disjE)
qed

end
