(* ===== verification/MC_Alloc_Blk.thy ===== *)
theory MC_Alloc_Blk
  imports MC_Pool_Ops
begin

text \<open>
  The typed front end of the allocator, \<open>memchk_alloc_blk.c\<close>: one pool for each kind of
  bookkeeping object. The four static pool pages and the four block sizes of the file are
  indexed here by the kind; the sizes are those of the structures on an LP64 target.

  The locale \<open>block_source\<close> is the interface the rest of the program relies on: an allocation
  never hands out a block that is in use, touches one kind only, and a release undoes it. The
  interpretation at the end discharges it for the pools.
\<close>

section \<open>The kinds of blocks\<close>

datatype blk_kind = AllocMemblk | FreeMemblk | Callstack | Pageregion

text \<open>\<open>sizeof\<close> of \<open>struct alloc_memblk\<close>, \<open>free_memblk\<close>, \<open>callstack\<close> and \<open>pageregion\<close>.\<close>

fun sizeof_kind :: "blk_kind \<Rightarrow> size_t" where
  "sizeof_kind AllocMemblk = 64"
| "sizeof_kind FreeMemblk = 56"
| "sizeof_kind Callstack = 304"
| "sizeof_kind Pageregion = 24"

record blk_state =
  bs_alloc :: alloc_state
  bs_head :: "blk_kind \<Rightarrow> addr"          \<comment> \<open>the static pool pages, placed by the loader\<close>
  bs_size :: "blk_kind \<Rightarrow> size_t"

section \<open>The operations\<close>

definition init_kind :: "blk_kind \<Rightarrow> blk_state \<Rightarrow> blk_state option" where
  "init_kind k bs =
     do {
       sz \<leftarrow> get_aligned_size (sizeof_kind k) ALIGNMENT_SIZE;
       let bs = bs\<lparr>bs_size := (bs_size bs)(k := sz)\<rparr>;
       st \<leftarrow> mc_allocator_init (bs_head bs k) (bs_size bs k) (bs_alloc bs);
       Some (bs\<lparr>bs_alloc := st\<rparr>)
     }"

definition mc_alloc_blk_init :: "blk_state \<Rightarrow> blk_state option" where
  "mc_alloc_blk_init bs =
     do {
       bs \<leftarrow> init_kind AllocMemblk bs;
       bs \<leftarrow> init_kind FreeMemblk bs;
       bs \<leftarrow> init_kind Callstack bs;
       init_kind Pageregion bs
     }"

definition allocate_kind :: "blk_kind \<Rightarrow> blk_state \<Rightarrow> (addr \<times> blk_state) option" where
  "allocate_kind k bs =
     do {
       (p, st) \<leftarrow> mc_allocator_alloc (bs_head bs k) (bs_size bs k) (bs_alloc bs);
       Some (p, bs\<lparr>bs_alloc := st\<rparr>)
     }"

definition free_kind :: "blk_kind \<Rightarrow> addr \<Rightarrow> blk_state \<Rightarrow> blk_state" where
  "free_kind k buf bs = bs\<lparr>bs_alloc := mc_allocator_free buf (bs_size bs k) (bs_alloc bs)\<rparr>"

definition mc_allocate_alloc_memblk :: "blk_state \<Rightarrow> (addr \<times> blk_state) option" where
  "mc_allocate_alloc_memblk bs = allocate_kind AllocMemblk bs"

definition mc_free_alloc_memblk :: "addr \<Rightarrow> blk_state \<Rightarrow> blk_state" where
  "mc_free_alloc_memblk buf bs = free_kind AllocMemblk buf bs"

definition mc_allocate_free_memblk :: "blk_state \<Rightarrow> (addr \<times> blk_state) option" where
  "mc_allocate_free_memblk bs = allocate_kind FreeMemblk bs"

definition mc_free_free_memblk :: "addr \<Rightarrow> blk_state \<Rightarrow> blk_state" where
  "mc_free_free_memblk buf bs = free_kind FreeMemblk buf bs"

definition mc_allocate_callstack :: "blk_state \<Rightarrow> (addr \<times> blk_state) option" where
  "mc_allocate_callstack bs = allocate_kind Callstack bs"

definition mc_free_callstack :: "addr \<Rightarrow> blk_state \<Rightarrow> blk_state" where
  "mc_free_callstack buf bs = free_kind Callstack buf bs"

definition mc_allocate_pageregion :: "blk_state \<Rightarrow> (addr \<times> blk_state) option" where
  "mc_allocate_pageregion bs = allocate_kind Pageregion bs"

definition mc_free_pageregion :: "addr \<Rightarrow> blk_state \<Rightarrow> blk_state" where
  "mc_free_pageregion buf bs = free_kind Pageregion buf bs"

section \<open>The invariant of the four pools\<close>

definition pools_ok :: "(blk_kind \<Rightarrow> addr list) \<Rightarrow> blk_state \<Rightarrow> bool" where
  "pools_ok cs bs \<longleftrightarrow>
     (\<forall>k. bs_size bs k = sizeof_kind k \<and> pool_ok (sizeof_kind k) (bs_head bs k) (cs k) (bs_alloc bs)) \<and>
     (\<forall>j k. j \<noteq> k \<longrightarrow> set (cs j) \<inter> set (cs k) = {}) \<and>
     mmaps_ok (mmaps (bs_alloc bs)) (\<Union>k. set (cs k))"

definition blk_ok :: "blk_state \<Rightarrow> bool" where
  "blk_ok bs \<longleftrightarrow> (\<exists>cs. pools_ok cs bs)"

lemma pools_ok_page: "pools_ok cs bs \<Longrightarrow> h \<in> set (cs j) \<Longrightarrow> h \<in> set (cs k) \<Longrightarrow> j = k"
  by (auto simp: pools_ok_def disjoint_iff)

text \<open>The blocks of a kind that are handed out: the chain of the pool is unique.\<close>

definition blk_live :: "blk_kind \<Rightarrow> blk_state \<Rightarrow> addr set" where
  "blk_live k bs = \<Union> {live_blocks (sizeof_kind k) cs (bs_alloc bs) | cs.
                        lst (nxt_pool (bs_alloc bs)) (bs_head bs k) cs}"

lemma blk_live_pool:
  assumes "pool_ok (sizeof_kind k) (bs_head bs k) cs (bs_alloc bs)"
  shows "blk_live k bs = live_blocks (sizeof_kind k) cs (bs_alloc bs)"
proof -
  have "lst (nxt_pool (bs_alloc bs)) (bs_head bs k) ds \<longleftrightarrow> ds = cs" for ds
    using assms lst_unique by (auto simp: pool_ok_def)
  then show ?thesis by (simp add: blk_live_def)
qed

lemma sizeof_kind_ok: "blk_size_ok (sizeof_kind k)"
  by (cases k) (simp_all add: blk_size_ok_def PAGE_SIZE_def HDR_SIZE_def)

lemma sizeof_kind_aligned: "get_aligned_size (sizeof_kind k) ALIGNMENT_SIZE = Some (sizeof_kind k)"
  by (cases k) (simp_all add: get_aligned_size_exact aligned_up_def ALIGNMENT_SIZE_def)

section \<open>Initialisation\<close>

lemma init_kind_ok:
  assumes "page_aligned (bs_head bs k)" "bs_head bs k \<noteq> NULL"
  shows "\<exists>bs'. init_kind k bs = Some bs' \<and> bs_head bs' = bs_head bs \<and>
     bs_size bs' = (bs_size bs)(k := sizeof_kind k) \<and> mmaps (bs_alloc bs') = mmaps (bs_alloc bs) \<and>
     pool_ok (sizeof_kind k) (bs_head bs k) [bs_head bs k] (bs_alloc bs') \<and>
     live_blocks (sizeof_kind k) [bs_head bs k] (bs_alloc bs') = {} \<and>
     (\<forall>h. h \<noteq> bs_head bs k \<longrightarrow> headers (bs_alloc bs') h = headers (bs_alloc bs) h)"
  using mc_allocator_init_ok [OF sizeof_kind_ok assms, of k "bs_alloc bs"]
  by (auto simp: init_kind_def sizeof_kind_aligned)

definition heads_ok :: "blk_state \<Rightarrow> bool" where
  "heads_ok bs \<longleftrightarrow> inj (bs_head bs) \<and> (\<forall>k. page_aligned (bs_head bs k) \<and> bs_head bs k \<noteq> NULL) \<and>
     mmaps_ok (mmaps (bs_alloc bs)) (range (bs_head bs))"

text \<open>A later initialisation leaves the pools made before it as they were.\<close>

lemma init_kind_frame:
  assumes "pool_ok bsz tp [tp] (bs_alloc bs)" "live_blocks bsz [tp] (bs_alloc bs) = {}" "tp \<noteq> bs_head bs k"
    and "\<forall>h. h \<noteq> bs_head bs k \<longrightarrow> headers (bs_alloc bs') h = headers (bs_alloc bs) h"
  shows "pool_ok bsz tp [tp] (bs_alloc bs') \<and> live_blocks bsz [tp] (bs_alloc bs') = {}"
proof -
  have "\<And>h. h \<in> set [tp] \<Longrightarrow> headers (bs_alloc bs') h = headers (bs_alloc bs) h"
    using assms(3,4) by auto
  note C = pool_ok_cong [OF this]
  show ?thesis using assms(1,2) by (simp only: C)
qed

definition kind_ready :: "blk_state \<Rightarrow> blk_kind \<Rightarrow> blk_state \<Rightarrow> bool" where
  "kind_ready bs k bs' \<longleftrightarrow> bs_size bs' k = sizeof_kind k \<and>
     pool_ok (sizeof_kind k) (bs_head bs k) [bs_head bs k] (bs_alloc bs') \<and>
     live_blocks (sizeof_kind k) [bs_head bs k] (bs_alloc bs') = {}"

lemma init_kind_step:
  assumes "heads_ok bs" "bs_head b = bs_head bs" "mmaps (bs_alloc b) = mmaps (bs_alloc bs)"
    "\<forall>j\<in>K. kind_ready bs j b" "k \<notin> K"
  shows "\<exists>b'. init_kind k b = Some b' \<and> bs_head b' = bs_head bs \<and>
     mmaps (bs_alloc b') = mmaps (bs_alloc bs) \<and> (\<forall>j\<in>insert k K. kind_ready bs j b')"
proof -
  have "page_aligned (bs_head b k)" "bs_head b k \<noteq> NULL"
    using assms(1,2) by (auto simp: heads_ok_def)
  from init_kind_ok [OF this] obtain b' where b': "init_kind k b = Some b'" "bs_head b' = bs_head b"
      "bs_size b' = (bs_size b)(k := sizeof_kind k)" "mmaps (bs_alloc b') = mmaps (bs_alloc b)"
      "pool_ok (sizeof_kind k) (bs_head b k) [bs_head b k] (bs_alloc b')"
      "live_blocks (sizeof_kind k) [bs_head b k] (bs_alloc b') = {}"
      "\<forall>h. h \<noteq> bs_head b k \<longrightarrow> headers (bs_alloc b') h = headers (bs_alloc b) h"
    by blast
  have "kind_ready bs j b'" if j: "j \<in> K" for j
  proof -
    have ready: "kind_ready bs j b" and ne: "bs_head bs j \<noteq> bs_head b k" "j \<noteq> k"
      using j assms by (auto simp: heads_ok_def inj_def)
    then show ?thesis
      using init_kind_frame [of "sizeof_kind j" "bs_head bs j" b k b'] b'(3,7)
      by (simp add: kind_ready_def)
  qed
  moreover have "kind_ready bs k b'" using b' assms(2) by (simp add: kind_ready_def)
  ultimately show ?thesis using b'(1,2,4) assms(2,3) by auto
qed

lemma mc_alloc_blk_init_ok:
  assumes "heads_ok bs"
  shows "\<exists>bs'. mc_alloc_blk_init bs = Some bs' \<and> blk_ok bs' \<and> (\<forall>k. blk_live k bs' = {}) \<and>
     mmaps (bs_alloc bs') = mmaps (bs_alloc bs)"
proof -
  note step = init_kind_step [OF assms]
  obtain b1 where b1: "init_kind AllocMemblk bs = Some b1" "bs_head b1 = bs_head bs"
      "mmaps (bs_alloc b1) = mmaps (bs_alloc bs)" "\<forall>j\<in>{AllocMemblk}. kind_ready bs j b1"
    using step [of bs "{}" AllocMemblk] by auto
  obtain b2 where b2: "init_kind FreeMemblk b1 = Some b2" "bs_head b2 = bs_head bs"
      "mmaps (bs_alloc b2) = mmaps (bs_alloc bs)" "\<forall>j\<in>{FreeMemblk, AllocMemblk}. kind_ready bs j b2"
    using step [OF b1(2-4), of FreeMemblk] by auto
  obtain b3 where b3: "init_kind Callstack b2 = Some b3" "bs_head b3 = bs_head bs"
      "mmaps (bs_alloc b3) = mmaps (bs_alloc bs)"
      "\<forall>j\<in>{Callstack, FreeMemblk, AllocMemblk}. kind_ready bs j b3"
    using step [OF b2(2-4), of Callstack] by auto
  obtain b4 where b4: "init_kind Pageregion b3 = Some b4" "bs_head b4 = bs_head bs"
      "mmaps (bs_alloc b4) = mmaps (bs_alloc bs)"
      "\<forall>j\<in>{Pageregion, Callstack, FreeMemblk, AllocMemblk}. kind_ready bs j b4"
    using step [OF b3(2-4), of Pageregion] by auto
  have ready: "kind_ready bs k b4" for k using b4(4) by (cases k) auto
  have "pools_ok (\<lambda>k. [bs_head bs k]) b4"
  proof -
    have "(\<Union>k. set [bs_head bs k]) = range (bs_head bs)" by auto
    then show ?thesis
      using assms ready b4(2,3) by (auto simp: pools_ok_def kind_ready_def heads_ok_def inj_def)
  qed
  moreover have "blk_live k b4 = {}" for k
    using ready [of k] b4(2) blk_live_pool [of k b4 "[bs_head bs k]"] by (simp add: kind_ready_def)
  moreover have "mc_alloc_blk_init bs = Some b4"
    using b1(1) b2(1) b3(1) b4(1) by (simp add: mc_alloc_blk_init_def)
  ultimately show ?thesis using b4(3) by (auto simp: blk_ok_def)
qed

section \<open>Allocation and release\<close>

lemma allocate_kind_ok:
  assumes "blk_ok bs"
  shows "\<exists>p bs'. allocate_kind k bs = Some (p, bs') \<and> blk_ok bs' \<and>
     (\<forall>j. j \<noteq> k \<longrightarrow> blk_live j bs' = blk_live j bs) \<and>
     (if p = NULL then blk_live k bs' = blk_live k bs
      else p \<notin> blk_live k bs \<and> blk_live k bs' = insert p (blk_live k bs))"
proof -
  obtain cs where cs: "pools_ok cs bs" using assms by (auto simp: blk_ok_def)
  let ?U = "\<Union>k. set (cs k)"
  have pk: "pool_ok (sizeof_kind j) (bs_head bs j) (cs j) (bs_alloc bs)" "bs_size bs j = sizeof_kind j" for j
    using cs by (auto simp: pools_ok_def)
  have kern: "mmaps_ok (mmaps (bs_alloc bs)) ?U" "set (cs k) \<subseteq> ?U"
    using cs by (auto simp: pools_ok_def)
  obtain p new st' where a: "mc_allocator_alloc (bs_head bs k) (sizeof_kind k) (bs_alloc bs) = Some (p, st')"
    and post: "alloc_post (sizeof_kind k) (bs_head bs k) (cs k) ?U (bs_alloc bs) p new st'"
    using mc_allocator_alloc_ok [OF pk(1) kern] by blast
  let ?bs = "bs\<lparr>bs_alloc := st'\<rparr>" and ?cs = "cs(k := cs k @ new)"
  have keep: "headers st' h = headers (bs_alloc bs) h" if "h \<in> set (cs j)" "j \<noteq> k" for h j
  proof -
    have "h \<notin> set (cs k)" using that cs unfolding pools_ok_def by blast
    moreover have "h \<notin> set new" using that(1) post unfolding alloc_post_def by blast
    ultimately show ?thesis using post by (simp add: alloc_post_def)
  qed
  have pj: "pool_ok (sizeof_kind j) (bs_head bs j) (cs j) st'"
      "live_blocks (sizeof_kind j) (cs j) st' = live_blocks (sizeof_kind j) (cs j) (bs_alloc bs)"
    if "j \<noteq> k" for j
  proof -
    have "\<And>h. h \<in> set (cs j) \<Longrightarrow> headers st' h = headers (bs_alloc bs) h" using keep that by blast
    note C = pool_ok_cong [OF this]
    show "pool_ok (sizeof_kind j) (bs_head bs j) (cs j) st'" using pk(1) by (simp only: C)
    show "live_blocks (sizeof_kind j) (cs j) st' = live_blocks (sizeof_kind j) (cs j) (bs_alloc bs)"
      by (simp only: C)
  qed
  have U': "(\<Union>j. set (?cs j)) = ?U \<union> set new" by (auto split: if_splits)
  have "set new \<inter> ?U = {}" using post by (simp add: alloc_post_def)
  then have disj: "\<forall>i j. i \<noteq> j \<longrightarrow> set (?cs i) \<inter> set (?cs j) = {}"
  proof (intro allI impI)
    fix i j :: blk_kind assume "i \<noteq> j"
    then have "set (cs i) \<inter> set (cs j) = {}" using cs by (simp add: pools_ok_def)
    moreover have "set new \<inter> set (cs l) = {}" for l using \<open>set new \<inter> ?U = {}\<close> by blast
    ultimately show "set (?cs i) \<inter> set (?cs j) = {}"
      using \<open>i \<noteq> j\<close> by (auto split: if_splits)
  qed
  have "pools_ok ?cs ?bs"
    unfolding pools_ok_def using pk pj post disj U' by (simp add: alloc_post_def)
  then have "blk_ok ?bs" by (auto simp: blk_ok_def)
  moreover have "blk_live j ?bs = blk_live j bs" if "j \<noteq> k" for j
    using pj [OF that] pk(1) [of j] blk_live_pool [of j ?bs] blk_live_pool [of j bs] by simp
  moreover have "blk_live k ?bs = live_blocks (sizeof_kind k) (cs k @ new) st'"
    using post blk_live_pool [of k ?bs "cs k @ new"] by (simp add: alloc_post_def)
  moreover have "allocate_kind k bs = Some (p, ?bs)"
    using a pk(2) by (simp add: allocate_kind_def)
  ultimately show ?thesis
    using post blk_live_pool [OF pk(1) [of k]] by (simp add: alloc_post_def)
qed

lemma free_kind_ok:
  assumes "blk_ok bs" "p \<in> blk_live k bs"
  shows "blk_ok (free_kind k p bs)" "blk_live k (free_kind k p bs) = blk_live k bs - {p}"
    "j \<noteq> k \<Longrightarrow> blk_live j (free_kind k p bs) = blk_live j bs"
proof -
  obtain cs where cs: "pools_ok cs bs" using assms(1) by (auto simp: blk_ok_def)
  have pk: "pool_ok (sizeof_kind j) (bs_head bs j) (cs j) (bs_alloc bs)" "bs_size bs j = sizeof_kind j" for j
    using cs by (auto simp: pools_ok_def)
  have p: "p \<in> live_blocks (sizeof_kind k) (cs k) (bs_alloc bs)"
    using assms(2) blk_live_pool [OF pk(1)] by simp
  let ?st = "mc_allocator_free p (sizeof_kind k) (bs_alloc bs)"
  note F = mc_allocator_free_ok [OF pk(1) p]
  have fk: "free_kind k p bs = bs\<lparr>bs_alloc := ?st\<rparr>" by (simp add: free_kind_def pk(2))
  have pj: "pool_ok (sizeof_kind j) (bs_head bs j) (cs j) ?st"
      "live_blocks (sizeof_kind j) (cs j) ?st = live_blocks (sizeof_kind j) (cs j) (bs_alloc bs)"
    if "j \<noteq> k" for j
  proof -
    have "\<And>h. h \<in> set (cs j) \<Longrightarrow> headers ?st h = headers (bs_alloc bs) h"
      using cs that F(4) unfolding pools_ok_def by blast
    note C = pool_ok_cong [OF this]
    show "pool_ok (sizeof_kind j) (bs_head bs j) (cs j) ?st" using pk(1) by (simp only: C)
    show "live_blocks (sizeof_kind j) (cs j) ?st = live_blocks (sizeof_kind j) (cs j) (bs_alloc bs)"
      by (simp only: C)
  qed
  have "pool_ok (sizeof_kind j) (bs_head bs j) (cs j) ?st" for j
    using pj(1) F(1) by (cases "j = k") simp_all
  then have "pools_ok cs (free_kind k p bs)"
    using cs F(3) unfolding pools_ok_def fk by simp
  then show "blk_ok (free_kind k p bs)" by (auto simp: blk_ok_def)
  show "blk_live k (free_kind k p bs) = blk_live k bs - {p}"
    using F(1,2) blk_live_pool [OF pk(1)] blk_live_pool [of k "free_kind k p bs" "cs k"] by (simp add: fk)
  show "j \<noteq> k \<Longrightarrow> blk_live j (free_kind k p bs) = blk_live j bs"
    using pj blk_live_pool [OF pk(1)] blk_live_pool [of j "free_kind k p bs" "cs j"] by (simp add: fk)
qed

text \<open>While the kernel grants mappings an allocation succeeds.\<close>

lemma allocate_kind_succeeds:
  assumes "blk_ok bs" "allocate_kind k bs = Some (p, bs')" "hd (mmaps (bs_alloc bs) @ [MAP_FAILED]) \<noteq> MAP_FAILED"
  shows "p \<noteq> NULL"
proof -
  obtain cs where cs: "pools_ok cs bs" using assms(1) by (auto simp: blk_ok_def)
  let ?U = "\<Union>k. set (cs k)"
  have pk: "pool_ok (sizeof_kind k) (bs_head bs k) (cs k) (bs_alloc bs)" "bs_size bs k = sizeof_kind k"
    and kern: "mmaps_ok (mmaps (bs_alloc bs)) ?U" "set (cs k) \<subseteq> ?U"
    using cs by (auto simp: pools_ok_def)
  from mc_allocator_alloc_ok [OF pk(1) kern] assms(2,3) pk(2) show ?thesis
    by (auto simp: alloc_post_def allocate_kind_def split: if_splits)
qed

section \<open>Blocks never overlap\<close>

lemma live_blockD:
  assumes "pool_ok bsz tp cs st" "p \<in> live_blocks bsz cs st"
  shows "page_down p \<in> set cs" "p \<noteq> NULL" "unat (page_down p) + HDR_SIZE \<le> unat p"
    "unat p + unat bsz \<le> unat (page_down p) + PAGE_SIZE" "unat p + unat bsz \<le> 2 ^ 64"
proof -
  have bs: "blk_size_ok bsz" using assms(1) by (simp add: pool_ok_def)
  obtain h i where h: "h \<in> set cs" "i < capacity bsz" "p = slot_addr h bsz i"
    using assms(2) by (auto simp: live_blocks_def used_slots_def)
  note D = pool_okD [OF assms(1) h(1)]
  have pd: "page_down p = h" using page_down_slot_addr [OF D(2) bs h(2)] h(3) by simp
  then show "page_down p \<in> set cs" using h(1) by simp
  show "p \<noteq> NULL" using slot_addr_nonnull [OF D(2,1) bs h(2)] h(3) by simp
  have u: "unat p = unat h + HDR_SIZE + i * unat bsz" using unat_slot_addr [OF D(2) bs h(2)] h(3) by simp
  then show "unat (page_down p) + HDR_SIZE \<le> unat p" using pd by simp
  show e: "unat p + unat bsz \<le> unat (page_down p) + PAGE_SIZE" using u pd slot_end [OF h(2)] by simp
  have "unat h + (PAGE_SIZE - 1) < 2 ^ 64" by (rule page_aligned_room [OF D(2)]) (simp add: PAGE_SIZE_def)
  then show "unat p + unat bsz \<le> 2 ^ 64" using e pd by (simp add: PAGE_SIZE_def)
qed

definition blk_range :: "blk_kind \<Rightarrow> addr \<Rightarrow> nat set" where
  "blk_range k p = {unat p ..< unat p + unat (sizeof_kind k)}"

lemma slots_apart:
  assumes "page_aligned h" "blk_size_ok bsz" "i < capacity bsz" "j < capacity bsz" "i \<noteq> j"
  shows "{unat (slot_addr h bsz i) ..< unat (slot_addr h bsz i) + unat bsz} \<inter>
         {unat (slot_addr h bsz j) ..< unat (slot_addr h bsz j) + unat bsz} = {}"
proof -
  have "(i + 1) * unat bsz \<le> j * unat bsz \<or> (j + 1) * unat bsz \<le> i * unat bsz"
    using assms(5) by (metis Suc_eq_plus1 Suc_leI linorder_neqE_nat mult_le_mono1)
  then show ?thesis using assms by (auto simp: unat_slot_addr)
qed

lemma blk_ranges_disjoint:
  assumes ok: "blk_ok bs" and p: "p \<in> blk_live j bs" and q: "q \<in> blk_live k bs" and ne: "(j, p) \<noteq> (k, q)"
  shows "blk_range j p \<inter> blk_range k q = {}"
proof -
  obtain cs where cs: "pools_ok cs bs" using ok by (auto simp: blk_ok_def)
  have pk: "pool_ok (sizeof_kind i) (bs_head bs i) (cs i) (bs_alloc bs)" for i
    using cs by (auto simp: pools_ok_def)
  have pl: "p \<in> live_blocks (sizeof_kind j) (cs j) (bs_alloc bs)"
    and ql: "q \<in> live_blocks (sizeof_kind k) (cs k) (bs_alloc bs)"
    using p q blk_live_pool [OF pk] by simp_all
  note P = live_blockD [OF pk pl] and Q = live_blockD [OF pk ql]
  show ?thesis
  proof (cases "page_down p = page_down q")
    case False
    from page_down_apart [OF this]
    have "unat p + unat (sizeof_kind j) \<le> unat q \<or> unat q + unat (sizeof_kind k) \<le> unat p"
      using P(3,4) Q(3,4) by linarith
    then show ?thesis by (auto simp: blk_range_def)
  next
    case True
    then have jk: "j = k" using P(1) Q(1) pools_ok_page [OF cs] by simp
    have bs: "blk_size_ok (sizeof_kind k)" by (rule sizeof_kind_ok)
    obtain h i where h: "h \<in> set (cs j)" "i < capacity (sizeof_kind j)" "p = slot_addr h (sizeof_kind j) i"
      using pl by (auto simp: live_blocks_def used_slots_def)
    obtain g l where g: "g \<in> set (cs k)" "l < capacity (sizeof_kind k)" "q = slot_addr g (sizeof_kind k) l"
      using ql by (auto simp: live_blocks_def used_slots_def)
    have "page_aligned h" "page_aligned g" using pool_okD(2) [OF pk] h(1) g(1) by auto
    then have hg: "h = g"
      using True h g page_down_slot_addr sizeof_kind_ok by metis
    then have "i \<noteq> l" using jk h(3) g(3) ne by auto
    then show ?thesis
      using slots_apart [OF \<open>page_aligned g\<close> bs, of i l] h g jk hg by (simp add: blk_range_def)
  qed
qed

lemma blk_live_bounds:
  assumes "blk_ok bs" "p \<in> blk_live k bs"
  shows "p \<noteq> NULL" "unat p + unat (sizeof_kind k) \<le> 2 ^ 64"
proof -
  obtain cs where cs: "pools_ok cs bs" using assms(1) by (auto simp: blk_ok_def)
  then have pk: "pool_ok (sizeof_kind k) (bs_head bs k) (cs k) (bs_alloc bs)" by (auto simp: pools_ok_def)
  then have "p \<in> live_blocks (sizeof_kind k) (cs k) (bs_alloc bs)"
    using assms(2) blk_live_pool by simp
  from live_blockD [OF pk this] show "p \<noteq> NULL" "unat p + unat (sizeof_kind k) \<le> 2 ^ 64" by auto
qed

section \<open>The interface\<close>

text \<open>
  What a client of the allocator may rely on, stated for any number of kinds of blocks:
  \<open>live k s\<close> are the blocks of kind \<open>k\<close> that are handed out in the state \<open>s\<close>.
\<close>

locale block_source =
  fixes inv :: "'s \<Rightarrow> bool"
    and live :: "'k \<Rightarrow> 's \<Rightarrow> addr set"
    and alloc :: "'k \<Rightarrow> 's \<Rightarrow> (addr \<times> 's) option"
    and release :: "'k \<Rightarrow> addr \<Rightarrow> 's \<Rightarrow> 's"
  assumes alloc_returns: "inv s \<Longrightarrow> \<exists>p s'. alloc k s = Some (p, s')"
    and alloc_inv: "inv s \<Longrightarrow> alloc k s = Some (p, s') \<Longrightarrow> inv s'"
    and alloc_other: "inv s \<Longrightarrow> alloc k s = Some (p, s') \<Longrightarrow> j \<noteq> k \<Longrightarrow> live j s' = live j s"
    and alloc_fail: "inv s \<Longrightarrow> alloc k s = Some (0, s') \<Longrightarrow> live k s' = live k s"
    and alloc_fresh: "inv s \<Longrightarrow> alloc k s = Some (p, s') \<Longrightarrow> p \<noteq> 0 \<Longrightarrow> p \<notin> live k s"
    and alloc_live: "inv s \<Longrightarrow> alloc k s = Some (p, s') \<Longrightarrow> p \<noteq> 0 \<Longrightarrow> live k s' = insert p (live k s)"
    and live_nonnull: "inv s \<Longrightarrow> 0 \<notin> live k s"
    and release_inv: "inv s \<Longrightarrow> p \<in> live k s \<Longrightarrow> inv (release k p s)"
    and release_live: "inv s \<Longrightarrow> p \<in> live k s \<Longrightarrow> live k (release k p s) = live k s - {p}"
    and release_other: "inv s \<Longrightarrow> p \<in> live k s \<Longrightarrow> j \<noteq> k \<Longrightarrow> live j (release k p s) = live j s"
begin

text \<open>A block that was just allocated can be released, which restores the set of live blocks.\<close>

lemma alloc_release:
  assumes "inv s" "alloc k s = Some (p, s')" "p \<noteq> 0"
  shows "inv (release k p s')" "live j (release k p s') = live j s"
proof -
  note L = alloc_live [OF assms] and F = alloc_fresh [OF assms] and I = alloc_inv [OF assms(1,2)]
  have p: "p \<in> live k s'" using L by simp
  show "inv (release k p s')" by (rule release_inv [OF I p])
  show "live j (release k p s') = live j s"
    using release_live [OF I p] release_other [OF I p] alloc_other [OF assms(1,2)] L F
    by (cases "j = k") auto
qed

text \<open>Releasing the blocks of a list one after the other.\<close>

lemma release_list:
  assumes "inv s" "distinct ps" "set ps \<subseteq> live k s"
  shows "inv (fold (release k) ps s) \<and> live k (fold (release k) ps s) = live k s - set ps \<and>
    (\<forall>j. j \<noteq> k \<longrightarrow> live j (fold (release k) ps s) = live j s)"
  using assms
proof (induction ps arbitrary: s)
  case Nil
  then show ?case by simp
next
  case (Cons p ps)
  then have p: "p \<in> live k s" by simp
  note R = release_inv [OF Cons.prems(1) p] release_live [OF Cons.prems(1) p]
    release_other [OF Cons.prems(1) p]
  have "set ps \<subseteq> live k (release k p s)" using R(2) Cons.prems by auto
  then show ?case using Cons.IH [OF R(1)] R Cons.prems by auto
qed

end

interpretation blk: block_source blk_ok blk_live allocate_kind free_kind
proof unfold_locales
  fix s s' :: blk_state and k j p
  assume ok: "blk_ok s"
  note A = allocate_kind_ok [OF ok, of k] and F = free_kind_ok [OF ok, of p k]
  show "\<exists>p s'. allocate_kind k s = Some (p, s')" using A by blast
  show "0 \<notin> blk_live k s" using blk_live_bounds(1) [OF ok] by blast
  show "allocate_kind k s = Some (p, s') \<Longrightarrow> blk_ok s'" using A by auto
  show "allocate_kind k s = Some (p, s') \<Longrightarrow> j \<noteq> k \<Longrightarrow> blk_live j s' = blk_live j s" using A by auto
  show "allocate_kind k s = Some (0, s') \<Longrightarrow> blk_live k s' = blk_live k s" using A by auto
  show "allocate_kind k s = Some (p, s') \<Longrightarrow> p \<noteq> 0 \<Longrightarrow> p \<notin> blk_live k s"
    using A by (auto split: if_splits)
  show "allocate_kind k s = Some (p, s') \<Longrightarrow> p \<noteq> 0 \<Longrightarrow> blk_live k s' = insert p (blk_live k s)"
    using A by (auto split: if_splits)
  show "p \<in> blk_live k s \<Longrightarrow> blk_ok (free_kind k p s)" by (rule F)
  show "p \<in> blk_live k s \<Longrightarrow> blk_live k (free_kind k p s) = blk_live k s - {p}" by (rule F)
  show "p \<in> blk_live k s \<Longrightarrow> j \<noteq> k \<Longrightarrow> blk_live j (free_kind k p s) = blk_live j s" by (rule F)
qed

end
