(* ===== verification/MC_Hashtable.thy ===== *)
theory MC_Hashtable
  imports MC_Chain
begin

text \<open>
  The two intrusive hash tables of \<open>memchk_hashtable.c\<close>. A table is an array of bucket heads;
  the nodes are linked through a field of their own. Pointers are looked up by address
  (\<open>struct memptr\<close>), call stacks by the recorded return addresses (\<open>struct callstack\<close>).

  An operation works on the pair of the objects' store and the array. The mutexes of the file
  only bracket the operations and are not part of the sequential model.
\<close>

section \<open>Data\<close>

record memptr =
  mp_ptr :: addr
  mp_hash_next :: addr

record callstack =
  cs_depth :: int
  cs_trace :: "addr list"              \<comment> \<open>\<open>void *trace[MAX_CALLSTACK_DEPTH]\<close>\<close>
  cs_hash_next :: addr
  cs_group_next :: "addr list"         \<comment> \<open>\<open>same_callstack_group_next[LINK_MAX]\<close>\<close>
  cs_total_size :: u64                 \<comment> \<open>\<open>int64_t\<close>, read signed\<close>
  cs_usage :: i32

type_synonym ptr_table = "(addr \<Rightarrow> memptr) \<times> (nat \<Rightarrow> addr)"
type_synonym callstack_table = "(addr \<Rightarrow> callstack) \<times> (nat \<Rightarrow> addr)"

definition ALLOC_MEMPTR_HASHTABLE_SIZE :: nat where "ALLOC_MEMPTR_HASHTABLE_SIZE = 416963"
definition FREE_MEMPTR_HASHTABLE_SIZE :: nat where "FREE_MEMPTR_HASHTABLE_SIZE = 521"
definition CALLSTACK_HASHTABLE_SIZE :: nat where "CALLSTACK_HASHTABLE_SIZE = 104729"

text \<open>The macro \<open>for_each_hashnode\<close>: every bucket in turn, its head read when its turn comes.\<close>

fun walk_buckets ::
  "('s \<Rightarrow> addr \<Rightarrow> addr) \<Rightarrow> ('s \<Rightarrow> nat \<Rightarrow> addr) \<Rightarrow> (addr \<Rightarrow> 's \<Rightarrow> ('r, 's) flow option) \<Rightarrow>
   nat list \<Rightarrow> 's \<Rightarrow> ('r, 's) flow option" where
  "walk_buckets nx tbl body [] s = Some (Next s)"
| "walk_buckets nx tbl body (i # is) s =
     do {
       fl \<leftarrow> walk nx body (tbl s i) s;
       (case fl of Ret r s' \<Rightarrow> Some (Ret r s') | Next s' \<Rightarrow> walk_buckets nx tbl body is s')
     }"

definition for_each_hashnode ::
  "('s \<Rightarrow> addr \<Rightarrow> addr) \<Rightarrow> ('s \<Rightarrow> nat \<Rightarrow> addr) \<Rightarrow> nat \<Rightarrow> (addr \<Rightarrow> 's \<Rightarrow> ('r, 's) flow option) \<Rightarrow>
   's \<Rightarrow> ('r, 's) flow option" where
  "for_each_hashnode nx tbl sz body s = walk_buckets nx tbl body [0..<sz] s"

section \<open>Pointers\<close>

definition calc_ptr_hash :: "addr \<Rightarrow> nat \<Rightarrow> nat" where
  "calc_ptr_hash p sz = unat p mod sz"

definition mc_add_ptr_hashtable :: "nat \<Rightarrow> addr \<Rightarrow> ptr_table \<Rightarrow> ptr_table" where
  "mc_add_ptr_hashtable sz memptr t =
     (case t of (h, tbl) \<Rightarrow>
        let hash = calc_ptr_hash (mp_ptr (h memptr)) sz in
        (h(memptr := (h memptr)\<lparr>mp_hash_next := tbl hash\<rparr>), tbl(hash := memptr)))"

definition mc_remove_ptr_hashtable :: "nat \<Rightarrow> addr \<Rightarrow> ptr_table \<Rightarrow> (addr \<times> ptr_table) option" where
  "mc_remove_ptr_hashtable sz p t =
     (case t of (h, tbl) \<Rightarrow>
        let hash = calc_ptr_hash p sz in
        do {
          (prev, node) \<leftarrow> chain_find_prev (\<lambda>n. mp_hash_next (h n)) (\<lambda>n. mp_ptr (h n) = p) NULL (tbl hash);
          if node = NULL then Some (NULL, (h, tbl))
          else if prev \<noteq> NULL
            then Some (node, (h(prev := (h prev)\<lparr>mp_hash_next := mp_hash_next (h node)\<rparr>), tbl))
            else Some (node, (h, tbl(hash := mp_hash_next (h node))))
        })"

definition mc_find_ptr_hashtable :: "nat \<Rightarrow> addr \<Rightarrow> ptr_table \<Rightarrow> addr option" where
  "mc_find_ptr_hashtable sz p t =
     (case t of (h, tbl) \<Rightarrow>
        chain_find (\<lambda>n. mp_hash_next (h n)) (\<lambda>n. mp_ptr (h n) = p) (tbl (calc_ptr_hash p sz)))"

section \<open>Call stacks\<close>

text \<open>
  \<open>mc_match_callstack\<close> of \<open>memchk_callstack.c\<close>: 0 for equal depth and equal return addresses,
  else non-zero (the sign of \<open>memcmp\<close> is never used).
\<close>

definition mc_match_callstack :: "callstack \<Rightarrow> callstack \<Rightarrow> int" where
  "mc_match_callstack cs1 cs2 =
     (if cs_depth cs1 \<noteq> cs_depth cs2 then - 1
      else if take (nat (cs_depth cs1)) (cs_trace cs1) = take (nat (cs_depth cs1)) (cs_trace cs2) then 0
      else 1)"

definition calc_callstack_hash :: "callstack \<Rightarrow> nat \<Rightarrow> nat" where
  "calc_callstack_hash c sz = unat (fold (\<lambda>a val. val + a) (take (nat (cs_depth c)) (cs_trace c)) 0) mod sz"

definition mc_add_callstack_hashtable :: "nat \<Rightarrow> addr \<Rightarrow> callstack_table \<Rightarrow> callstack_table" where
  "mc_add_callstack_hashtable sz callstack t =
     (case t of (h, tbl) \<Rightarrow>
        let hash = calc_callstack_hash (h callstack) sz in
        (h(callstack := (h callstack)\<lparr>cs_hash_next := tbl hash\<rparr>), tbl(hash := callstack)))"

definition mc_remove_callstack_hashtable ::
  "nat \<Rightarrow> callstack \<Rightarrow> callstack_table \<Rightarrow> (addr \<times> callstack_table) option" where
  "mc_remove_callstack_hashtable sz callstack t =
     (case t of (h, tbl) \<Rightarrow>
        let hash = calc_callstack_hash callstack sz in
        do {
          (prev, node) \<leftarrow> chain_find_prev (\<lambda>n. cs_hash_next (h n))
                            (\<lambda>n. mc_match_callstack (h n) callstack = 0) NULL (tbl hash);
          if node = NULL then Some (NULL, (h, tbl))
          else if prev \<noteq> NULL
            then Some (node, (h(prev := (h prev)\<lparr>cs_hash_next := cs_hash_next (h node)\<rparr>), tbl))
            else Some (node, (h, tbl(hash := cs_hash_next (h node))))
        })"

definition mc_find_callstack_hashtable :: "nat \<Rightarrow> callstack \<Rightarrow> callstack_table \<Rightarrow> addr option" where
  "mc_find_callstack_hashtable sz callstack t =
     (case t of (h, tbl) \<Rightarrow>
        chain_find (\<lambda>n. cs_hash_next (h n)) (\<lambda>n. mc_match_callstack (h n) callstack = 0)
          (tbl (calc_callstack_hash callstack sz)))"

section \<open>The bucket invariant\<close>

text \<open>
  \<open>buckets_ok nx hsh tbl sz bs\<close>: bucket \<open>i\<close> of the table is the chain \<open>bs i\<close>, and its nodes hash
  to \<open>i\<close>. The nodes of the table are \<open>nodes sz bs\<close>, in the order of a traversal \<open>node_list sz bs\<close>.
\<close>

definition buckets_ok :: "(addr \<Rightarrow> addr) \<Rightarrow> (addr \<Rightarrow> nat) \<Rightarrow> (nat \<Rightarrow> addr) \<Rightarrow> nat \<Rightarrow> (nat \<Rightarrow> addr list) \<Rightarrow> bool" where
  "buckets_ok nx hsh tbl sz bs \<longleftrightarrow>
     0 < sz \<and> (\<forall>i < sz. lst nx (tbl i) (bs i) \<and> (\<forall>x\<in>set (bs i). hsh x = i))"

definition node_list :: "nat \<Rightarrow> (nat \<Rightarrow> addr list) \<Rightarrow> addr list" where
  "node_list sz bs = concat (map bs [0..<sz])"

abbreviation nodes :: "nat \<Rightarrow> (nat \<Rightarrow> addr list) \<Rightarrow> addr set" where
  "nodes sz bs \<equiv> set (node_list sz bs)"

lemma nodes_UN: "nodes sz bs = (\<Union>i < sz. set (bs i))"
  by (auto simp: node_list_def)

lemma buckets_ok_D:
  assumes "buckets_ok nx hsh tbl sz bs" "i < sz"
  shows "lst nx (tbl i) (bs i)" "x \<in> set (bs i) \<Longrightarrow> hsh x = i"
  using assms by (auto simp: buckets_ok_def)

lemma buckets_node: "buckets_ok nx hsh tbl sz bs \<Longrightarrow> x \<in> nodes sz bs \<Longrightarrow> hsh x < sz \<and> x \<in> set (bs (hsh x))"
  by (auto simp: nodes_UN buckets_ok_def)

lemma nodes_nonnull: "buckets_ok nx hsh tbl sz bs \<Longrightarrow> 0 \<notin> nodes sz bs"
  by (auto simp: nodes_UN buckets_ok_def)

lemma distinct_node_list: "buckets_ok nx hsh tbl sz bs \<Longrightarrow> distinct (node_list sz bs)"
  unfolding node_list_def
proof (induction sz)
  case 0
  then show ?case by simp
next
  case (Suc n)
  show ?case
  proof (cases "n = 0")
    case True
    then show ?thesis using Suc.prems by (auto simp: buckets_ok_def dest: lst_distinct)
  next
    case False
    then have ok: "buckets_ok nx hsh tbl n bs" using Suc.prems by (simp add: buckets_ok_def)
    have "x \<notin> set (bs n)" if "x \<in> set (bs i)" "i < n" for x i
      using buckets_ok_D(2) [OF Suc.prems, of i x] buckets_ok_D(2) [OF Suc.prems, of n x] that by auto
    then have "set (concat (map bs [0..<n])) \<inter> set (bs n) = {}" by auto
    moreover have "distinct (bs n)"
      using buckets_ok_D(1) [OF Suc.prems, of n] by (auto dest: lst_distinct)
    ultimately show ?thesis using Suc.IH [OF ok] by simp
  qed
qed

lemma buckets_ok_cong:
  assumes "\<And>x. x \<in> nodes sz bs \<Longrightarrow> nx' x = nx x \<and> hsh' x = hsh x"
  shows "buckets_ok nx' hsh' tbl sz bs \<longleftrightarrow> buckets_ok nx hsh tbl sz bs"
proof -
  have "lst nx' (tbl i) (bs i) \<longleftrightarrow> lst nx (tbl i) (bs i)" if "i < sz" for i
    using that assms by (intro lst_cong) (auto simp: nodes_UN)
  moreover have "(\<forall>x\<in>set (bs i). hsh' x = i) \<longleftrightarrow> (\<forall>x\<in>set (bs i). hsh x = i)" if "i < sz" for i
  proof -
    have "hsh' x = hsh x" if "x \<in> set (bs i)" for x
      using that \<open>i < sz\<close> assms by (auto simp: nodes_UN)
    then show ?thesis by simp
  qed
  ultimately show ?thesis by (simp add: buckets_ok_def)
qed

text \<open>Pushing a node on its bucket, and taking one out.\<close>

lemma buckets_push:
  assumes ok: "buckets_ok nx hsh tbl sz bs" and m: "m \<noteq> 0" "m \<notin> nodes sz bs" "hsh m < sz"
  shows "buckets_ok (nx(m := tbl (hsh m))) hsh (tbl(hsh m := m)) sz (bs(hsh m := m # bs (hsh m)))"
proof -
  have "lst (nx(m := tbl (hsh m))) ((tbl(hsh m := m)) i) ((bs(hsh m := m # bs (hsh m))) i)"
    if i: "i < sz" for i
  proof (cases "i = hsh m")
    case True
    then show ?thesis using m i buckets_ok_D(1) [OF ok i] by (simp add: lst_push nodes_UN)
  next
    case False
    have "m \<notin> set (bs i)" using m(2) i by (auto simp: nodes_UN)
    then show ?thesis using False buckets_ok_D(1) [OF ok i] by simp
  qed
  then show ?thesis using ok by (auto simp: buckets_ok_def)
qed

lemma nodes_push: "k < sz \<Longrightarrow> nodes sz (bs(k := m # bs k)) = insert m (nodes sz bs)"
  by (auto simp: nodes_UN split: if_splits)

lemma buckets_unlink:
  assumes ok: "buckets_ok nx hsh tbl sz bs" and k: "k < sz" "bs k = us @ x # vs"
  shows "us = [] \<Longrightarrow> buckets_ok nx hsh (tbl(k := nx x)) sz (bs(k := us @ vs))"
    and "us \<noteq> [] \<Longrightarrow> buckets_ok (nx(last us := nx x)) hsh tbl sz (bs(k := us @ vs))"
proof -
  note L = buckets_ok_D(1) [OF ok k(1)]
  show "us = [] \<Longrightarrow> buckets_ok nx hsh (tbl(k := nx x)) sz (bs(k := us @ vs))"
    using ok k L by (auto simp: buckets_ok_def)
  assume ne: "us \<noteq> []"
  have here: "lst (nx(last us := nx x)) (tbl k) (us @ vs)"
  proof (cases us rule: rev_cases)
    case (snoc ts u)
    then show ?thesis using L k(2) lst_unlink_inner [of nx "tbl k" ts u x vs] by simp
  qed (use ne in simp)
  have "last us \<notin> set (bs i)" if "i < sz" "i \<noteq> k" for i
  proof -
    have "last us \<in> set (bs k)" using ne k(2) by simp
    then show ?thesis using that k(1) buckets_ok_D(2) [OF ok] by metis
  qed
  then show "buckets_ok (nx(last us := nx x)) hsh tbl sz (bs(k := us @ vs))"
    using ok k(2) here by (auto simp: buckets_ok_def)
qed

lemma nodes_unlink:
  assumes "buckets_ok nx hsh tbl sz bs" "k < sz" "bs k = us @ x # vs"
  shows "nodes sz (bs(k := us @ vs)) = nodes sz bs - {x}"
proof -
  have "distinct (bs k)" using buckets_ok_D(1) [OF assms(1,2)] by (rule lst_distinct)
  moreover have "x \<notin> set (bs i)" if "i < sz" "i \<noteq> k" for i
  proof -
    have "x \<in> set (bs k)" using assms(3) by simp
    then show ?thesis using that assms(2) buckets_ok_D(2) [OF assms(1)] by metis
  qed
  moreover have "set (us @ vs) = set (bs k) - {x}" using assms(3) calculation(1) by auto
  ultimately show ?thesis
    unfolding nodes_UN using assms(2) by (intro UN_upd_remove [of k]) simp_all
qed

section \<open>Traversal\<close>

text \<open>
  \<open>for_each_hashnode\<close> visits every node once, in the order of \<open>node_list\<close>, provided the body
  leaves the links ahead of it and the buckets to come as they are; it may take the current
  node out of its own bucket.
\<close>

lemma walk_buckets_fold:
  assumes "\<forall>i\<in>set is. lst (nx s) (tbl s i) (bs i)" "I s" "distinct is"
    and step: "\<And>n s s' i us ys js ks. is = js @ i # ks \<Longrightarrow> body n s = Some (Next s') \<Longrightarrow> I s \<Longrightarrow>
        bs i = us @ n # ys \<Longrightarrow> lst (nx s) n (n # ys) \<Longrightarrow> \<forall>j\<in>set ks. lst (nx s) (tbl s j) (bs j) \<Longrightarrow>
        I s' \<and> (\<forall>m\<in>set (n # ys). nx s' m = nx s m) \<and> (\<forall>j\<in>set ks. lst (nx s') (tbl s' j) (bs j))"
  shows "walk_buckets nx tbl body is s = fold_flow body (concat (map bs is)) s"
  using assms
proof (induction "is" arbitrary: s)
  case Nil
  then show ?case by simp
next
  case (Cons i "is")
  let ?J = "\<lambda>s. I s \<and> (\<forall>j\<in>set is. lst (nx s) (tbl s j) (bs j))"
  have hd: "lst (nx s) (tbl s i) (bs i)" and J: "?J s" using Cons.prems by simp_all
  have st: "?J t' \<and> (\<forall>m\<in>set (n # ys). nx t' m = nx t m)"
    if "body n t = Some (Next t')" "?J t" "bs i = us @ n # ys" "lst (nx t) n (n # ys)" for n t t' us ys
    using that Cons.prems(4) [where js = "[]" and i = i and ks = "is" and n = n and s = t and s' = t' and us = us and ys = ys]
    by auto
  have W1: "walk nx body (tbl s i) s = fold_flow body (bs i) s"
    by (rule walk_fold(1) [where I = ?J and nx = nx and xs = "bs i", OF hd J]) (rule st; assumption)
  have W2: "?J s'" if "fold_flow body (bs i) s = Some (Next s')" for s'
    by (rule walk_fold(2) [where I = ?J and nx = nx and xs = "bs i" and s' = s', OF hd J _ that])
      (rule st; assumption)
  show ?case
  proof (cases "fold_flow body (bs i) s")
    case None
    then show ?thesis using W1 by (simp add: fold_flow_append)
  next
    case (Some fl)
    show ?thesis
    proof (cases fl)
      case (Ret r s')
      then show ?thesis using W1 Some by (simp add: fold_flow_append)
    next
      case (Next s')
      then have J': "?J s'" using W2 Some by blast
      have "walk_buckets nx tbl body is s' = fold_flow body (concat (map bs is)) s'"
      proof (rule Cons.IH)
        show "\<forall>j\<in>set is. lst (nx s') (tbl s' j) (bs j)" "I s'" "distinct is" using J' Cons.prems(3) by auto
      next
        fix n t t' j us ys js ks
        assume a: "is = js @ j # ks" "body n t = Some (Next t')" "I t" "bs j = us @ n # ys"
          "lst (nx t) n (n # ys)" "\<forall>j\<in>set ks. lst (nx t) (tbl t j) (bs j)"
        show "I t' \<and> (\<forall>m\<in>set (n # ys). nx t' m = nx t m) \<and> (\<forall>j\<in>set ks. lst (nx t') (tbl t' j) (bs j))"
          using a by (intro Cons.prems(4) [where js = "i # js" and us = us]) simp_all
      qed
      then show ?thesis using W1 Some Next by (simp add: fold_flow_append)
    qed
  qed
qed

end
