(* ===== verification/MC_Table.thy ===== *)
theory MC_Table
  imports MC_Hashtable
begin

text \<open>
  What the clients of the hash tables of \<open>memchk_hashtable.c\<close> rely on, as the locale
  \<open>keyed_table\<close>: a table holds a set of nodes, each with a key; adding a node, looking a key up
  and removing a key act on that set as expected. It is interpreted for the tables of pointers
  and of call stacks, at every size.
\<close>

section \<open>Search and removal in a bucket\<close>

lemma bucket_find:
  assumes ok: "buckets_ok nx (\<lambda>n. H (key n)) tbl sz bs" and k: "H k < sz"
  shows "\<exists>n. chain_find nx (\<lambda>n. key n = k) (tbl (H k)) = Some n \<and>
     (if n = 0 then \<forall>m\<in>nodes sz bs. key m \<noteq> k else n \<in> nodes sz bs \<and> key n = k)"
proof -
  note L = buckets_ok_D(1) [OF ok k]
  note F = chain_find_lst [OF L, of "\<lambda>n. key n = k"]
  have "0 \<notin> set (bs (H k))" using L by blast
  then show ?thesis
  proof (cases rule: first_match_cases [where P = "\<lambda>n. key n = k"])
    case 1
    have "key m \<noteq> k" if m: "m \<in> nodes sz bs" for m
      using 1(2) buckets_node [OF ok m] by auto
    then show ?thesis using F 1(1) by simp
  next
    case (2 us x vs)
    then have "x \<in> set (bs (H k))" by simp
    then have "x \<in> nodes sz bs" using k by (auto simp: nodes_UN)
    then show ?thesis using F 2 by simp
  qed
qed

lemma bucket_find_prev:
  assumes ok: "buckets_ok nx (\<lambda>n. H (key n)) tbl sz bs" and k: "H k < sz"
  obtains (missing) prev where
      "chain_find_prev nx (\<lambda>n. key n = k) NULL (tbl (H k)) = Some (prev, NULL)"
      "chain_find nx (\<lambda>n. key n = k) (tbl (H k)) = Some NULL"
      "\<forall>m\<in>nodes sz bs. key m \<noteq> k"
  | (found) us x vs where "bs (H k) = us @ x # vs" "key x = k" "x \<noteq> NULL" "x \<in> nodes sz bs"
      "chain_find nx (\<lambda>n. key n = k) (tbl (H k)) = Some x"
      "chain_find_prev nx (\<lambda>n. key n = k) NULL (tbl (H k)) = Some (if us = [] then NULL else last us, x)"
proof -
  note L = buckets_ok_D(1) [OF ok k]
  note F = chain_find_lst [OF L, of "\<lambda>n. key n = k"]
  have "0 \<notin> set (bs (H k))" using L by blast
  then show ?thesis
  proof (cases rule: first_match_cases [where P = "\<lambda>n. key n = k"])
    case 1
    have "key m \<noteq> k" if m: "m \<in> nodes sz bs" for m
      using 1(2) buckets_node [OF ok m] by auto
    then show ?thesis using missing F 1 chain_find_prev_none [OF L, of "\<lambda>n. key n = k" NULL] by simp
  next
    case (2 us x vs)
    then have "x \<in> set (bs (H k))" by simp
    then have "x \<in> nodes sz bs" using k by (auto simp: nodes_UN)
    then show ?thesis
      using found [OF 2(2,3)] F 2 L chain_find_prev_some [of nx "tbl (H k)" us x vs "\<lambda>n. key n = k" NULL] by simp
  qed
qed

lemma hash_lt: "0 < sz \<Longrightarrow> calc_ptr_hash p sz < sz"
  by (simp add: calc_ptr_hash_def)

section \<open>The interface\<close>

locale keyed_table =
  fixes inv :: "'t \<Rightarrow> addr set \<Rightarrow> bool"
    and key :: "'t \<Rightarrow> addr \<Rightarrow> 'k"
    and wanted :: "'q \<Rightarrow> 'k"
    and add :: "addr \<Rightarrow> 't \<Rightarrow> 't"
    and lookup :: "'q \<Rightarrow> 't \<Rightarrow> addr option"
    and delete :: "'q \<Rightarrow> 't \<Rightarrow> (addr \<times> 't) option"
  assumes node_nonnull: "inv t N \<Longrightarrow> 0 \<notin> N"
    and finite_nodes: "inv t N \<Longrightarrow> finite N"
    and lookup_spec: "inv t N \<Longrightarrow> \<exists>n. lookup q t = Some n \<and>
          (if n = 0 then \<forall>m\<in>N. key t m \<noteq> wanted q else n \<in> N \<and> key t n = wanted q)"
    and add_inv: "inv t N \<Longrightarrow> m \<noteq> 0 \<Longrightarrow> m \<notin> N \<Longrightarrow> inv (add m t) (insert m N)"
    and add_key: "key (add m t) = key t"
    and delete_spec: "inv t N \<Longrightarrow> \<exists>n t'. delete q t = Some (n, t') \<and> lookup q t = Some n \<and>
          key t' = key t \<and> inv t' (N - {n}) \<and> (n = 0 \<longrightarrow> t' = t)"
begin

text \<open>With distinct keys a lookup is exact.\<close>

lemma lookup_unique:
  assumes "inv t N" "inj_on (key t) N" "n \<in> N" "key t n = wanted q"
  shows "lookup q t = Some n"
proof -
  from lookup_spec [OF assms(1), of q] obtain m where
    m: "lookup q t = Some m" "if m = 0 then \<forall>x\<in>N. key t x \<noteq> wanted q else m \<in> N \<and> key t m = wanted q"
    by blast
  then have "m \<in> N" "key t m = key t n" using assms(3,4) by (auto split: if_splits)
  then have "m = n" using assms(2,3) by (metis inj_onD)
  with m show ?thesis by simp
qed

lemma lookup_missing: "inv t N \<Longrightarrow> wanted q \<notin> key t ` N \<Longrightarrow> lookup q t = Some 0"
  using lookup_spec [of t N q] by (auto split: if_splits) (metis image_eqI)

lemma lookup_found:
  assumes "inv t N" "lookup q t = Some n" "n \<noteq> 0"
  shows "n \<in> N" "key t n = wanted q"
  using lookup_spec [OF assms(1), of q] assms(2,3) by auto

text \<open>A node that was added is found; the other keys are looked up as before.\<close>

lemma lookup_add_same:
  assumes "inv t N" "m \<noteq> 0" "m \<notin> N" "key t m \<notin> key t ` N" "key t m = wanted q"
  shows "lookup q (add m t) = Some m"
proof -
  from lookup_spec [OF add_inv [OF assms(1-3)], of q] obtain n where
    n: "lookup q (add m t) = Some n"
       "if n = 0 then \<forall>x\<in>insert m N. key t x \<noteq> wanted q else n \<in> insert m N \<and> key t n = wanted q"
    unfolding add_key by blast
  have "wanted q \<noteq> key t n" if "n \<in> N" using that assms(4,5) by auto
  then have "n = m" using n(2) assms(5) by (auto split: if_splits)
  with n show ?thesis by simp
qed

lemma lookup_add_other:
  assumes "inv t N" "m \<noteq> 0" "m \<notin> N" "key t m \<notin> key t ` N" "inj_on (key t) N" "wanted q \<noteq> key t m"
  shows "lookup q (add m t) = lookup q t"
proof (cases "wanted q \<in> key t ` N")
  case True
  then obtain n where n: "n \<in> N" "key t n = wanted q" by auto
  have "inj_on (key (add m t)) (insert m N)" using assms(4,5) by (auto simp: add_key)
  from lookup_unique [OF add_inv [OF assms(1-3)] this, of n q] n
  show ?thesis using lookup_unique [OF assms(1,5) n] by (simp add: add_key)
next
  case False
  have "lookup q (add m t) = Some 0"
    by (rule lookup_missing [OF add_inv [OF assms(1-3)]]) (use False assms(6) in \<open>auto simp: add_key\<close>)
  then show ?thesis using lookup_missing [OF assms(1) False] by simp
qed

text \<open>Removal takes out the node a lookup finds, and its key is gone.\<close>

lemma delete_unique:
  assumes "inv t N" "inj_on (key t) N" "n \<in> N" "key t n = wanted q"
  shows "\<exists>t'. delete q t = Some (n, t') \<and> key t' = key t \<and> inv t' (N - {n})"
  using delete_spec [OF assms(1), of q] lookup_unique [OF assms] by auto

lemma delete_missing: "inv t N \<Longrightarrow> wanted q \<notin> key t ` N \<Longrightarrow> delete q t = Some (0, t)"
  using delete_spec [of t N q] lookup_missing [of t N q] by auto

lemma lookup_after_delete:
  assumes "inv t N" "inj_on (key t) N" "delete q t = Some (n, t')"
  shows "lookup q t' = Some 0"
proof -
  from delete_spec [OF assms(1), of q] assms(3)
  have D: "lookup q t = Some n" "key t' = key t" "inv t' (N - {n})" by auto
  have "wanted q \<notin> key t' ` (N - {n})"
  proof
    assume "wanted q \<in> key t' ` (N - {n})"
    then obtain m where m: "m \<in> N" "m \<noteq> n" "key t m = wanted q" using D(2) by fastforce
    from lookup_unique [OF assms(1,2) m(1,3)] D(1) m show False by simp
  qed
  then show ?thesis by (rule lookup_missing [OF D(3)])
qed

text \<open>Adding a node under a fresh key and removing that key gives the nodes back.\<close>

lemma delete_add:
  assumes "inv t N" "m \<noteq> 0" "m \<notin> N" "key t m \<notin> key t ` N" "key t m = wanted q"
  shows "\<exists>t'. delete q (add m t) = Some (m, t') \<and> inv t' N \<and> lookup q t' = Some 0"
proof -
  obtain t' where t': "delete q (add m t) = Some (m, t')" "key t' = key t" "inv t' N"
    using delete_spec [OF add_inv [OF assms(1-3)], of q] lookup_add_same [OF assms] assms(3)
    by (auto simp: add_key)
  moreover have "lookup q t' = Some 0"
    by (rule lookup_missing [OF t'(3)]) (use assms(4,5) t'(2) in simp)
  ultimately show ?thesis by blast
qed

end

section \<open>The table of pointers\<close>

definition ptr_table_ok :: "nat \<Rightarrow> ptr_table \<Rightarrow> addr set \<Rightarrow> bool" where
  "ptr_table_ok sz t N \<longleftrightarrow>
     (\<exists>bs. buckets_ok (\<lambda>n. mp_hash_next (fst t n)) (\<lambda>n. calc_ptr_hash (mp_ptr (fst t n)) sz) (snd t) sz bs \<and>
           N = nodes sz bs)"

definition ptr_key :: "ptr_table \<Rightarrow> addr \<Rightarrow> addr" where
  "ptr_key t n = mp_ptr (fst t n)"

text \<open>A table depends on the nodes in it only.\<close>

lemma ptr_table_cong:
  assumes "ptr_table_ok sz (h, tbl) N" "\<And>n. n \<in> N \<Longrightarrow> h' n = h n"
  shows "ptr_table_ok sz (h', tbl) N"
proof -
  obtain bs where bs: "buckets_ok (\<lambda>n. mp_hash_next (h n)) (\<lambda>n. calc_ptr_hash (mp_ptr (h n)) sz) tbl sz bs"
    "N = nodes sz bs" using assms(1) by (auto simp: ptr_table_ok_def)
  have "buckets_ok (\<lambda>n. mp_hash_next (h' n)) (\<lambda>n. calc_ptr_hash (mp_ptr (h' n)) sz) tbl sz bs \<longleftrightarrow>
        buckets_ok (\<lambda>n. mp_hash_next (h n)) (\<lambda>n. calc_ptr_hash (mp_ptr (h n)) sz) tbl sz bs"
    by (rule buckets_ok_cong) (use assms(2) bs(2) in auto)
  then show ?thesis using bs by (auto simp: ptr_table_ok_def)
qed

lemma ptr_table_add:
  assumes "ptr_table_ok sz t N" "m \<noteq> 0" "m \<notin> N"
  shows "ptr_table_ok sz (mc_add_ptr_hashtable sz m t) (insert m N)"
proof -
  obtain h tbl where t: "t = (h, tbl)" by (cases t)
  obtain bs where bs: "buckets_ok (\<lambda>n. mp_hash_next (h n)) (\<lambda>n. calc_ptr_hash (mp_ptr (h n)) sz) tbl sz bs"
    "N = nodes sz bs" using assms(1) t by (auto simp: ptr_table_ok_def)
  let ?k = "calc_ptr_hash (mp_ptr (h m)) sz"
  have k: "?k < sz" using bs(1) by (simp add: hash_lt buckets_ok_def)
  have nx: "(\<lambda>n. mp_hash_next ((h(m := (h m)\<lparr>mp_hash_next := q\<rparr>)) n)) = (\<lambda>n. mp_hash_next (h n))(m := q)" for q
    by auto
  have hsh: "(\<lambda>n. calc_ptr_hash (mp_ptr ((h(m := (h m)\<lparr>mp_hash_next := q\<rparr>)) n)) sz) =
      (\<lambda>n. calc_ptr_hash (mp_ptr (h n)) sz)" for q by auto
  from buckets_push [OF bs(1), of m] assms(2,3) bs(2) k nodes_push [OF k, of bs m]
  show ?thesis unfolding ptr_table_ok_def mc_add_ptr_hashtable_def t Let_def prod.case fst_conv snd_conv nx hsh
    by blast
qed

lemma ptr_table_find:
  assumes "ptr_table_ok sz t N"
  shows "\<exists>n. mc_find_ptr_hashtable sz k t = Some n \<and>
     (if n = 0 then \<forall>m\<in>N. ptr_key t m \<noteq> k else n \<in> N \<and> ptr_key t n = k)"
proof -
  obtain h tbl where t: "t = (h, tbl)" by (cases t)
  obtain bs where bs: "buckets_ok (\<lambda>n. mp_hash_next (h n)) (\<lambda>n. calc_ptr_hash (mp_ptr (h n)) sz) tbl sz bs"
    "N = nodes sz bs" using assms t by (auto simp: ptr_table_ok_def)
  have "0 < sz" using bs(1) by (simp add: buckets_ok_def)
  from bucket_find [where H = "\<lambda>p. calc_ptr_hash p sz", OF bs(1) hash_lt [OF this], of k] show ?thesis
    by (simp only: mc_find_ptr_hashtable_def ptr_key_def t bs(2) prod.case fst_conv)
qed

lemma ptr_table_remove:
  assumes "ptr_table_ok sz t N"
  shows "\<exists>n t'. mc_remove_ptr_hashtable sz k t = Some (n, t') \<and> mc_find_ptr_hashtable sz k t = Some n \<and>
     ptr_key t' = ptr_key t \<and> ptr_table_ok sz t' (N - {n}) \<and> (n = 0 \<longrightarrow> t' = t) \<and>
     (\<forall>m. m \<notin> N \<longrightarrow> fst t' m = fst t m) \<and> fst t' n = fst t n"
proof -
  obtain h tbl where t: "t = (h, tbl)" by (cases t)
  let ?nx = "\<lambda>n. mp_hash_next (h n)" and ?hs = "\<lambda>n. calc_ptr_hash (mp_ptr (h n)) sz"
  obtain bs where bs: "buckets_ok ?nx ?hs tbl sz bs" "N = nodes sz bs"
    using assms t by (auto simp: ptr_table_ok_def)
  have "0 < sz" using bs(1) by (simp add: buckets_ok_def)
  note k = hash_lt [OF this, of k]
  show ?thesis
  proof (cases rule: bucket_find_prev [where H = "\<lambda>p. calc_ptr_hash p sz", OF bs(1) k])
    case (1 prev)
    moreover have "N - {0} = N" using nodes_nonnull [OF bs(1)] bs(2) by simp
    ultimately show ?thesis using assms
      by (simp add: mc_remove_ptr_hashtable_def mc_find_ptr_hashtable_def t)
  next
    case (2 us x vs)
    note U = buckets_unlink [OF bs(1) k 2(1)] and NU = nodes_unlink [OF bs(1) k 2(1)]
    note L = buckets_ok_D(1) [OF bs(1) k]
    show ?thesis
    proof (cases "us = []")
      case True
      then have "mc_remove_ptr_hashtable sz k t = Some (x, (h, tbl(calc_ptr_hash k sz := ?nx x)))"
        using 2 by (simp add: mc_remove_ptr_hashtable_def t)
      moreover have "ptr_table_ok sz (h, tbl(calc_ptr_hash k sz := ?nx x)) (N - {x})"
        using U(1) [OF True] NU bs(2) unfolding ptr_table_ok_def fst_conv snd_conv by blast
      ultimately show ?thesis using 2 by (simp add: mc_find_ptr_hashtable_def ptr_key_def t fun_eq_iff)
    next
      case False
      let ?l = "last us" and ?h = "h(last us := (h (last us))\<lparr>mp_hash_next := ?nx x\<rparr>)"
      have lb: "?l \<in> set (bs (calc_ptr_hash k sz))" using 2(1) False by simp
      then have l: "?l \<noteq> 0" "?l \<in> N" using L k bs(2) by (auto dest: lst_nonnull_mem simp: nodes_UN)
      have lx: "?l \<noteq> x" using lst_distinct [OF L] 2(1) False by auto
      have r: "mc_remove_ptr_hashtable sz k t = Some (x, (?h, tbl))"
        using 2 False l(1) by (simp add: mc_remove_ptr_hashtable_def t)
      have nx: "(\<lambda>n. mp_hash_next (?h n)) = ?nx(?l := ?nx x)" by auto
      have hsh: "(\<lambda>n. calc_ptr_hash (mp_ptr (?h n)) sz) = ?hs" by auto
      have "ptr_table_ok sz (?h, tbl) (N - {x})"
        using U(2) [OF False] NU bs(2) unfolding ptr_table_ok_def fst_conv snd_conv nx hsh by blast
      then show ?thesis using r 2 l lx by (auto simp: mc_find_ptr_hashtable_def ptr_key_def t fun_eq_iff)
    qed
  qed
qed

interpretation ptrs: keyed_table "ptr_table_ok sz" ptr_key "\<lambda>k. k" "mc_add_ptr_hashtable sz"
  "mc_find_ptr_hashtable sz" "mc_remove_ptr_hashtable sz" for sz
proof unfold_locales
  fix t :: ptr_table and N m k
  show "ptr_key (mc_add_ptr_hashtable sz m t) = ptr_key t"
    by (auto simp: mc_add_ptr_hashtable_def ptr_key_def fun_eq_iff Let_def split: prod.splits)
  assume ok: "ptr_table_ok sz t N"
  then show "0 \<notin> N" "finite N" by (auto simp: ptr_table_ok_def dest: nodes_nonnull)
  show "m \<noteq> 0 \<Longrightarrow> m \<notin> N \<Longrightarrow> ptr_table_ok sz (mc_add_ptr_hashtable sz m t) (insert m N)"
    by (rule ptr_table_add [OF ok])
  show "\<exists>n. mc_find_ptr_hashtable sz k t = Some n \<and>
     (if n = 0 then \<forall>m\<in>N. ptr_key t m \<noteq> k else n \<in> N \<and> ptr_key t n = k)"
    by (rule ptr_table_find [OF ok])
  show "\<exists>n t'. mc_remove_ptr_hashtable sz k t = Some (n, t') \<and> mc_find_ptr_hashtable sz k t = Some n \<and>
     ptr_key t' = ptr_key t \<and> ptr_table_ok sz t' (N - {n}) \<and> (n = 0 \<longrightarrow> t' = t)"
    using ptr_table_remove [OF ok] by blast
qed

section \<open>The table of call stacks\<close>

definition cs_key :: "callstack \<Rightarrow> int \<times> addr list" where
  "cs_key c = (cs_depth c, take (nat (cs_depth c)) (cs_trace c))"

lemma mc_match_callstack_key: "mc_match_callstack c1 c2 = 0 \<longleftrightarrow> cs_key c1 = cs_key c2"
  by (auto simp: mc_match_callstack_def cs_key_def)

definition trace_hash :: "nat \<Rightarrow> int \<times> addr list \<Rightarrow> nat" where
  "trace_hash sz k = unat (fold (\<lambda>a val. val + a) (snd k) 0) mod sz"

lemma calc_callstack_hash_key: "calc_callstack_hash c sz = trace_hash sz (cs_key c)"
  by (simp add: calc_callstack_hash_def trace_hash_def cs_key_def)

definition cs_table_ok :: "nat \<Rightarrow> callstack_table \<Rightarrow> addr set \<Rightarrow> bool" where
  "cs_table_ok sz t N \<longleftrightarrow>
     (\<exists>bs. buckets_ok (\<lambda>n. cs_hash_next (fst t n)) (\<lambda>n. trace_hash sz (cs_key (fst t n))) (snd t) sz bs \<and>
           N = nodes sz bs)"

definition cs_node_key :: "callstack_table \<Rightarrow> addr \<Rightarrow> int \<times> addr list" where
  "cs_node_key t n = cs_key (fst t n)"

lemma cs_table_cong:
  assumes "cs_table_ok sz (h, tbl) N"
    and "\<And>n. n \<in> N \<Longrightarrow> cs_hash_next (h' n) = cs_hash_next (h n) \<and> cs_key (h' n) = cs_key (h n)"
  shows "cs_table_ok sz (h', tbl) N"
proof -
  obtain bs where bs: "buckets_ok (\<lambda>n. cs_hash_next (h n)) (\<lambda>n. trace_hash sz (cs_key (h n))) tbl sz bs"
    "N = nodes sz bs" using assms(1) by (auto simp: cs_table_ok_def)
  have "buckets_ok (\<lambda>n. cs_hash_next (h' n)) (\<lambda>n. trace_hash sz (cs_key (h' n))) tbl sz bs \<longleftrightarrow>
        buckets_ok (\<lambda>n. cs_hash_next (h n)) (\<lambda>n. trace_hash sz (cs_key (h n))) tbl sz bs"
    by (rule buckets_ok_cong) (use assms(2) bs(2) in auto)
  then show ?thesis using bs by (auto simp: cs_table_ok_def)
qed

lemma cs_table_add:
  assumes "cs_table_ok sz t N" "m \<noteq> 0" "m \<notin> N"
  shows "cs_table_ok sz (mc_add_callstack_hashtable sz m t) (insert m N)"
proof -
  obtain h tbl where t: "t = (h, tbl)" by (cases t)
  obtain bs where bs: "buckets_ok (\<lambda>n. cs_hash_next (h n)) (\<lambda>n. trace_hash sz (cs_key (h n))) tbl sz bs"
    "N = nodes sz bs" using assms(1) t by (auto simp: cs_table_ok_def)
  let ?k = "trace_hash sz (cs_key (h m))"
  have k: "?k < sz" using bs(1) by (simp add: trace_hash_def buckets_ok_def)
  have nx: "(\<lambda>n. cs_hash_next ((h(m := (h m)\<lparr>cs_hash_next := q\<rparr>)) n)) = (\<lambda>n. cs_hash_next (h n))(m := q)" for q
    by auto
  have hsh: "(\<lambda>n. trace_hash sz (cs_key ((h(m := (h m)\<lparr>cs_hash_next := q\<rparr>)) n))) =
      (\<lambda>n. trace_hash sz (cs_key (h n)))" for q by (auto simp: cs_key_def)
  from buckets_push [OF bs(1), of m] assms(2,3) bs(2) k nodes_push [OF k, of bs m]
  show ?thesis
    unfolding cs_table_ok_def mc_add_callstack_hashtable_def calc_callstack_hash_key t Let_def prod.case
      fst_conv snd_conv nx hsh
    by blast
qed

lemma cs_table_find:
  assumes "cs_table_ok sz t N"
  shows "\<exists>n. mc_find_callstack_hashtable sz c t = Some n \<and>
     (if n = 0 then \<forall>m\<in>N. cs_node_key t m \<noteq> cs_key c else n \<in> N \<and> cs_node_key t n = cs_key c)"
proof -
  obtain h tbl where t: "t = (h, tbl)" by (cases t)
  obtain bs where bs: "buckets_ok (\<lambda>n. cs_hash_next (h n)) (\<lambda>n. trace_hash sz (cs_key (h n))) tbl sz bs"
    "N = nodes sz bs" using assms t by (auto simp: cs_table_ok_def)
  have "trace_hash sz (cs_key c) < sz" using bs(1) by (simp add: buckets_ok_def trace_hash_def)
  from bucket_find [where H = "trace_hash sz", OF bs(1) this] show ?thesis
    by (simp only: mc_find_callstack_hashtable_def mc_match_callstack_key calc_callstack_hash_key
        cs_node_key_def t bs(2) prod.case fst_conv)
qed

lemma cs_table_remove:
  assumes "cs_table_ok sz t N"
  shows "\<exists>n t'. mc_remove_callstack_hashtable sz c t = Some (n, t') \<and>
     mc_find_callstack_hashtable sz c t = Some n \<and>
     cs_node_key t' = cs_node_key t \<and> cs_table_ok sz t' (N - {n}) \<and> (n = 0 \<longrightarrow> t' = t)"
proof -
  obtain h tbl where t: "t = (h, tbl)" by (cases t)
  let ?nx = "\<lambda>n. cs_hash_next (h n)" and ?hs = "\<lambda>n. trace_hash sz (cs_key (h n))"
  let ?k = "trace_hash sz (cs_key c)"
  obtain bs where bs: "buckets_ok ?nx ?hs tbl sz bs" "N = nodes sz bs"
    using assms t by (auto simp: cs_table_ok_def)
  have k: "?k < sz" using bs(1) by (simp add: buckets_ok_def trace_hash_def)
  note defs = mc_remove_callstack_hashtable_def mc_find_callstack_hashtable_def
    mc_match_callstack_key calc_callstack_hash_key t
  show ?thesis
  proof (cases rule: bucket_find_prev [where H = "trace_hash sz", OF bs(1) k])
    case (1 prev)
    moreover have "N - {0} = N" using nodes_nonnull [OF bs(1)] bs(2) by simp
    ultimately show ?thesis using assms by (simp add: defs)
  next
    case (2 us x vs)
    note U = buckets_unlink [OF bs(1) k 2(1)] and NU = nodes_unlink [OF bs(1) k 2(1)]
    note L = buckets_ok_D(1) [OF bs(1) k]
    show ?thesis
    proof (cases "us = []")
      case True
      then have "mc_remove_callstack_hashtable sz c t = Some (x, (h, tbl(?k := ?nx x)))"
        using 2 by (simp add: defs)
      moreover have "cs_table_ok sz (h, tbl(?k := ?nx x)) (N - {x})"
        using U(1) [OF True] NU bs(2) unfolding cs_table_ok_def fst_conv snd_conv by blast
      ultimately show ?thesis using 2 by (simp add: defs cs_node_key_def fun_eq_iff)
    next
      case False
      let ?l = "last us" and ?h = "h(last us := (h (last us))\<lparr>cs_hash_next := ?nx x\<rparr>)"
      have "?l \<in> set (bs ?k)" using 2(1) False by simp
      then have l: "?l \<noteq> 0" using L by (auto dest: lst_nonnull_mem)
      have r: "mc_remove_callstack_hashtable sz c t = Some (x, (?h, tbl))"
        using 2 False l by (simp add: defs)
      have nx: "(\<lambda>n. cs_hash_next (?h n)) = ?nx(?l := ?nx x)" by auto
      have hsh: "(\<lambda>n. trace_hash sz (cs_key (?h n))) = ?hs" by (auto simp: cs_key_def)
      have "cs_table_ok sz (?h, tbl) (N - {x})"
        using U(2) [OF False] NU bs(2) unfolding cs_table_ok_def fst_conv snd_conv nx hsh by blast
      then show ?thesis using r 2 by (auto simp: defs cs_node_key_def cs_key_def fun_eq_iff)
    qed
  qed
qed

interpretation stacks: keyed_table "cs_table_ok sz" cs_node_key cs_key "mc_add_callstack_hashtable sz"
  "mc_find_callstack_hashtable sz" "mc_remove_callstack_hashtable sz" for sz
proof unfold_locales
  fix t :: callstack_table and N m c
  show "cs_node_key (mc_add_callstack_hashtable sz m t) = cs_node_key t"
    by (auto simp: mc_add_callstack_hashtable_def cs_node_key_def cs_key_def fun_eq_iff Let_def split: prod.splits)
  assume ok: "cs_table_ok sz t N"
  then show "0 \<notin> N" "finite N" by (auto simp: cs_table_ok_def dest: nodes_nonnull)
  show "m \<noteq> 0 \<Longrightarrow> m \<notin> N \<Longrightarrow> cs_table_ok sz (mc_add_callstack_hashtable sz m t) (insert m N)"
    by (rule cs_table_add [OF ok])
  show "\<exists>n. mc_find_callstack_hashtable sz c t = Some n \<and>
     (if n = 0 then \<forall>m\<in>N. cs_node_key t m \<noteq> cs_key c else n \<in> N \<and> cs_node_key t n = cs_key c)"
    by (rule cs_table_find [OF ok])
  show "\<exists>n t'. mc_remove_callstack_hashtable sz c t = Some (n, t') \<and>
     mc_find_callstack_hashtable sz c t = Some n \<and>
     cs_node_key t' = cs_node_key t \<and> cs_table_ok sz t' (N - {n}) \<and> (n = 0 \<longrightarrow> t' = t)"
    by (rule cs_table_remove [OF ok])
qed

end
