(* ===== verification/MC_Filemap.thy ===== *)
theory MC_Filemap
  imports MC_Align
begin

text \<open>
  The executable mappings of the process, \<open>memchk_filemap.c\<close>, and the symbol lookup built on
  them, \<open>memchk_symbol.c\<close>. The lines of \<open>/proc/self/maps\<close>, the answers of \<open>mmap\<close> and of the C
  library's allocator, and the BFD library are the environment: lists of answers in the state
  and the record \<open>bfd_api\<close>. A read of an uninitialised buffer, a token that does not fit the
  buffer it is read into, and an access outside the mapped array are \<open>None\<close>.

  \<open>libc_frees\<close> records the calls of the C library's \<open>free\<close>, so that a double free is a property
  of a state. The mutexes only bracket the operations.
\<close>

section \<open>Data\<close>

record filemap =
  fl_start_addr :: addr
  fl_end_addr :: addr
  fl_file_offset :: u64
  fl_name :: string
  fl_abfd :: nat                       \<comment> \<open>a handle of the BFD library, 0 for null\<close>
  fl_symbols :: addr

record bfd_section =
  sec_alloc :: bool                    \<comment> \<open>\<open>SEC_ALLOC\<close> among its flags\<close>
  sec_vma :: u64
  sec_size :: u64

type_synonym line_info = "string option \<times> string option \<times> int"   \<comment> \<open>file, function, line\<close>

record bfd_api =
  bfd_openr :: "string \<Rightarrow> nat"
  bfd_symtab_bound :: "nat \<Rightarrow> int"
  bfd_dynamic_bound :: "nat \<Rightarrow> int"
  bfd_canon_symtab :: "nat \<Rightarrow> int"
  bfd_canon_dynamic :: "nat \<Rightarrow> int"
  bfd_sections :: "nat \<Rightarrow> bfd_section list"
  bfd_nearest_line :: "nat \<Rightarrow> addr \<Rightarrow> bfd_section \<Rightarrow> u64 \<Rightarrow> line_info option"
  bfd_inliner :: "nat \<Rightarrow> u64 \<Rightarrow> nat \<Rightarrow> line_info option"   \<comment> \<open>the n-th caller it was inlined in\<close>
  bfd_demangle :: "nat \<Rightarrow> string \<Rightarrow> string option"

text \<open>The C library's allocator: what its coming calls answer, and the blocks given back to it.\<close>

record libc_env =
  libc_mallocs :: "(size_t \<Rightarrow> addr) list"
  libc_reallocs :: "(addr \<Rightarrow> size_t \<Rightarrow> addr) list"
  libc_callocs :: "(size_t \<Rightarrow> size_t \<Rightarrow> addr) list"
  libc_frees :: "addr list"            \<comment> \<open>the arguments of \<open>free\<close> so far, latest first\<close>

definition orig_malloc :: "size_t \<Rightarrow> libc_env \<Rightarrow> addr \<times> libc_env" where
  "orig_malloc n e =
     (case libc_mallocs e of [] \<Rightarrow> (NULL, e) | f # fs \<Rightarrow> (f n, e\<lparr>libc_mallocs := fs\<rparr>))"

definition orig_realloc :: "addr \<Rightarrow> size_t \<Rightarrow> libc_env \<Rightarrow> addr \<times> libc_env" where
  "orig_realloc p n e =
     (case libc_reallocs e of [] \<Rightarrow> (NULL, e) | f # fs \<Rightarrow> (f p n, e\<lparr>libc_reallocs := fs\<rparr>))"

definition orig_calloc :: "size_t \<Rightarrow> size_t \<Rightarrow> libc_env \<Rightarrow> addr \<times> libc_env" where
  "orig_calloc k n e =
     (case libc_callocs e of [] \<Rightarrow> (NULL, e) | f # fs \<Rightarrow> (f k n, e\<lparr>libc_callocs := fs\<rparr>))"

definition orig_free :: "addr \<Rightarrow> libc_env \<Rightarrow> libc_env" where
  "orig_free p e = e\<lparr>libc_frees := p # libc_frees e\<rparr>"

record filemap_state =
  fs_array :: "filemap list"
  fs_mapped :: bool
  fs_cnt :: int
  fs_usage_cnt :: int
  fs_size :: size_t
  fs_maps :: "string list list"        \<comment> \<open>what the coming passes over \<open>/proc/self/maps\<close> read\<close>
  fs_mmaps :: "bool list"              \<comment> \<open>whether the coming calls of \<open>mmap\<close> succeed\<close>
  fs_libc :: libc_env
  fs_bfd :: bfd_api

record funcsymbol =
  fsym_funcname :: string
  fsym_srcfilename :: string
  fsym_line :: int

definition SIZEOF_FILEMAP :: size_t where "SIZEOF_FILEMAP = 296"
definition MAX_FILEMAPNAME_LEN :: nat where "MAX_FILEMAPNAME_LEN = 256"
definition MAX_SYMFUNCNAME_LEN :: nat where "MAX_SYMFUNCNAME_LEN = 1024"
definition MAX_SYMFILENAME_LEN :: nat where "MAX_SYMFILENAME_LEN = 512"

definition zero_filemap :: filemap where
  "zero_filemap = \<lparr>fl_start_addr = 0, fl_end_addr = 0, fl_file_offset = 0, fl_name = [], fl_abfd = 0, fl_symbols = 0\<rparr>"

section \<open>Reading a line\<close>

definition isspace :: "char \<Rightarrow> bool" where
  "isspace c \<longleftrightarrow> c \<in> {CHR '' '', CHR 0x09, CHR 0x0A, CHR 0x0B, CHR 0x0C, CHR 0x0D}"

fun scan_words :: "string \<Rightarrow> string \<Rightarrow> string list" where
  "scan_words acc [] = (if acc = [] then [] else [rev acc])"
| "scan_words acc (c # cs) =
     (if isspace c then (if acc = [] then scan_words [] cs else rev acc # scan_words [] cs)
      else scan_words (c # acc) cs)"

definition hex_digit :: "char \<Rightarrow> nat option" where
  "hex_digit c =
     (let n = of_char c :: nat in
      if 48 \<le> n \<and> n \<le> 57 then Some (n - 48)
      else if 97 \<le> n \<and> n \<le> 102 then Some (n - 87)
      else if 65 \<le> n \<and> n \<le> 70 then Some (n - 55)
      else None)"

fun hex_value :: "nat \<Rightarrow> string \<Rightarrow> nat \<times> string" where
  "hex_value v [] = (v, [])"
| "hex_value v (c # cs) =
     (case hex_digit c of None \<Rightarrow> (v, c # cs) | Some d \<Rightarrow> hex_value (16 * v + d) cs)"

text \<open>
  \<open>%lx\<close> on digits as the kernel writes them (no sign, no \<open>0x\<close>); a value that does not fit is
  clamped. \<open>None\<close> when there is no digit, and then the variable keeps its value.
\<close>

definition scan_hex :: "string \<Rightarrow> (u64 \<times> string) option" where
  "scan_hex s =
     (case s of [] \<Rightarrow> None
      | c # cs \<Rightarrow>
          if hex_digit c = None then None
          else (case hex_value 0 s of (v, rest) \<Rightarrow> Some (of_nat (min v (2 ^ 64 - 1)), rest)))"

text \<open>The local variables of \<open>__init_filemaps\<close>, \<open>None\<close> while uninitialised.\<close>

record maps_vars =
  mv_caddr :: "string option"
  mv_cperm :: "string option"
  mv_coffset :: "string option"
  mv_cfile :: "string option"
  mv_start :: "u64 option"
  mv_end :: "u64 option"
  mv_offset :: "u64 option"

definition no_vars :: maps_vars where
  "no_vars = \<lparr>mv_caddr = None, mv_cperm = None, mv_coffset = None, mv_cfile = None,
              mv_start = None, mv_end = None, mv_offset = None\<rparr>"

text \<open>\<open>%s\<close> into a buffer of \<open>n\<close> bytes: the \<open>i\<close>-th word when there is one.\<close>

definition scan_word :: "nat \<Rightarrow> string list \<Rightarrow> nat \<Rightarrow> string option \<Rightarrow> string option option" where
  "scan_word n ws i old =
     (if i < length ws then (if length (ws ! i) < n then Some (Some (ws ! i)) else None) else Some old)"

text \<open>\<open>cperm[2]\<close> of a string: the byte behind its end is the terminator.\<close>

definition third_char :: "string option \<Rightarrow> char option" where
  "third_char s =
     (case s of None \<Rightarrow> None
      | Some p \<Rightarrow> if length p < 2 then None else if length p = 2 then Some (CHR 0x00) else Some (p ! 2))"

definition scan_line3 :: "string \<Rightarrow> maps_vars \<Rightarrow> maps_vars option" where
  "scan_line3 buf v =
     do {
       let ws = scan_words [] buf;
       caddr \<leftarrow> scan_word 40 ws 0 (mv_caddr v);
       cperm \<leftarrow> scan_word 8 ws 1 (mv_cperm v);
       tmp \<leftarrow> scan_word 512 ws 2 None;
       Some (v\<lparr>mv_caddr := caddr, mv_cperm := cperm\<rparr>)
     }"

definition scan_line6 :: "string \<Rightarrow> maps_vars \<Rightarrow> maps_vars option" where
  "scan_line6 buf v =
     do {
       let ws = scan_words [] buf;
       caddr \<leftarrow> scan_word 40 ws 0 (mv_caddr v);
       cperm \<leftarrow> scan_word 8 ws 1 (mv_cperm v);
       coffset \<leftarrow> scan_word 10 ws 2 (mv_coffset v);
       tmp \<leftarrow> scan_word 512 ws 3 None;
       tmp \<leftarrow> scan_word 512 ws 4 None;
       cfile \<leftarrow> scan_word 512 ws 5 (mv_cfile v);
       Some (v\<lparr>mv_caddr := caddr, mv_cperm := cperm, mv_coffset := coffset, mv_cfile := cfile\<rparr>)
     }"

text \<open>\<open>sscanf(caddr, "%lx-%lx", ...)\<close> and \<open>sscanf(coffset, "%lx", ...)\<close>.\<close>

definition scan_range :: "string \<Rightarrow> maps_vars \<Rightarrow> maps_vars" where
  "scan_range s v =
     (case scan_hex s of None \<Rightarrow> v
      | Some (a, rest) \<Rightarrow>
          let v = v\<lparr>mv_start := Some a\<rparr> in
          (case rest of
             CHR ''-'' # rest \<Rightarrow>
               (case scan_hex rest of None \<Rightarrow> v | Some (b, _) \<Rightarrow> v\<lparr>mv_end := Some b\<rparr>)
           | _ \<Rightarrow> v))"

definition scan_offset :: "string \<Rightarrow> maps_vars \<Rightarrow> maps_vars" where
  "scan_offset s v = (case scan_hex s of None \<Rightarrow> v | Some (a, _) \<Rightarrow> v\<lparr>mv_offset := Some a\<rparr>)"

section \<open>The table of mappings\<close>

definition next_maps :: "filemap_state \<Rightarrow> string list \<times> filemap_state" where
  "next_maps fs = (case fs_maps fs of [] \<Rightarrow> ([], fs) | m # ms \<Rightarrow> (m, fs\<lparr>fs_maps := ms\<rparr>))"

definition alloc_filemaps :: "filemap_state \<Rightarrow> (int \<times> filemap_state) option" where
  "alloc_filemaps fs =
     do {
       sz \<leftarrow> get_aligned_size (SIZEOF_FILEMAP * size_of_int (fs_cnt fs)) (of_nat PAGE_SIZE);
       let fs = fs\<lparr>fs_size := sz\<rparr>;
       (case fs_mmaps fs of
          True # ms \<Rightarrow>
            Some (0, fs\<lparr>fs_mmaps := ms, fs_mapped := True,
                        fs_array := replicate (unat sz div unat SIZEOF_FILEMAP) zero_filemap\<rparr>)
        | ms \<Rightarrow> Some (- 1, fs\<lparr>fs_mmaps := tl ms, fs_mapped := False, fs_array := []\<rparr>))
     }"

definition add_filemap :: "nat \<Rightarrow> addr \<Rightarrow> addr \<Rightarrow> u64 \<Rightarrow> string \<Rightarrow> filemap_state \<Rightarrow> filemap_state option" where
  "add_filemap idx start end offset name fs =
     (if idx < length (fs_array fs) then
        Some (fs\<lparr>fs_array := (fs_array fs)[idx :=
          \<lparr>fl_start_addr = start, fl_end_addr = end, fl_file_offset = offset,
           fl_name = take (MAX_FILEMAPNAME_LEN - 1) name, fl_abfd = 0, fl_symbols = NULL\<rparr>]\<rparr>)
      else None)"

fun count_filemaps :: "string list \<Rightarrow> maps_vars \<Rightarrow> int \<Rightarrow> (int \<times> maps_vars) option" where
  "count_filemaps [] v cnt = Some (cnt, v)"
| "count_filemaps (buf # bufs) v cnt =
     do {
       v \<leftarrow> scan_line3 buf v;
       c \<leftarrow> third_char (mv_cperm v);
       count_filemaps bufs v (if c = CHR ''x'' then cnt + 1 else cnt)
     }"

fun read_filemaps :: "string list \<Rightarrow> maps_vars \<Rightarrow> nat \<Rightarrow> filemap_state \<Rightarrow> filemap_state option" where
  "read_filemaps [] v i fs = Some fs"
| "read_filemaps (buf # bufs) v i fs =
     do {
       v \<leftarrow> scan_line6 buf v;
       c \<leftarrow> third_char (mv_cperm v);
       (if c = CHR ''x'' then do {
          caddr \<leftarrow> mv_caddr v;
          let v = scan_range caddr v;
          coffset \<leftarrow> mv_coffset v;
          let v = scan_offset coffset v;
          start \<leftarrow> mv_start v; end \<leftarrow> mv_end v; offset \<leftarrow> mv_offset v; cfile \<leftarrow> mv_cfile v;
          fs \<leftarrow> add_filemap i start end offset cfile fs;
          read_filemaps bufs v (i + 1) fs
        } else read_filemaps bufs v i fs)
     }"

definition init_filemaps :: "filemap_state \<Rightarrow> (int \<times> filemap_state) option" where
  "init_filemaps fs =
     (if fs_usage_cnt fs \<noteq> 0 then Some (0, fs\<lparr>fs_usage_cnt := fs_usage_cnt fs + 1\<rparr>)
      else do {
        let (lines, fs) = next_maps fs;
        (cnt, v) \<leftarrow> count_filemaps lines no_vars 0;
        (rc, fs) \<leftarrow> alloc_filemaps (fs\<lparr>fs_cnt := cnt\<rparr>);
        (if rc < 0 then Some (- 1, fs)
         else do {
           let (lines, fs) = next_maps fs;
           fs \<leftarrow> read_filemaps lines v 0 fs;
           Some (0, fs\<lparr>fs_usage_cnt := fs_usage_cnt fs + 1\<rparr>)
         })
      })"

definition mc_init_filemaps_from_procmap :: "filemap_state \<Rightarrow> (int \<times> filemap_state) option" where
  "mc_init_filemaps_from_procmap fs = init_filemaps fs"

definition fs_free :: "addr \<Rightarrow> filemap_state \<Rightarrow> filemap_state" where
  "fs_free p fs = fs\<lparr>fs_libc := orig_free p (fs_libc fs)\<rparr>"

definition fs_malloc :: "size_t \<Rightarrow> filemap_state \<Rightarrow> addr \<times> filemap_state" where
  "fs_malloc n fs = (case orig_malloc n (fs_libc fs) of (p, e) \<Rightarrow> (p, fs\<lparr>fs_libc := e\<rparr>))"

definition upd_filemap :: "nat \<Rightarrow> (filemap \<Rightarrow> filemap) \<Rightarrow> filemap_state \<Rightarrow> filemap_state" where
  "upd_filemap i f fs = fs\<lparr>fs_array := (fs_array fs)[i := f (fs_array fs ! i)]\<rparr>"

definition term_bfd_filemap :: "nat \<Rightarrow> filemap_state \<Rightarrow> filemap_state option" where
  "term_bfd_filemap i fs =
     (if i < length (fs_array fs) then
        let fs = (if fl_abfd (fs_array fs ! i) \<noteq> 0 then upd_filemap i (\<lambda>f. f\<lparr>fl_abfd := 0\<rparr>) fs else fs) in
        Some (if fl_symbols (fs_array fs ! i) \<noteq> NULL
              then upd_filemap i (\<lambda>f. f\<lparr>fl_symbols := NULL\<rparr>) (fs_free (fl_symbols (fs_array fs ! i)) fs)
              else fs)
      else None)"

fun term_bfd_filemaps :: "nat list \<Rightarrow> filemap_state \<Rightarrow> filemap_state option" where
  "term_bfd_filemaps [] fs = Some fs"
| "term_bfd_filemaps (i # is) fs = do { fs \<leftarrow> term_bfd_filemap i fs; term_bfd_filemaps is fs }"

definition mc_term_filemaps :: "filemap_state \<Rightarrow> filemap_state option" where
  "mc_term_filemaps fs =
     (let fs = fs\<lparr>fs_usage_cnt := fs_usage_cnt fs - 1\<rparr> in
      if fs_usage_cnt fs = 0 then do {
        fs \<leftarrow> term_bfd_filemaps [0..<nat (fs_cnt fs)] fs;
        Some (fs\<lparr>fs_mapped := False, fs_array := []\<rparr>)
      } else Some fs)"

end
