(* ===== verification/MC_Symbol.thy ===== *)
theory MC_Symbol
  imports MC_Filemap
begin

text \<open>
  Symbol lookup: the mapping of an address (\<open>mc_find_filemap\<close>, \<open>mc_find_and_init_bfd_filemap\<close> of
  \<open>memchk_filemap.c\<close>), the BFD object opened on first use, and the function names of
  \<open>memchk_symbol.c\<close>. A name that does not fit its buffer is not terminated there, so reading it is
  \<open>None\<close>, and so is the null handle of a file that the BFD library cannot open. \<open>MC_Mappings\<close> and
  \<open>MC_Lookup\<close> say what the lookup finds.
\<close>

section \<open>Opening the object of a mapping\<close>

definition init_bfd_filemap :: "nat \<Rightarrow> filemap_state \<Rightarrow> (int \<times> filemap_state) option" where
  "init_bfd_filemap i fs =
     (let api = fs_bfd fs; abfd = bfd_openr api (fl_name (fs_array fs ! i)) in
      if abfd = 0 then None        \<comment> \<open>\<open>abfd->flags\<close> of a null handle\<close>
      else
        let fs = upd_filemap i (\<lambda>f. f\<lparr>fl_abfd := abfd\<rparr>) fs;
            storage = bfd_symtab_bound api abfd;
            dynamic = (storage = 0);
            storage = (if dynamic then bfd_dynamic_bound api abfd else storage)
        in
        if storage < 0 then Some (- 1, fs)
        else
          let (symbols, fs) = fs_malloc (size_of_int storage) fs;
              fs = upd_filemap i (\<lambda>f. f\<lparr>fl_symbols := symbols\<rparr>) fs
          in
          if symbols = NULL then Some (- 1, fs)
          else
            let num_sym = (if dynamic then bfd_canon_dynamic api abfd else bfd_canon_symtab api abfd) in
            if num_sym < 0 then Some (- 1, fs_free symbols fs)
            else if num_sym = 0 \<and> \<not> dynamic \<and> bfd_dynamic_bound api abfd > 0 then
              let (symbols', fs) = fs_malloc (size_of_int (bfd_dynamic_bound api abfd)) (fs_free symbols fs) in
              Some (0, upd_filemap i (\<lambda>f. f\<lparr>fl_symbols := symbols'\<rparr>) fs)
            else Some (0, fs))"

definition covers :: "filemap \<Rightarrow> addr \<Rightarrow> bool" where
  "covers f a \<longleftrightarrow> fl_start_addr f \<le> a \<and> a < fl_end_addr f"

text \<open>The loop over the array: the index of the first mapping that contains the address.\<close>

fun find_from :: "addr \<Rightarrow> nat list \<Rightarrow> filemap list \<Rightarrow> nat option option" where
  "find_from a [] fms = Some None"
| "find_from a (i # is) fms =
     (if i < length fms then (if covers (fms ! i) a then Some (Some i) else find_from a is fms)
      else None)"

definition mc_find_filemap :: "addr \<Rightarrow> filemap_state \<Rightarrow> nat option option" where
  "mc_find_filemap a fs = find_from a [0..<nat (fs_cnt fs)] (fs_array fs)"

definition mc_find_and_init_bfd_filemap :: "addr \<Rightarrow> filemap_state \<Rightarrow> (nat option \<times> filemap_state) option" where
  "mc_find_and_init_bfd_filemap a fs =
     do {
       r \<leftarrow> find_from a [0..<nat (fs_cnt fs)] (fs_array fs);
       (case r of
          None \<Rightarrow> Some (None, fs)
        | Some i \<Rightarrow>
            if fl_abfd (fs_array fs ! i) = 0 then do {
              (rc, fs) \<leftarrow> init_bfd_filemap i fs;
              Some (if rc < 0 then None else Some i, fs)
            } else Some (Some i, fs))
     }"

section \<open>Names\<close>

text \<open>\<open>strncpy(dst, s, n)\<close> into an uninitialised buffer of \<open>n + 1\<close> bytes: a string only if it ends.\<close>

definition strncpy_string :: "nat \<Rightarrow> string \<Rightarrow> string option" where
  "strncpy_string n s = (if length s < n then Some s else None)"

text \<open>\<open>bfd_map_over_sections\<close> with \<open>find_address_in_section\<close>: the first section that answers.\<close>

definition find_address_in_section ::
  "bfd_api \<Rightarrow> nat \<Rightarrow> addr \<Rightarrow> u64 \<Rightarrow> bfd_section \<Rightarrow> line_info option \<Rightarrow> line_info option" where
  "find_address_in_section api abfd symbols offset section found =
     (if found \<noteq> None then found
      else if \<not> sec_alloc section then None
      else if offset < sec_vma section then None
      else if sec_vma section + sec_size section \<le> offset then None
      else bfd_nearest_line api abfd symbols section (offset - sec_vma section))"

definition funcsymbol_of :: "bfd_api \<Rightarrow> nat \<Rightarrow> bool \<Rightarrow> string option \<Rightarrow> string \<Rightarrow> int \<Rightarrow> funcsymbol option" where
  "funcsymbol_of api abfd do_demangle file func line =
     do {
       src \<leftarrow> (case file of None \<Rightarrow> Some [] | Some f \<Rightarrow> strncpy_string (MAX_SYMFILENAME_LEN - 1) f);
       fn \<leftarrow> (let d = (if do_demangle then bfd_demangle api abfd func else None) in
              strncpy_string (MAX_SYMFUNCNAME_LEN - 1) (case d of Some alloc \<Rightarrow> alloc | None \<Rightarrow> func));
       Some \<lparr>fsym_funcname = fn, fsym_srcfilename = src, fsym_line = line\<rparr>
     }"

text \<open>The \<open>while (1)\<close> loop over the inlined callers: \<open>i\<close> entries are filled, \<open>left\<close> more fit.\<close>

fun unwind_inline ::
  "bfd_api \<Rightarrow> nat \<Rightarrow> bool \<Rightarrow> u64 \<Rightarrow> nat \<Rightarrow> nat \<Rightarrow> string option \<Rightarrow> string \<Rightarrow> int \<Rightarrow> funcsymbol list option" where
  "unwind_inline api abfd dem offset i left file func line =
     do {
       s \<leftarrow> funcsymbol_of api abfd dem file func line;
       (case left of
          0 \<Rightarrow> Some [s]
        | Suc left' \<Rightarrow>
            (case bfd_inliner api abfd offset i of
               None \<Rightarrow> Some [s]
             | Some (file', Some func', line') \<Rightarrow> do {
                 ss \<leftarrow> unwind_inline api abfd dem offset (i + 1) left' file' func' line';
                 Some (s # ss) }
             | Some (file', None, line') \<Rightarrow> None))
     }"

text \<open>The filled entries of \<open>funcsymbol\<close>; their number is the result of the C function.\<close>

definition mc_get_symbol_from_offset ::
  "bfd_api \<Rightarrow> nat \<Rightarrow> addr \<Rightarrow> u64 \<Rightarrow> bool \<Rightarrow> nat \<Rightarrow> funcsymbol list option" where
  "mc_get_symbol_from_offset api abfd symbols offset do_demangle max_unwind_inline =
     (case fold (find_address_in_section api abfd symbols offset) (bfd_sections api abfd) None of
        Some (file, Some func, line) \<Rightarrow>
          unwind_inline api abfd do_demangle offset 0 (max_unwind_inline - 1) file func line
      | _ \<Rightarrow> Some [])"

text \<open>\<open>Inl ()\<close> is the result -1; otherwise the name of the file, the offset and the symbols.\<close>

definition copy_filemapname :: "nat \<Rightarrow> string \<Rightarrow> string option" where
  "copy_filemapname max_name_len name =
     strncpy_string (if max_name_len > MAX_FILEMAPNAME_LEN then MAX_FILEMAPNAME_LEN - 1 else max_name_len - 1) name"

definition file_offset_of :: "filemap \<Rightarrow> addr \<Rightarrow> u64" where
  "file_offset_of f a = (a - fl_start_addr f) + fl_file_offset f"

definition mc_get_symbol ::
  "addr \<Rightarrow> bool \<Rightarrow> nat \<Rightarrow> nat \<Rightarrow> filemap_state \<Rightarrow>
   ((unit + string \<times> u64 \<times> funcsymbol list) \<times> filemap_state) option" where
  "mc_get_symbol a do_demangle max_name_len max_unwind_inline fs =
     do {
       (r, fs) \<leftarrow> mc_find_and_init_bfd_filemap a fs;
       (case r of
          None \<Rightarrow> Some (Inl (), fs)
        | Some i \<Rightarrow> do {
            let f = fs_array fs ! i;
            name \<leftarrow> copy_filemapname max_name_len (fl_name f);
            let offset = file_offset_of f a;
            syms \<leftarrow> mc_get_symbol_from_offset (fs_bfd fs) (fl_abfd f) (fl_symbols f) offset
                      do_demangle max_unwind_inline;
            Some (Inr (name, offset, syms), fs)
          })
     }"

definition mc_get_symbol_offset :: "addr \<Rightarrow> nat \<Rightarrow> filemap_state \<Rightarrow> (unit + string \<times> u64) option" where
  "mc_get_symbol_offset a max_name_len fs =
     do {
       r \<leftarrow> mc_find_filemap a fs;
       (case r of
          None \<Rightarrow> Some (Inl ())
        | Some i \<Rightarrow> do {
            name \<leftarrow> copy_filemapname max_name_len (fl_name (fs_array fs ! i));
            Some (Inr (name, file_offset_of (fs_array fs ! i) a))
          })
     }"

definition mc_prepare_symbol :: "filemap_state \<Rightarrow> (int \<times> filemap_state) option" where
  "mc_prepare_symbol fs = mc_init_filemaps_from_procmap fs"

definition mc_finish_symbol :: "filemap_state \<Rightarrow> filemap_state option" where
  "mc_finish_symbol fs = mc_term_filemaps fs"

end
