(* ===== verification/MC_State.thy ===== *)
theory MC_State
  imports MC_Alloc_Blk MC_Table MC_Symbol
begin

text \<open>
  The state of the library that is preloaded into a process: the objects it keeps about heap
  blocks (the structures of \<open>memchk.h\<close>), its hash tables, counters and quarantine
  (\<open>memchk_manage_memblk.c\<close>), the memory of the process, the log and the environment.

  Objects live in stores indexed by their address. The \<open>struct memptr\<close> inside an
  \<open>alloc_memblk\<close> or a \<open>free_memblk\<close> is an object of its own, at offset 24 of it, since the hash
  tables link those; \<open>container_of\<close> goes back from it to the block.

  An operation is a function on the state. \<open>None\<close> is an access through a null pointer, an
  undefined conversion or read, or a loop that does not end.
\<close>

section \<open>The structures\<close>

record memblk =
  mb_buf :: addr
  mb_bufsize :: size_t
  mb_usrsize :: size_t

record alloc_memblk =
  am_memblk :: memblk
  am_allocator :: addr
  am_group_prev :: addr
  am_group_next :: addr

record free_memblk =
  fm_memblk :: memblk
  fm_allocator :: addr
  fm_freer :: addr

datatype link_index = LINK_SNAPSHOT | LINK_CURRENT

fun link_no :: "link_index \<Rightarrow> nat" where
  "link_no LINK_SNAPSHOT = 0"
| "link_no LINK_CURRENT = 1"

definition LINK_MAX :: nat where "LINK_MAX = 2"
definition MAX_CALLSTACK_DEPTH :: nat where "MAX_CALLSTACK_DEPTH = 32"
definition FREE_FIFO_SIZE :: nat where "FREE_FIFO_SIZE = 128"
definition REDZONE_SIZE :: size_t where "REDZONE_SIZE = 16"
definition REDZONE_PATTERN :: u8 where "REDZONE_PATTERN = 0x5a"
definition INITBUF_PATTERN :: u8 where "INITBUF_PATTERN = 0xa5"
definition FREEDBUF_PATTERN :: u8 where "FREEDBUF_PATTERN = 0xcc"

text \<open>The four tables of \<open>alloc_memblk\<close> objects: the live one, its working copy, the snapshot
  and the working copy of the snapshot.\<close>

datatype table_id = Live | Copy | Snapshot | Snapshot_Copy

text \<open>The lines of the log, one constructor for a format string. Times of day and blank lines are
  left out.\<close>

datatype log_line =
    Separator
  | Underrun_at_least int addr size_t
  | Underrun int addr size_t
  | Overrun_at_least int addr size_t
  | Overrun int addr size_t
  | Buffer_contents "u8 list"
  | Freed_area_written addr size_t
  | Checked_area int size_t int
  | Detected_at_offset int
  | Allocated_from
  | Freed_from
  | Being_freed_from
  | Then_being_freed_from
  | Illegal_free addr
  | Double_free addr
  | Register_failed                    \<comment> \<open>on the standard output\<close>
  | Realloc_unknown addr               \<comment> \<open>on the standard output\<close>
  | Unknown_file
  | Unknown_symbol addr u64
  | Symbol_line string string addr u64
  | Inline_line string string int
  | Histogram_bin u64 u64 i32
  | Histogram_last u64 i32
  | Block int addr size_t
  | Group int
  | Group_size size_t
  | Group_minus size_t
  | Group_total int
  | Blocks_increased i32
  | No_block_increased
  | Blocks_decreased i32
  | No_block_decreased
  | No_block_changed
  | Pageregion_unmatched u64 u64 u64
  | Vmarea_line u64 u64 u64
  | Vmarea_totals u64 u64
  | Num_blocks i32
  | Allocated_bytes u64
  | Virtual_usage u64
  | In_unit rat string
  | Work_thread
  | All_blocks_ok
  | Creating_snapshot
  | Snapshot_created
  | Snapshot_error
  | Destroying_snapshot
  | Snapshot_destroyed
  | Started                            \<comment> \<open>the lines of \<open>mc_log_init\<close>\<close>

record mc =
  initialized :: bool
  blk :: blk_state
  amp :: "addr \<Rightarrow> memptr"              \<comment> \<open>the \<open>memptr\<close> parts of the \<open>alloc_memblk\<close> objects\<close>
  am :: "addr \<Rightarrow> alloc_memblk"
  fmp :: "addr \<Rightarrow> memptr"              \<comment> \<open>the \<open>memptr\<close> parts of the \<open>free_memblk\<close> objects\<close>
  fm :: "addr \<Rightarrow> free_memblk"
  csh :: "addr \<Rightarrow> callstack"
  ptr_tbls :: "table_id \<Rightarrow> nat \<Rightarrow> addr"
  free_tbl :: "nat \<Rightarrow> addr"
  cs_tbl :: "nat \<Rightarrow> addr"
  num_alloc_memblk :: i32
  num_alloc_cnt :: i32
  num_free_cnt :: i32
  allocated_size :: size_t
  histogram :: "i32 list"
  free_fifo_idx :: nat
  free_memblk_array :: "addr list"
  mem :: "addr \<Rightarrow> u8"
  log :: "log_line list"
  do_not_hook :: int
  fmaps :: filemap_state
  backtraces :: "nat \<Rightarrow> addr list"     \<comment> \<open>what the n-th call of \<open>backtrace\<close> finds\<close>
  num_backtraces :: nat
  sort_mmaps :: "bool list"            \<comment> \<open>whether the coming sort buffers can be mapped\<close>
  qsort :: "(addr \<Rightarrow> addr \<Rightarrow> int) \<Rightarrow> addr list \<Rightarrow> addr list"   \<comment> \<open>of the C library\<close>

section \<open>Access\<close>

definition MEMPTR_OFFSET :: addr where "MEMPTR_OFFSET = 24"

definition get_alloc_memblk_from_memptr :: "addr \<Rightarrow> addr" where
  "get_alloc_memblk_from_memptr memptr = memptr - MEMPTR_OFFSET"

definition get_free_memblk_from_memptr :: "addr \<Rightarrow> addr" where
  "get_free_memblk_from_memptr memptr = memptr - MEMPTR_OFFSET"

text \<open>\<open>&blk->memblk.memptr\<close>\<close>

definition memptr_of :: "addr \<Rightarrow> addr" where
  "memptr_of b = b + MEMPTR_OFFSET"

lemma memptr_of_inverse [simp]:
  "get_alloc_memblk_from_memptr (memptr_of b) = b" "get_free_memblk_from_memptr (memptr_of b) = b"
  "memptr_of (get_alloc_memblk_from_memptr m) = m" "memptr_of (get_free_memblk_from_memptr m) = m"
  by (simp_all add: memptr_of_def get_alloc_memblk_from_memptr_def get_free_memblk_from_memptr_def)

lemma memptr_of_eq [simp]: "memptr_of a = memptr_of b \<longleftrightarrow> a = b"
  by (simp add: memptr_of_def)

lemma inj_memptr_of: "inj_on memptr_of A"
  by (simp add: inj_on_def)

definition upd_am :: "addr \<Rightarrow> (alloc_memblk \<Rightarrow> alloc_memblk) \<Rightarrow> mc \<Rightarrow> mc" where
  "upd_am b f st = st\<lparr>am := (am st)(b := f (am st b))\<rparr>"

definition upd_cs :: "addr \<Rightarrow> (callstack \<Rightarrow> callstack) \<Rightarrow> mc \<Rightarrow> mc" where
  "upd_cs c f st = st\<lparr>csh := (csh st)(c := f (csh st c))\<rparr>"

definition mc_log_print :: "log_line \<Rightarrow> mc \<Rightarrow> mc" where
  "mc_log_print l st = st\<lparr>log := log st @ [l]\<rparr>"

definition mc_disable_hook :: "mc \<Rightarrow> mc" where
  "mc_disable_hook st = st\<lparr>do_not_hook := do_not_hook st + 1\<rparr>"

definition mc_enable_hook :: "mc \<Rightarrow> mc" where
  "mc_enable_hook st = st\<lparr>do_not_hook := do_not_hook st - 1\<rparr>"

definition cs_at :: "addr \<Rightarrow> mc \<Rightarrow> callstack option" where
  "cs_at p st = (if p = NULL then None else Some (csh st p))"

text \<open>\<open>memset(p, v, n)\<close> and a read of \<open>n\<close> bytes.\<close>

definition memset :: "addr \<Rightarrow> u8 \<Rightarrow> size_t \<Rightarrow> (addr \<Rightarrow> u8) \<Rightarrow> addr \<Rightarrow> u8" where
  "memset p v n m = (\<lambda>a. if a - p < n then v else m a)"

definition read_bytes :: "(addr \<Rightarrow> u8) \<Rightarrow> addr \<Rightarrow> nat \<Rightarrow> u8 list" where
  "read_bytes m p n = map (\<lambda>i. m (p + of_nat i)) [0..<n]"

section \<open>Operations of the parts, on the whole state\<close>

definition do_allocate :: "blk_kind \<Rightarrow> mc \<Rightarrow> (addr \<times> mc) option" where
  "do_allocate k st = do { (p, b) \<leftarrow> allocate_kind k (blk st); Some (p, st\<lparr>blk := b\<rparr>) }"

definition do_release :: "blk_kind \<Rightarrow> addr \<Rightarrow> mc \<Rightarrow> mc" where
  "do_release k p st = st\<lparr>blk := free_kind k p (blk st)\<rparr>"

definition ptr_table :: "table_id \<Rightarrow> mc \<Rightarrow> ptr_table" where
  "ptr_table i st = (amp st, ptr_tbls st i)"

definition set_ptr_table :: "table_id \<Rightarrow> ptr_table \<Rightarrow> mc \<Rightarrow> mc" where
  "set_ptr_table i t st = st\<lparr>amp := fst t, ptr_tbls := (ptr_tbls st)(i := snd t)\<rparr>"

definition free_table :: "mc \<Rightarrow> ptr_table" where
  "free_table st = (fmp st, free_tbl st)"

definition set_free_table :: "ptr_table \<Rightarrow> mc \<Rightarrow> mc" where
  "set_free_table t st = st\<lparr>fmp := fst t, free_tbl := snd t\<rparr>"

definition cs_table :: "mc \<Rightarrow> callstack_table" where
  "cs_table st = (csh st, cs_tbl st)"

definition set_cs_table :: "callstack_table \<Rightarrow> mc \<Rightarrow> mc" where
  "set_cs_table t st = st\<lparr>csh := fst t, cs_tbl := snd t\<rparr>"

definition add_ptr :: "table_id \<Rightarrow> addr \<Rightarrow> mc \<Rightarrow> mc" where
  "add_ptr i memptr st =
     set_ptr_table i (mc_add_ptr_hashtable ALLOC_MEMPTR_HASHTABLE_SIZE memptr (ptr_table i st)) st"

definition remove_ptr :: "table_id \<Rightarrow> addr \<Rightarrow> mc \<Rightarrow> (addr \<times> mc) option" where
  "remove_ptr i p st =
     do { (n, t) \<leftarrow> mc_remove_ptr_hashtable ALLOC_MEMPTR_HASHTABLE_SIZE p (ptr_table i st);
          Some (n, set_ptr_table i t st) }"

definition find_ptr :: "table_id \<Rightarrow> addr \<Rightarrow> mc \<Rightarrow> addr option" where
  "find_ptr i p st = mc_find_ptr_hashtable ALLOC_MEMPTR_HASHTABLE_SIZE p (ptr_table i st)"

definition init_fmaps :: "mc \<Rightarrow> mc option" where
  "init_fmaps st = do {
     (rc, fs) \<leftarrow> mc_init_filemaps_from_procmap (fmaps st);
     Some (mc_enable_hook ((mc_disable_hook st)\<lparr>fmaps := fs\<rparr>)) }"

definition term_fmaps :: "mc \<Rightarrow> mc option" where
  "term_fmaps st = do {
     fs \<leftarrow> mc_term_filemaps (fmaps st);
     Some (mc_enable_hook ((mc_disable_hook st)\<lparr>fmaps := fs\<rparr>)) }"

end
