(* ===== verification/MC_Callstack.thy ===== *)
theory MC_Callstack
  imports MC_State
begin

text \<open>
  Call stacks, \<open>memchk_callstack.c\<close>: interning of the current call stack, the groups of blocks
  allocated from one call stack, and printing.
\<close>

section \<open>Interning\<close>

text \<open>\<open>backtrace\<close> fills at most 32 entries. The fields of the local structure that the code does
  not set are indeterminate; they are 0 here, and each is written before it is read.\<close>

definition backtrace :: "mc \<Rightarrow> callstack \<times> mc" where
  "backtrace st =
     (let tr = take MAX_CALLSTACK_DEPTH (backtraces st (num_backtraces st)) in
      (\<lparr>cs_depth = int (length tr), cs_trace = tr, cs_hash_next = 0, cs_group_next = replicate LINK_MAX 0,
        cs_total_size = 0, cs_usage = 0\<rparr>,
       st\<lparr>num_backtraces := num_backtraces st + 1\<rparr>))"

definition find_cs :: "callstack \<Rightarrow> mc \<Rightarrow> addr option" where
  "find_cs c st = mc_find_callstack_hashtable CALLSTACK_HASHTABLE_SIZE c (cs_table st)"

definition add_cs :: "addr \<Rightarrow> mc \<Rightarrow> mc" where
  "add_cs p st = set_cs_table (mc_add_callstack_hashtable CALLSTACK_HASHTABLE_SIZE p (cs_table st)) st"

definition mc_get_callstack :: "mc \<Rightarrow> (addr \<times> mc) option" where
  "mc_get_callstack st =
     do {
       let (callstack, st) = backtrace (mc_disable_hook st);
       let st = mc_enable_hook st;
       p \<leftarrow> find_cs callstack st;
       (if p \<noteq> NULL then Some (p, upd_cs p (\<lambda>c. c\<lparr>cs_usage := cs_usage c + 1\<rparr>) st)
        else do {
          (p, st) \<leftarrow> do_allocate Callstack st;
          (if p = NULL then Some (NULL, st)
           else
             let st = upd_cs p (\<lambda>_. callstack\<lparr>cs_usage := 1, cs_group_next := replicate LINK_MAX NULL\<rparr>) st in
             Some (p, add_cs p st))
        })
     }"

section \<open>Groups\<close>

definition group_head :: "link_index \<Rightarrow> addr \<Rightarrow> mc \<Rightarrow> addr" where
  "group_head l c st = cs_group_next (csh st c) ! link_no l"

definition set_group_head :: "link_index \<Rightarrow> addr \<Rightarrow> addr \<Rightarrow> mc \<Rightarrow> mc" where
  "set_group_head l c b st = upd_cs c (\<lambda>x. x\<lparr>cs_group_next := (cs_group_next x)[link_no l := b]\<rparr>) st"

definition mc_link_memblk_to_callstack :: "addr \<Rightarrow> addr \<Rightarrow> link_index \<Rightarrow> mc \<Rightarrow> mc option" where
  "mc_link_memblk_to_callstack b c l st =
     (if c = NULL then None
      else
        let st = upd_am b (\<lambda>x. x\<lparr>am_group_prev := NULL\<rparr>) st;
            st = upd_am b (\<lambda>x. x\<lparr>am_group_next := group_head l c st\<rparr>) st;
            h = group_head l c st;
            st = (if h \<noteq> NULL then upd_am h (\<lambda>x. x\<lparr>am_group_prev := b\<rparr>) st else st)
        in Some (set_group_head l c b st))"

definition mc_unlink_memblk_from_callstack :: "addr \<Rightarrow> addr \<Rightarrow> link_index \<Rightarrow> mc \<Rightarrow> mc option" where
  "mc_unlink_memblk_from_callstack b c l st =
     (let prev = am_group_prev (am st b); next = am_group_next (am st b) in
      if prev = NULL then
        (if c = NULL then None
         else
           let st = set_group_head l c next st in
           Some (if next \<noteq> NULL then upd_am next (\<lambda>x. x\<lparr>am_group_prev := NULL\<rparr>) st else st))
      else
        let st = upd_am prev (\<lambda>x. x\<lparr>am_group_next := next\<rparr>) st in
        Some (if next \<noteq> NULL then upd_am next (\<lambda>x. x\<lparr>am_group_prev := prev\<rparr>) st else st))"

definition each_alloc_memblk ::
  "table_id \<Rightarrow> (addr \<Rightarrow> mc \<Rightarrow> ('r, mc) flow option) \<Rightarrow> mc \<Rightarrow> ('r, mc) flow option" where
  "each_alloc_memblk i body st =
     for_each_hashnode (\<lambda>st n. mp_hash_next (amp st n)) (\<lambda>st. ptr_tbls st i) ALLOC_MEMPTR_HASHTABLE_SIZE body st"

definition each_callstack :: "(addr \<Rightarrow> mc \<Rightarrow> ('r, mc) flow option) \<Rightarrow> mc \<Rightarrow> ('r, mc) flow option" where
  "each_callstack body st =
     for_each_hashnode (\<lambda>st n. cs_hash_next (csh st n)) cs_tbl CALLSTACK_HASHTABLE_SIZE body st"

definition flow_state :: "('r, 's) flow \<Rightarrow> 's" where
  "flow_state fl = (case fl of Next s \<Rightarrow> s | Ret r s \<Rightarrow> s)"

lemma flow_state_simps [simp]: "flow_state (Next s) = s" "flow_state (Ret r s) = s"
  by (simp_all add: flow_state_def)

definition fall_through :: "mc option \<Rightarrow> (unit, mc) flow option" where
  "fall_through r = do { st \<leftarrow> r; Some (Next st) }"

definition mc_link_same_callstack_group :: "table_id \<Rightarrow> link_index \<Rightarrow> mc \<Rightarrow> mc option" where
  "mc_link_same_callstack_group i l st =
     do {
       fl \<leftarrow> each_alloc_memblk i
         (\<lambda>memptr st. let b = get_alloc_memblk_from_memptr memptr in
            fall_through (mc_link_memblk_to_callstack b (am_allocator (am st b)) l st)) st;
       Some (flow_state fl)
     }"

definition mc_reset_same_callstack_group :: "link_index \<Rightarrow> mc \<Rightarrow> mc option" where
  "mc_reset_same_callstack_group l st =
     do {
       fl \<leftarrow> each_callstack (\<lambda>c st. fall_through (Some (set_group_head l c NULL st))) st;
       Some (flow_state fl)
     }"

section \<open>Printing\<close>

fun print_inlines :: "funcsymbol list \<Rightarrow> mc \<Rightarrow> mc" where
  "print_inlines [] st = st"
| "print_inlines (s # ss) st =
     print_inlines ss
       (if fsym_srcfilename s \<noteq> [] \<and> fsym_line s \<noteq> 0
        then mc_log_print (Inline_line (fsym_funcname s) (fsym_srcfilename s) (fsym_line s)) st else st)"

definition print_frame :: "addr \<Rightarrow> mc \<Rightarrow> mc option" where
  "print_frame a st =
     do {
       (r, fs) \<leftarrow> mc_get_symbol a True MAX_FILEMAPNAME_LEN 10 (fmaps st);
       let st = mc_enable_hook ((mc_disable_hook st)\<lparr>fmaps := fs\<rparr>);
       Some (case r of
          Inl _ \<Rightarrow> mc_log_print Unknown_file st
        | Inr (name, offset, syms) \<Rightarrow>
            (case syms of
               [] \<Rightarrow> mc_log_print (Unknown_symbol a offset) st
             | s # ss \<Rightarrow>
                 print_inlines (s # ss) (mc_log_print (Symbol_line (fsym_funcname s) name a offset) st)))
     }"

fun print_frames :: "addr list \<Rightarrow> mc \<Rightarrow> mc option" where
  "print_frames [] st = Some st"
| "print_frames (a # as) st = do { st \<leftarrow> print_frame a st; print_frames as st }"

text \<open>\<open>for (i = from; i < depth; i++)\<close> over \<open>trace[i]\<close>.\<close>

definition mc_print_callstack :: "int \<Rightarrow> addr list \<Rightarrow> nat \<Rightarrow> mc \<Rightarrow> mc option" where
  "mc_print_callstack depth trace from st = print_frames (map (\<lambda>i. trace ! i) [from..<nat depth]) st"

definition mc_print_current_callstack :: "nat \<Rightarrow> mc \<Rightarrow> mc option" where
  "mc_print_current_callstack from st =
     (let (c, st) = backtrace (mc_disable_hook st) in
      mc_print_callstack (cs_depth c) (cs_trace c) from (mc_enable_hook st))"

end
