(* ===== verification/MC_Buffer.thy ===== *)
theory MC_Buffer
  imports MC_Callstack
begin

text \<open>
  Red zones and fill patterns, \<open>memchk_buffer.c\<close>. A block of the program lies between two red
  zones inside the buffer obtained from the C library; checking an allocated block reads the
  red zones, checking a freed block reads the whole buffer.

  The \<open>int\<close> variables of the code are kept at their width: the sizes of the red zones go
  through \<open>int_of_u64\<close> and come back through \<open>size_of_int\<close>.
\<close>

section \<open>Allocated blocks\<close>

definition mc_set_allocated_buffer :: "addr \<Rightarrow> bool \<Rightarrow> mc \<Rightarrow> mc" where
  "mc_set_allocated_buffer b init_usrptr st =
     (let m = am_memblk (am st b); ptr = mb_buf m; usrptr = mp_ptr (amp st (memptr_of b));
          leading = usrptr - ptr;
          trailing = mb_bufsize m - leading - mb_usrsize m;
          mem1 = memset ptr REDZONE_PATTERN leading (mem st);
          mem2 = (if init_usrptr then memset (ptr + leading) INITBUF_PATTERN (mb_usrsize m) mem1 else mem1)
      in st\<lparr>mem := memset (ptr + leading + mb_usrsize m) REDZONE_PATTERN trailing mem2\<rparr>)"

text \<open>The first bad byte of the leading zone from below, the last one of the trailing zone.\<close>

definition check_leading :: "(addr \<Rightarrow> u8) \<Rightarrow> addr \<Rightarrow> int \<Rightarrow> int option" where
  "check_leading m ptr leading = find (\<lambda>i. m (ptr + of_int i) \<noteq> REDZONE_PATTERN) [0..leading - 1]"

definition check_trailing :: "(addr \<Rightarrow> u8) \<Rightarrow> addr \<Rightarrow> int \<Rightarrow> size_t \<Rightarrow> int \<Rightarrow> int option" where
  "check_trailing m ptr leading usrsize trailing =
     find (\<lambda>i. m (ptr + (size_of_int leading + usrsize + size_of_int i)) \<noteq> REDZONE_PATTERN)
       (rev [0..trailing - 1])"

text \<open>The sizes of the zones as the code computes them, and the reports of the two loops.\<close>

definition leading_size :: "memblk \<Rightarrow> addr \<Rightarrow> int" where
  "leading_size m usrptr = int_of_u64 (usrptr - mb_buf m)"

definition trailing_size :: "memblk \<Rightarrow> addr \<Rightarrow> int" where
  "trailing_size m usrptr = int_of_u64 (mb_bufsize m - size_of_int (leading_size m usrptr) - mb_usrsize m)"

definition check_underrun :: "memblk \<Rightarrow> addr \<Rightarrow> mc \<Rightarrow> bool \<times> mc" where
  "check_underrun m usrptr st =
     (let leading = leading_size m usrptr in
      case check_leading (mem st) (mb_buf m) leading of
        None \<Rightarrow> (False, st)
      | Some i \<Rightarrow>
          let st = mc_log_print Separator st;
              st = mc_log_print (if i = 0 then Underrun_at_least leading usrptr (mb_usrsize m)
                                 else Underrun (leading - i) usrptr (mb_usrsize m)) st
          in (True, mc_log_print (Buffer_contents (read_bytes (mem st) (mb_buf m) (nat leading))) st))"

definition check_overrun :: "memblk \<Rightarrow> addr \<Rightarrow> bool \<Rightarrow> mc \<Rightarrow> bool \<times> mc" where
  "check_overrun m usrptr underrun_error st =
     (let trailing = trailing_size m usrptr in
      case check_trailing (mem st) (mb_buf m) (leading_size m usrptr) (mb_usrsize m) trailing of
        None \<Rightarrow> (False, st)
      | Some i \<Rightarrow>
          let st = (if underrun_error then st else mc_log_print Separator st);
              st = mc_log_print (if i = trailing - 1 then Overrun_at_least trailing usrptr (mb_usrsize m)
                                 else Overrun (i + 1) usrptr (mb_usrsize m)) st
          in (True, mc_log_print
                (Buffer_contents (read_bytes (mem st) (usrptr + mb_usrsize m) (nat trailing))) st))"

definition report_allocated_block :: "addr \<Rightarrow> bool \<Rightarrow> mc \<Rightarrow> mc option" where
  "report_allocated_block allocator freeing_now st =
     do {
       st \<leftarrow> init_fmaps st;
       let st = mc_log_print Allocated_from st;
       c \<leftarrow> cs_at allocator st;
       st \<leftarrow> mc_print_callstack (cs_depth c) (cs_trace c) 2 st;
       st \<leftarrow> (if freeing_now then mc_print_current_callstack 3 (mc_log_print Being_freed_from st) else Some st);
       term_fmaps st
     }"

definition mc_check_allocated_buffer :: "addr \<Rightarrow> bool \<Rightarrow> mc \<Rightarrow> (int \<times> mc) option" where
  "mc_check_allocated_buffer b freeing_now st =
     (let m = am_memblk (am st b);
          usrptr = mp_ptr (amp st (memptr_of b));
          (underrun_error, st) = check_underrun m usrptr st;
          (overrun_error, st) = check_overrun m usrptr underrun_error st
      in
      if underrun_error \<or> overrun_error then do {
        st \<leftarrow> report_allocated_block (am_allocator (am st b)) freeing_now st;
        Some (- 1, st)
      } else Some (0, st))"

section \<open>Freed blocks\<close>

definition mc_set_freed_buffer :: "addr \<Rightarrow> mc \<Rightarrow> mc" where
  "mc_set_freed_buffer b st =
     (let m = fm_memblk (fm st b) in
      st\<lparr>mem := memset (mb_buf m) FREEDBUF_PATTERN (mb_bufsize m) (mem st)\<rparr>)"

text \<open>
  \<open>for (i = 0; i < bufsize; i++)\<close> with an \<open>int\<close> index: past \<open>2 ^ 31\<close> the increment overflows.
  The result is the offset of the first byte that was written.
\<close>

definition check_freed :: "(addr \<Rightarrow> u8) \<Rightarrow> addr \<Rightarrow> size_t \<Rightarrow> nat option option" where
  "check_freed m ptr bufsize =
     (case find (\<lambda>i. m (ptr + of_nat i) \<noteq> FREEDBUF_PATTERN) [0..<min (unat bufsize) (2 ^ 31)] of
        Some i \<Rightarrow> Some (Some i)
      | None \<Rightarrow> if 2 ^ 31 \<le> unat bufsize then None else Some None)"

definition report_freed_block :: "free_memblk \<Rightarrow> addr \<Rightarrow> int \<Rightarrow> mc \<Rightarrow> mc option" where
  "report_freed_block fb usrptr i st =
     do {
       let m = fm_memblk fb;
       let st = mc_log_print (Freed_area_written usrptr (mb_usrsize m)) (mc_log_print Separator st);
       st \<leftarrow> init_fmaps st;
       let st = mc_log_print (Checked_area (leading_size m usrptr) (mb_usrsize m) (trailing_size m usrptr)) st;
       let st = mc_log_print Allocated_from (mc_log_print (Detected_at_offset i) st);
       c \<leftarrow> cs_at (fm_allocator fb) st;
       st \<leftarrow> mc_print_callstack (cs_depth c) (cs_trace c) 2 st;
       let st = mc_log_print Freed_from st;
       c \<leftarrow> cs_at (fm_freer fb) st;
       st \<leftarrow> mc_print_callstack (cs_depth c) (cs_trace c) 2 st;
       term_fmaps st
     }"

definition mc_check_freed_buffer :: "addr \<Rightarrow> mc \<Rightarrow> (int \<times> mc) option" where
  "mc_check_freed_buffer b st =
     do {
       let m = fm_memblk (fm st b);
       r \<leftarrow> check_freed (mem st) (mb_buf m) (mb_bufsize m);
       (case r of
          None \<Rightarrow> Some (0, st)
        | Some i \<Rightarrow> do {
            st \<leftarrow> report_freed_block (fm st b) (mp_ptr (fmp st (memptr_of b))) (int i) st;
            Some (- 1, st)
          })
     }"

end
