(* ===== verification/MC_Sort.thy ===== *)
theory MC_Sort
  imports MC_State
begin

text \<open>
  The sort buffers of \<open>memchk_sort.c\<close>. The comparison functions cast the sizes to \<open>int\<close> and
  subtract, so they are meaningful for sizes below \<open>2 ^ 31\<close>. \<open>qsort\<close> is the C library's; what it
  promises is \<open>sorts\<close>.
\<close>

definition compare_sizes :: "u64 \<Rightarrow> u64 \<Rightarrow> int" where
  "compare_sizes a b = sint (ucast b - ucast a :: i32)"

definition compare_by_alloc_memblk :: "mc \<Rightarrow> addr \<Rightarrow> addr \<Rightarrow> int" where
  "compare_by_alloc_memblk st n1 n2 =
     compare_sizes (mb_usrsize (am_memblk (am st n1))) (mb_usrsize (am_memblk (am st n2)))"

definition compare_per_callstack :: "mc \<Rightarrow> addr \<Rightarrow> addr \<Rightarrow> int" where
  "compare_per_callstack st n1 n2 = compare_sizes (cs_total_size (csh st n1)) (cs_total_size (csh st n2))"

text \<open>\<open>num * sizeof(void *)\<close> bytes, rounded up to pages; whether they could be mapped.\<close>

definition mc_allocate_sort_buffer :: "size_t \<Rightarrow> mc \<Rightarrow> (bool \<times> mc) option" where
  "mc_allocate_sort_buffer num st =
     do {
       alloc_size \<leftarrow> get_aligned_size (num * 8) (of_nat PAGE_SIZE);
       Some (case sort_mmaps st of
          [] \<Rightarrow> (False, st)
        | ok # oks \<Rightarrow> (ok, st\<lparr>sort_mmaps := oks\<rparr>))
     }"

definition mc_sort_by_alloc_memblk :: "addr list \<Rightarrow> mc \<Rightarrow> addr list \<times> mc" where
  "mc_sort_by_alloc_memblk bufs st =
     (let st = mc_disable_hook st in
      (qsort st (compare_by_alloc_memblk st) bufs, mc_enable_hook st))"

definition mc_sort_per_callstack :: "addr list \<Rightarrow> mc \<Rightarrow> addr list \<times> mc" where
  "mc_sort_per_callstack bufs st =
     (let st = mc_disable_hook st in
      (qsort st (compare_per_callstack st) bufs, mc_enable_hook st))"

text \<open>
  The promise of \<open>qsort\<close> for a comparison that orders by a key: the result is a permutation,
  ascending in the key.
\<close>

definition sorts :: "((addr \<Rightarrow> addr \<Rightarrow> int) \<Rightarrow> addr list \<Rightarrow> addr list) \<Rightarrow> bool" where
  "sorts q \<longleftrightarrow>
     (\<forall>cmp xs. mset (q cmp xs) = mset xs) \<and>
     (\<forall>cmp xs key. (\<forall>x\<in>set xs. \<forall>y\<in>set xs. (cmp x y < 0 \<longleftrightarrow> key x < (key y :: int)) \<and> (cmp x y = 0 \<longleftrightarrow> key x = key y)) \<longrightarrow>
        sorted (map key (q cmp xs)))"

lemma sorts_sorted:
  assumes "sorts q"
    and "\<forall>x\<in>set xs. \<forall>y\<in>set xs. (cmp x y < 0 \<longleftrightarrow> key x < (key y :: int)) \<and> (cmp x y = 0 \<longleftrightarrow> key x = key y)"
  shows "sorted (map key (q cmp xs))"
  using assms by (simp add: sorts_def)

lemma compare_sizes_small:
  assumes "unat a < 2 ^ 31" "unat b < 2 ^ 31"
  shows "compare_sizes a b = int (unat b) - int (unat a)"
proof -
  have u: "sint (ucast w :: i32) = int (unat w)" if "unat w < 2 ^ 31" for w :: u64
    using int_of_u64_small [OF that] by (simp add: int_of_u64_def)
  have "sint (ucast b - ucast a :: i32) = signed_take_bit 31 (sint (ucast b :: i32) - sint (ucast a :: i32))"
    by (simp add: sint_word_ariths(2))
  also have "\<dots> = signed_take_bit 31 (int (unat b) - int (unat a))"
    by (simp only: u [OF assms(1)] u [OF assms(2)])
  also have "\<dots> = int (unat b) - int (unat a)"
  proof -
    have "int (unat a) < int (2 ^ 31)" "int (unat b) < int (2 ^ 31)"
      using assms by (simp_all only: of_nat_less_iff)
    moreover have "0 \<le> int (unat a)" "0 \<le> int (unat b)" by (rule of_nat_0_le_iff)+
    ultimately have "- (2 ^ 31) \<le> int (unat b) - int (unat a)" "int (unat b) - int (unat a) < 2 ^ 31"
      unfolding of_nat_power of_nat_numeral by linarith+
    then show ?thesis by (rule signed_take_bit_int_eq_self)
  qed
  finally show ?thesis by (simp add: compare_sizes_def)
qed

text \<open>The blocks come out in descending size, as long as every size is below \<open>2 ^ 31\<close>.\<close>

lemma mc_sort_by_alloc_memblk_sorted:
  assumes "sorts (qsort st)" "\<forall>b\<in>set bufs. unat (mb_usrsize (am_memblk (am st b))) < 2 ^ 31"
  shows "mset (fst (mc_sort_by_alloc_memblk bufs st)) = mset bufs"
    and "sorted (rev (map (\<lambda>b. unat (mb_usrsize (am_memblk (am st b)))) (fst (mc_sort_by_alloc_memblk bufs st))))"
proof -
  let ?size = "\<lambda>b. unat (mb_usrsize (am_memblk (am st b)))"
  let ?cmp = "compare_by_alloc_memblk (mc_disable_hook st)"
  have q: "fst (mc_sort_by_alloc_memblk bufs st) = qsort st ?cmp bufs"
    by (simp add: mc_sort_by_alloc_memblk_def Let_def mc_disable_hook_def)
  show "mset (fst (mc_sort_by_alloc_memblk bufs st)) = mset bufs"
    using assms(1) q by (simp add: sorts_def)
  have cmp: "?cmp x y = int (?size y) - int (?size x)" if "x \<in> set bufs" "y \<in> set bufs" for x y
    using assms(2) that by (simp add: compare_by_alloc_memblk_def mc_disable_hook_def compare_sizes_small)
  have "\<forall>x\<in>set bufs. \<forall>y\<in>set bufs. (?cmp x y < 0 \<longleftrightarrow> - int (?size x) < - int (?size y)) \<and>
      (?cmp x y = 0 \<longleftrightarrow> - int (?size x) = - int (?size y))"
    by (auto simp: cmp)
  then have "sorted (map (\<lambda>b. - int (?size b)) (qsort st ?cmp bufs))"
    by (rule sorts_sorted [OF assms(1)])
  then have "sorted_wrt (\<lambda>x y. ?size y \<le> ?size x) (qsort st ?cmp bufs)"
    by (simp add: sorted_map flip: word_le_nat_alt) (simp add: word_le_def)
  then show "sorted (rev (map ?size (fst (mc_sort_by_alloc_memblk bufs st))))"
    unfolding q by (simp add: sorted_wrt_rev sorted_wrt_map)
qed

text \<open>
  Beyond that the order is wrong: a block of \<open>2 ^ 31 + 1\<close> bytes sorts behind an empty one, and one of
  \<open>2 ^ 32\<close> bytes compares equal to it. The difference does not overflow in either case.
\<close>

lemma compare_sizes_wraps: "compare_sizes (2 ^ 31 + 1) 0 > 0" "compare_sizes (2 ^ 32) 0 = 0"
  by (simp_all add: compare_sizes_def)

text \<open>An insertion sort is a \<open>qsort\<close> that keeps the promise.\<close>

fun insert_cmp :: "(addr \<Rightarrow> addr \<Rightarrow> int) \<Rightarrow> addr \<Rightarrow> addr list \<Rightarrow> addr list" where
  "insert_cmp cmp x [] = [x]"
| "insert_cmp cmp x (y # ys) = (if cmp x y \<le> 0 then x # y # ys else y # insert_cmp cmp x ys)"

definition sort_by_cmp :: "(addr \<Rightarrow> addr \<Rightarrow> int) \<Rightarrow> addr list \<Rightarrow> addr list" where
  "sort_by_cmp cmp xs = foldr (insert_cmp cmp) xs []"

lemma mset_insert_cmp [simp]: "mset (insert_cmp cmp x ys) = add_mset x (mset ys)"
  by (induction ys) auto

lemma set_insert_cmp [simp]: "set (insert_cmp cmp x ys) = insert x (set ys)"
  by (induction ys) auto

lemma mset_sort_by_cmp [simp]: "mset (sort_by_cmp cmp xs) = mset xs"
  by (induction xs) (auto simp: sort_by_cmp_def)

lemma sorted_insert_cmp:
  assumes "\<forall>y\<in>set ys. cmp x y \<le> 0 \<longleftrightarrow> key x \<le> (key y :: int)" "sorted (map key ys)"
  shows "sorted (map key (insert_cmp cmp x ys))"
  using assms
proof (induction ys)
  case Nil
  then show ?case by simp
next
  case (Cons y ys)
  then show ?case by auto
qed

lemma sort_by_cmp_sorts: "sorts sort_by_cmp"
  unfolding sorts_def
proof (intro conjI allI impI)
  fix cmp :: "addr \<Rightarrow> addr \<Rightarrow> int" and xs and key :: "addr \<Rightarrow> int"
  show "mset (sort_by_cmp cmp xs) = mset xs" by simp
  assume k: "\<forall>x\<in>set xs. \<forall>y\<in>set xs. (cmp x y < 0 \<longleftrightarrow> key x < key y) \<and> (cmp x y = 0 \<longleftrightarrow> key x = key y)"
  have "\<forall>x\<in>set xs. \<forall>y\<in>set xs. cmp x y \<le> 0 \<longleftrightarrow> key x \<le> key y"
    using k unfolding order_le_less by blast
  then show "sorted (map key (sort_by_cmp cmp xs))"
  proof (induction xs)
    case Nil
    then show ?case by (simp add: sort_by_cmp_def)
  next
    case (Cons x xs)
    have "set (sort_by_cmp cmp xs) = set xs" by (rule mset_eq_setD) simp
    then show ?case using Cons sorted_insert_cmp [of "sort_by_cmp cmp xs" cmp x key] by (simp add: sort_by_cmp_def)
  qed
qed

end
