(* ===== verification/MC_Manage.thy ===== *)
theory MC_Manage
  imports MC_Buffer MC_Sort
begin

text \<open>
  The record of the blocks of the process, \<open>memchk_manage_memblk.c\<close>: registration, release into
  the quarantine of freed blocks, the check of all blocks, the counters, the histogram and the
  listings. This theory holds the definitions and the facts about the counters; the invariant and
  the refinement are in \<open>MC_Manage_Inv\<close> and \<open>MC_Manage_Ops\<close>.
\<close>

section \<open>The histogram\<close>

definition HISTO_BINS :: nat where "HISTO_BINS = 10"
definition HISTO_MAGNIFICATION :: size_t where "HISTO_MAGNIFICATION = 4"

fun histo_loop :: "nat \<Rightarrow> nat \<Rightarrow> size_t \<Rightarrow> size_t \<Rightarrow> nat" where
  "histo_loop 0 i usrsize sz = i"
| "histo_loop (Suc left) i usrsize sz =
     (if usrsize \<le> sz then i else histo_loop left (i + 1) usrsize (sz * HISTO_MAGNIFICATION))"

definition histo_bin :: "size_t \<Rightarrow> nat" where
  "histo_bin usrsize =
     (let i = histo_loop HISTO_BINS 0 usrsize HISTO_MAGNIFICATION in if i = HISTO_BINS then i - 1 else i)"

definition update_histogram :: "size_t \<Rightarrow> bool \<Rightarrow> i32 list \<Rightarrow> i32 list" where
  "update_histogram usrsize inc h =
     (let i = histo_bin usrsize in if inc then h[i := h ! i + 1] else h[i := h ! i - 1])"

section \<open>Registration\<close>

text \<open>The fields that registration fills in first, and the counters under the lock.\<close>

definition init_alloc_memblk :: "addr \<Rightarrow> addr \<Rightarrow> addr \<Rightarrow> size_t \<Rightarrow> size_t \<Rightarrow> mc \<Rightarrow> mc" where
  "init_alloc_memblk b buf usrptr bufsize usrsize st =
     (let st = upd_am b (\<lambda>x. x\<lparr>am_memblk := \<lparr>mb_buf = buf, mb_bufsize = bufsize, mb_usrsize = usrsize\<rparr>\<rparr>) st
      in st\<lparr>amp := (amp st)(memptr_of b := (amp st (memptr_of b))\<lparr>mp_ptr := usrptr\<rparr>)\<rparr>)"

definition count_alloc :: "size_t \<Rightarrow> mc \<Rightarrow> mc" where
  "count_alloc usrsize st =
     st\<lparr>num_alloc_cnt := num_alloc_cnt st + 1,
        num_alloc_memblk := num_alloc_memblk st + 1,
        allocated_size := allocated_size st + usrsize,
        histogram := update_histogram usrsize True (histogram st)\<rparr>"

definition mc_register_memblk :: "addr \<Rightarrow> addr \<Rightarrow> size_t \<Rightarrow> size_t \<Rightarrow> mc \<Rightarrow> (int \<times> mc) option" where
  "mc_register_memblk buf usrptr bufsize usrsize st =
     do {
       (b, st) \<leftarrow> do_allocate AllocMemblk st;
       (if b = NULL
        then Some (- 1, mc_enable_hook (mc_log_print Register_failed (mc_disable_hook st)))
        else do {
          let st = init_alloc_memblk b buf usrptr bufsize usrsize st;
          (c, st) \<leftarrow> mc_get_callstack st;
          let st = upd_am b (\<lambda>x. x\<lparr>am_allocator := c\<rparr>) st;
          let st = mc_set_allocated_buffer b True st;
          let st = add_ptr Live (memptr_of b) st;
          Some (0, count_alloc usrsize st)
        })
     }"

section \<open>Release\<close>

definition find_free :: "addr \<Rightarrow> mc \<Rightarrow> addr option" where
  "find_free p st = mc_find_ptr_hashtable FREE_MEMPTR_HASHTABLE_SIZE p (free_table st)"

definition add_free :: "addr \<Rightarrow> mc \<Rightarrow> mc" where
  "add_free memptr st =
     set_free_table (mc_add_ptr_hashtable FREE_MEMPTR_HASHTABLE_SIZE memptr (free_table st)) st"

definition remove_free :: "addr \<Rightarrow> mc \<Rightarrow> (addr \<times> mc) option" where
  "remove_free p st =
     do { (n, t) \<leftarrow> mc_remove_ptr_hashtable FREE_MEMPTR_HASHTABLE_SIZE p (free_table st);
          Some (n, set_free_table t st) }"

text \<open>The two branches of \<open>__handle_illegally_freed_buffer\<close>: never seen, or freed lately.\<close>

definition report_illegal_free :: "addr \<Rightarrow> mc \<Rightarrow> mc option" where
  "report_illegal_free usrptr st =
     mc_print_current_callstack 3 (mc_log_print Being_freed_from (mc_log_print (Illegal_free usrptr) st))"

definition report_double_free :: "addr \<Rightarrow> free_memblk \<Rightarrow> mc \<Rightarrow> mc option" where
  "report_double_free usrptr fb st =
     do {
       let st = mc_log_print Allocated_from (mc_log_print (Double_free usrptr) st);
       c \<leftarrow> cs_at (fm_allocator fb) st;
       st \<leftarrow> mc_print_callstack (cs_depth c) (cs_trace c) 2 st;
       let st = mc_log_print Freed_from st;
       c \<leftarrow> cs_at (fm_freer fb) st;
       st \<leftarrow> mc_print_callstack (cs_depth c) (cs_trace c) 2 st;
       mc_print_current_callstack 3 (mc_log_print Then_being_freed_from st)
     }"

definition handle_illegally_freed_buffer :: "addr \<Rightarrow> mc \<Rightarrow> mc option" where
  "handle_illegally_freed_buffer usrptr st =
     do {
       memptr \<leftarrow> find_free usrptr st;
       st \<leftarrow> init_fmaps st;
       let st = mc_log_print Separator st;
       st \<leftarrow> (if memptr = NULL then report_illegal_free usrptr st
              else report_double_free usrptr (fm st (get_free_memblk_from_memptr memptr)) st);
       term_fmaps st
     }"

text \<open>
  The quarantine: the freed block takes the place of the oldest one, which leaves the table of
  freed blocks and whose buffer goes back to the C library.
\<close>

definition push_fifo :: "addr \<Rightarrow> mc \<Rightarrow> addr \<times> mc" where
  "push_fifo b st =
     (let old = free_memblk_array st ! free_fifo_idx st;
          idx = free_fifo_idx st + 1
      in (old, st\<lparr>free_memblk_array := (free_memblk_array st)[free_fifo_idx st := b],
                  free_fifo_idx := if idx = FREE_FIFO_SIZE then 0 else idx\<rparr>))"

definition evict_free_memblk :: "addr \<Rightarrow> mc \<Rightarrow> (addr \<times> mc) option" where
  "evict_free_memblk old st =
     do {
       (rc, st) \<leftarrow> mc_check_freed_buffer old st;
       (n, st) \<leftarrow> remove_free (mp_ptr (fmp st (memptr_of old))) st;
       let buf = mb_buf (fm_memblk (fm st old));
       Some (buf, do_release FreeMemblk old st)
     }"

text \<open>\<open>memcpy(&free_memblk->memblk, &alloc_memblk->memblk, ...)\<close>, the call stacks, the counters.\<close>

definition copy_memblk :: "addr \<Rightarrow> addr \<Rightarrow> mc \<Rightarrow> mc" where
  "copy_memblk f a st =
     st\<lparr>fm := (fm st)(f := (fm st f)\<lparr>fm_memblk := am_memblk (am st a), fm_allocator := am_allocator (am st a)\<rparr>),
        fmp := (fmp st)(memptr_of f := amp st (memptr_of a))\<rparr>"

definition set_freer :: "addr \<Rightarrow> addr \<Rightarrow> mc \<Rightarrow> mc" where
  "set_freer f c st = st\<lparr>fm := (fm st)(f := (fm st f)\<lparr>fm_freer := c\<rparr>)\<rparr>"

definition count_free :: "size_t \<Rightarrow> mc \<Rightarrow> mc" where
  "count_free freed_usrsize st =
     st\<lparr>num_free_cnt := num_free_cnt st + 1,
        num_alloc_memblk := num_alloc_memblk st - 1,
        allocated_size := allocated_size st - freed_usrsize,
        histogram := update_histogram freed_usrsize False (histogram st)\<rparr>"

text \<open>
  From the allocation of the \<open>free_memblk\<close> on. The result is the code's return value and what
  \<open>*buf_to_be_freed\<close> was set to, \<open>None\<close> when the function returns without setting it.
\<close>

definition quarantine_memblk :: "addr \<Rightarrow> size_t \<Rightarrow> mc \<Rightarrow> ((int \<times> addr option) \<times> mc) option" where
  "quarantine_memblk a freed_usrsize st =
     do {
       (f, st) \<leftarrow> do_allocate FreeMemblk st;
       (if f = NULL then Some ((- 1, None), do_release AllocMemblk a st)
        else do {
          let st = copy_memblk f a st;
          (c, st) \<leftarrow> mc_get_callstack st;
          let st = set_freer f c st;
          let st = mc_set_freed_buffer f st;
          let st = add_free (memptr_of f) st;
          let st = do_release AllocMemblk a st;
          let st = count_free freed_usrsize st;
          let (old, st) = push_fifo f st;
          (if old \<noteq> NULL then do {
             (buf, st) \<leftarrow> evict_free_memblk old st;
             Some ((0, Some buf), st)
           } else Some ((0, Some NULL), st))
        })
     }"

definition mc_unregister_memblk :: "addr \<Rightarrow> mc \<Rightarrow> ((int \<times> addr option) \<times> mc) option" where
  "mc_unregister_memblk usrptr st =
     do {
       (memptr, st) \<leftarrow> remove_ptr Live usrptr st;
       (if memptr = NULL then do {
          st \<leftarrow> handle_illegally_freed_buffer usrptr st;
          Some ((- 1, Some NULL), st)
        } else do {
          let a = get_alloc_memblk_from_memptr memptr;
          let freed_usrsize = mb_usrsize (am_memblk (am st a));
          (rc, st) \<leftarrow> mc_check_allocated_buffer a True st;
          quarantine_memblk a freed_usrsize st
        })
     }"

definition mc_handle_realloc_memblk :: "addr \<Rightarrow> mc \<Rightarrow> size_t option" where
  "mc_handle_realloc_memblk usrptr st =
     do {
       memptr \<leftarrow> find_ptr Live usrptr st;
       Some (if memptr = NULL then - 1
             else mb_usrsize (am_memblk (am st (get_alloc_memblk_from_memptr memptr))))
     }"

section \<open>The check of all blocks\<close>

definition check_alloc_body :: "addr \<Rightarrow> int \<times> mc \<Rightarrow> (unit, int \<times> mc) flow option" where
  "check_alloc_body memptr s =
     (case s of (ret, st) \<Rightarrow> do {
        let b = get_alloc_memblk_from_memptr memptr;
        (rc, st) \<leftarrow> mc_check_allocated_buffer b False st;
        let st = (if rc \<noteq> 0 then mc_set_allocated_buffer b False st else st);
        Some (Next (ret OR rc, st))
      })"

definition check_free_body :: "addr \<Rightarrow> int \<times> mc \<Rightarrow> (unit, int \<times> mc) flow option" where
  "check_free_body memptr s =
     (case s of (ret, st) \<Rightarrow> do {
        let b = get_free_memblk_from_memptr memptr;
        (rc, st) \<leftarrow> mc_check_freed_buffer b st;
        let st = (if rc \<noteq> 0 then mc_set_freed_buffer b st else st);
        Some (Next (ret OR rc, st))
      })"

definition mc_check_all_memblk :: "mc \<Rightarrow> (int \<times> mc) option" where
  "mc_check_all_memblk st =
     do {
       fl \<leftarrow> for_each_hashnode (\<lambda>(ret, st) n. mp_hash_next (amp st n)) (\<lambda>(ret, st). ptr_tbls st Live)
               ALLOC_MEMPTR_HASHTABLE_SIZE check_alloc_body (0, st);
       fl \<leftarrow> for_each_hashnode (\<lambda>(ret, st) n. mp_hash_next (fmp st n)) (\<lambda>(ret, st). free_tbl st)
               FREE_MEMPTR_HASHTABLE_SIZE check_free_body (flow_state fl);
       Some (flow_state fl)
     }"

section \<open>Counters\<close>

definition mc_get_alloc_memblk_cnt :: "mc \<Rightarrow> i32" where "mc_get_alloc_memblk_cnt st = num_alloc_memblk st"
definition mc_get_allocated_size :: "mc \<Rightarrow> size_t" where "mc_get_allocated_size st = allocated_size st"
definition mc_get_alloc_cnt :: "mc \<Rightarrow> i32" where "mc_get_alloc_cnt st = num_alloc_cnt st"
definition mc_get_free_cnt :: "mc \<Rightarrow> i32" where "mc_get_free_cnt st = num_free_cnt st"

fun print_histogram :: "nat list \<Rightarrow> size_t \<Rightarrow> mc \<Rightarrow> mc" where
  "print_histogram [] sz st = st"
| "print_histogram (i # is) sz st =
     (let first = (if i = 0 then 1 else sz + 1) in
      if i < HISTO_BINS - 1
      then print_histogram is (sz * HISTO_MAGNIFICATION)
             (mc_log_print (Histogram_bin first (sz * HISTO_MAGNIFICATION) (histogram st ! i)) st)
      else print_histogram is sz (mc_log_print (Histogram_last first (histogram st ! i)) st))"

definition mc_print_histogram_alloc_memblk :: "mc \<Rightarrow> mc" where
  "mc_print_histogram_alloc_memblk st = print_histogram [0..<HISTO_BINS] 1 st"

end
