(* ===== verification/MC_Manage_Inv.thy ===== *)
theory MC_Manage_Inv
  imports MC_Manage
begin

text \<open>
  The invariant of the tables and objects, and what each elementary step does to it.

  \<open>tables_ok N X F Y C st\<close>: table \<open>i\<close> holds exactly the blocks \<open>N i\<close>, the table of freed blocks
  holds \<open>F\<close>, the table of call stacks \<open>C\<close>; these and the blocks in hand \<open>X\<close> (of \<open>alloc_memblk\<close>)
  and \<open>Y\<close> (of \<open>free_memblk\<close>) are all the objects the allocator has given out. So with \<open>X\<close> and
  \<open>Y\<close> empty nothing is leaked and nothing that was released is still linked.
\<close>

section \<open>The invariant\<close>

definition usr_of :: "mc \<Rightarrow> addr \<Rightarrow> addr" where
  "usr_of st b = mp_ptr (amp st (memptr_of b))"

definition fusr_of :: "mc \<Rightarrow> addr \<Rightarrow> addr" where
  "fusr_of st f = mp_ptr (fmp st (memptr_of f))"

definition trace_ok :: "callstack \<Rightarrow> bool" where
  "trace_ok c \<longleftrightarrow> cs_depth c = int (length (cs_trace c)) \<and> length (cs_trace c) \<le> MAX_CALLSTACK_DEPTH \<and>
     length (cs_group_next c) = LINK_MAX"

definition tables_ok ::
  "(table_id \<Rightarrow> addr set) \<Rightarrow> addr set \<Rightarrow> addr set \<Rightarrow> addr set \<Rightarrow> addr set \<Rightarrow> mc \<Rightarrow> bool" where
  "tables_ok N X F Y C st \<longleftrightarrow>
     blk_ok (blk st) \<and>
     (\<forall>i. ptr_table_ok ALLOC_MEMPTR_HASHTABLE_SIZE (ptr_table i st) (memptr_of ` N i)) \<and>
     ptr_table_ok FREE_MEMPTR_HASHTABLE_SIZE (free_table st) (memptr_of ` F) \<and>
     cs_table_ok CALLSTACK_HASHTABLE_SIZE (cs_table st) C \<and>
     blk_live AllocMemblk (blk st) = (\<Union>i. N i) \<union> X \<and>
     (\<forall>i j. i \<noteq> j \<longrightarrow> N i \<inter> N j = {}) \<and> (\<forall>i. N i \<inter> X = {}) \<and>
     blk_live FreeMemblk (blk st) = F \<union> Y \<and> F \<inter> Y = {} \<and>
     blk_live Callstack (blk st) = C \<and>
     (\<forall>c\<in>C. trace_ok (csh st c)) \<and> inj_on (\<lambda>c. cs_key (csh st c)) C"

text \<open>It depends on the stores of nodes, the tables and the allocator only.\<close>

definition same_tables :: "mc \<Rightarrow> mc \<Rightarrow> bool" where
  "same_tables st st' \<longleftrightarrow> blk st' = blk st \<and> amp st' = amp st \<and> fmp st' = fmp st \<and> csh st' = csh st \<and>
     ptr_tbls st' = ptr_tbls st \<and> free_tbl st' = free_tbl st \<and> cs_tbl st' = cs_tbl st"

lemma tables_ok_same: "same_tables st st' \<Longrightarrow> tables_ok N X F Y C st' = tables_ok N X F Y C st"
  by (simp add: tables_ok_def same_tables_def ptr_table_def free_table_def cs_table_def)

lemma tables_okD:
  assumes "tables_ok N X F Y C st"
  shows "blk_ok (blk st)"
    "ptr_table_ok ALLOC_MEMPTR_HASHTABLE_SIZE (ptr_table i st) (memptr_of ` N i)"
    "ptr_table_ok FREE_MEMPTR_HASHTABLE_SIZE (free_table st) (memptr_of ` F)"
    "cs_table_ok CALLSTACK_HASHTABLE_SIZE (cs_table st) C"
    "blk_live AllocMemblk (blk st) = (\<Union>i. N i) \<union> X"
    "i \<noteq> j \<Longrightarrow> N i \<inter> N j = {}" "N i \<inter> X = {}"
    "blk_live FreeMemblk (blk st) = F \<union> Y" "F \<inter> Y = {}"
    "blk_live Callstack (blk st) = C"
    "\<forall>c\<in>C. trace_ok (csh st c)" "inj_on (\<lambda>c. cs_key (csh st c)) C"
  using assms by (simp_all add: tables_ok_def)

text \<open>The \<open>memptr\<close> of a live block is not at address 0.\<close>

lemma memptr_nonnull:
  assumes "blk_ok bs" "b \<in> blk_live k bs" "unat (sizeof_kind k) \<ge> 32"
  shows "memptr_of b \<noteq> 0"
proof
  assume "memptr_of b = 0"
  then have "b = - 24" by (simp add: memptr_of_def MEMPTR_OFFSET_def eq_neg_iff_add_eq_0)
  then have "unat b = 2 ^ 64 - 24" by simp
  then show False using blk_live_bounds(2) [OF assms(1,2)] assms(3) by simp
qed

lemma memptr_live_nonnull:
  assumes "tables_ok N X F Y C st"
  shows "b \<in> (\<Union>i. N i) \<union> X \<Longrightarrow> memptr_of b \<noteq> 0" "f \<in> F \<union> Y \<Longrightarrow> memptr_of f \<noteq> 0"
  using memptr_nonnull [OF tables_okD(1) [OF assms], of _ AllocMemblk]
    memptr_nonnull [OF tables_okD(1) [OF assms], of _ FreeMemblk]
    tables_okD(5,8) [OF assms] by auto

section \<open>Allocation and release of objects\<close>

lemma do_allocate_alloc_ok:
  assumes "tables_ok N X F Y C st"
  shows "\<exists>p b. do_allocate AllocMemblk st = Some (p, st\<lparr>blk := b\<rparr>) \<and>
     tables_ok N (if p = 0 then X else insert p X) F Y C (st\<lparr>blk := b\<rparr>) \<and>
     (p \<noteq> 0 \<longrightarrow> p \<notin> (\<Union>i. N i) \<union> X)"
proof -
  note D = tables_okD [OF assms]
  from allocate_kind_ok [OF D(1), of AllocMemblk] obtain p b where
    a: "allocate_kind AllocMemblk (blk st) = Some (p, b)" "blk_ok b"
      "\<forall>j. j \<noteq> AllocMemblk \<longrightarrow> blk_live j b = blk_live j (blk st)"
      "if p = NULL then blk_live AllocMemblk b = blk_live AllocMemblk (blk st)
       else p \<notin> blk_live AllocMemblk (blk st) \<and>
            blk_live AllocMemblk b = insert p (blk_live AllocMemblk (blk st))" by blast
  have "tables_ok N (if p = 0 then X else insert p X) F Y C (st\<lparr>blk := b\<rparr>)"
    using assms a(2-4) D(5) by (auto simp: tables_ok_def ptr_table_def free_table_def cs_table_def split: if_splits)
  then show ?thesis using a(1,4) D(5) by (auto simp: do_allocate_def)
qed

lemma do_allocate_free_ok:
  assumes "tables_ok N X F Y C st"
  shows "\<exists>p b. do_allocate FreeMemblk st = Some (p, st\<lparr>blk := b\<rparr>) \<and>
     tables_ok N X F (if p = 0 then Y else insert p Y) C (st\<lparr>blk := b\<rparr>) \<and> (p \<noteq> 0 \<longrightarrow> p \<notin> F \<union> Y)"
proof -
  note D = tables_okD [OF assms]
  from allocate_kind_ok [OF D(1), of FreeMemblk] obtain p b where
    a: "allocate_kind FreeMemblk (blk st) = Some (p, b)" "blk_ok b"
      "\<forall>j. j \<noteq> FreeMemblk \<longrightarrow> blk_live j b = blk_live j (blk st)"
      "if p = NULL then blk_live FreeMemblk b = blk_live FreeMemblk (blk st)
       else p \<notin> blk_live FreeMemblk (blk st) \<and>
            blk_live FreeMemblk b = insert p (blk_live FreeMemblk (blk st))" by blast
  have "tables_ok N X F (if p = 0 then Y else insert p Y) C (st\<lparr>blk := b\<rparr>)"
    using assms a(2-4) D(8) by (auto simp: tables_ok_def ptr_table_def free_table_def cs_table_def split: if_splits)
  then show ?thesis using a(1,4) D(8) by (auto simp: do_allocate_def)
qed

lemma do_release_alloc_ok:
  assumes "tables_ok N X F Y C st" "b \<in> X"
  shows "tables_ok N (X - {b}) F Y C (do_release AllocMemblk b st)"
proof -
  note D = tables_okD [OF assms(1)]
  have "b \<in> blk_live AllocMemblk (blk st)" using D(5) assms(2) by simp
  note R = free_kind_ok [OF D(1) this]
  have "b \<notin> N i" for i using D(7) [of i] assms(2) by blast
  then have "(\<Union>i. N i) \<union> X - {b} = (\<Union>i. N i) \<union> (X - {b})" by blast
  moreover have "N i \<inter> (X - {b}) = {}" for i using D(7) [of i] by blast
  ultimately show ?thesis using assms(1) R D(5)
    by (auto simp: tables_ok_def do_release_def ptr_table_def free_table_def cs_table_def)
qed

lemma do_release_free_ok:
  assumes "tables_ok N X F Y C st" "f \<in> Y"
  shows "tables_ok N X F (Y - {f}) C (do_release FreeMemblk f st)"
proof -
  note D = tables_okD [OF assms(1)]
  have "f \<in> blk_live FreeMemblk (blk st)" using D(8) assms(2) by simp
  note R = free_kind_ok [OF D(1) this]
  have "F \<union> Y - {f} = F \<union> (Y - {f})" using D(9) assms(2) by blast
  then show ?thesis using assms(1) R D(8,9)
    by (auto simp: tables_ok_def do_release_def ptr_table_def free_table_def cs_table_def)
qed

section \<open>The tables of blocks\<close>

text \<open>A store of nodes that differs outside a table leaves the table alone.\<close>

lemma mc_add_ptr_frame:
  "fst (mc_add_ptr_hashtable sz m t) n = (if n = m then (fst t m)\<lparr>mp_hash_next := snd t (calc_ptr_hash (mp_ptr (fst t m)) sz)\<rparr> else fst t n)"
  by (simp add: mc_add_ptr_hashtable_def Let_def split: prod.splits)

lemma add_ptr_ok:
  assumes ok: "tables_ok N X F Y C st" and b: "b \<in> X"
  shows "tables_ok (N(i := insert b (N i))) (X - {b}) F Y C (add_ptr i (memptr_of b) st)"
    and "usr_of (add_ptr i (memptr_of b) st) = usr_of st"
proof -
  note D = tables_okD [OF ok]
  let ?st = "add_ptr i (memptr_of b) st" and ?N = "N(i := insert b (N i))"
  let ?t = "mc_add_ptr_hashtable ALLOC_MEMPTR_HASHTABLE_SIZE (memptr_of b) (ptr_table i st)"
  have st: "?st = st\<lparr>amp := fst ?t, ptr_tbls := (ptr_tbls st)(i := snd ?t)\<rparr>"
    by (simp add: add_ptr_def set_ptr_table_def)
  have bN: "b \<notin> N j" for j using D(7) [of j] b by blast
  have here: "ptr_table_ok ALLOC_MEMPTR_HASHTABLE_SIZE ?t (memptr_of ` insert b (N i))"
    using ptr_table_add [OF D(2) memptr_live_nonnull(1) [OF ok]] b bN by (simp add: image_iff)
  have amp: "fst ?t n = amp st n" if "n \<noteq> memptr_of b" for n
    using that by (simp add: mc_add_ptr_frame ptr_table_def)
  have other: "ptr_table_ok ALLOC_MEMPTR_HASHTABLE_SIZE (fst ?t, ptr_tbls st j) (memptr_of ` N j)" for j
  proof (rule ptr_table_cong)
    show "ptr_table_ok ALLOC_MEMPTR_HASHTABLE_SIZE (amp st, ptr_tbls st j) (memptr_of ` N j)"
      using D(2) [of j] by (simp add: ptr_table_def)
    show "\<And>n. n \<in> memptr_of ` N j \<Longrightarrow> fst ?t n = amp st n" using amp bN by (metis imageE memptr_of_eq)
  qed
  have "ptr_table_ok ALLOC_MEMPTR_HASHTABLE_SIZE (ptr_table j ?st) (memptr_of ` ?N j)" for j
    using here other [of j] by (cases "j = i") (simp_all add: ptr_table_def st)
  moreover have "(\<Union>j. ?N j) \<union> (X - {b}) = (\<Union>j. N j) \<union> X" using b by (auto split: if_splits)
  moreover have "\<forall>j k. j \<noteq> k \<longrightarrow> ?N j \<inter> ?N k = {}" using D(6) bN by (auto split: if_splits)
  moreover have "\<forall>j. ?N j \<inter> (X - {b}) = {}" using D(7) by auto
  ultimately show "tables_ok ?N (X - {b}) F Y C ?st"
    using D(1,3,4,5,8-12) unfolding tables_ok_def by (simp add: st free_table_def cs_table_def)
  show "usr_of ?st = usr_of st"
    by (auto simp: usr_of_def st mc_add_ptr_frame ptr_table_def fun_eq_iff)
qed

lemma remove_ptr_ok:
  assumes ok: "tables_ok N X F Y C st"
  obtains (missing) "remove_ptr i p st = Some (NULL, st)" "\<forall>b\<in>N i. usr_of st b \<noteq> p"
      "find_ptr i p st = Some NULL"
  | (found) b h t where "b \<in> N i" "usr_of st b = p" "find_ptr i p st = Some (memptr_of b)"
      "remove_ptr i p st = Some (memptr_of b, st\<lparr>amp := h, ptr_tbls := t\<rparr>)"
      "tables_ok (N(i := N i - {b})) (insert b X) F Y C (st\<lparr>amp := h, ptr_tbls := t\<rparr>)"
      "\<And>m. mp_ptr (h m) = mp_ptr (amp st m)" "memptr_of b \<noteq> NULL"
proof -
  note D = tables_okD [OF ok]
  from ptr_table_remove [OF D(2) [of i], of p] obtain n t' where
    r: "mc_remove_ptr_hashtable ALLOC_MEMPTR_HASHTABLE_SIZE p (ptr_table i st) = Some (n, t')"
      "mc_find_ptr_hashtable ALLOC_MEMPTR_HASHTABLE_SIZE p (ptr_table i st) = Some n"
      "ptr_key t' = ptr_key (ptr_table i st)"
      "ptr_table_ok ALLOC_MEMPTR_HASHTABLE_SIZE t' (memptr_of ` N i - {n})" "n = 0 \<longrightarrow> t' = ptr_table i st"
      "\<forall>m. m \<notin> memptr_of ` N i \<longrightarrow> fst t' m = fst (ptr_table i st) m"
    by blast
  have K: "if n = 0 then \<forall>m\<in>memptr_of ` N i. ptr_key (ptr_table i st) m \<noteq> p
      else n \<in> memptr_of ` N i \<and> ptr_key (ptr_table i st) n = p"
    using ptr_table_find [OF D(2) [of i], of p] r(2) by auto
  have rem: "remove_ptr i p st = Some (n, st\<lparr>amp := fst t', ptr_tbls := (ptr_tbls st)(i := snd t')\<rparr>)"
    using r(1) by (simp add: remove_ptr_def set_ptr_table_def)
  show ?thesis
  proof (cases "n = 0")
    case True
    then have "t' = ptr_table i st" using r(5) by simp
    then have "remove_ptr i p st = Some (NULL, st)" using rem True by (simp add: ptr_table_def)
    moreover have "\<forall>b\<in>N i. usr_of st b \<noteq> p"
      using K True by (auto simp: ptr_key_def ptr_table_def usr_of_def)
    ultimately show ?thesis using missing r(2) True by (simp add: find_ptr_def)
  next
    case False
    then obtain b where b: "n = memptr_of b" "b \<in> N i" "usr_of st b = p"
      using K by (auto simp: ptr_key_def ptr_table_def usr_of_def)
    let ?st = "st\<lparr>amp := fst t', ptr_tbls := (ptr_tbls st)(i := snd t')\<rparr>" and ?N = "N(i := N i - {b})"
    have other: "ptr_table_ok ALLOC_MEMPTR_HASHTABLE_SIZE (fst t', ptr_tbls st j) (memptr_of ` N j)" if "j \<noteq> i" for j
    proof (rule ptr_table_cong)
      show "ptr_table_ok ALLOC_MEMPTR_HASHTABLE_SIZE (amp st, ptr_tbls st j) (memptr_of ` N j)"
        using D(2) [of j] by (simp add: ptr_table_def)
      show "fst t' m = amp st m" if "m \<in> memptr_of ` N j" for m
      proof -
        have "m \<notin> memptr_of ` N i" using that D(6) [OF \<open>j \<noteq> i\<close>] by (auto simp: disjoint_iff)
        then show ?thesis using r(6) by (simp add: ptr_table_def)
      qed
    qed
    have here: "ptr_table_ok ALLOC_MEMPTR_HASHTABLE_SIZE t' (memptr_of ` (N i - {b}))"
      using r(4) b(1) by (simp add: image_set_diff inj_memptr_of)
    have T: "ptr_table_ok ALLOC_MEMPTR_HASHTABLE_SIZE (ptr_table j ?st) (memptr_of ` ?N j)" for j
      using here other [of j] by (cases "j = i") (simp_all add: ptr_table_def)
    have U: "(\<Union>j. ?N j) \<union> insert b X = (\<Union>j. N j) \<union> X" using b(2) by (auto split: if_splits)
    have V: "\<forall>j k. j \<noteq> k \<longrightarrow> ?N j \<inter> ?N k = {}" using D(6) by (auto split: if_splits)
    have "b \<notin> N j" if "j \<noteq> i" for j using that b(2) D(6) [OF that] by blast
    then have W: "\<forall>j. ?N j \<inter> insert b X = {}" using D(7) by auto
    have "tables_ok ?N (insert b X) F Y C ?st"
      using T U V W D(1,3,4,5,8-12) unfolding tables_ok_def by (simp add: free_table_def cs_table_def)
    moreover have "mp_ptr (fst t' m) = mp_ptr (amp st m)" for m
      using fun_cong [OF r(3), of m] by (simp add: ptr_key_def ptr_table_def)
    ultimately show ?thesis
      using found [OF b(2,3), where h = "fst t'" and t = "(ptr_tbls st)(i := snd t')"] r(2) rem b(1) False
      by (simp add: find_ptr_def)
  qed
qed

section \<open>The table of freed blocks\<close>

lemma add_free_ok:
  assumes ok: "tables_ok N X F Y C st" and f: "f \<in> Y"
  shows "tables_ok N X (insert f F) (Y - {f}) C (add_free (memptr_of f) st)"
    and "fusr_of (add_free (memptr_of f) st) = fusr_of st"
proof -
  note D = tables_okD [OF ok]
  let ?t = "mc_add_ptr_hashtable FREE_MEMPTR_HASHTABLE_SIZE (memptr_of f) (free_table st)"
  have st: "add_free (memptr_of f) st = st\<lparr>fmp := fst ?t, free_tbl := snd ?t\<rparr>"
    by (simp add: add_free_def set_free_table_def)
  have fF: "f \<notin> F" using D(9) f by blast
  have "ptr_table_ok FREE_MEMPTR_HASHTABLE_SIZE ?t (memptr_of ` insert f F)"
    using ptr_table_add [OF D(3) memptr_live_nonnull(2) [OF ok]] f fF by (simp add: image_iff)
  moreover have "insert f F \<union> (Y - {f}) = F \<union> Y" "insert f F \<inter> (Y - {f}) = {}" using f D(9) by auto
  ultimately show "tables_ok N X (insert f F) (Y - {f}) C (add_free (memptr_of f) st)"
    using ok D(8) unfolding tables_ok_def by (simp add: st free_table_def cs_table_def ptr_table_def)
  show "fusr_of (add_free (memptr_of f) st) = fusr_of st"
    by (auto simp: fusr_of_def st mc_add_ptr_frame free_table_def fun_eq_iff)
qed

lemma find_free_ok:
  assumes "tables_ok N X F Y C st"
  obtains (missing) "find_free p st = Some NULL" "\<forall>f\<in>F. fusr_of st f \<noteq> p"
  | (found) f where "find_free p st = Some (memptr_of f)" "f \<in> F" "fusr_of st f = p" "memptr_of f \<noteq> NULL"
proof -
  from ptr_table_find [OF tables_okD(3) [OF assms], of p] obtain n where
    n: "find_free p st = Some n"
      "if n = 0 then \<forall>m\<in>memptr_of ` F. ptr_key (free_table st) m \<noteq> p
       else n \<in> memptr_of ` F \<and> ptr_key (free_table st) n = p"
    by (auto simp: find_free_def)
  show ?thesis
  proof (cases "n = 0")
    case True
    then have "\<forall>f\<in>F. fusr_of st f \<noteq> p" using n(2) by (auto simp: ptr_key_def free_table_def fusr_of_def)
    then show ?thesis using missing n(1) True by simp
  next
    case False
    then obtain f where "n = memptr_of f" "f \<in> F" "fusr_of st f = p"
      using n(2) by (auto simp: ptr_key_def free_table_def fusr_of_def)
    then show ?thesis using found n(1) False by auto
  qed
qed

lemma remove_free_ok:
  assumes ok: "tables_ok N X F Y C st" and inj: "inj_on (fusr_of st) F" and f: "f \<in> F"
  shows "\<exists>h t. remove_free (fusr_of st f) st = Some (memptr_of f, st\<lparr>fmp := h, free_tbl := t\<rparr>) \<and>
     tables_ok N X (F - {f}) (insert f Y) C (st\<lparr>fmp := h, free_tbl := t\<rparr>) \<and>
     (\<forall>m. mp_ptr (h m) = mp_ptr (fmp st m))"
proof -
  note D = tables_okD [OF ok]
  have key: "ptr_key (free_table st) (memptr_of g) = fusr_of st g" for g
    by (simp add: ptr_key_def free_table_def fusr_of_def)
  have "inj_on (ptr_key (free_table st)) (memptr_of ` F)"
    using inj by (auto simp: inj_on_def key)
  from ptrs.delete_unique [OF D(3) this, of "memptr_of f" "fusr_of st f"] obtain t' where
    r: "mc_remove_ptr_hashtable FREE_MEMPTR_HASHTABLE_SIZE (fusr_of st f) (free_table st) = Some (memptr_of f, t')"
      "ptr_key t' = ptr_key (free_table st)"
      "ptr_table_ok FREE_MEMPTR_HASHTABLE_SIZE t' (memptr_of ` F - {memptr_of f})"
    using f key by auto
  let ?st = "st\<lparr>fmp := fst t', free_tbl := snd t'\<rparr>"
  have "ptr_table_ok FREE_MEMPTR_HASHTABLE_SIZE t' (memptr_of ` (F - {f}))"
    using r(3) by (simp add: image_set_diff inj_memptr_of)
  moreover have "(F - {f}) \<union> insert f Y = F \<union> Y" "(F - {f}) \<inter> insert f Y = {}" using f D(9) by auto
  ultimately have "tables_ok N X (F - {f}) (insert f Y) C ?st"
    using ok D(8) unfolding tables_ok_def by (simp add: free_table_def cs_table_def ptr_table_def)
  moreover have "remove_free (fusr_of st f) st = Some (memptr_of f, ?st)"
    using r(1) by (simp add: remove_free_def set_free_table_def)
  moreover have "mp_ptr (fst t' m) = mp_ptr (fmp st m)" for m
    using fun_cong [OF r(2), of m] by (simp add: ptr_key_def free_table_def)
  ultimately show ?thesis by blast
qed

section \<open>The current call stack\<close>

definition next_trace :: "mc \<Rightarrow> addr list" where
  "next_trace st = take MAX_CALLSTACK_DEPTH (backtraces st (num_backtraces st))"

definition trace_at :: "mc \<Rightarrow> addr \<Rightarrow> addr list" where
  "trace_at st c = cs_trace (csh st c)"

lemma trace_ok_key: "trace_ok c \<Longrightarrow> cs_key c = (int (length (cs_trace c)), cs_trace c)"
  by (simp add: trace_ok_def cs_key_def)

lemma mc_add_callstack_frame:
  "fst (mc_add_callstack_hashtable sz m t) n =
     (if n = m then (fst t m)\<lparr>cs_hash_next := snd t (calc_callstack_hash (fst t m) sz)\<rparr> else fst t n)"
  by (simp add: mc_add_callstack_hashtable_def Let_def split: prod.splits)

text \<open>The state after a call: the object may be new, or only its use count changed.\<close>

definition with_callstacks :: "blk_state \<Rightarrow> (addr \<Rightarrow> callstack) \<Rightarrow> (nat \<Rightarrow> addr) \<Rightarrow> mc \<Rightarrow> mc" where
  "with_callstacks b h t st =
     st\<lparr>blk := b, csh := h, cs_tbl := t, num_backtraces := num_backtraces st + 1\<rparr>"

definition current_callstack :: "mc \<Rightarrow> callstack" where
  "current_callstack st = fst (backtrace (mc_disable_hook st))"

definition new_callstack :: "mc \<Rightarrow> callstack" where
  "new_callstack st = (current_callstack st)\<lparr>cs_usage := 1, cs_group_next := replicate LINK_MAX NULL\<rparr>"

lemma current_callstack_simps:
  "cs_trace (current_callstack st) = next_trace st" "trace_ok (current_callstack st)"
  by (simp_all add: backtrace_def mc_disable_hook_def next_trace_def trace_ok_def current_callstack_def Let_def)

text \<open>The outcome by the result of the lookup and of the allocation.\<close>

lemma mc_get_callstack_known:
  assumes "find_cs (current_callstack st) st = Some p" "p \<noteq> NULL"
  shows "mc_get_callstack st = Some (p, with_callstacks (blk st)
           ((csh st)(p := (csh st p)\<lparr>cs_usage := cs_usage (csh st p) + 1\<rparr>)) (cs_tbl st) st)"
  using assms
  by (simp add: mc_get_callstack_def current_callstack_def with_callstacks_def upd_cs_def find_cs_def
      cs_table_def backtrace_def mc_disable_hook_def mc_enable_hook_def Let_def)

lemma mc_get_callstack_unknown:
  assumes "find_cs (current_callstack st) st = Some NULL" "allocate_kind Callstack (blk st) = Some (q, b)"
    "t = mc_add_callstack_hashtable CALLSTACK_HASHTABLE_SIZE q ((csh st)(q := new_callstack st), cs_tbl st)"
  shows "mc_get_callstack st = Some (q, if q = NULL then with_callstacks b (csh st) (cs_tbl st) st
                                         else with_callstacks b (fst t) (snd t) st)"
  using assms
  by (simp add: mc_get_callstack_def current_callstack_def new_callstack_def with_callstacks_def upd_cs_def
      find_cs_def do_allocate_def add_cs_def set_cs_table_def
      cs_table_def backtrace_def mc_disable_hook_def mc_enable_hook_def Let_def)

lemma tables_ok_with_callstacks:
  assumes "tables_ok N X F Y C st" "blk_ok b" "\<forall>j. j \<noteq> Callstack \<longrightarrow> blk_live j b = blk_live j (blk st)"
    "blk_live Callstack b = C'" "cs_table_ok CALLSTACK_HASHTABLE_SIZE (h, t) C'"
    "\<forall>c\<in>C'. trace_ok (h c)" "inj_on (\<lambda>c. cs_key (h c)) C'"
  shows "tables_ok N X F Y C' (with_callstacks b h t st)"
  using assms by (simp add: tables_ok_def with_callstacks_def ptr_table_def free_table_def cs_table_def)

lemma tables_ok_new_callstack:
  assumes ok: "tables_ok N X F Y C st" and q: "q \<noteq> NULL" "q \<notin> C"
    and b: "blk_ok b" "\<forall>j. j \<noteq> Callstack \<longrightarrow> blk_live j b = blk_live j (blk st)" "blk_live Callstack b = insert q C"
    and fresh: "\<forall>c\<in>C. cs_key (csh st c) \<noteq> cs_key (current_callstack st)"
    and t: "t = mc_add_callstack_hashtable CALLSTACK_HASHTABLE_SIZE q ((csh st)(q := new_callstack st), cs_tbl st)"
  shows "tables_ok N X F Y (insert q C) (with_callstacks b (fst t) (snd t) st)"
    and "\<forall>d\<in>C. cs_trace (fst t d) = trace_at st d" and "cs_trace (fst t q) = next_trace st"
proof -
  note D = tables_okD [OF ok]
  have "cs_table_ok CALLSTACK_HASHTABLE_SIZE ((csh st)(q := new_callstack st), cs_tbl st) C"
    by (rule cs_table_cong [of _ "csh st"]) (use D(4) q(2) in \<open>auto simp: cs_table_def\<close>)
  from cs_table_add [OF this q] have T: "cs_table_ok CALLSTACK_HASHTABLE_SIZE t (insert q C)" by (simp add: t)
  have fr: "fst t n = (if n = q then (new_callstack st)\<lparr>cs_hash_next := cs_tbl st (calc_callstack_hash (new_callstack st) CALLSTACK_HASHTABLE_SIZE)\<rparr> else csh st n)" for n
    by (simp add: t mc_add_callstack_frame)
  have key: "cs_key (fst t q) = cs_key (current_callstack st)" "trace_ok (fst t q)" "cs_trace (fst t q) = next_trace st"
    using current_callstack_simps [of st] by (simp_all add: fr new_callstack_def cs_key_def trace_ok_def)
  then show "cs_trace (fst t q) = next_trace st" by simp
  have old: "n \<in> C \<Longrightarrow> fst t n = csh st n" for n using q(2) by (auto simp: fr)
  then show "\<forall>d\<in>C. cs_trace (fst t d) = trace_at st d" by (simp add: trace_at_def)
  have "inj_on (\<lambda>c. cs_key (fst t c)) (insert q C)"
    using D(12) old key(1) q(2) fresh by (auto simp: inj_on_def)
  moreover have "\<forall>c\<in>insert q C. trace_ok (fst t c)" using D(11) old key(2) by auto
  ultimately show "tables_ok N X F Y (insert q C) (with_callstacks b (fst t) (snd t) st)"
    using tables_ok_with_callstacks [OF ok b(1,2), of "insert q C" "fst t" "snd t"] b(3) T by simp
qed

text \<open>
  The call returns the one object that holds the current call stack, made on first use, or null
  when there is no memory for it. The other objects keep their call stacks.
\<close>

lemma mc_get_callstack_ok:
  assumes ok: "tables_ok N X F Y C st"
  shows "\<exists>c b h t C'. mc_get_callstack st = Some (c, with_callstacks b h t st) \<and>
     tables_ok N X F Y C' (with_callstacks b h t st) \<and>
     C \<subseteq> C' \<and> C' \<subseteq> insert c C \<and> (\<forall>d\<in>C. cs_trace (h d) = trace_at st d) \<and>
     (if c = NULL then C' = C else c \<in> C' \<and> cs_trace (h c) = next_trace st)"
proof -
  note D = tables_okD [OF ok] and cur = current_callstack_simps [of st]
  from stacks.lookup_spec [OF D(4), of "current_callstack st"] obtain p where
    p: "find_cs (current_callstack st) st = Some p"
      "if p = 0 then \<forall>m\<in>C. cs_key (csh st m) \<noteq> cs_key (current_callstack st)
       else p \<in> C \<and> cs_key (csh st p) = cs_key (current_callstack st)"
    unfolding find_cs_def cs_node_key_def cs_table_def fst_conv by blast
  show ?thesis
  proof (cases "p = 0")
    case False
    let ?h = "(csh st)(p := (csh st p)\<lparr>cs_usage := cs_usage (csh st p) + 1\<rparr>)"
    have eqs: "cs_key (?h x) = cs_key (csh st x)" "trace_ok (?h x) = trace_ok (csh st x)"
      "cs_hash_next (?h x) = cs_hash_next (csh st x)" "cs_trace (?h x) = cs_trace (csh st x)" for x
      by (simp_all add: cs_key_def trace_ok_def)
    have "cs_table_ok CALLSTACK_HASHTABLE_SIZE (?h, cs_tbl st) C"
      by (rule cs_table_cong [of _ "csh st"]) (use D(4) eqs in \<open>simp_all add: cs_table_def del: fun_upd_apply\<close>)
    then have "tables_ok N X F Y C (with_callstacks (blk st) ?h (cs_tbl st) st)"
      using D(1,10,11,12) by (intro tables_ok_with_callstacks [OF ok]) (simp_all add: eqs del: fun_upd_apply)
    moreover have "p \<in> C" "cs_trace (csh st p) = next_trace st"
      using p(2) False D(11) cur by (auto simp: trace_ok_key)
    moreover have "\<forall>d\<in>C. cs_trace (?h d) = trace_at st d" using eqs by (simp add: trace_at_def)
    ultimately show ?thesis
      using mc_get_callstack_known [OF p(1) False] False eqs(4) [of p]
      by (intro exI [of _ p] exI [of _ "blk st"] exI [of _ ?h] exI [of _ "cs_tbl st"] exI [of _ C])
        (simp del: fun_upd_apply, blast)
  next
    case True
    from allocate_kind_ok [OF D(1), of Callstack] obtain q b where
      a: "allocate_kind Callstack (blk st) = Some (q, b)" "blk_ok b"
        "\<forall>j. j \<noteq> Callstack \<longrightarrow> blk_live j b = blk_live j (blk st)"
        "if q = NULL then blk_live Callstack b = C else q \<notin> C \<and> blk_live Callstack b = insert q C"
      unfolding D(10) by blast
    obtain t where t: "t = mc_add_callstack_hashtable CALLSTACK_HASHTABLE_SIZE q ((csh st)(q := new_callstack st), cs_tbl st)"
      by simp
    have none: "find_cs (current_callstack st) st = Some NULL" using p(1) True by simp
    note R = mc_get_callstack_unknown [OF none a(1) t]
    show ?thesis
    proof (cases "q = 0")
      case True
      then have "tables_ok N X F Y C (with_callstacks b (csh st) (cs_tbl st) st)"
        using tables_ok_with_callstacks [OF ok a(2,3)] a(4) D(4,11,12) by (simp add: cs_table_def)
      then show ?thesis using R True by (auto simp: trace_at_def)
    next
      case False
      then have q: "q \<notin> C" "blk_live Callstack b = insert q C" using a(4) by auto
      have fresh: "\<forall>c\<in>C. cs_key (csh st c) \<noteq> cs_key (current_callstack st)" using p(2) \<open>p = 0\<close> by simp
      note K = tables_ok_new_callstack [OF ok False q(1) a(2,3) q(2) fresh t]
      show ?thesis using R K False by (auto split: if_splits)
    qed
  qed
qed

text \<open>
  The frames of the call stacks in \<open>C\<close>, and of those that are still to be taken, lie in \<open>A\<close>; a call
  stack that is added keeps this.
\<close>

definition frames_at :: "addr set \<Rightarrow> addr set \<Rightarrow> mc \<Rightarrow> bool" where
  "frames_at A C st \<longleftrightarrow> (\<forall>c\<in>C. set (trace_at st c) \<subseteq> A) \<and> (\<forall>n. set (backtraces st n) \<subseteq> A)"

lemma frames_at_cong: "csh st' = csh st \<Longrightarrow> backtraces st' = backtraces st \<Longrightarrow> frames_at A C st' = frames_at A C st"
  by (simp add: frames_at_def trace_at_def)

lemma next_trace_frames: "frames_at A C st \<Longrightarrow> set (next_trace st) \<subseteq> A"
  unfolding frames_at_def next_trace_def by (meson order_trans set_take_subset)

lemma frames_at_grow:
  assumes "frames_at A C st" "C' \<subseteq> insert c C" "\<forall>d\<in>C. trace_at st' d = trace_at st d" "c \<in> C' \<longrightarrow> c \<in> C \<or> trace_at st' c = next_trace st"
    and "backtraces st' = backtraces st"
  shows "frames_at A C' st'"
  using assms next_trace_frames [OF assms(1)] unfolding frames_at_def by (metis insertE subset_iff)

end
