(* ===== verification/MC_Redzone.thy ===== *)
theory MC_Redzone
  imports MC_Buffer
begin

text \<open>
  What the red zones and fill patterns of \<open>memchk_buffer.c\<close> detect. The \<open>int\<close> arithmetic of the
  checks is replaced, for buffers whose red zones are below \<open>2 ^ 31\<close> bytes, by sets of addresses:
  \<open>leading_zone\<close> and \<open>trailing_zone\<close>. The checks report a block exactly when a byte of a zone
  (of the whole buffer, once it is freed) differs from the pattern, and they name the distance.
  Apart from a report a check changes nothing: the relation \<open>quiet\<close>.
\<close>

section \<open>Reports\<close>

text \<open>Only the log, the symbol tables and the number of stack walks change.\<close>

definition quiet :: "mc \<Rightarrow> mc \<Rightarrow> bool" where
  "quiet st st' \<longleftrightarrow> (\<exists>ls fs n. st' = st\<lparr>log := log st @ ls, fmaps := fs, num_backtraces := n\<rparr>)"

lemma quietI: "st' = st\<lparr>log := log st @ ls, fmaps := fs, num_backtraces := n\<rparr> \<Longrightarrow> quiet st st'"
  by (auto simp: quiet_def)

lemma quiet_refl [simp, intro]: "quiet st st"
  by (rule quietI [where ls = "[]" and fs = "fmaps st" and n = "num_backtraces st"]) simp

lemma quiet_trans: "quiet st st1 \<Longrightarrow> quiet st1 st2 \<Longrightarrow> quiet st st2"
  unfolding quiet_def by (elim exE) (simp, metis)

lemma quietE:
  assumes "quiet st st'"
  obtains ls fs n where "st' = st\<lparr>log := log st @ ls, fmaps := fs, num_backtraces := n\<rparr>"
  using assms by (auto simp: quiet_def)

lemma quiet_simps:
  assumes "quiet st st'"
  shows "blk st' = blk st" "amp st' = amp st" "am st' = am st" "fmp st' = fmp st" "fm st' = fm st"
    "csh st' = csh st" "ptr_tbls st' = ptr_tbls st" "free_tbl st' = free_tbl st" "cs_tbl st' = cs_tbl st"
    "num_alloc_memblk st' = num_alloc_memblk st" "num_alloc_cnt st' = num_alloc_cnt st"
    "num_free_cnt st' = num_free_cnt st" "allocated_size st' = allocated_size st"
    "histogram st' = histogram st" "free_fifo_idx st' = free_fifo_idx st"
    "free_memblk_array st' = free_memblk_array st" "mem st' = mem st" "do_not_hook st' = do_not_hook st"
    "backtraces st' = backtraces st" "sort_mmaps st' = sort_mmaps st" "qsort st' = qsort st"
  using assms by (auto elim: quietE)

lemma quiet_log: "quiet st st' \<Longrightarrow> \<exists>ls. log st' = log st @ ls"
  by (auto elim: quietE)

lemma quiet_log_print [intro]: "quiet st st1 \<Longrightarrow> quiet st (mc_log_print l st1)"
  by (erule quiet_trans, rule quietI [where ls = "[l]" and fs = "fmaps st1" and n = "num_backtraces st1"])
    (simp add: mc_log_print_def)

lemma log_mc_log_print [simp]: "log (mc_log_print l st) = log st @ [l]"
  by (simp add: mc_log_print_def)

lemma hook_balanced:
  "mc_enable_hook ((mc_disable_hook st)\<lparr>fmaps := fs\<rparr>) = st\<lparr>fmaps := fs\<rparr>"
  by (simp add: mc_enable_hook_def mc_disable_hook_def)

lemma quiet_fmaps: "quiet st (st\<lparr>fmaps := fs\<rparr>)"
  by (rule quietI [where ls = "[]" and n = "num_backtraces st"]) simp

lemma init_fmaps_quiet: "init_fmaps st = Some st' \<Longrightarrow> quiet st st'"
  by (auto simp: init_fmaps_def hook_balanced quiet_fmaps split: Option.bind_splits)

lemma term_fmaps_quiet: "term_fmaps st = Some st' \<Longrightarrow> quiet st st'"
  by (auto simp: term_fmaps_def hook_balanced quiet_fmaps split: Option.bind_splits)

lemma print_inlines_quiet: "quiet st (print_inlines ss st)"
  by (induction ss arbitrary: st) (auto intro: quiet_trans [OF quiet_log_print [OF quiet_refl]])

lemma print_frame_quiet: "print_frame a st = Some st' \<Longrightarrow> quiet st st'"
  unfolding print_frame_def hook_balanced Let_def
  by (auto split: Option.bind_splits prod.splits sum.splits list.splits simp del: print_inlines.simps
      intro!: quiet_log_print quiet_fmaps quiet_trans [OF _ print_inlines_quiet])

lemma print_frames_quiet: "print_frames as st = Some st' \<Longrightarrow> quiet st st'"
  by (induction as arbitrary: st)
    (auto split: Option.bind_splits dest!: print_frame_quiet intro: quiet_trans)

lemma print_callstack_quiet: "mc_print_callstack d t from st = Some st' \<Longrightarrow> quiet st st'"
  by (simp add: mc_print_callstack_def print_frames_quiet)

lemma print_current_callstack_quiet: "mc_print_current_callstack from st = Some st' \<Longrightarrow> quiet st st'"
proof -
  assume p: "mc_print_current_callstack from st = Some st'"
  have "mc_print_callstack (int (length (take MAX_CALLSTACK_DEPTH (backtraces st (num_backtraces st)))))
      (take MAX_CALLSTACK_DEPTH (backtraces st (num_backtraces st))) from
      (st\<lparr>num_backtraces := num_backtraces st + 1\<rparr>) = Some st'"
    using p by (simp add: mc_print_current_callstack_def backtrace_def mc_disable_hook_def mc_enable_hook_def Let_def)
  then have "quiet (st\<lparr>num_backtraces := num_backtraces st + 1\<rparr>) st'" by (rule print_callstack_quiet)
  moreover have "quiet st (st\<lparr>num_backtraces := num_backtraces st + 1\<rparr>)"
    by (rule quietI [where ls = "[]" and fs = "fmaps st"]) simp
  ultimately show ?thesis by (blast intro: quiet_trans)
qed

text \<open>The lines written between two states.\<close>

definition new_lines :: "mc \<Rightarrow> mc \<Rightarrow> log_line list" where
  "new_lines st st' = drop (length (log st)) (log st')"

lemma new_lines_simps [simp]: "new_lines st st = []" "new_lines st (mc_log_print l st) = [l]"
  by (simp_all add: new_lines_def)

lemma log_new_lines: "quiet st st' \<Longrightarrow> log st' = log st @ new_lines st st'"
  by (auto simp: new_lines_def elim: quietE)

lemma new_lines_trans: "quiet st s \<Longrightarrow> quiet s t \<Longrightarrow> new_lines st t = new_lines st s @ new_lines s t"
  by (auto simp: new_lines_def dest!: quiet_log)

lemma new_lines_same: "log s = log st \<Longrightarrow> new_lines s t = new_lines st t" "log t = log u \<Longrightarrow> new_lines s t = new_lines s u"
  by (simp_all add: new_lines_def)

text \<open>The lines that tell of an illegal or a double free; the printing of call stacks writes none.\<close>

definition free_report :: "log_line \<Rightarrow> bool" where
  "free_report l = (case l of Illegal_free _ \<Rightarrow> True | Double_free _ \<Rightarrow> True | _ \<Rightarrow> False)"

definition free_reports :: "mc \<Rightarrow> log_line list" where
  "free_reports st = filter free_report (log st)"

lemma free_reports_log [simp]:
  "free_reports (mc_log_print l st) = free_reports st @ (if free_report l then [l] else [])"
  "free_reports (st\<lparr>fmaps := fs\<rparr>) = free_reports st" "free_reports (st\<lparr>num_backtraces := n\<rparr>) = free_reports st"
  by (simp_all add: free_reports_def)

lemma free_reports_new: "quiet st st' \<Longrightarrow> free_reports st' = free_reports st @ filter free_report (new_lines st st')"
  using log_new_lines [of st st'] by (simp add: free_reports_def)

lemma print_inlines_no_report: "free_reports (print_inlines ss st) = free_reports st"
  by (induction ss arbitrary: st) (simp_all add: free_report_def)

lemma print_frame_no_report: "print_frame a st = Some st' \<Longrightarrow> free_reports st' = free_reports st"
  unfolding print_frame_def hook_balanced Let_def
  by (auto simp: print_inlines_no_report free_report_def simp del: print_inlines.simps
      split: Option.bind_splits prod.splits sum.splits list.splits)

lemma print_frames_no_report: "print_frames as st = Some st' \<Longrightarrow> free_reports st' = free_reports st"
  by (induction as arbitrary: st) (auto split: Option.bind_splits dest!: print_frame_no_report)

lemma print_callstack_no_report: "mc_print_callstack d t from st = Some st' \<Longrightarrow> free_reports st' = free_reports st"
  by (simp add: mc_print_callstack_def print_frames_no_report)

lemma print_current_no_report: "mc_print_current_callstack from st = Some st' \<Longrightarrow> free_reports st' = free_reports st"
  by (auto simp: mc_print_current_callstack_def backtrace_def mc_disable_hook_def mc_enable_hook_def Let_def free_reports_def
      dest!: print_callstack_no_report)

lemma fmaps_no_report:
  "init_fmaps st = Some st' \<Longrightarrow> free_reports st' = free_reports st" "term_fmaps st = Some st' \<Longrightarrow> free_reports st' = free_reports st"
  by (auto simp: init_fmaps_def term_fmaps_def hook_balanced split: Option.bind_splits)

lemmas report_quiet = init_fmaps_quiet term_fmaps_quiet print_callstack_quiet print_current_callstack_quiet

section \<open>The zones of a buffer\<close>

definition layout_ok :: "addr \<Rightarrow> addr \<Rightarrow> size_t \<Rightarrow> size_t \<Rightarrow> bool" where
  "layout_ok buf usr bufsize usrsize \<longleftrightarrow>
     buf \<le> usr \<and> unat buf + unat bufsize \<le> 2 ^ 64 \<and>
     unat usr + unat usrsize \<le> unat buf + unat bufsize \<and>
     unat usr < unat buf + 2 ^ 31 \<and> unat buf + unat bufsize < unat usr + unat usrsize + 2 ^ 31"

definition leading_zone :: "addr \<Rightarrow> addr \<Rightarrow> nat set" where
  "leading_zone buf usr = {unat buf ..< unat usr}"

definition trailing_zone :: "addr \<Rightarrow> addr \<Rightarrow> size_t \<Rightarrow> size_t \<Rightarrow> nat set" where
  "trailing_zone buf usr bufsize usrsize = {unat usr + unat usrsize ..< unat buf + unat bufsize}"

definition zone_holds :: "(addr \<Rightarrow> u8) \<Rightarrow> u8 \<Rightarrow> nat set \<Rightarrow> bool" where
  "zone_holds m v Z \<longleftrightarrow> (\<forall>n\<in>Z. m (of_nat n) = v)"

text \<open>The sizes the code computes.\<close>

lemma layout_leading:
  assumes "layout_ok buf usr bufsize usrsize"
  shows "unat (usr - buf) = unat usr - unat buf" "int_of_u64 (usr - buf) = int (unat usr - unat buf)"
proof -
  have le: "buf \<le> usr" "unat usr < unat buf + 2 ^ 31" using assms by (auto simp: layout_ok_def)
  then show u: "unat (usr - buf) = unat usr - unat buf" by (simp add: unat_sub)
  have "unat (usr - buf) < 2 ^ 31" unfolding u using le(2) by simp
  then show "int_of_u64 (usr - buf) = int (unat usr - unat buf)"
    using int_of_u64_small u by metis
qed

lemma layout_trailing:
  assumes "layout_ok buf usr bufsize usrsize"
  defines "T \<equiv> unat buf + unat bufsize - (unat usr + unat usrsize)"
  shows "unat (bufsize - (usr - buf) - usrsize) = T"
    and "int_of_u64 (bufsize - size_of_int (int_of_u64 (usr - buf)) - usrsize) = int T"
proof -
  note L = layout_leading [OF assms(1)]
  have b: "buf \<le> usr" "unat usr + unat usrsize \<le> unat buf + unat bufsize"
      "unat buf + unat bufsize < unat usr + unat usrsize + 2 ^ 31"
    using assms(1) by (auto simp: layout_ok_def)
  have le: "unat buf \<le> unat usr" using b(1) by (simp add: word_le_nat_alt)
  have le1: "usr - buf \<le> bufsize" using b L(1) le by (simp add: word_le_nat_alt)
  then have u1: "unat (bufsize - (usr - buf)) = unat bufsize - (unat usr - unat buf)"
    using L(1) by (simp add: unat_sub)
  have le2: "usrsize \<le> bufsize - (usr - buf)" using b le u1 by (simp add: word_le_nat_alt)
  show u2: "unat (bufsize - (usr - buf) - usrsize) = T"
    using b le u1 unat_sub [OF le2] by (simp add: T_def)
  have s: "size_of_int (int_of_u64 (usr - buf)) = usr - buf"
    unfolding size_of_int_def L(2) of_int_of_nat_eq L(1) [symmetric] by simp
  have "T < 2 ^ 31" using b(3) by (simp add: T_def)
  then show "int_of_u64 (bufsize - size_of_int (int_of_u64 (usr - buf)) - usrsize) = int T"
    unfolding s using u2 int_of_u64_small [of "bufsize - (usr - buf) - usrsize"] by simp
qed

text \<open>The two searches of the code, as searches over offsets.\<close>

lemma upto_of_nat: "[0..int n - 1] = map int [0..<n]"
  by (induction n) (simp_all add: upto_rec2)

lemma find_map: "find P (map f xs) = map_option f (find (P \<circ> f) xs)"
  by (induction xs) auto

lemma find_greatest:
  assumes "find P (rev [0..<n]) = Some i"
  shows "i < n" "P i" "\<forall>j < n. i < j \<longrightarrow> \<not> P j"
proof -
  from assms obtain k where k: "k < n" "P (rev [0..<n] ! k)" "i = rev [0..<n] ! k"
    "\<forall>j < k. \<not> P (rev [0..<n] ! j)" by (auto simp: find_Some_iff)
  have at: "rev [0..<n] ! j = n - Suc j" if "j < n" for j using that by (simp add: rev_nth)
  show "i < n" "P i" using k at [of k] by auto
  show "\<forall>j < n. i < j \<longrightarrow> \<not> P j"
  proof (intro allI impI)
    fix j assume j: "j < n" "i < j"
    then have "n - Suc j < k" using k(1,3) at [of k] by auto
    then have "\<not> P (rev [0..<n] ! (n - Suc j))" using k(4) by blast
    then show "\<not> P j" using j(1) at [of "n - Suc j"] by simp
  qed
qed

lemma check_leading_eq:
  "check_leading m buf (int n) = map_option int (find (\<lambda>i. m (buf + of_nat i) \<noteq> REDZONE_PATTERN) [0..<n])"
  unfolding check_leading_def upto_of_nat find_map by (simp add: comp_def)

lemma check_trailing_eq:
  "check_trailing m buf (int l) usrsize (int n) =
     map_option int (find (\<lambda>i. m (buf + of_nat l + usrsize + of_nat i) \<noteq> REDZONE_PATTERN) (rev [0..<n]))"
  unfolding check_trailing_def upto_of_nat rev_map find_map by (simp add: comp_def size_of_int_def add.assoc)

lemma zone_holds_offsets:
  "zone_holds m v {unat (a::addr) ..< unat a + n} \<longleftrightarrow> (\<forall>i < n. m (a + of_nat i) = v)"
proof
  assume z: "zone_holds m v {unat a ..< unat a + n}"
  show "\<forall>i < n. m (a + of_nat i) = v"
  proof (intro allI impI)
    fix i assume "i < n"
    then have "m (of_nat (unat a + i)) = v" using z by (simp add: zone_holds_def del: of_nat_add)
    then show "m (a + of_nat i) = v" by simp
  qed
next
  assume a: "\<forall>i < n. m (a + of_nat i) = v"
  show "zone_holds m v {unat a ..< unat a + n}"
    unfolding zone_holds_def
  proof
    fix k assume "k \<in> {unat a ..< unat a + n}"
    then obtain i where "k = unat a + i" "i < n" by (auto simp: le_iff_add)
    then show "m (of_nat k) = v" using a by simp
  qed
qed

lemma find_none_upt: "find P [0..<n] = None \<longleftrightarrow> (\<forall>i < n. \<not> P i)"
  by (auto simp: find_None_iff)

lemma check_leading_none:
  assumes "layout_ok buf usr bufsize usrsize"
  shows "check_leading m buf (int_of_u64 (usr - buf)) = None \<longleftrightarrow>
     zone_holds m REDZONE_PATTERN (leading_zone buf usr)"
proof -
  have "unat buf \<le> unat usr" using assms by (simp add: layout_ok_def word_le_nat_alt)
  then have "leading_zone buf usr = {unat buf ..< unat buf + (unat usr - unat buf)}"
    by (simp add: leading_zone_def)
  then show ?thesis
    unfolding layout_leading(2) [OF assms] check_leading_eq
    by (simp add: zone_holds_offsets find_none_upt)
qed

lemma check_trailing_none:
  assumes "layout_ok buf usr bufsize usrsize"
  defines "trailing \<equiv> int_of_u64 (bufsize - size_of_int (int_of_u64 (usr - buf)) - usrsize)"
  shows "check_trailing m buf (int_of_u64 (usr - buf)) usrsize trailing = None \<longleftrightarrow>
     zone_holds m REDZONE_PATTERN (trailing_zone buf usr bufsize usrsize)"
proof -
  let ?T = "unat buf + unat bufsize - (unat usr + unat usrsize)"
  note L = layout_leading [OF assms(1)]
  have b: "unat usr + unat usrsize \<le> unat buf + unat bufsize" "unat buf + unat bufsize \<le> 2 ^ 64"
    using assms(1) by (auto simp: layout_ok_def)
  have st: "buf + of_nat (unat usr - unat buf) + usrsize = usr + usrsize"
    unfolding L(1) [symmetric] by simp
  have tr: "trailing = int ?T" using layout_trailing(2) [OF assms(1)] by (simp add: trailing_def)
  show ?thesis
  proof (cases "?T = 0")
    case True
    then have "trailing_zone buf usr bufsize usrsize = {}" using b by (auto simp: trailing_zone_def)
    then show ?thesis
      unfolding tr L(2) check_trailing_eq using True
      by (simp add: zone_holds_def)
  next
    case False
    then have "unat usr + unat usrsize < 2 ^ 64" using b by linarith
    then have "unat (usr + usrsize) = unat usr + unat usrsize" by (simp add: unat_word_ariths)
    then have "trailing_zone buf usr bufsize usrsize = {unat (usr + usrsize) ..< unat (usr + usrsize) + ?T}"
      using b(1) by (simp add: trailing_zone_def)
    then show ?thesis
      unfolding tr L(2) check_trailing_eq st
      by (simp only: zone_holds_offsets) (auto simp: find_None_iff)
  qed
qed

text \<open>The bytes around a block, of a block, and of its buffer.\<close>

definition zones_of :: "addr \<Rightarrow> memblk \<Rightarrow> nat set" where
  "zones_of p m = leading_zone (mb_buf m) p \<union> trailing_zone (mb_buf m) p (mb_bufsize m) (mb_usrsize m)"

definition buffer_of :: "memblk \<Rightarrow> nat set" where
  "buffer_of m = {unat (mb_buf m) ..< unat (mb_buf m) + unat (mb_bufsize m)}"

definition user_bytes :: "addr \<Rightarrow> memblk \<Rightarrow> nat set" where
  "user_bytes p m = {unat p ..< unat p + unat (mb_usrsize m)}"

lemma buffer_split:
  assumes "layout_ok (mb_buf m) p (mb_bufsize m) (mb_usrsize m)"
  shows "buffer_of m = zones_of p m \<union> user_bytes p m" "zones_of p m \<inter> user_bytes p m = {}"
  using assms by (auto simp: buffer_of_def zones_of_def user_bytes_def leading_zone_def trailing_zone_def layout_ok_def
      word_le_nat_alt)

section \<open>The check of an allocated block\<close>

definition block_layout :: "mc \<Rightarrow> addr \<Rightarrow> bool" where
  "block_layout st b \<longleftrightarrow> (let m = am_memblk (am st b) in
     layout_ok (mb_buf m) (mp_ptr (amp st (memptr_of b))) (mb_bufsize m) (mb_usrsize m))"

definition block_zones :: "mc \<Rightarrow> addr \<Rightarrow> nat set" where
  "block_zones st b = (let m = am_memblk (am st b); usr = mp_ptr (amp st (memptr_of b)) in
     leading_zone (mb_buf m) usr \<union> trailing_zone (mb_buf m) usr (mb_bufsize m) (mb_usrsize m))"

definition block_intact :: "mc \<Rightarrow> addr \<Rightarrow> bool" where
  "block_intact st b \<longleftrightarrow> zone_holds (mem st) REDZONE_PATTERN (block_zones st b)"

lemma zone_holds_Un: "zone_holds m v (A \<union> B) \<longleftrightarrow> zone_holds m v A \<and> zone_holds m v B"
  by (auto simp: zone_holds_def)

text \<open>A line of the log before a report.\<close>

lemma quiet_unlog: "quiet (mc_log_print l st) st' \<Longrightarrow> quiet st st'"
  using quiet_trans quiet_log_print [OF quiet_refl] by blast

lemma report_allocated_block_quiet: "report_allocated_block a now st = Some st' \<Longrightarrow> quiet st st'"
  unfolding report_allocated_block_def Let_def
  by (auto split: Option.bind_splits if_splits dest!: report_quiet dest!: quiet_unlog)
    (meson quiet_trans)+

lemma report_freed_block_quiet: "report_freed_block fb u i st = Some st' \<Longrightarrow> quiet st st'"
  unfolding report_freed_block_def Let_def
  by (auto split: Option.bind_splits if_splits dest!: report_quiet dest!: quiet_unlog)
    (meson quiet_trans)+

lemma check_underrun_quiet: "check_underrun m u st = (e, st') \<Longrightarrow> quiet st st'"
  by (auto simp: check_underrun_def Let_def split: option.splits intro!: quiet_log_print)

lemma check_overrun_quiet: "check_overrun m u e0 st = (e, st') \<Longrightarrow> quiet st st'"
  by (auto simp: check_overrun_def Let_def split: option.splits intro!: quiet_log_print)

lemma check_underrun_iff:
  assumes "layout_ok (mb_buf m) u (mb_bufsize m) (mb_usrsize m)"
  shows "fst (check_underrun m u st) \<longleftrightarrow> \<not> zone_holds (mem st) REDZONE_PATTERN (leading_zone (mb_buf m) u)"
  using check_leading_none [OF assms, of "mem st"]
  by (auto simp: check_underrun_def leading_size_def Let_def split: option.splits)

lemma check_overrun_iff:
  assumes "layout_ok (mb_buf m) u (mb_bufsize m) (mb_usrsize m)"
  shows "fst (check_overrun m u e st) \<longleftrightarrow>
     \<not> zone_holds (mem st) REDZONE_PATTERN (trailing_zone (mb_buf m) u (mb_bufsize m) (mb_usrsize m))"
  using check_trailing_none [OF assms, of "mem st"]
  by (auto simp: check_overrun_def leading_size_def trailing_size_def Let_def split: option.splits)

lemma check_clean:
  "\<not> fst (check_underrun m u st) \<Longrightarrow> check_underrun m u st = (False, st)"
  "\<not> fst (check_overrun m u e st) \<Longrightarrow> check_overrun m u e st = (False, st)"
  by (simp_all add: check_underrun_def check_overrun_def Let_def split: option.splits)

text \<open>An intact block passes, and the check leaves no trace.\<close>

lemma mc_check_allocated_buffer_intact:
  assumes "block_layout st b" "block_intact st b"
  shows "mc_check_allocated_buffer b now st = Some (0, st)"
proof -
  let ?m = "am_memblk (am st b)" and ?u = "mp_ptr (amp st (memptr_of b))"
  have l: "layout_ok (mb_buf ?m) ?u (mb_bufsize ?m) (mb_usrsize ?m)"
    using assms(1) by (simp add: block_layout_def Let_def)
  have "check_underrun ?m ?u st = (False, st)" "check_overrun ?m ?u False st = (False, st)"
    using assms(2) check_underrun_iff [OF l, of st] check_overrun_iff [OF l, of False st]
    by (auto intro!: check_clean simp: block_intact_def block_zones_def zone_holds_Un Let_def)
  then show ?thesis by (simp add: mc_check_allocated_buffer_def Let_def)
qed

text \<open>A block that is not intact is reported, whatever else the report needs.\<close>

lemma mc_check_allocated_buffer_quiet:
  "mc_check_allocated_buffer b now st = Some (rc, st') \<Longrightarrow> quiet st st'"
  unfolding mc_check_allocated_buffer_def Let_def
  by (auto split: prod.splits Option.bind_splits if_splits
      dest!: check_underrun_quiet check_overrun_quiet report_allocated_block_quiet intro: quiet_trans)

lemma mc_check_allocated_buffer_rc:
  assumes "block_layout st b" "mc_check_allocated_buffer b now st = Some (rc, st')"
  shows "rc = (if block_intact st b then 0 else - 1)"
proof -
  let ?m = "am_memblk (am st b)" and ?u = "mp_ptr (amp st (memptr_of b))"
  have l: "layout_ok (mb_buf ?m) ?u (mb_bufsize ?m) (mb_usrsize ?m)"
    using assms(1) by (simp add: block_layout_def Let_def)
  obtain u s1 where u: "check_underrun ?m ?u st = (u, s1)" by fastforce
  obtain v s2 where v: "check_overrun ?m ?u u s1 = (v, s2)" by fastforce
  have "mem s1 = mem st" using quiet_simps(17) [OF check_underrun_quiet [OF u]] .
  then have "u \<or> v \<longleftrightarrow> \<not> block_intact st b"
    using check_underrun_iff [OF l, of st] check_overrun_iff [OF l, of u s1] u v
    by (auto simp: block_intact_def block_zones_def zone_holds_Un Let_def)
  then show ?thesis
    using assms(2) u v by (auto simp: mc_check_allocated_buffer_def Let_def split: Option.bind_splits if_splits)
qed

text \<open>
  The distance a report names. \<open>UNDER-RUN k bytes\<close>: the lowest byte written is \<open>k\<close> below the
  block. \<open>OVER-RUN k bytes\<close>: the highest byte written is \<open>k\<close> above its end. \<open>at least\<close>: it is the
  outermost byte of the zone.
\<close>

lemma check_underrun_report:
  assumes "layout_ok (mb_buf m) u (mb_bufsize m) (mb_usrsize m)"
    and w: "n \<in> leading_zone (mb_buf m) u" "mem st (of_nat n) \<noteq> REDZONE_PATTERN"
    and least: "\<forall>k\<in>leading_zone (mb_buf m) u. k < n \<longrightarrow> mem st (of_nat k) = REDZONE_PATTERN"
  shows "(if n = unat (mb_buf m)
          then Underrun_at_least (int (unat u - unat (mb_buf m))) u (mb_usrsize m)
          else Underrun (int (unat u - n)) u (mb_usrsize m)) \<in> set (log (snd (check_underrun m u st)))"
proof -
  let ?b = "mb_buf m" and ?P = "\<lambda>i. mem st (mb_buf m + of_nat i) \<noteq> REDZONE_PATTERN"
  note L = layout_leading(2) [OF assms(1)]
  obtain i where i: "n = unat ?b + i" "i < unat u - unat ?b"
    using w(1) by (auto simp: leading_zone_def le_iff_add)
  have "?P i" using w(2) i(1) by simp
  moreover have "\<not> ?P j" if "j < i" for j
  proof -
    have "mem st (of_nat (unat ?b + j)) = REDZONE_PATTERN"
      using least that i by (auto simp: leading_zone_def simp del: of_nat_add)
    then show ?thesis by simp
  qed
  ultimately have "find ?P [0..<unat u - unat ?b] = Some i"
    using i(2) by (auto simp: find_Some_iff)
  then have "check_leading (mem st) ?b (leading_size m u) = Some (int i)"
    by (simp add: leading_size_def L check_leading_eq)
  moreover have "int (unat u - unat ?b) - int i = int (unat u - n)" using i by simp
  ultimately show ?thesis using i
    by (simp add: check_underrun_def Let_def) (simp add: leading_size_def L)
qed

lemma check_overrun_report:
  assumes l: "layout_ok (mb_buf m) u (mb_bufsize m) (mb_usrsize m)"
    and w: "n \<in> trailing_zone (mb_buf m) u (mb_bufsize m) (mb_usrsize m)" "mem st (of_nat n) \<noteq> REDZONE_PATTERN"
    and most: "\<forall>k\<in>trailing_zone (mb_buf m) u (mb_bufsize m) (mb_usrsize m). n < k \<longrightarrow> mem st (of_nat k) = REDZONE_PATTERN"
  shows "(if n + 1 = unat (mb_buf m) + unat (mb_bufsize m)
          then Overrun_at_least (int (n + 1 - (unat u + unat (mb_usrsize m)))) u (mb_usrsize m)
          else Overrun (int (n + 1 - (unat u + unat (mb_usrsize m)))) u (mb_usrsize m))
         \<in> set (new_lines st (snd (check_overrun m u e st)))"
proof -
  let ?e = "unat u + unat (mb_usrsize m)" and ?T = "unat (mb_buf m) + unat (mb_bufsize m) - (unat u + unat (mb_usrsize m))"
  let ?P = "\<lambda>i. mem st (mb_buf m + of_nat (unat u - unat (mb_buf m)) + mb_usrsize m + of_nat i) \<noteq> REDZONE_PATTERN"
  note L = layout_leading [OF l]
  have T: "trailing_size m u = int ?T" using layout_trailing(2) [OF l] by (simp add: trailing_size_def leading_size_def)
  have at: "?P i \<longleftrightarrow> mem st (of_nat (?e + i)) \<noteq> REDZONE_PATTERN" for i
    unfolding L(1) [symmetric] by simp
  obtain i where i: "n = ?e + i" "i < ?T"
    using w(1) by (auto simp: trailing_zone_def le_iff_add)
  have Pi: "?P i" unfolding at using w(2) i(1) by simp
  have Pj: "\<not> ?P j" if "i < j" "j < ?T" for j
    unfolding at using most that i by (auto simp: trailing_zone_def simp del: of_nat_add)
  obtain k where k: "find ?P (rev [0..<?T]) = Some k"
    using Pi i(2) by (cases "find ?P (rev [0..<?T])") (auto simp: find_None_iff)
  have "k = i" using find_greatest [OF k] Pi Pj i(2) by (metis linorder_neqE_nat)
  then have "check_trailing (mem st) (mb_buf m) (leading_size m u) (mb_usrsize m) (trailing_size m u) = Some (int i)"
    unfolding T leading_size_def L(2) check_trailing_eq using k by simp
  then have C: "check_trailing (mem st) (mb_buf m) (leading_size m u) (mb_usrsize m) (int ?T) = Some (int i)"
    unfolding T .
  have d: "n + 1 - ?e = i + 1" "n + 1 = unat (mb_buf m) + unat (mb_bufsize m) \<longleftrightarrow> i + 1 = ?T"
    "int i = int ?T - 1 \<longleftrightarrow> i + 1 = ?T" using i by linarith+
  have R: "snd (check_overrun m u e st) =
      (let st = (if e then st else mc_log_print Separator st);
           st = mc_log_print (if i + 1 = ?T then Overrun_at_least (int ?T) u (mb_usrsize m)
                              else Overrun (int i + 1) u (mb_usrsize m)) st
       in mc_log_print (Buffer_contents (read_bytes (mem st) (u + mb_usrsize m) (nat (int ?T)))) st)"
    unfolding check_overrun_def T Let_def using C d(3) by simp
  show ?thesis unfolding R d(1,2) by (cases "i + 1 = ?T") (simp_all add: Let_def new_lines_def)
qed

section \<open>Filling\<close>

lemma memset_in: "unat p + unat n \<le> 2 ^ 64 \<Longrightarrow> memset p v n m a = (if unat a \<in> {unat p ..< unat p + unat n} then v else m a)"
proof -
  assume bound: "unat p + unat n \<le> 2 ^ 64"
  have "a - p < n \<longleftrightarrow> unat a \<in> {unat p ..< unat p + unat n}"
  proof (cases "p \<le> a")
    case True
    then have "unat (a - p) = unat a - unat p" "unat p \<le> unat a"
      by (simp_all add: unat_sub word_le_nat_alt)
    then show ?thesis by (auto simp: word_less_nat_alt)
  next
    case False
    then have lt: "unat a < unat p" by (metis not_le word_less_nat_alt)
    have "unat (a - p) = 2 ^ 64 + unat a - unat p"
      using lt by (simp add: unat_sub_if_size word_size)
    then have "\<not> a - p < n" using bound lt by (simp add: word_less_nat_alt)
    then show ?thesis using lt by simp
  qed
  then show ?thesis by (simp add: memset_def)
qed

definition user_area :: "mc \<Rightarrow> addr \<Rightarrow> nat set" where
  "user_area st b = (let usr = mp_ptr (amp st (memptr_of b)) in
     {unat usr ..< unat usr + unat (mb_usrsize (am_memblk (am st b)))})"

text \<open>The three calls of \<open>memset\<close>, as one function of the address.\<close>

lemma mc_set_allocated_buffer_mem:
  assumes "block_layout st b"
  shows "mem (mc_set_allocated_buffer b init st) a =
     (if unat a \<in> block_zones st b then REDZONE_PATTERN
      else if init \<and> unat a \<in> user_area st b then INITBUF_PATTERN else mem st a)"
proof -
  let ?m = "am_memblk (am st b)" and ?u = "mp_ptr (amp st (memptr_of b))"
  let ?b = "mb_buf ?m" and ?n = "mb_usrsize ?m"
  let ?T = "mb_bufsize ?m - (?u - ?b) - ?n"
  have l: "layout_ok ?b ?u (mb_bufsize ?m) ?n" using assms by (simp add: block_layout_def Let_def)
  note L = layout_leading(1) [OF l] and T = layout_trailing(1) [OF l]
  have le: "unat ?b \<le> unat ?u" "unat ?u + unat ?n \<le> unat ?b + unat (mb_bufsize ?m)"
    "unat ?b + unat (mb_bufsize ?m) \<le> 2 ^ 64"
    using l by (auto simp: layout_ok_def word_le_nat_alt)
  have lead: "memset ?b v (?u - ?b) m a = (if unat a \<in> leading_zone ?b ?u then v else m a)" for v m
    using le memset_in [of ?b "?u - ?b" v m a] unfolding L leading_zone_def by simp
  have user: "memset ?u v ?n m a = (if unat a \<in> user_area st b then v else m a)" for v m
    using le memset_in [of ?u ?n v m a] by (simp add: user_area_def Let_def)
  have trail: "memset (?u + ?n) v ?T m a =
      (if unat a \<in> trailing_zone ?b ?u (mb_bufsize ?m) ?n then v else m a)" for v m
  proof (cases "unat ?u + unat ?n < 2 ^ 64")
    case True
    then have "unat (?u + ?n) = unat ?u + unat ?n" by (simp add: unat_word_ariths)
    then show ?thesis using le memset_in [of "?u + ?n" ?T v m a] unfolding T trailing_zone_def by simp
  next
    case False
    then have "unat ?T = 0" "trailing_zone ?b ?u (mb_bufsize ?m) ?n = {}"
      using le T by (auto simp: trailing_zone_def)
    then show ?thesis by (simp add: memset_def unat_eq_zero)
  qed
  have "unat a \<in> leading_zone ?b ?u \<Longrightarrow> unat a \<notin> user_area st b"
    by (simp add: leading_zone_def user_area_def Let_def)
  then show ?thesis
    by (auto simp: mc_set_allocated_buffer_def Let_def lead user trail block_zones_def)
qed

lemma mc_set_allocated_buffer_frame: "mc_set_allocated_buffer b i st = st\<lparr>mem := mem (mc_set_allocated_buffer b i st)\<rparr>"
  by (simp add: mc_set_allocated_buffer_def Let_def)

lemma unat_zone: "block_layout st b \<Longrightarrow> n \<in> block_zones st b \<Longrightarrow> unat (of_nat n :: addr) = n"
  by (intro unat_of_nat_u64)
    (auto simp: block_layout_def layout_ok_def block_zones_def leading_zone_def trailing_zone_def Let_def
      intro: less_le_trans)

text \<open>A block that was filled is intact, and stays so while only its own bytes are written.\<close>

lemma mc_set_allocated_buffer_intact:
  assumes "block_layout st b"
  shows "block_intact (mc_set_allocated_buffer b init st) b"
proof -
  have "block_zones (mc_set_allocated_buffer b init st) b = block_zones st b"
    by (simp add: block_zones_def mc_set_allocated_buffer_def Let_def)
  then show ?thesis
    using unat_zone [OF assms]
    by (simp add: block_intact_def zone_holds_def mc_set_allocated_buffer_mem [OF assms])
qed

lemma not_intact_write:
  assumes "block_layout st b" "unat a \<in> block_zones st b" "v \<noteq> REDZONE_PATTERN"
  shows "\<not> block_intact (st\<lparr>mem := (mem st)(a := v)\<rparr>) b"
proof -
  have "of_nat (unat a) = a" by simp
  then show ?thesis using assms(2,3)
    by (auto simp: block_intact_def zone_holds_def block_zones_def intro!: bexI [of _ "unat a"])
qed

section \<open>Freed blocks\<close>

definition freed_zone :: "mc \<Rightarrow> addr \<Rightarrow> nat set" where
  "freed_zone st f = (let m = fm_memblk (fm st f) in {unat (mb_buf m) ..< unat (mb_buf m) + unat (mb_bufsize m)})"

definition freed_layout :: "mc \<Rightarrow> addr \<Rightarrow> bool" where
  "freed_layout st f \<longleftrightarrow> (let m = fm_memblk (fm st f) in
     unat (mb_buf m) + unat (mb_bufsize m) \<le> 2 ^ 64 \<and> unat (mb_bufsize m) < 2 ^ 31)"

definition freed_intact :: "mc \<Rightarrow> addr \<Rightarrow> bool" where
  "freed_intact st f \<longleftrightarrow> zone_holds (mem st) FREEDBUF_PATTERN (freed_zone st f)"

lemma check_freed_find:
  "unat n < 2 ^ 31 \<Longrightarrow> check_freed m p n = Some (find (\<lambda>i. m (p + of_nat i) \<noteq> FREEDBUF_PATTERN) [0..<unat n])"
  by (simp add: check_freed_def split: option.splits)

lemma check_freed_none:
  "unat n < 2 ^ 31 \<Longrightarrow> check_freed m p n = Some None \<longleftrightarrow>
     zone_holds m FREEDBUF_PATTERN {unat p ..< unat p + unat n}"
  by (simp add: check_freed_find find_none_upt zone_holds_offsets)

lemma mc_set_freed_buffer_mem:
  "freed_layout st f \<Longrightarrow> mem (mc_set_freed_buffer f st) a = (if unat a \<in> freed_zone st f then FREEDBUF_PATTERN else mem st a)"
  by (simp add: mc_set_freed_buffer_def Let_def freed_layout_def freed_zone_def memset_in)

lemma mc_set_freed_buffer_frame: "mc_set_freed_buffer f st = st\<lparr>mem := mem (mc_set_freed_buffer f st)\<rparr>"
  by (simp add: mc_set_freed_buffer_def Let_def)

lemma mc_check_freed_buffer_intact:
  assumes "freed_layout st f" "freed_intact st f"
  shows "mc_check_freed_buffer f st = Some (0, st)"
  using assms check_freed_none [of "mb_bufsize (fm_memblk (fm st f))" "mem st" "mb_buf (fm_memblk (fm st f))"]
  by (simp add: mc_check_freed_buffer_def freed_layout_def freed_intact_def freed_zone_def Let_def)

lemma mc_check_freed_buffer_quiet: "mc_check_freed_buffer f st = Some (rc, st') \<Longrightarrow> quiet st st'"
  unfolding mc_check_freed_buffer_def Let_def
  by (auto split: Option.bind_splits option.splits dest!: report_freed_block_quiet)

lemma mc_check_freed_buffer_rc:
  assumes "freed_layout st f" "mc_check_freed_buffer f st = Some (rc, st')"
  shows "rc = (if freed_intact st f then 0 else - 1)"
  using assms check_freed_none [of "mb_bufsize (fm_memblk (fm st f))" "mem st" "mb_buf (fm_memblk (fm st f))"]
  by (auto simp: mc_check_freed_buffer_def freed_layout_def freed_intact_def freed_zone_def Let_def
      split: Option.bind_splits option.splits)

end
