(* ===== verification/MC_Refine.thy ===== *)
theory MC_Refine
  imports MC_Manage_Inv MC_Redzone
begin

text \<open>
  What the record of blocks promises, as an abstract machine, and the invariant under which
  \<open>memchk_manage_memblk.c\<close> implements it. The abstract state is a finite map from the address of
  a block to its description, and the queue of the last freed blocks, oldest first. It is read
  off the concrete state: a block is live when the table of live blocks finds its address; the
  queue is the circular array from its index on.
\<close>

section \<open>The abstract machine\<close>

record spec =
  sp_live :: "addr \<Rightarrow> memblk option"
  sp_quarantine :: "(addr \<times> memblk) list"

definition spec_register :: "addr \<Rightarrow> memblk \<Rightarrow> spec \<Rightarrow> spec" where
  "spec_register p m s = s\<lparr>sp_live := (sp_live s)(p \<mapsto> m)\<rparr>"

text \<open>The block that leaves the queue, and the queue after a release.\<close>

definition spec_enqueue :: "addr \<times> memblk \<Rightarrow> (addr \<times> memblk) list \<Rightarrow> (addr \<times> memblk) option \<times> (addr \<times> memblk) list" where
  "spec_enqueue x q = (if length q < FREE_FIFO_SIZE then (None, q @ [x]) else (Some (hd q), tl q @ [x]))"

definition spec_unregister :: "addr \<Rightarrow> spec \<Rightarrow> ((addr \<times> memblk) option \<times> spec) option" where
  "spec_unregister p s =
     (case sp_live s p of
        None \<Rightarrow> None
      | Some m \<Rightarrow>
          (case spec_enqueue (p, m) (sp_quarantine s) of
             (old, q) \<Rightarrow> Some (old, s\<lparr>sp_live := (sp_live s)(p := None), sp_quarantine := q\<rparr>)))"

section \<open>The abstraction\<close>

definition live_view :: "mc \<Rightarrow> addr \<Rightarrow> memblk option" where
  "live_view st p =
     (case find_ptr Live p st of
        None \<Rightarrow> None
      | Some n \<Rightarrow> if n = NULL then None else Some (am_memblk (am st (get_alloc_memblk_from_memptr n))))"

definition quarantine :: "mc \<Rightarrow> addr list" where
  "quarantine st =
     filter (\<lambda>f. f \<noteq> NULL)
       (drop (free_fifo_idx st) (free_memblk_array st) @ take (free_fifo_idx st) (free_memblk_array st))"

definition quarantine_view :: "mc \<Rightarrow> (addr \<times> memblk) list" where
  "quarantine_view st = map (\<lambda>f. (fusr_of st f, fm_memblk (fm st f))) (quarantine st)"

definition spec_of :: "mc \<Rightarrow> spec" where
  "spec_of st = \<lparr>sp_live = live_view st, sp_quarantine = quarantine_view st\<rparr>"

text \<open>The part of the state that the record of blocks leaves to others.\<close>

definition outside :: "mc \<Rightarrow> bool \<times> int \<times> filemap_state" where
  "outside st = (initialized st, do_not_hook st, fmaps st)"

section \<open>The circular array\<close>

definition fifo_ok :: "mc \<Rightarrow> bool" where
  "fifo_ok st \<longleftrightarrow> length (free_memblk_array st) = FREE_FIFO_SIZE \<and> free_fifo_idx st < FREE_FIFO_SIZE \<and>
     (NULL \<notin> set (free_memblk_array st) \<or>
      (\<exists>fs. NULL \<notin> set fs \<and> length fs = free_fifo_idx st \<and>
            free_memblk_array st = fs @ replicate (FREE_FIFO_SIZE - length fs) NULL))"

lemma fifo_okE:
  assumes "fifo_ok st"
  obtains (full) "NULL \<notin> set (free_memblk_array st)" "length (free_memblk_array st) = FREE_FIFO_SIZE"
      "free_fifo_idx st < FREE_FIFO_SIZE"
  | (filling) fs where "NULL \<notin> set fs" "length fs = free_fifo_idx st" "length fs < FREE_FIFO_SIZE"
      "free_memblk_array st = fs @ replicate (FREE_FIFO_SIZE - length fs) NULL"
  using assms unfolding fifo_ok_def by auto

lemma filter_nonnull: "NULL \<notin> set xs \<Longrightarrow> filter (\<lambda>f. f \<noteq> NULL) xs = xs"
  by (rule filter_True) auto

lemma quarantine_cong:
  "free_memblk_array st' = free_memblk_array st \<Longrightarrow> free_fifo_idx st' = free_fifo_idx st \<Longrightarrow>
     quarantine st' = quarantine st \<and> (fifo_ok st' \<longleftrightarrow> fifo_ok st)"
  by (simp add: quarantine_def fifo_ok_def)

lemma push_fifo_ok:
  assumes ok: "fifo_ok st" and f: "f \<noteq> NULL" and p: "push_fifo f st = (old, st')"
  shows "fifo_ok st'"
    and "old = NULL \<Longrightarrow> quarantine st' = quarantine st @ [f] \<and> length (quarantine st) < FREE_FIFO_SIZE"
    and "old \<noteq> NULL \<Longrightarrow> \<exists>q. quarantine st = old # q \<and> quarantine st' = q @ [f] \<and> length (quarantine st) = FREE_FIFO_SIZE"
proof -
  let ?a = "free_memblk_array st" and ?i = "free_fifo_idx st"
  have old: "old = ?a ! ?i" and arr: "free_memblk_array st' = ?a[?i := f]"
    and idx: "free_fifo_idx st' = (if ?i + 1 = FREE_FIFO_SIZE then 0 else ?i + 1)"
    using p by (auto simp: push_fifo_def Let_def)
  show "fifo_ok st'"
    using ok
  proof (cases rule: fifo_okE)
    case full
    then have "NULL \<notin> set (?a[?i := f])" using f set_update_subset_insert by fastforce
    then show ?thesis using full arr idx by (simp add: fifo_ok_def)
  next
    case (filling fs)
    have up: "?a[?i := f] = (fs @ [f]) @ replicate (FREE_FIFO_SIZE - length (fs @ [f])) NULL"
    proof -
      obtain k where k: "FREE_FIFO_SIZE - length fs = Suc k" using filling(3) by (metis Suc_diff_Suc)
      then show ?thesis using filling(2,4) by (simp add: list_update_append)
    qed
    have nf: "NULL \<notin> set (fs @ [f])" using filling(1) f by auto
    show ?thesis
    proof (cases "?i + 1 = FREE_FIFO_SIZE")
      case True
      then have "?a[?i := f] = fs @ [f]" using up filling(2) by simp
      then have "free_memblk_array st' = fs @ [f]" "free_fifo_idx st' = 0" using arr idx True by simp_all
      then show ?thesis using nf filling(2) True unfolding fifo_ok_def by (simp add: FREE_FIFO_SIZE_def)
    next
      case False
      then show ?thesis unfolding fifo_ok_def arr idx using up nf filling(2,3)
        by (intro conjI disjI2 exI [of _ "fs @ [f]"]) simp_all
    qed
  qed
  show "old = NULL \<Longrightarrow> quarantine st' = quarantine st @ [f] \<and> length (quarantine st) < FREE_FIFO_SIZE"
    using ok
  proof (cases rule: fifo_okE)
    case full
    then have "?a ! ?i \<in> set ?a" by simp
    then have "old \<noteq> NULL" using full(1) old by metis
    then show "old = NULL \<Longrightarrow> ?thesis" by simp
  next
    case (filling fs)
    obtain k where k: "FREE_FIFO_SIZE - length fs = Suc k" using filling(3) by (metis Suc_diff_Suc)
    have q: "quarantine st = fs"
      unfolding quarantine_def filling(4) filling(2) [symmetric] using filling(1) by (simp add: filter_nonnull)
    have a': "free_memblk_array st' = fs @ [f] @ replicate k NULL"
      using arr filling(2,4) k by (simp add: list_update_append)
    have "quarantine st' = fs @ [f]"
    proof (cases "?i + 1 = FREE_FIFO_SIZE")
      case True
      then have "k = 0" using k filling(2) by simp
      then show ?thesis unfolding quarantine_def a' idx using True filling(1) f by (simp add: filter_nonnull)
    next
      case False
      then have "free_fifo_idx st' = length (fs @ [f])" using idx filling(2) by simp
      then have "quarantine st' = filter (\<lambda>f. f \<noteq> NULL) (replicate k NULL @ (fs @ [f]))"
        unfolding quarantine_def a' by simp
      then show ?thesis using filling(1) f by (simp add: filter_nonnull)
    qed
    then show ?thesis using q filling(3) by simp
  qed
  show "old \<noteq> NULL \<Longrightarrow> \<exists>q. quarantine st = old # q \<and> quarantine st' = q @ [f] \<and> length (quarantine st) = FREE_FIFO_SIZE"
    using ok
  proof (cases rule: fifo_okE)
    case (filling fs)
    then have "?a ! ?i = NULL" by (simp add: nth_append)
    then show "old \<noteq> NULL \<Longrightarrow> ?thesis" using old by simp
  next
    case full
    have n': "NULL \<notin> set (?a[?i := f])" using full f set_update_subset_insert by fastforce
    have i: "?i < length ?a" using full by simp
    have q: "quarantine st = drop ?i ?a @ take ?i ?a"
      unfolding quarantine_def using full(1) by (intro filter_nonnull) (auto dest: in_set_dropD in_set_takeD)
    have d: "drop ?i ?a = old # drop (?i + 1) ?a" using i old by (simp add: Cons_nth_drop_Suc)
    have q': "quarantine st' = drop (?i + 1) ?a @ take ?i ?a @ [f]"
    proof (cases "?i + 1 = FREE_FIFO_SIZE")
      case True
      have "take (length ?a) (?a[?i := f]) = ?a[?i := f]" by simp
      then have "?a[?i := f] = take ?i ?a @ [f]"
        using True full(2) by (simp add: upd_conv_take_nth_drop)
      then show ?thesis unfolding quarantine_def arr idx using True n' full(2) by (simp add: filter_nonnull)
    next
      case False
      have "take (?i + 1) (?a[?i := f]) = take ?i ?a @ [f]" using i by (simp add: take_Suc_conv_app_nth)
      moreover have "drop (?i + 1) (?a[?i := f]) = drop (?i + 1) ?a" by simp
      moreover have "NULL \<notin> set (drop (?i + 1) ?a @ take ?i ?a @ [f])"
        using full(1) f by (auto dest: in_set_dropD in_set_takeD)
      ultimately show ?thesis unfolding quarantine_def arr idx using False by (simp add: filter_nonnull)
    qed
    show ?thesis using q q' d full(2,3) by auto
  qed
qed

section \<open>The invariant\<close>

text \<open>
  \<open>mc_inv N F C st\<close>: the tables hold the objects \<open>N\<close>, \<open>F\<close> and \<open>C\<close> and nothing is in hand; the
  addresses in a table are distinct and no freed block is at a live address; the array of freed
  blocks holds \<open>F\<close>; and every block names   a call stack of the table, or none.
\<close>

definition owners_ok :: "(table_id \<Rightarrow> addr set) \<Rightarrow> addr set \<Rightarrow> addr set \<Rightarrow> mc \<Rightarrow> bool" where
  "owners_ok N F C st \<longleftrightarrow>
     (\<forall>i. \<forall>b\<in>N i. am_allocator (am st b) \<in> insert NULL C) \<and>
     (\<forall>f\<in>F. fm_allocator (fm st f) \<in> insert NULL C \<and> fm_freer (fm st f) \<in> insert NULL C)"

definition keys_ok :: "(table_id \<Rightarrow> addr set) \<Rightarrow> addr set \<Rightarrow> mc \<Rightarrow> bool" where
  "keys_ok N F st \<longleftrightarrow> (\<forall>i. inj_on (usr_of st) (N i)) \<and> inj_on (fusr_of st) F \<and>
     usr_of st ` N Live \<inter> fusr_of st ` F = {}"

definition queue_ok :: "addr set \<Rightarrow> mc \<Rightarrow> bool" where
  "queue_ok F st \<longleftrightarrow> fifo_ok st \<and> distinct (quarantine st) \<and> set (quarantine st) = F"

definition mc_inv :: "(table_id \<Rightarrow> addr set) \<Rightarrow> addr set \<Rightarrow> addr set \<Rightarrow> mc \<Rightarrow> bool" where
  "mc_inv N F C st \<longleftrightarrow>
     tables_ok N {} F {} C st \<and> keys_ok N F st \<and> queue_ok F st \<and> owners_ok N F C st"

definition mc_ok :: "mc \<Rightarrow> bool" where
  "mc_ok st \<longleftrightarrow> (\<exists>N F C. mc_inv N F C st)"

lemma mc_invD:
  assumes "mc_inv N F C st"
  shows "tables_ok N {} F {} C st" "keys_ok N F st" "queue_ok F st" "owners_ok N F C st"
  using assms by (simp_all add: mc_inv_def)

text \<open>Reports do not matter to the invariant or the abstraction.\<close>

lemma quiet_same_tables: "quiet st st' \<Longrightarrow> same_tables st st'"
  by (simp add: same_tables_def quiet_simps)

lemma quiet_views:
  assumes "quiet st st'"
  shows "live_view st' = live_view st" "quarantine st' = quarantine st" "quarantine_view st' = quarantine_view st"
    "usr_of st' = usr_of st" "fusr_of st' = fusr_of st" "spec_of st' = spec_of st"
proof -
  obtain ls fs n where st': "st' = st\<lparr>log := log st @ ls, fmaps := fs, num_backtraces := n\<rparr>"
    using assms by (rule quietE)
  show "live_view st' = live_view st" "quarantine st' = quarantine st" "quarantine_view st' = quarantine_view st"
    "usr_of st' = usr_of st" "fusr_of st' = fusr_of st" "spec_of st' = spec_of st"
    by (simp_all add: st' live_view_def find_ptr_def ptr_table_def quarantine_def quarantine_view_def usr_of_def
      fusr_of_def spec_of_def fun_eq_iff cong: option.case_cong if_cong)
qed

lemma quiet_mc_inv:
  assumes "quiet st st'"
  shows "mc_inv N F C st' \<longleftrightarrow> mc_inv N F C st"
proof -
  have "queue_ok F st' \<longleftrightarrow> queue_ok F st"
    using quiet_simps [OF assms] by (simp add: queue_ok_def fifo_ok_def quarantine_def)
  then show ?thesis
    using tables_ok_same [OF quiet_same_tables [OF assms]] quiet_views [OF assms] quiet_simps [OF assms]
    by (simp add: mc_inv_def keys_ok_def owners_ok_def)
qed

section \<open>Reading the map of live blocks\<close>

lemma find_ptr_live:
  assumes "tables_ok N X F Y C st" "inj_on (usr_of st) (N i)" "b \<in> N i"
  shows "find_ptr i (usr_of st b) st = Some (memptr_of b)"
proof -
  have key: "ptr_key (ptr_table i st) (memptr_of x) = usr_of st x" for x
    by (simp add: ptr_key_def ptr_table_def usr_of_def)
  have "inj_on (ptr_key (ptr_table i st)) (memptr_of ` N i)"
    using assms(2) by (auto simp: inj_on_def key)
  from ptrs.lookup_unique [OF tables_okD(2) [OF assms(1)] this, of "memptr_of b" "usr_of st b"]
  show ?thesis using assms(3) by (simp add: find_ptr_def key)
qed

lemma find_ptr_absent:
  assumes "tables_ok N X F Y C st" "p \<notin> usr_of st ` N i"
  shows "find_ptr i p st = Some NULL"
proof -
  have "p \<notin> ptr_key (ptr_table i st) ` (memptr_of ` N i)"
    using assms(2) by (auto simp: ptr_key_def ptr_table_def usr_of_def)
  from ptrs.lookup_missing [OF tables_okD(2) [OF assms(1)] this] show ?thesis by (simp add: find_ptr_def)
qed

lemma live_view_at:
  assumes "tables_ok N X F Y C st" "inj_on (usr_of st) (N Live)" "b \<in> N Live"
  shows "live_view st (usr_of st b) = Some (am_memblk (am st b))"
proof -
  have "memptr_of b \<noteq> NULL" using memptr_live_nonnull(1) [OF assms(1)] assms(3) by blast
  then show ?thesis using find_ptr_live [where i = Live, OF assms] by (simp add: live_view_def)
qed

lemma live_view_absent:
  assumes "tables_ok N X F Y C st" "p \<notin> usr_of st ` N Live"
  shows "live_view st p = None"
  using find_ptr_absent [where i = Live, OF assms] by (simp add: live_view_def)

lemma dom_live_view:
  assumes "tables_ok N X F Y C st" "inj_on (usr_of st) (N Live)"
  shows "dom (live_view st) = usr_of st ` N Live"
  using live_view_at [OF assms] live_view_absent [OF assms(1)]
  by (auto simp: dom_def) (metis option.distinct(1))

text \<open>How the map follows the table.\<close>

lemma live_view_insert:
  assumes st: "tables_ok N X F Y C st" "inj_on (usr_of st) (N Live)"
    and st': "tables_ok N' X' F' Y' C' st'"
    and N': "N' Live = insert b (N Live)" "b \<notin> N Live"
    and same: "\<And>x. x \<in> N Live \<Longrightarrow> usr_of st' x = usr_of st x \<and> am_memblk (am st' x) = am_memblk (am st x)"
    and new: "usr_of st' b = u" "am_memblk (am st' b) = m" "u \<notin> usr_of st ` N Live"
  shows "live_view st' = (live_view st)(u \<mapsto> m)" and "inj_on (usr_of st') (N' Live)"
proof -
  have im: "usr_of st' ` N Live = usr_of st ` N Live" using same by force
  show inj: "inj_on (usr_of st') (N' Live)"
    using st(2) new(1,3) im same inj_on_cong [of "N Live" "usr_of st'" "usr_of st"] N'(2)
    unfolding N'(1) inj_on_insert by simp
  note at' = live_view_at [OF st' inj] and no' = live_view_absent [OF st']
  show "live_view st' = (live_view st)(u \<mapsto> m)"
  proof (rule ext)
    fix p
    consider "p = u" | x where "x \<in> N Live" "p = usr_of st x" | "p \<noteq> u" "p \<notin> usr_of st ` N Live" by blast
    then show "live_view st' p = ((live_view st)(u \<mapsto> m)) p"
    proof cases
      case 1
      then show ?thesis using at' [of b] new N'(1) by simp
    next
      case (2 x)
      moreover have "p \<noteq> u" using 2 new(3) by auto
      ultimately show ?thesis using at' [of x] live_view_at [OF st 2(1)] same [of x] N'(1) by simp
    next
      case 3
      have "p \<notin> usr_of st' ` N' Live" using 3 im new(1) N'(1) by simp
      then show ?thesis using no' live_view_absent [OF st(1) 3(2)] 3(1) by simp
    qed
  qed
qed

lemma live_view_delete:
  assumes st: "tables_ok N X F Y C st" "inj_on (usr_of st) (N Live)"
    and st': "tables_ok N' X' F' Y' C' st'"
    and N': "N' Live = N Live - {b}" "b \<in> N Live"
    and same: "\<And>x. x \<in> N' Live \<Longrightarrow> usr_of st' x = usr_of st x \<and> am_memblk (am st' x) = am_memblk (am st x)"
  shows "live_view st' = (live_view st)(usr_of st b := None)" and "inj_on (usr_of st') (N' Live)"
proof -
  show inj: "inj_on (usr_of st') (N' Live)"
    using st(2) same N'(1) inj_on_cong [of "N' Live" "usr_of st'" "usr_of st"]
    by (simp add: inj_on_diff)
  have im: "usr_of st' ` N' Live = usr_of st ` N Live - {usr_of st b}"
  proof -
    have "usr_of st' ` N' Live = usr_of st ` N' Live" using same by force
    then show ?thesis using st(2) N' inj_on_image_set_diff [OF st(2), of "N Live" "{b}"] by auto
  qed
  note at' = live_view_at [OF st' inj] and no' = live_view_absent [OF st']
  show "live_view st' = (live_view st)(usr_of st b := None)"
  proof (rule ext)
    fix p
    show "live_view st' p = ((live_view st)(usr_of st b := None)) p"
    proof (cases "p \<in> usr_of st' ` N' Live")
      case True
      then obtain x where x: "x \<in> N' Live" "p = usr_of st x" using same by auto
      have "x \<in> N Live" "p \<noteq> usr_of st b" using x N' inj_on_eq_iff [OF st(2), of x b] by auto
      then show ?thesis using at' [OF x(1)] live_view_at [OF st, of x] same [OF x(1)] x by simp
    next
      case False
      then show ?thesis using no' [OF False] im live_view_absent [OF st(1), of p] by auto
    qed
  qed
qed

text \<open>Call stacks are interned: one object for each trace.\<close>

lemma mc_get_callstack_interned:
  assumes inv: "mc_ok st" and run: "mc_get_callstack st = Some (c, st')" and c: "c \<noteq> NULL"
  shows "c \<in> blk_live Callstack (blk st') \<and> find_cs (csh st' c) st' = Some c \<and> trace_at st' c = next_trace st \<and>
     (\<forall>d\<in>blk_live Callstack (blk st). trace_at st d = next_trace st \<longrightarrow> d = c)"
proof -
  from inv obtain N F C where I: "mc_inv N F C st" by (auto simp: mc_ok_def)
  note T = mc_invD(1) [OF I]
  from mc_get_callstack_ok [OF T] run c obtain b h t C' where
    st': "st' = with_callstacks b h t st" and ok: "tables_ok N {} F {} C' st'" and sub: "C \<subseteq> C'"
    and keep: "\<forall>d\<in>C. cs_trace (h d) = trace_at st d" and new: "c \<in> C'" "cs_trace (h c) = next_trace st"
    by (auto split: if_splits)
  have h: "csh st' = h" by (simp add: st' with_callstacks_def)
  note D = tables_okD [OF ok]
  have "d = c" if "d \<in> C" "trace_at st d = next_trace st" for d
  proof -
    have "cs_key (csh st' d) = cs_key (csh st' c)"
      using that keep new D(11) sub h by (simp add: trace_ok_key subset_iff)
    then show ?thesis using D(12) that(1) new(1) sub by (auto dest: inj_onD)
  qed
  moreover have "find_cs (csh st' c) st' = Some c"
    unfolding find_cs_def
    by (rule stacks.lookup_unique [OF D(4)])
      (use D(12) new(1) in \<open>auto simp: cs_node_key_def cs_table_def inj_on_def\<close>)
  ultimately show ?thesis using new D(10) tables_okD(10) [OF T] h by (simp add: trace_at_def)
qed

end
