(* ===== verification/MC_Manage_Ops.thy ===== *)
theory MC_Manage_Ops
  imports MC_Refine
begin

text \<open>
  Registration and release implement the abstract machine of \<open>MC_Refine\<close> and keep the invariant:
  the stages of \<open>mc_register_memblk\<close> and \<open>mc_unregister_memblk\<close>, then the operations.
\<close>

section \<open>Objects in hand\<close>

text \<open>Writing to an object that is in no table disturbs no table.\<close>

lemma tables_ok_loose_amp:
  assumes "tables_ok N X F Y C st" "b \<in> X"
  shows "tables_ok N X F Y C (st\<lparr>amp := (amp st)(memptr_of b := v)\<rparr>)"
proof -
  note D = tables_okD [OF assms(1)]
  have "ptr_table_ok ALLOC_MEMPTR_HASHTABLE_SIZE ((amp st)(memptr_of b := v), ptr_tbls st i) (memptr_of ` N i)" for i
  proof (rule ptr_table_cong)
    show "ptr_table_ok ALLOC_MEMPTR_HASHTABLE_SIZE (amp st, ptr_tbls st i) (memptr_of ` N i)"
      using D(2) [of i] by (simp add: ptr_table_def)
    show "\<And>n. n \<in> memptr_of ` N i \<Longrightarrow> ((amp st)(memptr_of b := v)) n = amp st n"
      using D(7) [of i] assms(2) by (auto simp: disjoint_iff)
  qed
  then show ?thesis using assms(1) by (simp add: tables_ok_def ptr_table_def free_table_def cs_table_def)
qed

lemma tables_ok_loose_fmp:
  assumes "tables_ok N X F Y C st" "f \<in> Y"
  shows "tables_ok N X F Y C (st\<lparr>fmp := (fmp st)(memptr_of f := v)\<rparr>)"
proof -
  note D = tables_okD [OF assms(1)]
  have "ptr_table_ok FREE_MEMPTR_HASHTABLE_SIZE ((fmp st)(memptr_of f := v), free_tbl st) (memptr_of ` F)"
  proof (rule ptr_table_cong)
    show "ptr_table_ok FREE_MEMPTR_HASHTABLE_SIZE (fmp st, free_tbl st) (memptr_of ` F)"
      using D(3) by (simp add: free_table_def)
    show "\<And>n. n \<in> memptr_of ` F \<Longrightarrow> ((fmp st)(memptr_of f := v)) n = fmp st n"
      using D(9) assms(2) by (auto simp: disjoint_iff)
  qed
  then show ?thesis using assms(1) by (simp add: tables_ok_def ptr_table_def free_table_def cs_table_def)
qed

text \<open>The fields the tables do not depend on.\<close>

lemma tables_ok_other [simp]:
  "tables_ok N X F Y C (st\<lparr>am := v1\<rparr>) = tables_ok N X F Y C st"
  "tables_ok N X F Y C (st\<lparr>fm := v2\<rparr>) = tables_ok N X F Y C st"
  "tables_ok N X F Y C (st\<lparr>mem := v3\<rparr>) = tables_ok N X F Y C st"
  "tables_ok N X F Y C (st\<lparr>log := v4\<rparr>) = tables_ok N X F Y C st"
  "tables_ok N X F Y C (upd_am b f st) = tables_ok N X F Y C st"
  "tables_ok N X F Y C (mc_log_print l st) = tables_ok N X F Y C st"
  "tables_ok N X F Y C (set_freer x c st) = tables_ok N X F Y C st"
  "tables_ok N X F Y C (count_alloc n st) = tables_ok N X F Y C st"
  "tables_ok N X F Y C (count_free n st) = tables_ok N X F Y C st"
  "tables_ok N X F Y C (mc_set_allocated_buffer b i st) = tables_ok N X F Y C st"
  "tables_ok N X F Y C (mc_set_freed_buffer b st) = tables_ok N X F Y C st"
  by (rule tables_ok_same; simp add: same_tables_def upd_am_def mc_log_print_def set_freer_def count_alloc_def
      count_free_def mc_set_allocated_buffer_def mc_set_freed_buffer_def Let_def)+

lemma tables_ok_push_fifo: "push_fifo f st = (old, st') \<Longrightarrow> tables_ok N X F Y C st' = tables_ok N X F Y C st"
  by (rule tables_ok_same) (auto simp: same_tables_def push_fifo_def Let_def)

section \<open>Registration\<close>

lemma mc_register_memblk_fail:
  "do_allocate AllocMemblk st = Some (NULL, st1) \<Longrightarrow>
     mc_register_memblk buf usrptr bufsize usrsize st = Some (- 1, mc_log_print Register_failed st1)"
  by (simp add: mc_register_memblk_def mc_enable_hook_def mc_disable_hook_def mc_log_print_def)

lemma mc_register_memblk_success:
  "do_allocate AllocMemblk st = Some (b, st1) \<Longrightarrow> b \<noteq> NULL \<Longrightarrow>
     mc_get_callstack (init_alloc_memblk b buf usrptr bufsize usrsize st1) = Some (c, st2) \<Longrightarrow>
     mc_register_memblk buf usrptr bufsize usrsize st =
       Some (0, count_alloc usrsize (add_ptr Live (memptr_of b)
                  (mc_set_allocated_buffer b True (upd_am b (\<lambda>x. x\<lparr>am_allocator := c\<rparr>) st2))))"
  by (simp add: mc_register_memblk_def)

text \<open>What a successful registration leaves of the old state and makes of the block.\<close>

definition registered :: "addr \<Rightarrow> addr \<Rightarrow> memblk \<Rightarrow> mc \<Rightarrow> mc \<Rightarrow> bool" where
  "registered b p m st st' \<longleftrightarrow>
     usr_of st' b = p \<and> am_memblk (am st' b) = m \<and>
     (\<forall>x. x \<noteq> b \<longrightarrow> usr_of st' x = usr_of st x \<and> am st' x = am st x) \<and>
     fusr_of st' = fusr_of st \<and> fm st' = fm st \<and>
     free_memblk_array st' = free_memblk_array st \<and> free_fifo_idx st' = free_fifo_idx st \<and> log st' = log st \<and>
     outside st' = outside st \<and>
     (layout_ok (mb_buf m) p (mb_bufsize m) (mb_usrsize m) \<longrightarrow>
        (\<forall>a. mem st' a = (if unat a \<in> zones_of p m then REDZONE_PATTERN
                       else if unat a \<in> user_bytes p m then INITBUF_PATTERN else mem st a)))"

text \<open>A call stack is taken in a state from which one object has been allocated since \<open>st\<close>.\<close>

definition second_object :: "blk_kind \<Rightarrow> mc \<Rightarrow> addr \<Rightarrow> bool" where
  "second_object k st c \<longleftrightarrow> (\<exists>p s0 s s1 N X F Y C. do_allocate k st = Some (p, s0) \<and> blk s = blk s0 \<and> tables_ok N X F Y C s \<and>
     mc_get_callstack s = Some (c, s1))"

lemma second_objectI:
  "do_allocate k st = Some (p, s0) \<Longrightarrow> mc_get_callstack s = Some (c, s1) \<Longrightarrow> blk s = blk s0 \<Longrightarrow> tables_ok N X F Y C s \<Longrightarrow>
   second_object k st c"
  unfolding second_object_def by blast

lemma mc_register_memblk_stages:
  assumes ok: "tables_ok N {} F {} C st"
  obtains (failed) bs where
      "mc_register_memblk buf usrptr bufsize usrsize st = Some (- 1, mc_log_print Register_failed (st\<lparr>blk := bs\<rparr>))"
      "tables_ok N {} F {} C (st\<lparr>blk := bs\<rparr>)"
  | (success) b c st' C' where
      "mc_register_memblk buf usrptr bufsize usrsize st = Some (0, count_alloc usrsize st')"
      "b \<notin> (\<Union>i. N i)" "tables_ok (N(Live := insert b (N Live))) {} F {} C' st'"
      "registered b usrptr \<lparr>mb_buf = buf, mb_bufsize = bufsize, mb_usrsize = usrsize\<rparr> st st'"
      "am_allocator (am st' b) = c" "C \<subseteq> C'" "c \<in> insert NULL C'" "c = NULL \<or> trace_at st' c = next_trace st"
      "num_alloc_cnt st' = num_alloc_cnt st" "num_alloc_memblk st' = num_alloc_memblk st"
      "num_free_cnt st' = num_free_cnt st" "allocated_size st' = allocated_size st" "histogram st' = histogram st"
      "second_object AllocMemblk st c" "\<And>A. frames_at A C st \<Longrightarrow> frames_at A C' st'"
proof -
  from do_allocate_alloc_ok [OF ok] obtain b bs where
    a: "do_allocate AllocMemblk st = Some (b, st\<lparr>blk := bs\<rparr>)"
      "tables_ok N (if b = 0 then {} else {b}) F {} C (st\<lparr>blk := bs\<rparr>)" "b \<noteq> 0 \<longrightarrow> b \<notin> (\<Union>i. N i)"
    by auto
  show ?thesis
  proof (cases "b = 0")
    case True
    then show ?thesis using failed mc_register_memblk_fail a by auto
  next
    case False
    let ?m = "\<lparr>mb_buf = buf, mb_bufsize = bufsize, mb_usrsize = usrsize\<rparr>"
    let ?st2 = "init_alloc_memblk b buf usrptr bufsize usrsize (st\<lparr>blk := bs\<rparr>)"
    have ok2: "tables_ok N {b} F {} C ?st2"
      using tables_ok_loose_amp [of N "{b}" F "{}" C "upd_am b (\<lambda>x. x\<lparr>am_memblk := ?m\<rparr>) (st\<lparr>blk := bs\<rparr>)" b] a(2) False
      by (simp add: init_alloc_memblk_def Let_def)
    from mc_get_callstack_ok [OF ok2] obtain c b' h t C' where
      g: "mc_get_callstack ?st2 = Some (c, with_callstacks b' h t ?st2)"
        "tables_ok N {b} F {} C' (with_callstacks b' h t ?st2)" "C \<subseteq> C'"
        "if c = NULL then C' = C else c \<in> C' \<and> cs_trace (h c) = next_trace ?st2"
        "C' \<subseteq> insert c C" "\<forall>d\<in>C. cs_trace (h d) = trace_at ?st2 d" by blast
    have st2: "blk ?st2 = bs" "csh ?st2 = csh st" "backtraces ?st2 = backtraces st" "num_backtraces ?st2 = num_backtraces st"
      by (simp_all add: init_alloc_memblk_def upd_am_def Let_def)
    have so: "second_object AllocMemblk st c" by (rule second_objectI [OF a(1) g(1) _ ok2]) (simp add: st2)
    let ?st3 = "upd_am b (\<lambda>x. x\<lparr>am_allocator := c\<rparr>) (with_callstacks b' h t ?st2)"
    let ?st4 = "mc_set_allocated_buffer b True ?st3" and ?st5 = "add_ptr Live (memptr_of b) (mc_set_allocated_buffer b True ?st3)"
    have ok4: "tables_ok N {b} F {} C' ?st4" using g(2) by simp
    note A = add_ptr_ok [OF ok4, of b Live]
    have usr4: "usr_of ?st4 x = (if x = b then usrptr else usr_of st x)" for x
      by (simp add: usr_of_def mc_set_allocated_buffer_def upd_am_def with_callstacks_def init_alloc_memblk_def Let_def)
    have f5: "am ?st5 = am ?st3" "fm ?st5 = fm st" "fmp ?st5 = fmp st" "mem ?st5 = mem ?st4"
      "free_memblk_array ?st5 = free_memblk_array st" "free_fifo_idx ?st5 = free_fifo_idx st"
      "num_alloc_cnt ?st5 = num_alloc_cnt st" "num_alloc_memblk ?st5 = num_alloc_memblk st"
      "num_free_cnt ?st5 = num_free_cnt st" "allocated_size ?st5 = allocated_size st" "histogram ?st5 = histogram st"
      "csh ?st5 = h" "am ?st4 = am ?st3" "log ?st5 = log st" "outside ?st5 = outside st" "backtraces ?st5 = backtraces st"
      by (simp_all add: outside_def add_ptr_def set_ptr_table_def mc_set_allocated_buffer_def upd_am_def with_callstacks_def
          init_alloc_memblk_def Let_def)
    have am3: "am_memblk (am ?st3 b) = ?m" "am_allocator (am ?st3 b) = c" "x \<noteq> b \<Longrightarrow> am ?st3 x = am st x" for x
      by (simp_all add: upd_am_def with_callstacks_def init_alloc_memblk_def Let_def)
    have usr5: "usr_of ?st5 x = (if x = b then usrptr else usr_of st x)" for x using A(2) usr4 by simp
    have filled: "mem ?st5 x = (if unat x \<in> zones_of usrptr ?m then REDZONE_PATTERN
        else if unat x \<in> user_bytes usrptr ?m then INITBUF_PATTERN else mem st x)"
      if "layout_ok (mb_buf ?m) usrptr (mb_bufsize ?m) (mb_usrsize ?m)" for x
    proof -
      have s3: "am_memblk (am ?st3 b) = ?m" "mp_ptr (amp ?st3 (memptr_of b)) = usrptr" "mem ?st3 = mem st"
        by (simp_all add: upd_am_def with_callstacks_def init_alloc_memblk_def Let_def)
      have "block_layout ?st3 b" unfolding block_layout_def s3 using that by (simp add: Let_def)
      from mc_set_allocated_buffer_mem [OF this, of True x] show ?thesis
        unfolding f5(4) block_zones_def user_area_def s3 by (simp add: zones_of_def user_bytes_def Let_def)
    qed
    have frees: "fusr_of ?st5 = fusr_of st" unfolding fusr_of_def f5(3) ..
    have "\<forall>x. x \<noteq> b \<longrightarrow> usr_of ?st5 x = usr_of st x \<and> am ?st5 x = am st x"
      using usr5 am3(3) unfolding f5(1) by presburger
    moreover have "usr_of ?st5 b = usrptr" "am_memblk (am ?st5 b) = ?m" using usr5 am3(1) unfolding f5(1) by presburger+
    ultimately have "registered b usrptr ?m st ?st5"
      unfolding registered_def using frees f5(2,5,6,14,15) filled by blast
    moreover have "c \<in> insert NULL C'" "c = NULL \<or> trace_at ?st5 c = next_trace st"
      using g(4) f5(12) by (auto simp: trace_at_def next_trace_def init_alloc_memblk_def upd_am_def Let_def split: if_splits)
    moreover have "frames_at A C' ?st5" if "frames_at A C st" for A
      by (rule frames_at_grow [OF that g(5)]) (use g(4,6) f5 st2 in \<open>auto simp: trace_at_def next_trace_def split: if_splits\<close>)
    ultimately show ?thesis
      using success [of ?st5 b C' c, OF _ _ _ _ _ _ _ _ _ _ _ _ _ so] mc_register_memblk_success [OF a(1) False g(1)] A(1) a(3) False f5 am3 g(3)
      by simp
  qed
qed

text \<open>The counters belong to neither the invariant nor the abstract state.\<close>

lemma count_alloc_views [simp]:
  "spec_of (count_alloc n st) = spec_of st" "mc_inv N F C (count_alloc n st) = mc_inv N F C st"
  "live_view (count_alloc n st) = live_view st" "quarantine_view (count_alloc n st) = quarantine_view st"
proof -
  have st: "same_tables st (count_alloc n st)" "am (count_alloc n st) = am st" "fm (count_alloc n st) = fm st"
    "free_memblk_array (count_alloc n st) = free_memblk_array st" "free_fifo_idx (count_alloc n st) = free_fifo_idx st"
    by (simp_all add: same_tables_def count_alloc_def)
  show live: "live_view (count_alloc n st) = live_view st"
    by (rule ext) (simp add: live_view_def find_ptr_def ptr_table_def count_alloc_def cong: option.case_cong if_cong)
  show q: "quarantine_view (count_alloc n st) = quarantine_view st"
    by (simp add: quarantine_view_def quarantine_def fusr_of_def count_alloc_def)
  show "spec_of (count_alloc n st) = spec_of st" using live q by (simp add: spec_of_def)
  have u: "usr_of (count_alloc n st) = usr_of st" "fusr_of (count_alloc n st) = fusr_of st"
    by (simp_all add: usr_of_def fusr_of_def count_alloc_def fun_eq_iff)
  have "queue_ok F (count_alloc n st) = queue_ok F st"
    by (simp add: queue_ok_def fifo_ok_def quarantine_def count_alloc_def)
  then show "mc_inv N F C (count_alloc n st) = mc_inv N F C st"
    using st u by (simp add: mc_inv_def keys_ok_def owners_ok_def)
qed

lemma mc_inv_blk:
  assumes "mc_inv N F C st" "tables_ok N {} F {} C (st\<lparr>blk := bs\<rparr>)"
  shows "mc_inv N F C (st\<lparr>blk := bs\<rparr>)" "spec_of (st\<lparr>blk := bs\<rparr>) = spec_of st"
proof -
  have u: "usr_of (st\<lparr>blk := bs\<rparr>) = usr_of st" "fusr_of (st\<lparr>blk := bs\<rparr>) = fusr_of st"
    by (simp_all add: usr_of_def fusr_of_def fun_eq_iff)
  have "quarantine (st\<lparr>blk := bs\<rparr>) = quarantine st" "fifo_ok (st\<lparr>blk := bs\<rparr>) = fifo_ok st"
    by (simp_all add: quarantine_def fifo_ok_def)
  then show "mc_inv N F C (st\<lparr>blk := bs\<rparr>)"
    using assms u by (simp add: mc_inv_def keys_ok_def queue_ok_def owners_ok_def)
  have "live_view (st\<lparr>blk := bs\<rparr>) = live_view st"
    by (rule ext) (simp add: live_view_def find_ptr_def ptr_table_def cong: option.case_cong if_cong)
  moreover have "quarantine_view (st\<lparr>blk := bs\<rparr>) = quarantine_view st"
    using u by (simp add: quarantine_view_def quarantine_def)
  ultimately show "spec_of (st\<lparr>blk := bs\<rparr>) = spec_of st" by (simp add: spec_of_def)
qed

lemma quarantine_addresses: "queue_ok F st \<Longrightarrow> fst ` set (quarantine_view st) = fusr_of st ` F"
  by (auto simp: queue_ok_def quarantine_view_def image_image)

lemma registered_inv:
  assumes inv: "mc_inv N F C st" and u: "live_view st p = None" "p \<notin> fst ` set (quarantine_view st)"
    and ok: "b \<notin> (\<Union>i. N i)" "tables_ok (N(Live := insert b (N Live))) {} F {} C' st'"
    and r: "registered b p m st st'"
    and own: "am_allocator (am st' b) = c" "c \<in> insert NULL C'" "C \<subseteq> C'"
  shows "mc_inv (N(Live := insert b (N Live))) F C' st'" "spec_of st' = spec_register p m (spec_of st)"
proof -
  note I = mc_invD [OF inv]
  let ?N = "N(Live := insert b (N Live))"
  have old: "x \<noteq> b \<Longrightarrow> usr_of st' x = usr_of st x \<and> am st' x = am st x" for x
    using r by (simp add: registered_def)
  have new: "usr_of st' b = p" "am_memblk (am st' b) = m" using r by (simp_all add: registered_def)
  have bN: "b \<notin> N i" for i using ok(1) by auto
  have injL: "inj_on (usr_of st) (N Live)" using I(2) by (simp add: keys_ok_def)
  have pL: "p \<notin> usr_of st ` N Live" using dom_live_view [OF I(1) injL] u(1) by (metis domIff)
  have same: "usr_of st' x = usr_of st x \<and> am_memblk (am st' x) = am_memblk (am st x)" if "x \<in> N Live" for x
    using old that bN by metis
  note V = live_view_insert [OF I(1) injL ok(2) _ bN same new pL]
  have frees: "fusr_of st' = fusr_of st" "fm st' = fm st" "quarantine st' = quarantine st" "fifo_ok st' = fifo_ok st"
    using r by (simp_all add: registered_def quarantine_def fifo_ok_def)
  have "inj_on (usr_of st') (?N i)" for i
  proof (cases "i = Live")
    case True
    then show ?thesis using V(2) by simp
  next
    case False
    have "inj_on (usr_of st) (N i)" using I(2) by (simp add: keys_ok_def)
    moreover have "\<forall>x\<in>N i. usr_of st' x = usr_of st x" using old bN by metis
    ultimately show ?thesis using False inj_on_cong [of "N i" "usr_of st'" "usr_of st"] by simp
  qed
  moreover have "usr_of st' ` N Live = usr_of st ` N Live" using same by (intro image_cong) simp_all
  ultimately have "keys_ok ?N F st'"
    using I(2) frees new u(2) quarantine_addresses [OF I(3)] by (simp add: keys_ok_def)
  moreover have "owners_ok ?N F C' st'"
    using I(4) own old frees(2) bN unfolding owners_ok_def by (auto split: if_splits) (metis subsetD)+
  moreover have "queue_ok F st'" using I(3) frees by (simp add: queue_ok_def)
  ultimately show "mc_inv ?N F C' st'" using ok(2) by (simp add: mc_inv_def)
  show "spec_of st' = spec_register p m (spec_of st)"
    using V(1) frees by (simp add: spec_of_def spec_register_def quarantine_view_def)
qed

text \<open>
  Registration of a block at an address that holds none refines the abstract step, or fails for
  lack of memory and changes nothing but the log. It always returns.
\<close>

lemma mc_register_memblk_ok:
  assumes inv: "mc_ok st" and u: "live_view st usrptr = None" "usrptr \<notin> fst ` set (quarantine_view st)"
  shows "\<exists>rc st'. mc_register_memblk buf usrptr bufsize usrsize st = Some (rc, st') \<and> mc_ok st' \<and>
     (rc = 0 \<and> spec_of st' = spec_register usrptr \<lparr>mb_buf = buf, mb_bufsize = bufsize, mb_usrsize = usrsize\<rparr> (spec_of st) \<or>
      rc = - 1 \<and> spec_of st' = spec_of st)"
proof -
  from inv obtain N F C where I: "mc_inv N F C st" by (auto simp: mc_ok_def)
  note T = mc_invD [OF I]
  show ?thesis
  proof (cases rule: mc_register_memblk_stages [OF T(1), of buf usrptr bufsize usrsize])
    case (1 bs)
    let ?st = "st\<lparr>blk := bs\<rparr>"
    have q: "quiet ?st (mc_log_print Register_failed ?st)" by (rule quiet_log_print) simp
    have "mc_inv N F C (mc_log_print Register_failed ?st)" "spec_of (mc_log_print Register_failed ?st) = spec_of st"
      using mc_inv_blk [OF I 1(2)] quiet_mc_inv [OF q] quiet_views(6) [OF q] by simp_all
    then show ?thesis using 1(1) by (auto simp: mc_ok_def)
  next
    case (2 b c st' C')
    from registered_inv [OF I u 2(2,3,4,5) 2(7,6)] 2(1) show ?thesis
      by (auto simp: mc_ok_def)
  qed
qed

section \<open>Release into the quarantine\<close>

text \<open>The state in which the block has become the freed block \<open>f\<close>, before the queue is touched.\<close>

definition retired :: "addr \<Rightarrow> addr \<Rightarrow> memblk \<Rightarrow> mc \<Rightarrow> mc \<Rightarrow> bool" where
  "retired f p m st st' \<longleftrightarrow>
     fusr_of st' f = p \<and> fm_memblk (fm st' f) = m \<and>
     (\<forall>x. x \<noteq> f \<longrightarrow> fusr_of st' x = fusr_of st x \<and> fm st' x = fm st x) \<and>
     usr_of st' = usr_of st \<and> am st' = am st \<and>
     free_memblk_array st' = free_memblk_array st \<and> free_fifo_idx st' = free_fifo_idx st \<and> log st' = log st \<and>
     outside st' = outside st \<and>
     (unat (mb_buf m) + unat (mb_bufsize m) \<le> 2 ^ 64 \<longrightarrow>
        mem st' = (\<lambda>a. if unat a \<in> {unat (mb_buf m) ..< unat (mb_buf m) + unat (mb_bufsize m)}
                      then FREEDBUF_PATTERN else mem st a))"

lemma quarantine_memblk_stages:
  assumes ok: "tables_ok N {a} F {} C st"
  obtains (failed) st' where
      "quarantine_memblk a n st = Some ((- 1, None), st')" "tables_ok N {} F {} C st'"
      "st' = st\<lparr>blk := blk st'\<rparr>"
  | (success) f c st1 C' where
      "f \<notin> F" "f \<noteq> NULL" "C \<subseteq> C'"
      "tables_ok N {} (insert f F) {} C' (count_free n st1)"
      "retired f (usr_of st a) (am_memblk (am st a)) st st1"
      "fm_allocator (fm st1 f) = am_allocator (am st a)" "fm_freer (fm st1 f) = c" "c \<in> insert NULL C'"
      "quarantine_memblk a n st =
         (case push_fifo f (count_free n st1) of (old, st') \<Rightarrow>
            if old \<noteq> NULL then do { (buf, st') \<leftarrow> evict_free_memblk old st'; Some ((0, Some buf), st') }
            else Some ((0, Some NULL), st'))"
      "second_object FreeMemblk st c" "\<And>A. frames_at A C st \<Longrightarrow> frames_at A C' st1"
proof -
  from do_allocate_free_ok [OF ok] obtain f bs where
    al: "do_allocate FreeMemblk st = Some (f, st\<lparr>blk := bs\<rparr>)"
      "tables_ok N {a} F (if f = 0 then {} else {f}) C (st\<lparr>blk := bs\<rparr>)" "f \<noteq> 0 \<longrightarrow> f \<notin> F"
    by auto
  show ?thesis
  proof (cases "f = 0")
    case True
    let ?st = "do_release AllocMemblk a (st\<lparr>blk := bs\<rparr>)"
    have "quarantine_memblk a n st = Some ((- 1, None), ?st)" using al(1) True by (simp add: quarantine_memblk_def)
    moreover have "tables_ok N {} F {} C ?st" using do_release_alloc_ok [OF al(2), of a] True by simp
    moreover have "?st = st\<lparr>blk := blk ?st\<rparr>" by (simp add: do_release_def)
    ultimately show ?thesis by (rule failed)
  next
    case False
    let ?st2 = "copy_memblk f a (st\<lparr>blk := bs\<rparr>)"
    have "tables_ok N {a} F {f} C (st\<lparr>blk := bs, fmp := (fmp st)(memptr_of f := amp st (memptr_of a))\<rparr>)"
      using tables_ok_loose_fmp [of N "{a}" F "{f}" C "st\<lparr>blk := bs\<rparr>" f] al(2) False by simp
    then have ok2: "tables_ok N {a} F {f} C ?st2"
      by (rule tables_ok_same [THEN iffD2, rotated]) (simp add: same_tables_def copy_memblk_def)
    from mc_get_callstack_ok [OF ok2] obtain c b' h t C' where
      g: "mc_get_callstack ?st2 = Some (c, with_callstacks b' h t ?st2)"
        "tables_ok N {a} F {f} C' (with_callstacks b' h t ?st2)" "C \<subseteq> C'"
        "if c = NULL then C' = C else c \<in> C' \<and> cs_trace (h c) = next_trace ?st2"
        "C' \<subseteq> insert c C" "\<forall>d\<in>C. cs_trace (h d) = trace_at ?st2 d" by blast
    have st2: "blk ?st2 = bs" "csh ?st2 = csh st" "backtraces ?st2 = backtraces st" "num_backtraces ?st2 = num_backtraces st"
      by (simp_all add: copy_memblk_def)
    have so: "second_object FreeMemblk st c" by (rule second_objectI [OF al(1) g(1) _ ok2]) (simp add: st2)
    let ?st4 = "mc_set_freed_buffer f (set_freer f c (with_callstacks b' h t ?st2))"
    let ?st5 = "add_free (memptr_of f) ?st4" and ?st6 = "do_release AllocMemblk a (add_free (memptr_of f) ?st4)"
    have ok4: "tables_ok N {a} F {f} C' ?st4" using g(2) by simp
    note A = add_free_ok [OF ok4, of f]
    have "tables_ok N {} (insert f F) {} C' ?st6" using do_release_alloc_ok [OF A(1), of a] by simp
    moreover have fm6: "fm ?st6 = fm ?st4" "am ?st6 = am st" "usr_of ?st6 = usr_of st" "fusr_of ?st6 = fusr_of ?st5"
        "free_memblk_array ?st6 = free_memblk_array st" "free_fifo_idx ?st6 = free_fifo_idx st" "mem ?st6 = mem ?st4"
        "log ?st6 = log st" "outside ?st6 = outside st" "csh ?st6 = h" "backtraces ?st6 = backtraces st"
      by (simp_all add: outside_def do_release_def add_free_def set_free_table_def mc_set_freed_buffer_def set_freer_def
          with_callstacks_def copy_memblk_def usr_of_def fusr_of_def fun_eq_iff Let_def)
    have fusr4: "fusr_of ?st4 x = (if x = f then usr_of st a else fusr_of st x)" for x
      by (simp add: fusr_of_def usr_of_def mc_set_freed_buffer_def set_freer_def with_callstacks_def copy_memblk_def Let_def)
    have fm4: "fm_memblk (fm ?st4 f) = am_memblk (am st a)" "fm_allocator (fm ?st4 f) = am_allocator (am st a)"
        "fm_freer (fm ?st4 f) = c" "x \<noteq> f \<Longrightarrow> fm ?st4 x = fm st x" for x
      by (simp_all add: mc_set_freed_buffer_def set_freer_def with_callstacks_def copy_memblk_def Let_def)
    have mem4: "mem ?st4 = memset (mb_buf (am_memblk (am st a))) FREEDBUF_PATTERN (mb_bufsize (am_memblk (am st a))) (mem st)"
      by (simp add: mc_set_freed_buffer_def set_freer_def with_callstacks_def copy_memblk_def Let_def)
    have "fusr_of ?st5 x = (if x = f then usr_of st a else fusr_of st x)" for x using A(2) fusr4 by simp
    then have "retired f (usr_of st a) (am_memblk (am st a)) st ?st6"
      unfolding retired_def fm6 using fm4 mem4 by (simp add: fun_eq_iff memset_in)
    moreover have "c \<in> insert NULL C'" using g(4) by (auto split: if_splits)
    moreover have "quarantine_memblk a n st =
         (case push_fifo f (count_free n ?st6) of (old, st') \<Rightarrow>
            if old \<noteq> NULL then do { (buf, st') \<leftarrow> evict_free_memblk old st'; Some ((0, Some buf), st') }
            else Some ((0, Some NULL), st'))"
      using al(1) False g(1) by (simp add: quarantine_memblk_def Let_def)
    moreover have "frames_at A C' ?st6" if "frames_at A C st" for A
      by (rule frames_at_grow [OF that g(5)]) (use g(4,6) fm6 st2 in \<open>auto simp: trace_at_def next_trace_def split: if_splits\<close>)
    ultimately show ?thesis using success [of f C' ?st6 c, OF _ _ _ _ _ _ _ _ _ so] al(3) False g(3) fm4(2,3) fm6(1) by simp
  qed
qed

text \<open>The oldest freed block leaves the table, is given back and its buffer returned.\<close>

definition same_views :: "mc \<Rightarrow> mc \<Rightarrow> bool" where
  "same_views st st' \<longleftrightarrow> usr_of st' = usr_of st \<and> am st' = am st \<and> fusr_of st' = fusr_of st \<and> fm st' = fm st \<and>
     free_memblk_array st' = free_memblk_array st \<and> free_fifo_idx st' = free_fifo_idx st"

lemma quiet_same_views: "quiet st st' \<Longrightarrow> same_views st st'"
  by (simp add: same_views_def quiet_simps quiet_views)

lemma evict_free_memblk_ok:
  assumes ok: "tables_ok N {} F {} C st" and inj: "inj_on (fusr_of st) F" and old: "old \<in> F"
    and chk: "mc_check_freed_buffer old st = Some (rc, st1)"
  shows "\<exists>st'. evict_free_memblk old st = Some (mb_buf (fm_memblk (fm st old)), st') \<and>
     tables_ok N {} (F - {old}) {} C st' \<and> same_views st st' \<and> log st' = log st1 \<and> mem st' = mem st1 \<and>
     outside st' = outside st1"
proof -
  have q: "quiet st st1" using chk by (rule mc_check_freed_buffer_quiet)
  have ok1: "tables_ok N {} F {} C st1" using ok tables_ok_same [OF quiet_same_tables [OF q]] by simp
  have fu: "fusr_of st1 = fusr_of st" using quiet_views [OF q] by simp
  obtain h t where r: "remove_free (fusr_of st1 old) st1 = Some (memptr_of old, st1\<lparr>fmp := h, free_tbl := t\<rparr>)"
      "tables_ok N {} (F - {old}) {old} C (st1\<lparr>fmp := h, free_tbl := t\<rparr>)" "\<forall>m. mp_ptr (h m) = mp_ptr (fmp st1 m)"
    using remove_free_ok [OF ok1 _ old] inj fu by auto
  let ?st = "do_release FreeMemblk old (st1\<lparr>fmp := h, free_tbl := t\<rparr>)"
  have "evict_free_memblk old st = Some (mb_buf (fm_memblk (fm st old)), ?st)"
    using chk r(1) quiet_simps(5) [OF q] by (simp add: evict_free_memblk_def fusr_of_def do_release_def)
  moreover have "tables_ok N {} (F - {old}) {} C ?st" using do_release_free_ok [OF r(2), of old] by simp
  moreover have "log ?st = log st1" "mem ?st = mem st1" "outside ?st = outside st1"
    by (simp_all add: do_release_def outside_def)
  moreover have "same_views st1 ?st"
    using r(3) by (simp add: same_views_def do_release_def usr_of_def fusr_of_def fun_eq_iff)
  ultimately show ?thesis using quiet_same_views [OF q] by (auto simp: same_views_def)
qed

lemma live_view_same:
  assumes "tables_ok N X F Y C st" "inj_on (usr_of st) (N Live)" "tables_ok N X' F' Y' C' st'"
    and "\<And>x. x \<in> N Live \<Longrightarrow> usr_of st' x = usr_of st x \<and> am_memblk (am st' x) = am_memblk (am st x)"
  shows "live_view st' = live_view st"
proof
  fix p
  have inj: "inj_on (usr_of st') (N Live)"
    using assms(2,4) inj_on_cong [of "N Live" "usr_of st'" "usr_of st"] by simp
  have im: "usr_of st' ` N Live = usr_of st ` N Live" using assms(4) by (intro image_cong) simp_all
  show "live_view st' p = live_view st p"
  proof (cases "p \<in> usr_of st ` N Live")
    case True
    then obtain x where x: "x \<in> N Live" "p = usr_of st x" by blast
    then show ?thesis using live_view_at [OF assms(1,2) x(1)] live_view_at [OF assms(3) inj x(1)] assms(4) by simp
  next
    case False
    then show ?thesis using live_view_absent [OF assms(1) False] live_view_absent [OF assms(3), of p] im by simp
  qed
qed

text \<open>Putting the new freed block on the queue.\<close>

lemma retired_queue:
  assumes q: "queue_ok F st" and f: "f \<notin> F" "f \<noteq> NULL" and r: "retired f p m st st1"
    and push: "push_fifo f (count_free n st1) = (old, st2)"
  shows "same_views st1 (st2\<lparr>free_memblk_array := free_memblk_array st1, free_fifo_idx := free_fifo_idx st1\<rparr>)"
    and "old = NULL \<Longrightarrow> queue_ok (insert f F) st2 \<and> spec_enqueue (p, m) (quarantine_view st) = (None, quarantine_view st2)"
    and "old \<noteq> NULL \<Longrightarrow> old \<in> F \<and> queue_ok (insert f F - {old}) st2 \<and>
       length (quarantine_view st) = FREE_FIFO_SIZE \<and>
       spec_enqueue (p, m) (quarantine_view st) = (Some (fusr_of st old, fm_memblk (fm st old)), quarantine_view st2)"
proof -
  let ?c = "count_free n st1"
  have arr: "free_memblk_array ?c = free_memblk_array st" "free_fifo_idx ?c = free_fifo_idx st"
    using r by (simp_all add: count_free_def retired_def)
  note Q = quarantine_cong [OF arr]
  have ok: "fifo_ok ?c" "quarantine ?c = quarantine st" "distinct (quarantine st)" "set (quarantine st) = F"
    using q Q by (simp_all add: queue_ok_def)
  note P = push_fifo_ok [OF ok(1) f(2) push]
  have views: "fusr_of st2 = fusr_of st1" "fm st2 = fm st1" "usr_of st2 = usr_of st1" "am st2 = am st1"
    using push by (auto simp: push_fifo_def count_free_def fusr_of_def usr_of_def fun_eq_iff Let_def)
  then show "same_views st1 (st2\<lparr>free_memblk_array := free_memblk_array st1, free_fifo_idx := free_fifo_idx st1\<rparr>)"
    by (simp add: same_views_def usr_of_def fusr_of_def fun_eq_iff)
  have at: "x \<in> F \<Longrightarrow> (fusr_of st2 x, fm_memblk (fm st2 x)) = (fusr_of st x, fm_memblk (fm st x))" for x
    using r f(1) views by (auto simp: retired_def)
  have new: "(fusr_of st2 f, fm_memblk (fm st2 f)) = (p, m)" using r views by (simp add: retired_def)
  have len: "length (quarantine_view st) = length (quarantine st)" by (simp add: quarantine_view_def)
  show "old = NULL \<Longrightarrow> queue_ok (insert f F) st2 \<and> spec_enqueue (p, m) (quarantine_view st) = (None, quarantine_view st2)"
  proof -
    assume "old = NULL"
    then have e: "quarantine st2 = quarantine st @ [f]" "length (quarantine st) < FREE_FIFO_SIZE"
      using P(2) ok(2) by simp_all
    have "quarantine_view st2 = quarantine_view st @ [(p, m)]"
      using e(1) at new ok(4) by (auto simp: quarantine_view_def)
    then show ?thesis using e P(1) ok f(1) len by (simp add: queue_ok_def spec_enqueue_def)
  qed
  assume "old \<noteq> NULL"
  then obtain qs where e: "quarantine st = old # qs" "quarantine st2 = qs @ [f]" "length (quarantine st) = FREE_FIFO_SIZE"
    using P(3) ok(2) by auto
  have "old \<in> F" "set qs = F - {old}" "distinct qs" using ok(3,4) e(1) by auto
  moreover have "quarantine_view st2 = tl (quarantine_view st) @ [(p, m)]"
    using e at new \<open>set qs = F - {old}\<close> by (auto simp: quarantine_view_def)
  ultimately show "old \<in> F \<and> queue_ok (insert f F - {old}) st2 \<and>
       length (quarantine_view st) = FREE_FIFO_SIZE \<and>
       spec_enqueue (p, m) (quarantine_view st) = (Some (fusr_of st old, fm_memblk (fm st old)), quarantine_view st2)"
    using P(1) e f(1) len by (auto simp: queue_ok_def spec_enqueue_def quarantine_view_def)
qed

lemma retired_inj:
  assumes "keys_ok N F st" "u \<notin> fusr_of st ` F" "f \<notin> F" "retired f u m st st1"
  shows "inj_on (fusr_of st1) (insert f F)"
proof -
  have "fusr_of st1 x = (if x = f then u else fusr_of st x)" for x using assms(4) by (simp add: retired_def)
  then have "inj_on (fusr_of st1) F = inj_on (fusr_of st) F" "fusr_of st1 ` F = fusr_of st ` F" "fusr_of st1 f = u"
    using assms(3) by (auto intro!: inj_on_cong image_cong)
  then show ?thesis using assms by (simp add: keys_ok_def inj_on_insert)
qed

text \<open>
  The state between the two halves of a release: block \<open>a\<close> is in no table any more, but its object
  is still in hand.
\<close>

definition releasing :: "(table_id \<Rightarrow> addr set) \<Rightarrow> addr set \<Rightarrow> addr set \<Rightarrow> addr \<Rightarrow> mc \<Rightarrow> bool" where
  "releasing N F C a st \<longleftrightarrow>
     tables_ok N {a} F {} C st \<and> keys_ok N F st \<and> queue_ok F st \<and> owners_ok N F C st \<and>
     usr_of st a \<notin> usr_of st ` N Live \<and> usr_of st a \<notin> fusr_of st ` F \<and>
     am_allocator (am st a) \<in> insert NULL C"

lemma releasing_failed:
  assumes rel: "releasing N F C a st" and ok: "tables_ok N {} F {} C st'" "st' = st\<lparr>blk := blk st'\<rparr>"
  shows "mc_inv N F C st'" "spec_of st' = spec_of st"
proof -
  have f: "am st' = am st" "fm st' = fm st" "amp st' = amp st" "fmp st' = fmp st"
    "free_memblk_array st' = free_memblk_array st" "free_fifo_idx st' = free_fifo_idx st"
    by (subst ok(2), simp)+
  have u: "usr_of st' = usr_of st" "fusr_of st' = fusr_of st" using f by (simp_all add: usr_of_def fusr_of_def fun_eq_iff)
  note Q = quarantine_cong [OF f(5,6)]
  show "mc_inv N F C st'"
    using rel ok(1) f u Q by (simp add: mc_inv_def releasing_def keys_ok_def queue_ok_def owners_ok_def)
  have "live_view st' = live_view st"
    by (rule live_view_same [of N "{a}" F "{}" C st "{}" F "{}" C]) (use rel ok(1) f u in \<open>simp_all add: releasing_def keys_ok_def\<close>)
  then show "spec_of st' = spec_of st" using Q u f by (simp add: spec_of_def quarantine_view_def)
qed

lemma retired_inv:
  assumes rel: "releasing N F C a st" and f: "f \<notin> F" "C \<subseteq> C'"
    and r: "retired f (usr_of st a) m st st1"
    and own: "fm_allocator (fm st1 f) \<in> insert NULL C'" "fm_freer (fm st1 f) \<in> insert NULL C'"
    and sv: "usr_of st2 = usr_of st1" "fusr_of st2 = fusr_of st1" "am st2 = am st1" "fm st2 = fm st1"
    and G: "G \<subseteq> insert f F" and ok: "tables_ok N {} G {} C' st2" and q: "queue_ok G st2"
  shows "mc_inv N G C' st2" "live_view st2 = live_view st"
proof -
  have R: "keys_ok N F st" "owners_ok N F C st" "usr_of st a \<notin> usr_of st ` N Live" "usr_of st a \<notin> fusr_of st ` F"
    "tables_ok N {a} F {} C st" using rel by (simp_all add: releasing_def)
  have u: "usr_of st2 = usr_of st" "am st2 = am st" using r sv by (simp_all add: retired_def)
  have old: "x \<in> F \<Longrightarrow> fusr_of st2 x = fusr_of st x \<and> fm st2 x = fm st x" for x using r f(1) sv by (auto simp: retired_def)
  have new: "fusr_of st2 f = usr_of st a" using r sv by (simp add: retired_def)
  have im: "fusr_of st2 ` F = fusr_of st ` F" using old by (intro image_cong) simp_all
  have "inj_on (fusr_of st2) F" using R(1) old inj_on_cong [of F "fusr_of st2" "fusr_of st"] by (simp add: keys_ok_def)
  then have "inj_on (fusr_of st2) (insert f F)" using R(4) new im f(1) by (simp add: inj_on_insert)
  then have injG: "inj_on (fusr_of st2) G" using G by (rule inj_on_subset)
  have "usr_of st ` N Live \<inter> fusr_of st2 ` insert f F = {}" using R(1,3) new im by (simp add: keys_ok_def)
  moreover have "fusr_of st2 ` G \<subseteq> fusr_of st2 ` insert f F" using G by (rule image_mono)
  ultimately have "usr_of st ` N Live \<inter> fusr_of st2 ` G = {}" by blast
  then have "keys_ok N G st2" using R(1) u injG by (simp add: keys_ok_def)
  moreover have "owners_ok N G C' st2"
  proof -
    have "fm_allocator (fm st2 x) \<in> insert NULL C' \<and> fm_freer (fm st2 x) \<in> insert NULL C'" if "x \<in> G" for x
    proof (cases "x = f")
      case True
      then show ?thesis using own sv(4) by simp
    next
      case False
      then have "x \<in> F" using that G by blast
      then have "fm st2 x = fm st x" "fm_allocator (fm st x) \<in> insert NULL C" "fm_freer (fm st x) \<in> insert NULL C"
        using old R(2) by (simp_all add: owners_ok_def)
      then show ?thesis using f(2) by auto
    qed
    moreover have "am_allocator (am st2 b) \<in> insert NULL C'" if "b \<in> N i" for i b
      using that R(2) u f(2) unfolding owners_ok_def by auto
    ultimately show ?thesis by (simp add: owners_ok_def)
  qed
  ultimately show "mc_inv N G C' st2" using ok q by (simp add: mc_inv_def)
  show "live_view st2 = live_view st"
    by (rule live_view_same [OF R(5) _ ok]) (use R(1) u in \<open>simp_all add: keys_ok_def\<close>)
qed

text \<open>
  The second half. When it returns it has either run out of memory, or queued the block and
  handed back the buffer of the one that left the queue.
\<close>

lemma quarantine_memblk_ok:
  assumes rel: "releasing N F C a st" and run: "quarantine_memblk a n st = Some ((rc, out), st')"
  shows "mc_ok st' \<and> live_view st' = live_view st \<and>
     (rc = - 1 \<and> out = None \<and> quarantine_view st' = quarantine_view st \<or>
      rc = 0 \<and> (case spec_enqueue (usr_of st a, am_memblk (am st a)) (quarantine_view st) of (old, q) \<Rightarrow>
         quarantine_view st' = q \<and> out = Some (case old of None \<Rightarrow> NULL | Some (p, m) \<Rightarrow> mb_buf m)))"
proof -
  have R: "tables_ok N {a} F {} C st" "queue_ok F st" "am_allocator (am st a) \<in> insert NULL C"
    using rel by (simp_all add: releasing_def)
  show ?thesis
  proof (cases rule: quarantine_memblk_stages [OF R(1), of n])
    case (1 s)
    note E = releasing_failed [OF rel 1(2,3)]
    have "st' = s" "rc = - 1" "out = None" using run 1(1) by auto
    then show ?thesis using E by (auto simp: mc_ok_def spec_of_def)
  next
    case (2 f c st1 C')
    obtain old st2 where p: "push_fifo f (count_free n st1) = (old, st2)" by fastforce
    note Q = retired_queue [OF R(2) 2(1,2,5) p]
    have sv: "usr_of st2 = usr_of st1" "fusr_of st2 = fusr_of st1" "am st2 = am st1" "fm st2 = fm st1"
      using Q(1) by (simp_all add: same_views_def usr_of_def fusr_of_def fun_eq_iff)
    have ok2: "tables_ok N {} (insert f F) {} C' st2" using 2(4) tables_ok_push_fifo [OF p] by simp
    have own: "fm_allocator (fm st1 f) \<in> insert NULL C'" "fm_freer (fm st1 f) \<in> insert NULL C'"
      using 2(3,6,7,8) R(3) by auto
    note I = retired_inv [OF rel 2(1,3,5) own]
    show ?thesis
    proof (cases "old = NULL")
      case True
      then have r: "st' = st2" "rc = 0" "out = Some NULL" using run 2(9) p by simp_all
      show ?thesis
        using I [OF sv _ ok2] Q(2) [OF True] r by (auto simp: mc_ok_def)
    next
      case False
      then obtain buf st3 where ev: "evict_free_memblk old st2 = Some (buf, st3)" and r: "st' = st3" "rc = 0" "out = Some buf"
        using run 2(9) p by (auto split: Option.bind_splits)
      obtain rc' st4 where chk: "mc_check_freed_buffer old st2 = Some (rc', st4)"
        using ev by (auto simp: evict_free_memblk_def split: Option.bind_splits)
      note Q3 = Q(3) [OF False]
      have inj: "inj_on (fusr_of st2) (insert f F)"
        using retired_inj [OF _ _ 2(1,5), of N] rel sv by (simp add: releasing_def)
      from evict_free_memblk_ok [OF ok2 inj _ chk] Q3 obtain
        e: "evict_free_memblk old st2 = Some (mb_buf (fm_memblk (fm st2 old)), st3)"
          "tables_ok N {} (insert f F - {old}) {} C' st3" "same_views st2 st3"
        using ev by auto
      have sv3: "usr_of st3 = usr_of st1" "fusr_of st3 = fusr_of st1" "am st3 = am st1" "fm st3 = fm st1"
        using e(3) sv by (simp_all add: same_views_def)
      have q3: "queue_ok (insert f F - {old}) st3" "quarantine_view st3 = quarantine_view st2"
        using Q3 e(3) quarantine_cong [of st3 st2] by (simp_all add: same_views_def queue_ok_def quarantine_view_def)
      have "fm st2 old = fm st old" using 2(1,5) sv Q3 by (auto simp: retired_def)
      then show ?thesis using I [OF sv3 _ e(2) q3(1)] Q3 q3(2) r e(1) ev by (auto simp: mc_ok_def)
    qed
  qed
qed

section \<open>Release\<close>

lemma remove_ptr_releasing:
  assumes inv: "mc_inv N F C st" and rem: "remove_ptr Live p st = Some (n, st1)" "n \<noteq> NULL"
  shows "\<exists>b. n = memptr_of b \<and> b \<in> N Live \<and> usr_of st b = p \<and> usr_of st1 b = p \<and> am st1 = am st \<and> mem st1 = mem st \<and>
     fm st1 = fm st \<and> fmp st1 = fmp st \<and> live_view st p = Some (am_memblk (am st b)) \<and>
     live_view st1 = (live_view st)(p := None) \<and> quarantine_view st1 = quarantine_view st \<and>
     quarantine st1 = quarantine st \<and> log st1 = log st \<and> outside st1 = outside st \<and>
     releasing (N(Live := N Live - {b})) F C b st1"
proof -
  note I = mc_invD [OF inv]
  have inj: "inj_on (usr_of st) (N i)" for i using I(2) by (simp add: keys_ok_def)
  show ?thesis
  proof (cases rule: remove_ptr_ok [OF I(1), of Live p])
    case 1
    then show ?thesis using rem by simp
  next
    case (2 b h t)
    let ?st = "st\<lparr>amp := h, ptr_tbls := t\<rparr>" and ?N = "N(Live := N Live - {b})"
    have n: "n = memptr_of b" "st1 = ?st" using 2(4) rem(1) by simp_all
    have u: "usr_of ?st = usr_of st" "fusr_of ?st = fusr_of st" using 2(6) by (simp_all add: usr_of_def fusr_of_def fun_eq_iff)
    have q: "quarantine ?st = quarantine st" "fifo_ok ?st = fifo_ok st" by (simp_all add: quarantine_def fifo_ok_def)
    have lv: "live_view ?st = (live_view st)(usr_of st b := None)"
      by (rule live_view_delete(1) [OF I(1) inj 2(5) _ 2(1)]) (simp_all add: u)
    have "usr_of st b \<notin> usr_of st ` (N Live - {b})"
      using inj_on_image_set_diff [OF inj [of Live], of "N Live" "{b}"] 2(1) by auto
    moreover have "usr_of st b \<notin> fusr_of st ` F" using I(2) 2(1) by (auto simp: keys_ok_def)
    moreover have "keys_ok ?N F ?st" using I(2) u by (auto simp: keys_ok_def inj_on_diff)
    moreover have "owners_ok ?N F C ?st" using I(4) by (auto simp: owners_ok_def)
    moreover have "am_allocator (am st b) \<in> insert NULL C" using I(4) 2(1) by (auto simp: owners_ok_def)
    ultimately have "releasing ?N F C b ?st"
      using 2(5) I(3) u q by (simp add: releasing_def queue_ok_def)
    then show ?thesis
      using n 2(1,2) u lv q live_view_at [OF I(1) inj 2(1)] by (simp add: quarantine_view_def outside_def)
  qed
qed

lemma quiet_releasing: "quiet st st' \<Longrightarrow> releasing N F C a st' \<longleftrightarrow> releasing N F C a st"
  using tables_ok_same [OF quiet_same_tables, of st st'] quiet_views [of st st'] quiet_simps [of st st']
  by (simp add: releasing_def keys_ok_def queue_ok_def owners_ok_def fifo_ok_def)

text \<open>Giving back a live address. A report may be on the log; the outcome is the abstract step.\<close>

lemma mc_unregister_memblk_known:
  assumes inv: "mc_ok st" and live: "live_view st p = Some m"
    and run: "mc_unregister_memblk p st = Some ((rc, out), st')"
  shows "mc_ok st' \<and>
     (rc = - 1 \<and> out = None \<and> spec_of st' = (spec_of st)\<lparr>sp_live := (live_view st)(p := None)\<rparr> \<or>
      rc = 0 \<and> (\<exists>old. spec_unregister p (spec_of st) = Some (old, spec_of st') \<and>
                     out = Some (case old of None \<Rightarrow> NULL | Some (q, m) \<Rightarrow> mb_buf m)))"
proof -
  from inv obtain N F C where I: "mc_inv N F C st" by (auto simp: mc_ok_def)
  note T = mc_invD [OF I]
  obtain n st1 where rem: "remove_ptr Live p st = Some (n, st1)"
    using run by (auto simp: mc_unregister_memblk_def split: Option.bind_splits)
  have n0: "n \<noteq> NULL"
  proof (cases rule: remove_ptr_ok [OF T(1), of Live p])
    case 1
    then have "live_view st p = None" by (intro live_view_absent [OF T(1)]) auto
    then show ?thesis using live by simp
  next
    case (2 b h t)
    then show ?thesis using rem by simp
  qed
  from remove_ptr_releasing [OF I rem n0] obtain b where
    b: "n = memptr_of b" "usr_of st1 b = p" "am st1 = am st" "live_view st p = Some (am_memblk (am st b))"
      "live_view st1 = (live_view st)(p := None)" "quarantine_view st1 = quarantine_view st"
      "releasing (N(Live := N Live - {b})) F C b st1" by blast
  have m: "am_memblk (am st b) = m" using b(4) live by simp
  obtain rc1 st2 where chk: "mc_check_allocated_buffer b True st1 = Some (rc1, st2)"
    and qm: "quarantine_memblk b (mb_usrsize m) st2 = Some ((rc, out), st')"
    using run rem n0 b(1,3) m by (auto simp: mc_unregister_memblk_def split: Option.bind_splits)
  note q = mc_check_allocated_buffer_quiet [OF chk]
  have r: "releasing (N(Live := N Live - {b})) F C b st2" using b(7) quiet_releasing [OF q] by simp
  have v: "live_view st2 = (live_view st)(p := None)" "quarantine_view st2 = quarantine_view st"
    "usr_of st2 b = p" "am_memblk (am st2 b) = m"
    using quiet_views [OF q] quiet_simps(3) [OF q] b m by simp_all
  show ?thesis
    using quarantine_memblk_ok [OF r qm] unfolding v
    by (auto simp: spec_of_def spec_unregister_def live split: prod.splits)
qed

text \<open>Giving back any other address is reported and changes nothing.\<close>

lemma report_illegal_free_quiet: "report_illegal_free p st = Some st' \<Longrightarrow> quiet st st'"
  unfolding report_illegal_free_def by (drule print_current_callstack_quiet, drule quiet_unlog, drule quiet_unlog)

lemma report_double_free_stages:
  assumes "report_double_free p fb st = Some st'"
  obtains s1 s2 where "quiet (mc_log_print Allocated_from (mc_log_print (Double_free p) st)) s1"
    "quiet (mc_log_print Freed_from s1) s2" "quiet (mc_log_print Then_being_freed_from s2) st'"
proof -
  let ?s = "mc_log_print Allocated_from (mc_log_print (Double_free p) st)"
  from assms obtain c1 c2 :: callstack and s1 s2 where s:
    "mc_print_callstack (cs_depth c1) (cs_trace c1) 2 ?s = Some s1"
    "mc_print_callstack (cs_depth c2) (cs_trace c2) 2 (mc_log_print Freed_from s1) = Some s2"
    "mc_print_current_callstack 3 (mc_log_print Then_being_freed_from s2) = Some st'"
    unfolding report_double_free_def Let_def bind_eq_Some_conv by blast
  show ?thesis
    using that [OF print_callstack_quiet [OF s(1)] print_callstack_quiet [OF s(2)]
        print_current_callstack_quiet [OF s(3)]] .
qed

lemma report_double_free_quiet:
  assumes "report_double_free p fb st = Some st'"
  shows "quiet st st'"
proof -
  from assms obtain s1 s2 where s: "quiet (mc_log_print Allocated_from (mc_log_print (Double_free p) st)) s1"
    "quiet (mc_log_print Freed_from s1) s2" "quiet (mc_log_print Then_being_freed_from s2) st'"
    by (rule report_double_free_stages)
  then have "quiet st s1" "quiet s1 s2" "quiet s2 st'" by (blast dest: quiet_unlog)+
  then show ?thesis by (blast intro: quiet_trans)
qed

lemma handle_illegally_freed_buffer_stages:
  assumes "handle_illegally_freed_buffer p st = Some st'" "find_free p st = Some n"
  obtains s1 s2 where "quiet st s1" "quiet s2 st'"
    "(if n = NULL then report_illegal_free p (mc_log_print Separator s1)
      else report_double_free p (fm st (get_free_memblk_from_memptr n)) (mc_log_print Separator s1)) = Some s2"
proof -
  from assms obtain s1 s2 where s: "init_fmaps st = Some s1" "term_fmaps s2 = Some st'"
    "(if n = NULL then report_illegal_free p (mc_log_print Separator s1)
      else report_double_free p (fm (mc_log_print Separator s1) (get_free_memblk_from_memptr n)) (mc_log_print Separator s1)) = Some s2"
    unfolding handle_illegally_freed_buffer_def Let_def by (auto split: Option.bind_splits)
  have q: "quiet st s1" using s(1) by (rule init_fmaps_quiet)
  moreover have "fm (mc_log_print Separator s1) = fm st" using quiet_simps(5) [OF quiet_log_print [OF q]] .
  ultimately show ?thesis using that s term_fmaps_quiet by metis
qed

lemma handle_illegally_freed_buffer_quiet:
  assumes "handle_illegally_freed_buffer p st = Some st'"
  shows "quiet st st'"
proof -
  obtain n where "find_free p st = Some n"
    using assms by (auto simp: handle_illegally_freed_buffer_def split: Option.bind_splits)
  with assms obtain s1 s2 where s: "quiet st s1" "quiet s2 st'"
    "(if n = NULL then report_illegal_free p (mc_log_print Separator s1)
      else report_double_free p (fm st (get_free_memblk_from_memptr n)) (mc_log_print Separator s1)) = Some s2"
    by (rule handle_illegally_freed_buffer_stages)
  then have "quiet s1 s2"
    by (auto split: if_splits dest!: report_illegal_free_quiet report_double_free_quiet quiet_unlog)
  then show ?thesis using s(1,2) by (blast intro: quiet_trans)
qed

text \<open>The report tells a double free from an address that was never handed out, or long ago.\<close>

text \<open>Each of the two reports has its line, and the handler writes one of them.\<close>

lemma report_free_lines:
  "report_illegal_free p st = Some st' \<Longrightarrow> free_reports st' = free_reports st @ [Illegal_free p]"
  "report_double_free p fb st = Some st' \<Longrightarrow> free_reports st' = free_reports st @ [Double_free p]"
  by (auto simp: report_illegal_free_def report_double_free_def free_report_def Let_def split: Option.bind_splits
      dest!: print_callstack_no_report print_current_no_report)

lemma handle_illegally_freed_lines:
  assumes "handle_illegally_freed_buffer p st = Some st'" "find_free p st = Some n"
  shows "filter free_report (new_lines st st') = [if n = NULL then Illegal_free p else Double_free p]"
proof -
  have "free_reports st' = free_reports st @ [if n = NULL then Illegal_free p else Double_free p]"
    using assms by (auto simp: handle_illegally_freed_buffer_def free_report_def Let_def split: Option.bind_splits if_splits
        dest!: fmaps_no_report report_free_lines)
  then show ?thesis using free_reports_new [OF handle_illegally_freed_buffer_quiet [OF assms(1)]] by simp
qed

lemma mc_unregister_memblk_unknown:
  assumes inv: "mc_ok st" and dead: "live_view st p = None"
    and run: "mc_unregister_memblk p st = Some ((rc, out), st')"
  shows "rc = - 1" "out = Some NULL" "quiet st st'" "mc_ok st'" "spec_of st' = spec_of st"
proof -
  from inv obtain N F C where I: "mc_inv N F C st" by (auto simp: mc_ok_def)
  note T = mc_invD [OF I]
  have inj: "inj_on (usr_of st) (N Live)" using T(2) by (simp add: keys_ok_def)
  have rem: "remove_ptr Live p st = Some (NULL, st)"
  proof (cases rule: remove_ptr_ok [OF T(1), of Live p])
    case (2 b h t)
    then show ?thesis using live_view_at [OF T(1) inj 2(1)] dead by simp
  qed
  from run rem have h: "handle_illegally_freed_buffer p st = Some st'" and "rc = - 1" "out = Some NULL"
    by (auto simp: mc_unregister_memblk_def split: Option.bind_splits)
  then show "rc = - 1" "out = Some NULL" by simp_all
  show q: "quiet st st'" using h by (rule handle_illegally_freed_buffer_quiet)
  show "mc_ok st'" "spec_of st' = spec_of st"
    using I quiet_mc_inv [OF q] quiet_views(6) [OF q] by (auto simp: mc_ok_def)
qed

lemma mc_unregister_memblk_reports:
  assumes inv: "mc_ok st" and dead: "live_view st p = None"
    and run: "mc_unregister_memblk p st = Some ((rc, out), st')"
  shows "filter free_report (new_lines st st') = [if p \<in> fst ` set (quarantine_view st) then Double_free p else Illegal_free p]"
proof -
  from inv obtain N F C where I: "mc_inv N F C st" by (auto simp: mc_ok_def)
  note T = mc_invD [OF I]
  have inj: "inj_on (usr_of st) (N Live)" using T(2) by (simp add: keys_ok_def)
  have rem: "remove_ptr Live p st = Some (NULL, st)"
  proof (cases rule: remove_ptr_ok [OF T(1), of Live p])
    case (2 b h t)
    then show ?thesis using live_view_at [OF T(1) inj 2(1)] dead by simp
  qed
  from run rem have h: "handle_illegally_freed_buffer p st = Some st'"
    by (auto simp: mc_unregister_memblk_def split: Option.bind_splits)
  have F: "fst ` set (quarantine_view st) = fusr_of st ` F" by (rule quarantine_addresses [OF T(3)])
  obtain n where n: "find_free p st = Some n" "n = NULL \<longleftrightarrow> p \<notin> fst ` set (quarantine_view st)"
    unfolding F by (cases rule: find_free_ok [OF T(1), of p]) auto
  show ?thesis using handle_illegally_freed_lines [OF h n(1)] n(2) by simp
qed

end
