(* ===== verification/MC_Clean.thy ===== *)
theory MC_Clean
  imports MC_Manage_Ops
begin

text \<open>
  A program that keeps to its blocks: registration and release return, nothing is reported, and
  the bytes of the other blocks are left alone. The conditions are on the memory of the process:
  the red zones of a live block hold their pattern, the buffer of a freed block its own.
\<close>

section \<open>Intact blocks\<close>

definition live_intact :: "(addr \<Rightarrow> u8) \<Rightarrow> addr \<Rightarrow> memblk \<Rightarrow> bool" where
  "live_intact m p b \<longleftrightarrow> layout_ok (mb_buf b) p (mb_bufsize b) (mb_usrsize b) \<and>
     zone_holds m REDZONE_PATTERN (zones_of p b)"

definition quarantine_intact :: "(addr \<Rightarrow> u8) \<Rightarrow> memblk \<Rightarrow> bool" where
  "quarantine_intact m b \<longleftrightarrow> unat (mb_buf b) + unat (mb_bufsize b) \<le> 2 ^ 64 \<and> unat (mb_bufsize b) < 2 ^ 31 \<and>
     zone_holds m FREEDBUF_PATTERN (buffer_of b)"

lemma live_intact_block:
  "live_intact (mem st) (usr_of st b) (am_memblk (am st b)) \<longleftrightarrow> block_layout st b \<and> block_intact st b"
  by (simp add: live_intact_def block_layout_def block_intact_def block_zones_def zones_of_def usr_of_def Let_def)

lemma quarantine_intact_block:
  "quarantine_intact (mem st) (fm_memblk (fm st f)) \<longleftrightarrow> freed_layout st f \<and> freed_intact st f"
  by (auto simp: quarantine_intact_def freed_layout_def freed_intact_def freed_zone_def buffer_of_def Let_def)

text \<open>Filling one freed buffer cannot damage another.\<close>

lemma quarantine_intact_fill:
  assumes "quarantine_intact m b" "\<And>a. m' a = (if unat a \<in> Z then FREEDBUF_PATTERN else m a)"
  shows "quarantine_intact m' b"
  using assms by (auto simp: quarantine_intact_def zone_holds_def)

section \<open>Registration\<close>

text \<open>A registration that succeeds fills the red zones and the block, and nothing else.\<close>

lemma mc_register_memblk_fills:
  assumes inv: "mc_ok st" and run: "mc_register_memblk buf p bufsize usrsize st = Some (0, st')"
    and layout: "layout_ok buf p bufsize usrsize"
  defines "m \<equiv> \<lparr>mb_buf = buf, mb_bufsize = bufsize, mb_usrsize = usrsize\<rparr>"
  shows "\<forall>a. mem st' a = (if unat a \<in> zones_of p m then REDZONE_PATTERN
                   else if unat a \<in> user_bytes p m then INITBUF_PATTERN else mem st a)"
    and "live_intact (mem st') p m" and "log st' = log st" and "outside st' = outside st"
proof -
  from inv obtain N F C where I: "mc_inv N F C st" by (auto simp: mc_ok_def)
  note T = mc_invD [OF I]
  have "registered b p m st s \<Longrightarrow> st' = count_alloc usrsize s \<Longrightarrow> log st' = log st \<and> outside st' = outside st \<and>
      (\<forall>a. mem st' a = (if unat a \<in> zones_of p m then REDZONE_PATTERN
                   else if unat a \<in> user_bytes p m then INITBUF_PATTERN else mem st a))" for b s
    using layout by (simp add: registered_def count_alloc_def m_def outside_def)
  then have st': "log st' = log st \<and> outside st' = outside st \<and>
      (\<forall>a. mem st' a = (if unat a \<in> zones_of p m then REDZONE_PATTERN
                   else if unat a \<in> user_bytes p m then INITBUF_PATTERN else mem st a))"
    using run by (cases rule: mc_register_memblk_stages [OF T(1), of buf p bufsize usrsize]) (auto simp: m_def)
  then show mem: "\<forall>a. mem st' a = (if unat a \<in> zones_of p m then REDZONE_PATTERN
                   else if unat a \<in> user_bytes p m then INITBUF_PATTERN else mem st a)" and "log st' = log st" and "outside st' = outside st"
    by simp_all
  have "n < 2 ^ 64" if "n \<in> zones_of p m" for n
    using that layout by (auto simp: m_def zones_of_def leading_zone_def trailing_zone_def layout_ok_def)
  then have "zone_holds (mem st') REDZONE_PATTERN (zones_of p m)"
    unfolding zone_holds_def using mem by (simp add: unat_of_nat_u64)
  then show "live_intact (mem st') p m" using layout by (simp add: live_intact_def m_def)
qed

section \<open>Release\<close>

lemma quarantine_memblk_returns:
  assumes rel: "releasing N F C a st"
    and buf: "unat (mb_buf (am_memblk (am st a))) + unat (mb_bufsize (am_memblk (am st a))) \<le> 2 ^ 64"
    and oldest: "length (quarantine_view st) = FREE_FIFO_SIZE \<longrightarrow> quarantine_intact (mem st) (snd (hd (quarantine_view st)))"
  shows "\<exists>rc out st'. quarantine_memblk a n st = Some ((rc, out), st') \<and> log st' = log st \<and> outside st' = outside st \<and>
     (\<forall>x. mem st' x = (if rc = 0 \<and> unat x \<in> buffer_of (am_memblk (am st a)) then FREEDBUF_PATTERN else mem st x))"
proof -
  have R: "tables_ok N {a} F {} C st" "queue_ok F st" "keys_ok N F st" "usr_of st a \<notin> fusr_of st ` F"
    using rel by (simp_all add: releasing_def)
  show ?thesis
  proof (cases rule: quarantine_memblk_stages [OF R(1), of n])
    case (1 s)
    have "log s = log st" "outside s = outside st" "mem s = mem st" by (subst 1(3), simp add: outside_def)+
    then show ?thesis using 1(1) by simp
  next
    case (2 f c st1 C')
    obtain old st2 where p: "push_fifo f (count_free n st1) = (old, st2)" by fastforce
    note Q = retired_queue [OF R(2) 2(1,2,5) p]
    have sv: "usr_of st2 = usr_of st1" "fusr_of st2 = fusr_of st1" "am st2 = am st1" "fm st2 = fm st1"
      using Q(1) by (simp_all add: same_views_def usr_of_def fusr_of_def fun_eq_iff)
    have log2: "log st2 = log st" "mem st2 = mem st1" "outside st2 = outside st"
      using p 2(5) by (auto simp: push_fifo_def count_free_def retired_def outside_def Let_def)
    have mem2: "mem st2 x = (if unat x \<in> buffer_of (am_memblk (am st a)) then FREEDBUF_PATTERN else mem st x)" for x
      using 2(5) buf log2 by (simp add: retired_def buffer_of_def)
    have ok2: "tables_ok N {} (insert f F) {} C' st2" using 2(4) tables_ok_push_fifo [OF p] by simp
    show ?thesis
    proof (cases "old = NULL")
      case True
      then show ?thesis using 2(9) p log2 mem2 by simp
    next
      case False
      note Q3 = Q(3) [OF False]
      have len: "length (quarantine_view st) = FREE_FIFO_SIZE" "hd (quarantine_view st) = (fusr_of st old, fm_memblk (fm st old))"
        using Q3 by (auto simp: spec_enqueue_def)
      have "fm st2 old = fm st old" using 2(1,5) sv Q3 by (auto simp: retired_def)
      then have "quarantine_intact (mem st2) (fm_memblk (fm st2 old))"
        using quarantine_intact_fill [of "mem st" "fm_memblk (fm st old)"] oldest len mem2 by simp
      then have chk: "mc_check_freed_buffer old st2 = Some (0, st2)"
        using mc_check_freed_buffer_intact quarantine_intact_block by blast
      have inj: "inj_on (fusr_of st2) (insert f F)"
        using retired_inj [OF R(3,4) 2(1,5)] sv by simp
      from evict_free_memblk_ok [OF ok2 inj _ chk] Q3 obtain st3 where
        "evict_free_memblk old st2 = Some (mb_buf (fm_memblk (fm st2 old)), st3)" "log st3 = log st2" "mem st3 = mem st2"
        "outside st3 = outside st2" by auto
      then show ?thesis using 2(9) p False log2 mem2 by simp
    qed
  qed
qed

text \<open>Giving back an intact block returns and writes nothing to the log; only its own buffer changes.\<close>

lemma mc_unregister_memblk_clean:
  assumes inv: "mc_ok st" and live: "live_view st p = Some m" "live_intact (mem st) p m"
    and oldest: "length (quarantine_view st) = FREE_FIFO_SIZE \<longrightarrow> quarantine_intact (mem st) (snd (hd (quarantine_view st)))"
  shows "\<exists>rc out st'. mc_unregister_memblk p st = Some ((rc, out), st') \<and> log st' = log st \<and> outside st' = outside st \<and>
     (\<forall>x. mem st' x = (if rc = 0 \<and> unat x \<in> buffer_of m then FREEDBUF_PATTERN else mem st x))"
proof -
  from inv obtain N F C where I: "mc_inv N F C st" by (auto simp: mc_ok_def)
  note T = mc_invD [OF I]
  obtain n st1 where rem: "remove_ptr Live p st = Some (n, st1)" "n \<noteq> NULL"
  proof (cases rule: remove_ptr_ok [OF T(1), of Live p])
    case 1
    then have "live_view st p = None" by (intro live_view_absent [OF T(1)]) auto
    then show ?thesis using live by simp
  next
    case (2 b h t)
    then show ?thesis using that by blast
  qed
  from remove_ptr_releasing [OF I rem] obtain b where
    b: "n = memptr_of b" "usr_of st1 b = p" "am st1 = am st" "mem st1 = mem st" "live_view st p = Some (am_memblk (am st b))"
      "quarantine_view st1 = quarantine_view st" "releasing (N(Live := N Live - {b})) F C b st1" "log st1 = log st"
      "outside st1 = outside st"
    by blast
  have m: "am_memblk (am st b) = m" using b(5) live by simp
  have "live_intact (mem st1) (usr_of st1 b) (am_memblk (am st1 b))" using live b m by simp
  then have chk: "mc_check_allocated_buffer b True st1 = Some (0, st1)"
    using mc_check_allocated_buffer_intact live_intact_block by blast
  have "unat (mb_buf m) + unat (mb_bufsize m) \<le> 2 ^ 64" using live(2) by (simp add: live_intact_def layout_ok_def)
  from quarantine_memblk_returns [OF b(7), of "mb_usrsize m"] this oldest b(3,4,6,8,9) m
  obtain rc out st' where "quarantine_memblk b (mb_usrsize m) st1 = Some ((rc, out), st')" "log st' = log st"
    "outside st' = outside st"
    "\<forall>x. mem st' x = (if rc = 0 \<and> unat x \<in> buffer_of m then FREEDBUF_PATTERN else mem st x)" by auto
  then show ?thesis using rem chk b(1,3) m by (simp add: mc_unregister_memblk_def)
qed

end
