(* ===== verification/MC_Counters.thy ===== *)
theory MC_Counters
  imports MC_Clean
begin

text \<open>
  The statistics of \<open>memchk_manage_memblk.c\<close>: the histogram's bins, and the counters as functions
  of the map of live blocks. They agree as long as no release runs out of memory; the path that
  returns early there leaves them behind.
\<close>

section \<open>The bins\<close>

lemma histo_bin_cases:
  "histo_bin u = (if u \<le> 4 then 0 else if u \<le> 16 then 1 else if u \<le> 64 then 2 else if u \<le> 256 then 3
     else if u \<le> 1024 then 4 else if u \<le> 4096 then 5 else if u \<le> 16384 then 6
     else if u \<le> 65536 then 7 else if u \<le> 262144 then 8 else 9)"
  by (simp add: histo_bin_def HISTO_BINS_def HISTO_MAGNIFICATION_def numeral_eq_Suc Let_def)

text \<open>Bin \<open>i\<close> holds the sizes above \<open>4 ^ i\<close> up to \<open>4 ^ (i + 1)\<close>; the first and the last are open.\<close>

lemma histo_bin_bounds:
  "histo_bin u < HISTO_BINS"
  "histo_bin u < HISTO_BINS - 1 \<Longrightarrow> unat u \<le> 4 ^ (histo_bin u + 1)"
  "0 < histo_bin u \<Longrightarrow> 4 ^ histo_bin u < unat u"
  by (simp_all add: histo_bin_cases HISTO_BINS_def word_le_nat_alt not_le split: if_splits)

section \<open>The counters of a map of blocks\<close>

definition live_count :: "(addr \<Rightarrow> memblk option) \<Rightarrow> nat" where
  "live_count L = card (dom L)"

definition live_bytes :: "(addr \<Rightarrow> memblk option) \<Rightarrow> size_t" where
  "live_bytes L = (\<Sum>p\<in>dom L. mb_usrsize (the (L p)))"

definition live_in_bin :: "nat \<Rightarrow> (addr \<Rightarrow> memblk option) \<Rightarrow> nat" where
  "live_in_bin i L = card {p \<in> dom L. histo_bin (mb_usrsize (the (L p))) = i}"

lemma live_count_add: "finite (dom L) \<Longrightarrow> L p = None \<Longrightarrow> live_count (L(p \<mapsto> m)) = live_count L + 1"
  by (simp add: live_count_def domIff)

lemma live_bytes_add:
  assumes "finite (dom L)" "L p = None"
  shows "live_bytes (L(p \<mapsto> m)) = live_bytes L + mb_usrsize m"
proof -
  have "p \<notin> dom L" using assms(2) by auto
  then have "(\<Sum>q\<in>dom L. mb_usrsize (the ((L(p \<mapsto> m)) q))) = live_bytes L"
    unfolding live_bytes_def by (intro sum.cong) auto
  then show ?thesis using assms(1) \<open>p \<notin> dom L\<close> by (simp add: live_bytes_def add.commute)
qed

lemma live_in_bin_add:
  assumes "finite (dom L)" "L p = None"
  shows "live_in_bin i (L(p \<mapsto> m)) = live_in_bin i L + (if histo_bin (mb_usrsize m) = i then 1 else 0)"
proof -
  have p: "p \<notin> dom L" using assms(2) by auto
  have "{q \<in> dom (L(p \<mapsto> m)). histo_bin (mb_usrsize (the ((L(p \<mapsto> m)) q))) = i} =
     (if histo_bin (mb_usrsize m) = i then insert p else id) {q \<in> dom L. histo_bin (mb_usrsize (the (L q))) = i}"
    using p by auto
  then show ?thesis using assms(1) p by (simp add: live_in_bin_def)
qed

lemma live_remove:
  assumes "finite (dom L)" "L p = Some m"
  shows "live_count L = live_count (L(p := None)) + 1"
    "live_bytes L = live_bytes (L(p := None)) + mb_usrsize m"
    "live_in_bin i L = live_in_bin i (L(p := None)) + (if histo_bin (mb_usrsize m) = i then 1 else 0)"
proof -
  have e: "(L(p := None))(p \<mapsto> m) = L" using assms(2) by auto
  have f: "finite (dom (L(p := None)))" using assms(1) by simp
  show "live_count L = live_count (L(p := None)) + 1"
    "live_bytes L = live_bytes (L(p := None)) + mb_usrsize m"
    "live_in_bin i L = live_in_bin i (L(p := None)) + (if histo_bin (mb_usrsize m) = i then 1 else 0)"
    using live_count_add [OF f, of p m] live_bytes_add [OF f, of p m] live_in_bin_add [OF f, of p i m] e by simp_all
qed

section \<open>The invariant of the counters\<close>

definition counters :: "mc \<Rightarrow> i32 \<times> i32 \<times> i32 \<times> size_t \<times> i32 list" where
  "counters st = (num_alloc_cnt st, num_alloc_memblk st, num_free_cnt st, allocated_size st, histogram st)"

definition counters_ok :: "mc \<Rightarrow> bool" where
  "counters_ok st \<longleftrightarrow>
     num_alloc_memblk st = of_nat (live_count (live_view st)) \<and>
     allocated_size st = live_bytes (live_view st) \<and>
     num_alloc_cnt st = num_alloc_memblk st + num_free_cnt st \<and>
     length (histogram st) = HISTO_BINS \<and>
     (\<forall>i < HISTO_BINS. histogram st ! i = of_nat (live_in_bin i (live_view st)))"

lemma counters_quiet: "quiet st st' \<Longrightarrow> counters st' = counters st"
  by (simp add: counters_def quiet_simps)

lemma counters_frame [frame_simps]:
  "counters (do_release k p st) = counters st"
  "counters (copy_memblk f a st) = counters st"
  "counters (set_freer f c st) = counters st"
  "counters (mc_set_freed_buffer f st) = counters st"
  "counters (add_free m st) = counters st"
  by (simp_all add: counters_def do_release_def copy_memblk_def set_freer_def mc_set_freed_buffer_def add_free_def
      set_free_table_def Let_def)

lemma counters_allocate: "do_allocate k st = Some (p, st') \<Longrightarrow> counters st' = counters st"
  by (auto simp: do_allocate_def counters_def split: Option.bind_splits)

lemma counters_callstack: "mc_get_callstack st = Some (c, st') \<Longrightarrow> counters st' = counters st"
  by (auto simp: mc_get_callstack_def backtrace_def mc_disable_hook_def mc_enable_hook_def upd_cs_def add_cs_def
      set_cs_table_def counters_def Let_def split: Option.bind_splits if_splits dest!: counters_allocate)

lemma counters_remove_free: "remove_free p st = Some (n, st') \<Longrightarrow> counters st' = counters st"
  by (auto simp: remove_free_def set_free_table_def counters_def split: Option.bind_splits)

lemma counters_evict:
  assumes "evict_free_memblk old st = Some (buf, st')"
  shows "counters st' = counters st"
proof -
  from assms obtain rc s1 n s2 where "mc_check_freed_buffer old st = Some (rc, s1)"
      "remove_free (mp_ptr (fmp s1 (memptr_of old))) s1 = Some (n, s2)" "st' = do_release FreeMemblk old s2"
    unfolding evict_free_memblk_def by (auto split: Option.bind_splits)
  then show ?thesis
    by (simp add: frame_simps counters_remove_free counters_quiet [OF mc_check_freed_buffer_quiet])
qed

lemma counters_push: "push_fifo f st = (old, st') \<Longrightarrow> counters st' = counters st"
  by (auto simp: push_fifo_def counters_def Let_def)

lemma counters_count_free: "counters s = counters t \<Longrightarrow> counters (count_free n s) = counters (count_free n t)"
  by (simp add: counters_def count_free_def)

lemma counters_quarantine:
  assumes "quarantine_memblk a n st = Some ((rc, out), st')"
  shows "counters st' = (if rc = 0 then counters (count_free n st) else counters st)"
proof -
  from assms obtain f s1 where al: "do_allocate FreeMemblk st = Some (f, s1)"
    by (auto simp: quarantine_memblk_def split: Option.bind_splits)
  show ?thesis
  proof (cases "f = NULL")
    case True
    then have "rc = - 1" "st' = do_release AllocMemblk a s1" using assms al by (auto simp: quarantine_memblk_def)
    then show ?thesis using counters_allocate [OF al] by (simp add: frame_simps)
  next
    case False
    from assms al False obtain c s2 where cs: "mc_get_callstack (copy_memblk f a s1) = Some (c, s2)"
      by (auto simp: quarantine_memblk_def Let_def split: Option.bind_splits)
    let ?s3 = "do_release AllocMemblk a (add_free (memptr_of f) (mc_set_freed_buffer f (set_freer f c s2)))"
    obtain old s4 where p: "push_fifo f (count_free n ?s3) = (old, s4)" by fastforce
    have "counters ?s3 = counters st"
      using counters_callstack [OF cs] counters_allocate [OF al] by (simp add: frame_simps)
    then have s4: "counters s4 = counters (count_free n st)"
      using counters_push [OF p] counters_count_free [of ?s3 st] by simp
    have "rc = 0 \<and> (st' = s4 \<or> (\<exists>buf. evict_free_memblk old s4 = Some (buf, st')))"
      using assms al False cs p by (auto simp: quarantine_memblk_def Let_def split: Option.bind_splits if_splits)
    then show ?thesis using s4 counters_evict by auto
  qed
qed

lemma counters_remove_ptr: "remove_ptr i p st = Some (n, st') \<Longrightarrow> counters st' = counters st"
  by (auto simp: remove_ptr_def set_ptr_table_def counters_def split: Option.bind_splits)

lemma finite_live:
  assumes "mc_ok st"
  shows "finite (dom (live_view st))"
proof -
  from assms obtain N F C where I: "mc_inv N F C st" by (auto simp: mc_ok_def)
  note T = mc_invD [OF I]
  have "finite (memptr_of ` N Live)" by (rule ptrs.finite_nodes [OF tables_okD(2) [OF T(1)]])
  then have "finite (N Live)" by (rule finite_imageD) (rule inj_memptr_of)
  then show ?thesis using dom_live_view [OF T(1)] T(2) by (simp add: keys_ok_def)
qed

text \<open>The counters follow the map through every release that does not run out of memory.\<close>

lemma mc_unregister_memblk_counters:
  assumes inv: "mc_ok st" and live: "live_view st p = Some m"
    and run: "mc_unregister_memblk p st = Some ((0, out), st')" and ok: "counters_ok st"
  shows "counters_ok st'"
proof -
  have L: "live_view st' = (live_view st)(p := None)"
    using mc_unregister_memblk_known [OF inv live run]
    by (auto simp: spec_of_def spec_unregister_def live split: prod.splits)
  note R = live_remove [OF finite_live [OF inv] live]
  from inv obtain N F C where I: "mc_inv N F C st" by (auto simp: mc_ok_def)
  obtain n s1 where rem: "remove_ptr Live p st = Some (n, s1)" "n \<noteq> NULL"
    using run by (auto simp: mc_unregister_memblk_def split: Option.bind_splits if_splits)
  from remove_ptr_releasing [OF I rem] obtain b where
    b: "n = memptr_of b" "am s1 = am st" "live_view st p = Some (am_memblk (am st b))" by blast
  have m: "am_memblk (am st b) = m" using b(3) live by simp
  obtain rc s2 where chk: "mc_check_allocated_buffer b True s1 = Some (rc, s2)"
    and qm: "quarantine_memblk b (mb_usrsize m) s2 = Some ((0, out), st')"
    using run rem b m by (auto simp: mc_unregister_memblk_def split: Option.bind_splits)
  have "counters s2 = counters st"
    using counters_quiet [OF mc_check_allocated_buffer_quiet [OF chk]] counters_remove_ptr [OF rem(1)] by simp
  then have "counters st' = counters (count_free (mb_usrsize m) st)"
    using counters_quarantine [OF qm] counters_count_free [of s2 st] by simp
  then have c: "num_alloc_cnt st' = num_alloc_cnt st" "num_alloc_memblk st' = num_alloc_memblk st - 1"
    "num_free_cnt st' = num_free_cnt st + 1" "allocated_size st' = allocated_size st - mb_usrsize m"
    "histogram st' = update_histogram (mb_usrsize m) False (histogram st)"
    by (simp_all add: counters_def count_free_def)
  have "histogram st' ! i = of_nat (live_in_bin i (live_view st'))" if "i < HISTO_BINS" for i
    using ok R(3) [of i] histo_bin_bounds(1) that unfolding c(5) L counters_ok_def update_histogram_def
    by (simp add: nth_list_update Let_def)
  then show ?thesis
    using ok R(1,2) unfolding counters_ok_def c L by (simp add: update_histogram_def Let_def)
qed

lemma mc_register_memblk_counters:
  assumes inv: "mc_ok st" and u: "live_view st p = None" "p \<notin> fst ` set (quarantine_view st)"
    and run: "mc_register_memblk buf p bufsize usrsize st = Some (rc, st')" and ok: "counters_ok st"
  shows "counters_ok st'"
proof -
  let ?m = "\<lparr>mb_buf = buf, mb_bufsize = bufsize, mb_usrsize = usrsize\<rparr>"
  from inv obtain N F C where I: "mc_inv N F C st" by (auto simp: mc_ok_def)
  note T = mc_invD [OF I] and A = live_count_add [OF finite_live [OF inv] u(1), of ?m]
    live_bytes_add [OF finite_live [OF inv] u(1), of ?m] live_in_bin_add [OF finite_live [OF inv] u(1), of _ ?m]
  note ref = mc_register_memblk_ok [OF inv u, of buf bufsize usrsize]
  show ?thesis
  proof (cases rule: mc_register_memblk_stages [OF T(1), of buf p bufsize usrsize])
    case (1 bs)
    then have st': "st' = mc_log_print Register_failed (st\<lparr>blk := bs\<rparr>)" "rc = - 1" using run by simp_all
    have "live_view st' = live_view st" using ref run st'(2) by (auto simp: spec_of_def)
    moreover have "counters st' = counters st" by (simp add: st' counters_def mc_log_print_def)
    ultimately show ?thesis using ok by (simp add: counters_ok_def counters_def)
  next
    case (2 b c s C')
    then have st': "st' = count_alloc usrsize s" "rc = 0" using run by simp_all
    have L: "live_view st' = (live_view st)(p \<mapsto> ?m)" using ref run st'(2) by (auto simp: spec_of_def spec_register_def)
    have c: "num_alloc_cnt st' = num_alloc_cnt st + 1" "num_alloc_memblk st' = num_alloc_memblk st + 1"
      "num_free_cnt st' = num_free_cnt st" "allocated_size st' = allocated_size st + usrsize"
      "histogram st' = update_histogram usrsize True (histogram st)"
      using 2(9-13) by (simp_all add: st' count_alloc_def)
    have "histogram st' ! i = of_nat (live_in_bin i (live_view st'))" if "i < HISTO_BINS" for i
      using ok A(3) [of i] histo_bin_bounds(1) that unfolding c(5) L counters_ok_def update_histogram_def
      by (simp add: nth_list_update Let_def)
    then show ?thesis
      using ok A(1,2) unfolding counters_ok_def c L by (simp add: update_histogram_def Let_def)
  qed
qed

section \<open>Running out of memory\<close>

text \<open>
  When there is no memory for the record of the freed block, release returns early: the result is
  -1, \<open>*buf_to_be_freed\<close> is not set and the counters still count the block.
\<close>

lemma mc_unregister_memblk_no_memory:
  assumes rem: "remove_ptr Live p st = Some (n, s1)" "n \<noteq> NULL"
    and chk: "mc_check_allocated_buffer (get_alloc_memblk_from_memptr n) True s1 = Some (rc, s2)"
    and al: "do_allocate FreeMemblk s2 = Some (NULL, s3)"
  shows "\<exists>st'. mc_unregister_memblk p st = Some ((- 1, None), st') \<and> counters st' = counters st \<and>
     ptr_tbls st' Live = ptr_tbls s1 Live"
proof -
  let ?st' = "do_release AllocMemblk (get_alloc_memblk_from_memptr n) s3"
  have "mc_unregister_memblk p st = Some ((- 1, None), ?st')"
    using assms by (simp add: mc_unregister_memblk_def quarantine_memblk_def Let_def)
  moreover have "counters ?st' = counters st"
    using counters_allocate [OF al] counters_quiet [OF mc_check_allocated_buffer_quiet [OF chk]]
      counters_remove_ptr [OF rem(1)] by (simp add: frame_simps)
  moreover have "ptr_tbls ?st' Live = ptr_tbls s1 Live"
    using al quiet_simps(7) [OF mc_check_allocated_buffer_quiet [OF chk]]
    by (auto simp: do_allocate_def do_release_def split: Option.bind_splits)
  ultimately show ?thesis by blast
qed

end
