(* ===== verification/MC_Snapshot.thy ===== *)
theory MC_Snapshot
  imports MC_Counters
begin

text \<open>
  Copies of the table of live blocks, \<open>memchk_snapshot.c\<close>, and the listings and snapshot commands
  of \<open>memchk_manage_memblk.c\<close> built on them. A command works on a copy of the table, so that the
  program can go on allocating; a snapshot is a copy that is kept, and is compared with the blocks
  of a later time by taking away from both what they have in common.
\<close>

section \<open>Copying and destroying a table\<close>

definition copy_alloc_memblk :: "addr \<Rightarrow> addr \<Rightarrow> mc \<Rightarrow> mc" where
  "copy_alloc_memblk dest src st =
     st\<lparr>am := (am st)(dest := (am st src)\<lparr>am_group_prev := NULL, am_group_next := NULL\<rparr>),
        amp := (amp st)(memptr_of dest := (amp st (memptr_of src))\<lparr>mp_hash_next := NULL\<rparr>)\<rparr>"

definition duplicate_body :: "table_id \<Rightarrow> addr \<Rightarrow> mc \<Rightarrow> (int, mc) flow option" where
  "duplicate_body dest memptr st =
     do {
       let b = get_alloc_memblk_from_memptr memptr;
       (new, st) \<leftarrow> do_allocate AllocMemblk st;
       Some (if new = NULL then Ret (- 1) st
             else Next (add_ptr dest (memptr_of new) (copy_alloc_memblk new b st)))
     }"

definition mc_duplicate_all_alloc_memblk :: "table_id \<Rightarrow> table_id \<Rightarrow> mc \<Rightarrow> (int \<times> mc) option" where
  "mc_duplicate_all_alloc_memblk dest src st =
     do {
       fl \<leftarrow> each_alloc_memblk src (duplicate_body dest) st;
       Some (case fl of Ret rc st \<Rightarrow> (rc, st) | Next st \<Rightarrow> (0, st))
     }"

definition free_alloc_memblk_if_not_null :: "addr \<Rightarrow> mc \<Rightarrow> mc" where
  "free_alloc_memblk_if_not_null b st = (if b \<noteq> NULL then do_release AllocMemblk b st else st)"

text \<open>A block is released one turn after it was visited, since the walk still reads its link.\<close>

definition destroy_body :: "addr \<Rightarrow> addr \<times> mc \<Rightarrow> (unit, addr \<times> mc) flow option" where
  "destroy_body memptr s =
     (case s of (prev, st) \<Rightarrow>
        let b = get_alloc_memblk_from_memptr memptr in
        Some (Next (b, if prev \<noteq> NULL then do_release AllocMemblk prev st else st)))"

definition mc_destroy_all_alloc_memblk :: "table_id \<Rightarrow> mc \<Rightarrow> mc option" where
  "mc_destroy_all_alloc_memblk i st =
     do {
       fl \<leftarrow> for_each_hashnode (\<lambda>(prev, st) n. mp_hash_next (amp st n)) (\<lambda>(prev, st). ptr_tbls st i)
               ALLOC_MEMPTR_HASHTABLE_SIZE destroy_body (NULL, st);
       let (prev, st) = flow_state fl;
       let st = (if prev \<noteq> NULL then do_release AllocMemblk prev st else st);
       Some (st\<lparr>ptr_tbls := (ptr_tbls st)(i := (\<lambda>_. NULL))\<rparr>)
     }"

section \<open>The differences of two tables\<close>

definition same_usrsize :: "mc \<Rightarrow> addr \<Rightarrow> addr \<Rightarrow> bool" where
  "same_usrsize st a b \<longleftrightarrow> mb_usrsize (am_memblk (am st a)) = mb_usrsize (am_memblk (am st b))"

text \<open>
  The block of the snapshot that stands for a current block: the one at the same address, when
  size and call stack agree, else the first of the same size in the group of the call stack.
\<close>

definition find_snapshot_alloc_memptr_for_current_memptr :: "table_id \<Rightarrow> addr \<Rightarrow> mc \<Rightarrow> addr option" where
  "find_snapshot_alloc_memptr_for_current_memptr snapshot current_memptr st =
     do {
       let a = get_alloc_memblk_from_memptr current_memptr;
       memptr \<leftarrow> find_ptr snapshot (mp_ptr (amp st current_memptr)) st;
       let b = get_alloc_memblk_from_memptr memptr;
       same \<leftarrow> (if memptr \<noteq> NULL \<and> same_usrsize st a b then do {
                  c1 \<leftarrow> cs_at (am_allocator (am st a)) st;
                  c2 \<leftarrow> cs_at (am_allocator (am st b)) st;
                  Some (mc_match_callstack c1 c2 = 0)
                } else Some False);
       (if same then Some memptr
        else do {
          c \<leftarrow> cs_at (am_allocator (am st a)) st;
          b \<leftarrow> chain_find (\<lambda>b. am_group_next (am st b)) (same_usrsize st a) (cs_group_next c ! link_no LINK_SNAPSHOT);
          Some (if b = NULL then NULL else memptr_of b)
        })
     }"

text \<open>The local variables of the loop: the two counts and the two blocks to release next.\<close>

record offset_vars =
  ov_current :: i32
  ov_snapshot :: i32
  ov_prev_current :: addr
  ov_prev_snapshot :: addr

definition offset_body ::
  "table_id \<Rightarrow> table_id \<Rightarrow> addr \<Rightarrow> offset_vars \<times> mc \<Rightarrow> (unit, offset_vars \<times> mc) flow option" where
  "offset_body current snapshot current_memptr s =
     (case s of (v, st) \<Rightarrow> do {
        let st = free_alloc_memblk_if_not_null (ov_prev_snapshot v) st;
        let st = free_alloc_memblk_if_not_null (ov_prev_current v) st;
        snapshot_memptr \<leftarrow> find_snapshot_alloc_memptr_for_current_memptr snapshot current_memptr st;
        (if snapshot_memptr \<noteq> NULL then do {
           (n, st) \<leftarrow> remove_ptr snapshot (mp_ptr (amp st snapshot_memptr)) st;
           (n, st) \<leftarrow> remove_ptr current (mp_ptr (amp st current_memptr)) st;
           let sb = get_alloc_memblk_from_memptr snapshot_memptr;
           let cb = get_alloc_memblk_from_memptr current_memptr;
           st \<leftarrow> mc_unlink_memblk_from_callstack sb (am_allocator (am st sb)) LINK_SNAPSHOT st;
           st \<leftarrow> mc_unlink_memblk_from_callstack cb (am_allocator (am st cb)) LINK_CURRENT st;
           Some (Next (\<lparr>ov_current = ov_current v - 1, ov_snapshot = ov_snapshot v - 1,
                        ov_prev_current = cb, ov_prev_snapshot = sb\<rparr>, st))
         } else Some (Next (v\<lparr>ov_prev_current := NULL, ov_prev_snapshot := NULL\<rparr>, st)))
      })"

definition count_nodes :: "table_id \<Rightarrow> mc \<Rightarrow> i32 option" where
  "count_nodes i st =
     do {
       fl \<leftarrow> for_each_hashnode (\<lambda>n m. mp_hash_next (amp st m)) (\<lambda>n. ptr_tbls st i) ALLOC_MEMPTR_HASHTABLE_SIZE
               (\<lambda>m n. Some (Next (n + 1) :: (unit, i32) flow)) 0;
       Some (flow_state fl)
     }"

definition offset_snapshot_against_current_alloc_memblk ::
  "table_id \<Rightarrow> table_id \<Rightarrow> mc \<Rightarrow> ((i32 \<times> i32) \<times> mc) option" where
  "offset_snapshot_against_current_alloc_memblk current snapshot st =
     do {
       nc \<leftarrow> count_nodes current st;
       ns \<leftarrow> count_nodes snapshot st;
       fl \<leftarrow> for_each_hashnode (\<lambda>(v, st) n. mp_hash_next (amp st n)) (\<lambda>(v, st). ptr_tbls st current)
               ALLOC_MEMPTR_HASHTABLE_SIZE (offset_body current snapshot)
               (\<lparr>ov_current = nc, ov_snapshot = ns, ov_prev_current = NULL, ov_prev_snapshot = NULL\<rparr>, st);
       let (v, st) = flow_state fl;
       let st = free_alloc_memblk_if_not_null (ov_prev_snapshot v) st;
       let st = free_alloc_memblk_if_not_null (ov_prev_current v) st;
       Some ((ov_current v, ov_snapshot v), st)
     }"

end
