(* ===== verification/MC_Listing.thy ===== *)
theory MC_Listing
  imports MC_Snapshot
begin

text \<open>
  The listings of \<open>memchk_manage_memblk.c\<close> and the comparisons of \<open>memchk_snapshot.c\<close>: every block
  of a table by size, or the groups of blocks by call stack. They write to the log; the record of
  blocks is as it was when they return.
\<close>

section \<open>Listing a table\<close>

definition table_blocks :: "table_id \<Rightarrow> mc \<Rightarrow> addr list option" where
  "table_blocks i st =
     do {
       fl \<leftarrow> for_each_hashnode (\<lambda>bs m. mp_hash_next (amp st m)) (\<lambda>bs. ptr_tbls st i) ALLOC_MEMPTR_HASHTABLE_SIZE
               (\<lambda>m bs. Some (Next (bs @ [get_alloc_memblk_from_memptr m]) :: (unit, addr list) flow)) [];
       Some (flow_state fl)
     }"

fun print_blocks :: "int \<Rightarrow> addr list \<Rightarrow> mc \<Rightarrow> mc option" where
  "print_blocks cnt [] st = Some st"
| "print_blocks cnt (b # bs) st =
     do {
       let st = mc_log_print (Block cnt (mp_ptr (amp st (memptr_of b))) (mb_usrsize (am_memblk (am st b)))) st;
       c \<leftarrow> cs_at (am_allocator (am st b)) st;
       st \<leftarrow> mc_print_callstack (cs_depth c) (cs_trace c) 2 st;
       print_blocks (cnt + 1) bs st
     }"

definition print_all_memblk_on_hashtable :: "table_id \<Rightarrow> mc \<Rightarrow> (int \<times> mc) option" where
  "print_all_memblk_on_hashtable i st =
     do {
       total_blks \<leftarrow> count_nodes i st;
       (ok, st) \<leftarrow> mc_allocate_sort_buffer (scast total_blks) st;
       (if \<not> ok then Some (- 1, st)
        else do {
          alloc_memblk_array \<leftarrow> table_blocks i st;
          let (alloc_memblk_array, st) = mc_sort_by_alloc_memblk alloc_memblk_array st;
          st \<leftarrow> print_blocks 0 alloc_memblk_array st;
          Some (0, st)
        })
     }"

definition mc_print_all_memblk :: "mc \<Rightarrow> (int \<times> mc) option" where
  "mc_print_all_memblk st =
     do {
       (ret, st) \<leftarrow> mc_duplicate_all_alloc_memblk Copy Live st;
       (if ret \<noteq> 0 then Some (ret, st)
        else do {
          st \<leftarrow> init_fmaps st;
          (rc, st) \<leftarrow> print_all_memblk_on_hashtable Copy st;
          st \<leftarrow> term_fmaps st;
          st \<leftarrow> mc_destroy_all_alloc_memblk Copy st;
          Some (0, st)
        })
     }"

section \<open>Listing by call stack\<close>

text \<open>A loop over the blocks of a group.\<close>

definition each_group_member ::
  "link_index \<Rightarrow> addr \<Rightarrow> (addr \<Rightarrow> mc \<Rightarrow> mc) \<Rightarrow> mc \<Rightarrow> mc option" where
  "each_group_member l c f st =
     do {
       fl \<leftarrow> walk (\<lambda>st b. am_group_next (am st b)) (\<lambda>b st. fall_through (Some (f b st))) (group_head l c st) st;
       Some (flow_state fl)
     }"

definition add_to_total :: "addr \<Rightarrow> addr \<Rightarrow> mc \<Rightarrow> mc" where
  "add_to_total c b st = upd_cs c (\<lambda>x. x\<lparr>cs_total_size := cs_total_size x + mb_usrsize (am_memblk (am st b))\<rparr>) st"

definition subtract_from_total :: "addr \<Rightarrow> addr \<Rightarrow> mc \<Rightarrow> mc" where
  "subtract_from_total c b st =
     upd_cs c (\<lambda>x. x\<lparr>cs_total_size := cs_total_size x - mb_usrsize (am_memblk (am st b))\<rparr>) st"

definition clear_total :: "addr \<Rightarrow> mc \<Rightarrow> mc" where
  "clear_total c st = upd_cs c (\<lambda>x. x\<lparr>cs_total_size := 0\<rparr>) st"

text \<open>
  The call stacks with a block in one of the groups. The count is an \<open>int\<close> in one caller and an
  \<open>int64_t\<close> in the other, each takes it at its width.
\<close>

definition has_group :: "link_index list \<Rightarrow> mc \<Rightarrow> addr \<Rightarrow> bool" where
  "has_group ls st c \<longleftrightarrow> (\<exists>l\<in>set ls. group_head l c st \<noteq> NULL)"

definition count_groups :: "link_index list \<Rightarrow> mc \<Rightarrow> nat option" where
  "count_groups ls st =
     do {
       fl \<leftarrow> for_each_hashnode (\<lambda>n c. cs_hash_next (csh st c)) (\<lambda>n. cs_tbl st) CALLSTACK_HASHTABLE_SIZE
               (\<lambda>c n. Some (Next (if has_group ls st c then n + 1 else n) :: (unit, nat) flow)) 0;
       Some (flow_state fl)
     }"

definition each_callstack_array ::
  "(addr \<Rightarrow> addr list \<times> mc \<Rightarrow> (addr list \<times> mc) option) \<Rightarrow> mc \<Rightarrow> (addr list \<times> mc) option" where
  "each_callstack_array f st =
     do {
       fl \<leftarrow> for_each_hashnode (\<lambda>(arr, st) c. cs_hash_next (csh st c)) (\<lambda>(arr, st). cs_tbl st) CALLSTACK_HASHTABLE_SIZE
               (\<lambda>c s. do { s \<leftarrow> f c s; Some (Next s :: (unit, addr list \<times> mc) flow) }) ([], st);
       Some (flow_state fl)
     }"

definition total_per_callstack :: "link_index \<Rightarrow> addr \<Rightarrow> addr list \<times> mc \<Rightarrow> (addr list \<times> mc) option" where
  "total_per_callstack l c s =
     (case s of (callstack_array, st) \<Rightarrow>
        let st = clear_total c st in
        if group_head l c st = NULL then Some (callstack_array, st)
        else do {
          st \<leftarrow> each_group_member l c (add_to_total c) st;
          Some (callstack_array @ [c], st)
        })"

definition print_group_sizes :: "(size_t \<Rightarrow> log_line) \<Rightarrow> link_index \<Rightarrow> addr \<Rightarrow> mc \<Rightarrow> mc option" where
  "print_group_sizes line l c st =
     each_group_member l c (\<lambda>b st. mc_log_print (line (mb_usrsize (am_memblk (am st b)))) st) st"

fun print_groups :: "link_index \<Rightarrow> int \<Rightarrow> addr list \<Rightarrow> mc \<Rightarrow> mc option" where
  "print_groups l cnt [] st = Some st"
| "print_groups l cnt (c # cs) st =
     do {
       st \<leftarrow> print_group_sizes Group_size l c (mc_log_print (Group cnt) st);
       let st = mc_log_print (Group_total (sint (cs_total_size (csh st c)))) st;
       st \<leftarrow> mc_print_callstack (cs_depth (csh st c)) (cs_trace (csh st c)) 2 st;
       print_groups l (cnt + 1) cs st
     }"

definition print_all_memblk_per_callstack :: "link_index \<Rightarrow> mc \<Rightarrow> (int \<times> mc) option" where
  "print_all_memblk_per_callstack l st =
     do {
       n \<leftarrow> count_groups [l] st;
       (ok, st) \<leftarrow> mc_allocate_sort_buffer (scast (of_nat n :: i32)) st;
       (if \<not> ok then Some (- 1, st)
        else do {
          (callstack_array, st) \<leftarrow> each_callstack_array (total_per_callstack l) st;
          let (callstack_array, st) = mc_sort_per_callstack callstack_array st;
          st \<leftarrow> print_groups l 0 callstack_array st;
          Some (0, st)
        })
     }"

definition mc_print_all_memblk_per_callstack :: "mc \<Rightarrow> (int \<times> mc) option" where
  "mc_print_all_memblk_per_callstack st =
     do {
       (ret, st) \<leftarrow> mc_duplicate_all_alloc_memblk Copy Live st;
       (if ret \<noteq> 0 then Some (ret, st)
        else do {
          st \<leftarrow> mc_link_same_callstack_group Copy LINK_CURRENT st;
          st \<leftarrow> init_fmaps st;
          (rc, st) \<leftarrow> print_all_memblk_per_callstack LINK_CURRENT st;
          st \<leftarrow> term_fmaps st;
          st \<leftarrow> mc_reset_same_callstack_group LINK_CURRENT st;
          st \<leftarrow> mc_destroy_all_alloc_memblk Copy st;
          Some (0, st)
        })
     }"

section \<open>Snapshots\<close>

definition mc_create_snapshot :: "mc \<Rightarrow> (int \<times> mc) option" where
  "mc_create_snapshot st =
     do {
       st \<leftarrow> mc_destroy_all_alloc_memblk Snapshot st;
       mc_duplicate_all_alloc_memblk Snapshot Live st
     }"

definition mc_destroy_snapshot :: "mc \<Rightarrow> mc option" where
  "mc_destroy_snapshot st = mc_destroy_all_alloc_memblk Snapshot st"

definition print_remaining :: "i32 \<Rightarrow> (i32 \<Rightarrow> log_line) \<Rightarrow> log_line \<Rightarrow> table_id \<Rightarrow> mc \<Rightarrow> mc option" where
  "print_remaining n some none i st =
     (if n \<noteq> 0 then do {
        (rc, st) \<leftarrow> print_all_memblk_on_hashtable i (mc_log_print (some n) st);
        Some st
      } else Some (mc_log_print none st))"

definition mc_compare_snapshot_and_current_alloc_memblk :: "table_id \<Rightarrow> table_id \<Rightarrow> mc \<Rightarrow> (int \<times> mc) option" where
  "mc_compare_snapshot_and_current_alloc_memblk current snapshot st =
     do {
       st \<leftarrow> mc_link_same_callstack_group current LINK_CURRENT st;
       st \<leftarrow> mc_link_same_callstack_group snapshot LINK_SNAPSHOT st;
       ((nc, ns), st) \<leftarrow> offset_snapshot_against_current_alloc_memblk current snapshot st;
       st \<leftarrow> init_fmaps st;
       st \<leftarrow> print_remaining nc Blocks_increased No_block_increased current st;
       st \<leftarrow> print_remaining ns Blocks_decreased No_block_decreased snapshot st;
       st \<leftarrow> term_fmaps st;
       st \<leftarrow> mc_reset_same_callstack_group LINK_CURRENT st;
       st \<leftarrow> mc_reset_same_callstack_group LINK_SNAPSHOT st;
       Some (0, st)
     }"

text \<open>The comparison by call stack: what each call stack gained minus what it lost.\<close>

definition difference_per_callstack :: "addr \<Rightarrow> addr list \<times> mc \<Rightarrow> (addr list \<times> mc) option" where
  "difference_per_callstack c s =
     (case s of (callstack_array, st) \<Rightarrow>
        if \<not> has_group [LINK_CURRENT, LINK_SNAPSHOT] st c then Some (callstack_array, st)
        else do {
          st \<leftarrow> each_group_member LINK_CURRENT c (add_to_total c) (clear_total c st);
          st \<leftarrow> each_group_member LINK_SNAPSHOT c (subtract_from_total c) st;
          Some (callstack_array @ [c], st)
        })"

fun print_differences :: "int \<Rightarrow> addr list \<Rightarrow> mc \<Rightarrow> mc option" where
  "print_differences cnt [] st = Some st"
| "print_differences cnt (c # cs) st =
     do {
       st \<leftarrow> print_group_sizes Group_size LINK_CURRENT c (mc_log_print (Group cnt) st);
       st \<leftarrow> print_group_sizes Group_minus LINK_SNAPSHOT c st;
       let st = mc_log_print (Group_total (sint (cs_total_size (csh st c)))) st;
       st \<leftarrow> mc_print_callstack (cs_depth (csh st c)) (cs_trace (csh st c)) 2 st;
       print_differences (cnt + 1) cs st
     }"

definition mc_compare_snapshot_and_current_alloc_memblk_per_callstack ::
  "table_id \<Rightarrow> table_id \<Rightarrow> mc \<Rightarrow> (int \<times> mc) option" where
  "mc_compare_snapshot_and_current_alloc_memblk_per_callstack current snapshot st =
     do {
       st \<leftarrow> mc_link_same_callstack_group current LINK_CURRENT st;
       st \<leftarrow> mc_link_same_callstack_group snapshot LINK_SNAPSHOT st;
       ((nc, ns), st) \<leftarrow> offset_snapshot_against_current_alloc_memblk current snapshot st;
       (if nc + ns = 0 then Some (0, mc_log_print No_block_changed st)
        else do {
          st \<leftarrow> init_fmaps st;
          n \<leftarrow> count_groups [LINK_CURRENT, LINK_SNAPSHOT] st;
          (ok, st) \<leftarrow> mc_allocate_sort_buffer (of_nat n) st;
          (if \<not> ok then Some (- 1, st)
           else do {
             (callstack_array, st) \<leftarrow> each_callstack_array difference_per_callstack st;
             let (callstack_array, st) = mc_sort_per_callstack callstack_array st;
             st \<leftarrow> print_differences 0 callstack_array st;
             st \<leftarrow> term_fmaps st;
             st \<leftarrow> mc_reset_same_callstack_group LINK_CURRENT st;
             st \<leftarrow> mc_reset_same_callstack_group LINK_SNAPSHOT st;
             Some (0, st)
           })
        })
     }"

text \<open>The two commands differ in the comparison they run on the copies.\<close>

definition with_copies :: "(table_id \<Rightarrow> table_id \<Rightarrow> mc \<Rightarrow> (int \<times> mc) option) \<Rightarrow> mc \<Rightarrow> (int \<times> mc) option" where
  "with_copies compare st =
     do {
       (ret, st) \<leftarrow> mc_duplicate_all_alloc_memblk Copy Live st;
       (if ret \<noteq> 0 then Some (ret, st)
        else do {
          (ret, st) \<leftarrow> mc_duplicate_all_alloc_memblk Snapshot_Copy Snapshot st;
          (if ret \<noteq> 0 then Some (ret, st)
           else do {
             (rc, st) \<leftarrow> compare Copy Snapshot_Copy st;
             st \<leftarrow> mc_destroy_all_alloc_memblk Copy st;
             st \<leftarrow> mc_destroy_all_alloc_memblk Snapshot_Copy st;
             Some (0, st)
           })
        })
     }"

definition mc_compare_with_snapshot :: "mc \<Rightarrow> (int \<times> mc) option" where
  "mc_compare_with_snapshot = with_copies mc_compare_snapshot_and_current_alloc_memblk"

definition mc_compare_with_snapshot_per_callstack :: "mc \<Rightarrow> (int \<times> mc) option" where
  "mc_compare_with_snapshot_per_callstack = with_copies mc_compare_snapshot_and_current_alloc_memblk_per_callstack"

end
