(* ===== verification/MC_Walk.thy ===== *)
theory MC_Walk
  imports MC_Listing
begin

text \<open>
  Traversal of the tables of blocks under the invariant: \<open>listed i st ns\<close> says that a traversal of
  table \<open>i\<close> visits the nodes \<open>ns\<close>. A loop over the table is a fold over \<open>ns\<close> as long as the body
  leaves the links of the nodes to come alone; it may take the node it is at out of the table.
\<close>

section \<open>The nodes of a table in order\<close>

definition listed :: "table_id \<Rightarrow> mc \<Rightarrow> addr list \<Rightarrow> bool" where
  "listed i st ns \<longleftrightarrow>
     (\<exists>bs. buckets_ok (\<lambda>n. mp_hash_next (amp st n)) (\<lambda>n. calc_ptr_hash (mp_ptr (amp st n)) ALLOC_MEMPTR_HASHTABLE_SIZE)
              (ptr_tbls st i) ALLOC_MEMPTR_HASHTABLE_SIZE bs \<and> ns = node_list ALLOC_MEMPTR_HASHTABLE_SIZE bs)"

lemma listed_exists:
  assumes "ptr_table_ok ALLOC_MEMPTR_HASHTABLE_SIZE (ptr_table i st) M"
  obtains ns where "listed i st ns" "distinct ns" "set ns = M" "0 \<notin> set ns"
  using assms distinct_node_list nodes_nonnull
  by (fastforce simp: ptr_table_ok_def ptr_table_def listed_def)

text \<open>
  A loop over any of the tables whose body keeps the links of the nodes and the heads runs the
  body on every node, bucket after bucket.
\<close>

lemma for_each_buckets:
  fixes body :: "addr \<Rightarrow> 's \<Rightarrow> ('r, 's) flow option"
  assumes bs: "buckets_ok (nx s) h (heads s) sz bs" and I: "I s"
    and step: "\<And>n s s'. n \<in> set (node_list sz bs) \<Longrightarrow> I s \<Longrightarrow> body n s = Some (Next s') \<Longrightarrow>
        I s' \<and> (\<forall>m\<in>set (node_list sz bs). nx s' m = nx s m) \<and> heads s' = heads s"
  shows "for_each_hashnode nx heads sz body s = fold_flow body (node_list sz bs) s"
proof -
  have sub: "set (bs j) \<subseteq> set (node_list sz bs)" if "j < sz" for j using that by (auto simp: nodes_UN)
  have "walk_buckets nx heads body [0..<sz] s = fold_flow body (concat (map bs [0..<sz])) s"
  proof (rule walk_buckets_fold [where I = I])
    show "\<forall>j\<in>set [0..<sz]. lst (nx s) (heads s j) (bs j)" using bs by (simp add: buckets_ok_def)
  next
    fix n s s' j us ys js ks
    assume a: "[0..<sz] = js @ j # ks" "body n s = Some (Next s')" "I s" "bs j = us @ n # ys"
      "lst (nx s) n (n # ys)" "\<forall>j\<in>set ks. lst (nx s) (heads s j) (bs j)"
    have lt: "l < sz" if "l \<in> set (j # ks)" for l using that a(1) by (metis Un_iff atLeastLessThan_iff set_append set_upt)
    have n: "set (n # ys) \<subseteq> set (node_list sz bs)" using sub [of j] lt a(4) by auto
    then have S: "I s'" "\<forall>m\<in>set (node_list sz bs). nx s' m = nx s m" "heads s' = heads s"
      using step [of n s s'] a(2,3) by auto
    have "lst (nx s') (heads s' l) (bs l)" if "l \<in> set ks" for l
    proof -
      have "set (bs l) \<subseteq> set (node_list sz bs)" using sub [of l] lt that by simp
      then have "\<And>x. x \<in> set (bs l) \<Longrightarrow> nx s' x = nx s x" using S(2) by blast
      from lst_cong [OF this] show ?thesis using a(6) that S(3) by simp
    qed
    then show "I s' \<and> (\<forall>m\<in>set (n # ys). nx s' m = nx s m) \<and> (\<forall>l\<in>set ks. lst (nx s') (heads s' l) (bs l))"
      using S n by blast
  qed (use I in simp_all)
  then show ?thesis by (simp add: for_each_hashnode_def node_list_def)
qed

lemma for_each_fold:
  fixes body :: "addr \<Rightarrow> 's \<Rightarrow> ('r, 's) flow option"
  assumes ns: "listed i (p s) ns" and I: "I s"
    and step: "\<And>n s s'. n \<in> set ns \<Longrightarrow> I s \<Longrightarrow> body n s = Some (Next s') \<Longrightarrow>
        I s' \<and> (\<forall>m\<in>set ns. mp_hash_next (amp (p s') m) = mp_hash_next (amp (p s) m)) \<and> ptr_tbls (p s') i = ptr_tbls (p s) i"
  shows "for_each_hashnode (\<lambda>s n. mp_hash_next (amp (p s) n)) (\<lambda>s. ptr_tbls (p s) i) ALLOC_MEMPTR_HASHTABLE_SIZE body s =
           fold_flow body ns s"
proof -
  obtain bs where bs: "buckets_ok (\<lambda>n. mp_hash_next (amp (p s) n))
      (\<lambda>n. calc_ptr_hash (mp_ptr (amp (p s) n)) ALLOC_MEMPTR_HASHTABLE_SIZE) (ptr_tbls (p s) i) ALLOC_MEMPTR_HASHTABLE_SIZE bs"
    "ns = node_list ALLOC_MEMPTR_HASHTABLE_SIZE bs" using ns by (auto simp: listed_def)
  show ?thesis unfolding bs(2)
    by (rule for_each_buckets [where nx = "\<lambda>s n. mp_hash_next (amp (p s) n)" and heads = "\<lambda>s. ptr_tbls (p s) i" and I = I, OF bs(1) I])
      (rule step [unfolded bs(2)])
qed

text \<open>A loop that only reads the state.\<close>

lemma for_each_read:
  assumes "listed i st ns"
  shows "for_each_hashnode (\<lambda>a n. mp_hash_next (amp st n)) (\<lambda>a. ptr_tbls st i) ALLOC_MEMPTR_HASHTABLE_SIZE
           (\<lambda>n a. Some (Next (f n a) :: ('r, 'a) flow)) a = Some (Next (fold f ns a))"
proof -
  have "for_each_hashnode (\<lambda>a n. mp_hash_next (amp st n)) (\<lambda>a. ptr_tbls st i) ALLOC_MEMPTR_HASHTABLE_SIZE
           (\<lambda>n a. Some (Next (f n a) :: ('r, 'a) flow)) a = fold_flow (\<lambda>n a. Some (Next (f n a))) ns a"
    using for_each_fold [where p = "\<lambda>_. st" and I = "\<lambda>_. True" and body = "\<lambda>n a. Some (Next (f n a))" and s = a] assms by simp
  then show ?thesis by (simp add: fold_flow_fold [where f = f])
qed

lemma count_nodes_ok: "listed i st ns \<Longrightarrow> count_nodes i st = Some (of_nat (length ns))"
proof -
  assume ns: "listed i st ns"
  have "fold (\<lambda>m n. n + 1) ns a = a + of_nat (length ns)" for a :: i32 by (induction ns arbitrary: a) simp_all
  then show ?thesis
    unfolding count_nodes_def for_each_read [OF ns, of "\<lambda>m n. n + 1"] by (simp add: flow_state_def)
qed

lemma table_blocks_ok: "listed i st ns \<Longrightarrow> table_blocks i st = Some (map get_alloc_memblk_from_memptr ns)"
proof -
  assume ns: "listed i st ns"
  have "fold (\<lambda>m bs. bs @ [get_alloc_memblk_from_memptr m]) ns a = a @ map get_alloc_memblk_from_memptr ns" for a
    by (induction ns arbitrary: a) simp_all
  then show ?thesis
    unfolding table_blocks_def for_each_read [OF ns, of "\<lambda>m bs. bs @ [get_alloc_memblk_from_memptr m]"]
    by (simp add: flow_state_def)
qed

section \<open>Views of the tables\<close>

text \<open>What a table says of an address: the description of its block and the call stack it came from.\<close>

definition table_view :: "table_id \<Rightarrow> mc \<Rightarrow> addr \<Rightarrow> (memblk \<times> addr) option" where
  "table_view i st p =
     (case find_ptr i p st of
        None \<Rightarrow> None
      | Some n \<Rightarrow> if n = NULL then None
                  else let b = am st (get_alloc_memblk_from_memptr n) in Some (am_memblk b, am_allocator b))"

lemma live_view_table: "live_view st p = map_option fst (table_view Live st p)"
  by (simp add: live_view_def table_view_def Let_def split: option.splits)

definition entry_of :: "mc \<Rightarrow> addr \<Rightarrow> memblk \<times> addr" where
  "entry_of st b = (am_memblk (am st b), am_allocator (am st b))"

lemma table_view_at:
  assumes "tables_ok N X F Y C st" "inj_on (usr_of st) (N i)" "b \<in> N i"
  shows "table_view i st (usr_of st b) = Some (entry_of st b)"
proof -
  have "memptr_of b \<noteq> NULL" using memptr_live_nonnull(1) [OF assms(1)] assms(3) by blast
  then show ?thesis using find_ptr_live [OF assms] by (simp add: table_view_def entry_of_def Let_def)
qed

lemma table_view_absent:
  assumes "tables_ok N X F Y C st" "p \<notin> usr_of st ` N i"
  shows "table_view i st p = None"
  using find_ptr_absent [OF assms] by (simp add: table_view_def)

lemma dom_table_view:
  assumes "tables_ok N X F Y C st" "inj_on (usr_of st) (N i)"
  shows "dom (table_view i st) = usr_of st ` N i"
  using table_view_at [OF assms] table_view_absent [OF assms(1)]
  by (auto simp: dom_def) (metis option.distinct(1))

lemma table_view_empty:
  assumes "mc_inv N F C st"
  shows "table_view i st = Map.empty \<longleftrightarrow> N i = {}"
proof -
  have "inj_on (usr_of st) (N i)" using mc_invD(2) [OF assms] by (simp add: keys_ok_def)
  from dom_table_view [OF mc_invD(1) [OF assms] this] show ?thesis by auto
qed

text \<open>Two tables with corresponding blocks have the same view.\<close>

lemma table_view_eq:
  assumes st: "tables_ok N X F Y C st" "inj_on (usr_of st) (N i)"
    and st': "tables_ok N' X' F' Y' C' st'" "inj_on (usr_of st') (N' j)"
    and f: "bij_betw f (N i) (N' j)" "\<And>b. b \<in> N i \<Longrightarrow> usr_of st' (f b) = usr_of st b \<and> entry_of st' (f b) = entry_of st b"
  shows "table_view j st' = table_view i st"
proof (rule ext)
  fix p
  have im: "f ` N i = N' j" using f(1) by (rule bij_betw_imp_surj_on)
  show "table_view j st' p = table_view i st p"
  proof (cases "p \<in> usr_of st ` N i")
    case True
    then obtain b where b: "b \<in> N i" "p = usr_of st b" by blast
    then show ?thesis using table_view_at [OF st b(1)] table_view_at [OF st', of "f b"] f(2) [OF b(1)] im by auto
  next
    case False
    have "usr_of st' ` N' j = usr_of st ` N i"
      unfolding im [symmetric] image_image using f(2) by (intro image_cong) simp_all
    then show ?thesis using False table_view_absent [OF st(1)] table_view_absent [OF st'(1)] by simp
  qed
qed

lemma table_view_same:
  assumes "tables_ok N X F Y C st" "inj_on (usr_of st) (N i)" "tables_ok N' X' F' Y' C' st'" "N' i = N i"
    and "\<And>b. b \<in> N i \<Longrightarrow> usr_of st' b = usr_of st b \<and> entry_of st' b = entry_of st b"
  shows "table_view i st' = table_view i st"
proof (rule table_view_eq [OF assms(1,2,3)])
  show "inj_on (usr_of st') (N' i)"
    using assms(2,4,5) inj_on_cong [of "N i" "usr_of st'" "usr_of st"] by simp
  show "bij_betw (\<lambda>b. b) (N i) (N' i)" using assms(4) by (simp add: bij_betw_def)
qed (use assms(5) in simp_all)

end
