(* ===== verification/MC_Boot.thy ===== *)
theory MC_Boot
  imports MC_Counters
begin

text \<open>
  The start of the library, \<open>memchk_init.c\<close>: the statics are zero, the pools are made on the first
  call, and the invariants hold from then on. \<open>boot_mc\<close> is one concrete start state.
\<close>

definition mc_init :: "mc \<Rightarrow> mc option" where
  "mc_init st =
     (if initialized st then Some st
      else do {
        let st = mc_disable_hook (st\<lparr>initialized := True\<rparr>);
        b \<leftarrow> mc_alloc_blk_init (blk st);
        Some (mc_enable_hook (mc_log_print Started (st\<lparr>blk := b\<rparr>)))
      })"

definition zero_statics :: "mc \<Rightarrow> bool" where
  "zero_statics st \<longleftrightarrow>
     \<not> initialized st \<and> ptr_tbls st = (\<lambda>_ _. NULL) \<and> free_tbl st = (\<lambda>_. NULL) \<and> cs_tbl st = (\<lambda>_. NULL) \<and>
     num_alloc_memblk st = 0 \<and> num_alloc_cnt st = 0 \<and> num_free_cnt st = 0 \<and> allocated_size st = 0 \<and>
     histogram st = replicate HISTO_BINS 0 \<and> free_fifo_idx st = 0 \<and>
     free_memblk_array st = replicate FREE_FIFO_SIZE NULL \<and> do_not_hook st = 0"

lemma empty_buckets: "0 < sz \<Longrightarrow> buckets_ok nx hsh (\<lambda>_. NULL) sz (\<lambda>_. []) \<and> nodes sz (\<lambda>_. []) = {}"
  by (simp add: buckets_ok_def nodes_UN)

lemma empty_tables:
  "ptr_table_ok ALLOC_MEMPTR_HASHTABLE_SIZE (h, \<lambda>_. NULL) {}"
  "ptr_table_ok FREE_MEMPTR_HASHTABLE_SIZE (h, \<lambda>_. NULL) {}"
  "cs_table_ok CALLSTACK_HASHTABLE_SIZE (h', \<lambda>_. NULL) {}"
  unfolding ptr_table_ok_def cs_table_ok_def fst_conv snd_conv ALLOC_MEMPTR_HASHTABLE_SIZE_def
    FREE_MEMPTR_HASHTABLE_SIZE_def CALLSTACK_HASHTABLE_SIZE_def
  by (rule exI [of _ "\<lambda>_. []"]; use empty_buckets in simp)+

lemma zero_statics_inv:
  assumes z: "zero_statics st" and b: "blk_ok b" "\<forall>k. blk_live k b = {}"
  defines "st' \<equiv> mc_log_print Started (st\<lparr>initialized := True, blk := b\<rparr>)"
  shows "mc_inv (\<lambda>_. {}) {} {} st'" "spec_of st' = \<lparr>sp_live = (\<lambda>_. None), sp_quarantine = []\<rparr>" "counters_ok st'"
proof -
  have tables: "tables_ok (\<lambda>_. {}) {} {} {} {} st'"
    using z b empty_tables
    by (simp add: tables_ok_def st'_def mc_log_print_def ptr_table_def free_table_def cs_table_def zero_statics_def)
  have q: "quarantine st' = []"
    using z by (simp add: quarantine_def st'_def mc_log_print_def zero_statics_def)
  moreover have "fifo_ok st'"
    unfolding fifo_ok_def using z by (intro conjI disjI2 exI [of _ "[]"])
      (simp_all add: st'_def mc_log_print_def zero_statics_def FREE_FIFO_SIZE_def)
  ultimately show "mc_inv (\<lambda>_. {}) {} {} st'"
    using tables by (simp add: mc_inv_def keys_ok_def queue_ok_def owners_ok_def)
  have live: "live_view st' = (\<lambda>_. None)" by (rule ext) (rule live_view_absent [OF tables], simp)
  then show "spec_of st' = \<lparr>sp_live = (\<lambda>_. None), sp_quarantine = []\<rparr>"
    using q by (simp add: spec_of_def quarantine_view_def)
  show "counters_ok st'"
    using z unfolding counters_ok_def live
    by (simp add: st'_def mc_log_print_def zero_statics_def live_count_def live_bytes_def live_in_bin_def)
qed

text \<open>The first call makes the pools and establishes every invariant; later calls do nothing.\<close>

lemma mc_init_ok:
  assumes "zero_statics st" "heads_ok (blk st)"
  shows "\<exists>st'. mc_init st = Some st' \<and> initialized st' \<and> mc_ok st' \<and> counters_ok st' \<and> do_not_hook st' = 0 \<and>
     spec_of st' = \<lparr>sp_live = (\<lambda>_. None), sp_quarantine = []\<rparr> \<and> mc_init st' = Some st' \<and>
     fmaps st' = fmaps st \<and> mem st' = mem st \<and> log st' = log st @ [Started] \<and>
     mmaps (bs_alloc (blk st')) = mmaps (bs_alloc (blk st))"
proof -
  from mc_alloc_blk_init_ok [OF assms(2)] obtain b where
    b: "mc_alloc_blk_init (blk st) = Some b" "blk_ok b" "\<forall>k. blk_live k b = {}"
      "mmaps (bs_alloc b) = mmaps (bs_alloc (blk st))" by blast
  let ?st = "mc_log_print Started (st\<lparr>initialized := True, blk := b\<rparr>)"
  have "mc_init st = Some ?st"
    using assms(1) b(1)
    by (simp add: mc_init_def zero_statics_def mc_disable_hook_def mc_enable_hook_def mc_log_print_def Let_def)
  moreover have "initialized ?st" "do_not_hook ?st = 0" "fmaps ?st = fmaps st" "mem ?st = mem st"
      "log ?st = log st @ [Started]" "mmaps (bs_alloc (blk ?st)) = mmaps (bs_alloc (blk st))"
    using assms(1) b(4) by (simp_all add: mc_log_print_def zero_statics_def)
  moreover have "mc_init ?st = Some ?st" using \<open>initialized ?st\<close> by (simp add: mc_init_def)
  ultimately show ?thesis
    using zero_statics_inv [OF assms(1) b(2,3)] by (auto simp: mc_ok_def)
qed

section \<open>A concrete start\<close>

fun boot_head :: "blk_kind \<Rightarrow> addr" where
  "boot_head AllocMemblk = 0x1000"
| "boot_head FreeMemblk = 0x2000"
| "boot_head Callstack = 0x3000"
| "boot_head Pageregion = 0x4000"

definition boot_blk :: blk_state where
  "boot_blk = \<lparr>bs_alloc = \<lparr>headers = (\<lambda>_. \<lparr>ph_size = 0, ph_num_memblk_in_pool = 0, ph_num_free = 0, ph_seqno = 0,
       ph_bitmap = [0, 0, 0], ph_top = 0, ph_prev_pool_link = 0, ph_next_pool_link = 0, ph_next_available_pool = 0\<rparr>),
     mmaps = [0x10000, 0x20000, 0x30000, 0x40000, 0x50000, 0x60000]\<rparr>, bs_head = boot_head, bs_size = (\<lambda>_. 0)\<rparr>"

definition boot_fmaps :: filemap_state where
  "boot_fmaps = \<lparr>fs_array = [], fs_mapped = False, fs_cnt = 0, fs_usage_cnt = 0, fs_size = 0, fs_maps = [], fs_mmaps = [True],
     fs_libc = \<lparr>libc_mallocs = [\<lambda>_. 0x100000, \<lambda>_. 0x200000], libc_reallocs = [], libc_callocs = [], libc_frees = []\<rparr>,
     fs_bfd = \<lparr>bfd_openr = (\<lambda>_. 0), bfd_symtab_bound = (\<lambda>_. 0), bfd_dynamic_bound = (\<lambda>_. 0),
       bfd_canon_symtab = (\<lambda>_. 0), bfd_canon_dynamic = (\<lambda>_. 0), bfd_sections = (\<lambda>_. []),
       bfd_nearest_line = (\<lambda>_ _ _ _. None), bfd_inliner = (\<lambda>_ _ _. None), bfd_demangle = (\<lambda>_ _. None)\<rparr>\<rparr>"

definition boot_mc :: mc where
  "boot_mc = \<lparr>initialized = False, blk = boot_blk, amp = (\<lambda>_. \<lparr>mp_ptr = 0, mp_hash_next = 0\<rparr>),
     am = (\<lambda>_. \<lparr>am_memblk = \<lparr>mb_buf = 0, mb_bufsize = 0, mb_usrsize = 0\<rparr>, am_allocator = 0, am_group_prev = 0, am_group_next = 0\<rparr>),
     fmp = (\<lambda>_. \<lparr>mp_ptr = 0, mp_hash_next = 0\<rparr>),
     fm = (\<lambda>_. \<lparr>fm_memblk = \<lparr>mb_buf = 0, mb_bufsize = 0, mb_usrsize = 0\<rparr>, fm_allocator = 0, fm_freer = 0\<rparr>),
     csh = (\<lambda>_. \<lparr>cs_depth = 0, cs_trace = [], cs_hash_next = 0, cs_group_next = [0, 0], cs_total_size = 0, cs_usage = 0\<rparr>),
     ptr_tbls = (\<lambda>_ _. 0), free_tbl = (\<lambda>_. 0), cs_tbl = (\<lambda>_. 0),
     num_alloc_memblk = 0, num_alloc_cnt = 0, num_free_cnt = 0, allocated_size = 0, histogram = replicate HISTO_BINS 0,
     free_fifo_idx = 0, free_memblk_array = replicate FREE_FIFO_SIZE 0, mem = (\<lambda>_. 0), log = [], do_not_hook = 0,
     fmaps = boot_fmaps, backtraces = (\<lambda>_. [0x400000, 0x400100, 0x400200]), num_backtraces = 0, sort_mmaps = [],
     qsort = (\<lambda>cmp xs. xs)\<rparr>"

lemma boot_blk_heads_ok: "heads_ok boot_blk"
proof -
  have "inj boot_head"
  proof (rule injI)
    fix j k assume "boot_head j = boot_head k"
    then show "j = k" by (cases j; cases k) simp_all
  qed
  moreover have "page_aligned (boot_head k) \<and> boot_head k \<noteq> NULL" for k
    by (cases k) (simp_all add: page_aligned_def PAGE_SIZE_def)
  moreover have "mmaps_ok [0x10000, 0x20000, 0x30000, 0x40000, 0x50000, 0x60000] (range boot_head)"
  proof -
    have "boot_head k \<in> {0x1000, 0x2000, 0x3000, 0x4000}" for k by (cases k) simp_all
    then have "range boot_head \<subseteq> {0x1000, 0x2000, 0x3000, 0x4000}" by blast
    moreover have "mmaps_ok [0x10000, 0x20000, 0x30000, 0x40000, 0x50000, 0x60000] {0x1000, 0x2000, 0x3000, 0x4000}"
      by (simp add: MAP_FAILED_def page_aligned_def PAGE_SIZE_def MMAP_BATCH_PAGE_NUM_def pages_def upt_rec)
    ultimately show ?thesis by (blast intro: mmaps_ok_mono)
  qed
  ultimately show ?thesis by (simp add: heads_ok_def boot_blk_def)
qed

lemma boot_mc_start: "zero_statics boot_mc" "heads_ok (blk boot_mc)"
  using boot_blk_heads_ok by (simp_all add: zero_statics_def boot_mc_def)

end
