(* ===== verification/MC_Supply.thy ===== *)
theory MC_Supply
  imports MC_Boot
begin

text \<open>
  While the kernel grants mappings the library does not run out of memory: an allocation takes at
  most one mapping, so with two left a registration succeeds, and so does a release. These are the
  progress statements of \<open>memchk_allocator.c\<close> and \<open>memchk_manage_memblk.c\<close>.
\<close>

section \<open>Mappings used by an allocation\<close>

definition granted :: "nat \<Rightarrow> addr list \<Rightarrow> bool" where
  "granted n ms \<longleftrightarrow> n \<le> length ms \<and> MAP_FAILED \<notin> set (take n ms)"

lemma granted_step: "granted (Suc n) ms \<Longrightarrow> ms' = ms \<or> ms' = tl ms \<Longrightarrow> granted n ms'"
  by (cases ms) (auto simp: granted_def dest: set_take_subset_set_take [THEN subsetD, of n "Suc n", rotated])

lemma granted_mono: "granted n ms \<Longrightarrow> k \<le> n \<Longrightarrow> granted k ms"
  by (auto simp: granted_def dest: set_take_subset_set_take [THEN subsetD, rotated])

lemma granted_hd: "granted (Suc n) ms \<Longrightarrow> hd (ms @ [MAP_FAILED]) \<noteq> MAP_FAILED"
  by (cases ms) (auto simp: granted_def)

lemma init_header_mmaps: "init_header a b p st = Some st' \<Longrightarrow> mmaps st' = mmaps st"
  by (auto simp: init_header_def Let_def split: Option.bind_splits option.splits if_splits)

lemma init_batch_mmaps: "init_batch n a p bsz st = Some st' \<Longrightarrow> mmaps st' = mmaps st"
  by (induction n a p bsz st rule: init_batch.induct) (auto split: Option.bind_splits dest: init_header_mmaps)

lemma find_pool_mmaps: "find_pool a bsz st = Some (h, st') \<Longrightarrow> mmaps st' = mmaps st \<or> mmaps st' = tl (mmaps st)"
  by (auto simp: find_pool_def mmap_pages_def Let_def dest!: init_batch_mmaps
      split: Option.bind_splits if_splits list.splits prod.splits)

lemma mc_allocator_alloc_mmaps:
  assumes "mc_allocator_alloc tp bsz st = Some (p, st')"
  shows "mmaps st' = mmaps st \<or> mmaps st' = tl (mmaps st)"
  using assms find_pool_mmaps
  by (fastforce simp: mc_allocator_alloc_def Let_def split: Option.bind_splits if_splits prod.splits)

lemma allocate_kind_granted:
  assumes "blk_ok bs" "granted (Suc n) (mmaps (bs_alloc bs))" "allocate_kind k bs = Some (p, bs')"
  shows "p \<noteq> NULL" "granted n (mmaps (bs_alloc bs'))"
proof -
  show "p \<noteq> NULL" by (rule allocate_kind_succeeds [OF assms(1,3) granted_hd [OF assms(2)]])
  from assms(3) have "mmaps (bs_alloc bs') = mmaps (bs_alloc bs) \<or> mmaps (bs_alloc bs') = tl (mmaps (bs_alloc bs))"
    by (auto simp: allocate_kind_def dest: mc_allocator_alloc_mmaps split: Option.bind_splits)
  then show "granted n (mmaps (bs_alloc bs'))" by (rule granted_step [OF assms(2)])
qed

section \<open>The operations\<close>

definition supplied :: "nat \<Rightarrow> mc \<Rightarrow> bool" where
  "supplied n st \<longleftrightarrow> granted n (mmaps (bs_alloc (blk st)))"

lemma supplied_blk: "blk st' = blk st \<Longrightarrow> supplied n st' = supplied n st"
  by (simp add: supplied_def)

lemma supplied_release [simp]: "supplied n (do_release k p st) = supplied n st"
  by (simp add: supplied_def do_release_def free_kind_def mc_allocator_free_def upd_header_def Let_def)

lemma do_allocate_supplied:
  assumes "blk_ok (blk st)" "supplied (Suc n) st" "do_allocate k st = Some (p, st')"
  shows "p \<noteq> NULL" "supplied n st'"
  using assms allocate_kind_granted [OF assms(1), of n k p]
  by (auto simp: do_allocate_def supplied_def split: Option.bind_splits)

lemma mc_get_callstack_supplied:
  assumes ok: "tables_ok N X F Y C st" and s: "supplied (Suc n) st" and run: "mc_get_callstack st = Some (c, st')"
  shows "c \<noteq> NULL" "supplied n st'"
proof -
  have blk: "blk_ok (blk st)" using ok by (rule tables_okD)
  have "c \<noteq> NULL \<and> supplied n st'"
  proof (cases "find_cs (current_callstack st) st = Some NULL")
    case True
    from blk.alloc_returns [OF blk, of Callstack] obtain q b where q: "allocate_kind Callstack (blk st) = Some (q, b)"
      by blast
    have "q \<noteq> NULL" "granted n (mmaps (bs_alloc b))"
      using allocate_kind_granted [OF blk _ q, of n] s by (simp_all add: supplied_def)
    then show ?thesis
      using mc_get_callstack_unknown [OF True q refl] run by (auto simp: supplied_def with_callstacks_def)
  next
    case False
    have "\<exists>p. find_cs (current_callstack st) st = Some p"
      using cs_table_find [OF tables_okD(4) [OF ok], of "current_callstack st"] by (auto simp: find_cs_def)
    then obtain p where p: "find_cs (current_callstack st) st = Some p" "p \<noteq> NULL" using False by auto
    then show ?thesis
      using mc_get_callstack_known [OF p] run granted_mono [of "Suc n" _ n] s
      by (auto simp: supplied_def with_callstacks_def)
  qed
  then show "c \<noteq> NULL" "supplied n st'" by auto
qed

text \<open>With two mappings left a registration succeeds and records the call stack.\<close>

lemma mc_register_memblk_supplied:
  assumes inv: "mc_ok st" and s: "supplied (Suc (Suc n)) st"
  shows "\<exists>st'. mc_register_memblk buf usrptr bufsize usrsize st = Some (0, st') \<and> supplied n st'"
proof -
  from inv obtain N F C where I: "mc_inv N F C st" by (auto simp: mc_ok_def)
  note T = mc_invD(1) [OF I]
  from do_allocate_alloc_ok [OF T] obtain b bs where
    a: "do_allocate AllocMemblk st = Some (b, st\<lparr>blk := bs\<rparr>)"
      "tables_ok N (if b = 0 then {} else {b}) F {} C (st\<lparr>blk := bs\<rparr>)" by auto
  note S = do_allocate_supplied [OF tables_okD(1) [OF T] s a(1)]
  let ?st2 = "init_alloc_memblk b buf usrptr bufsize usrsize (st\<lparr>blk := bs\<rparr>)"
  have ok2: "tables_ok N {b} F {} C ?st2"
    using tables_ok_loose_amp [of N "{b}" F "{}" C "upd_am b (\<lambda>x. x\<lparr>am_memblk := m\<rparr>) (st\<lparr>blk := bs\<rparr>)" b for m] a(2) S(1)
    by (simp add: init_alloc_memblk_def Let_def)
  have s2: "supplied (Suc n) ?st2"
    using S(2) by (simp add: supplied_def init_alloc_memblk_def upd_am_def Let_def)
  from mc_get_callstack_ok [OF ok2] obtain c st3 where g: "mc_get_callstack ?st2 = Some (c, st3)" by blast
  have "supplied n st3" by (rule mc_get_callstack_supplied(2) [OF ok2 s2 g])
  then have "supplied n (count_alloc usrsize (add_ptr Live (memptr_of b)
      (mc_set_allocated_buffer b True (upd_am b (\<lambda>x. x\<lparr>am_allocator := c\<rparr>) st3))))"
    by (simp add: supplied_def count_alloc_def add_ptr_def set_ptr_table_def mc_set_allocated_buffer_def upd_am_def Let_def)
  then show ?thesis using mc_register_memblk_success [OF a(1) S(1) g] by blast
qed

text \<open>A release that returns has then put the block into the quarantine.\<close>

lemma mc_unregister_memblk_supplied:
  assumes inv: "mc_ok st" and s: "supplied (Suc n) st" and live: "live_view st p \<noteq> None"
    and run: "mc_unregister_memblk p st = Some ((rc, out), st')"
  shows "rc = 0"
proof -
  from inv obtain N F C where I: "mc_inv N F C st" by (auto simp: mc_ok_def)
  note T = mc_invD(1) [OF I]
  obtain k s1 where rem: "remove_ptr Live p st = Some (k, s1)" "k \<noteq> NULL"
  proof (cases rule: remove_ptr_ok [OF T, of Live p])
    case 1
    then have "live_view st p = None" by (intro live_view_absent [OF T]) auto
    then show ?thesis using live by simp
  next
    case (2 b h t)
    then show ?thesis using that by blast
  qed
  have b1: "blk s1 = blk st" using rem(1) by (auto simp: remove_ptr_def set_ptr_table_def split: Option.bind_splits)
  from run rem obtain rc1 s2 where
    chk: "mc_check_allocated_buffer (get_alloc_memblk_from_memptr k) True s1 = Some (rc1, s2)"
    and qm: "quarantine_memblk (get_alloc_memblk_from_memptr k)
      (mb_usrsize (am_memblk (am s1 (get_alloc_memblk_from_memptr k)))) s2 = Some ((rc, out), st')"
    by (auto simp: mc_unregister_memblk_def Let_def split: Option.bind_splits)
  have b2: "blk s2 = blk st" using quiet_simps(1) [OF mc_check_allocated_buffer_quiet [OF chk]] b1 by simp
  from qm obtain f s3 where al: "do_allocate FreeMemblk s2 = Some (f, s3)"
    by (auto simp: quarantine_memblk_def split: Option.bind_splits)
  have "f \<noteq> NULL"
    using do_allocate_supplied(1) [OF _ _ al, of n] s tables_okD(1) [OF T] b2 by (simp add: supplied_def)
  then show ?thesis using qm al by (auto simp: quarantine_memblk_def Let_def split: Option.bind_splits prod.splits if_splits)
qed

end
