(* ===== verification/MC_Duplicate.thy ===== *)
theory MC_Duplicate
  imports MC_Walk MC_Supply
begin

text \<open>
  Copying a table of blocks and destroying one, under the invariant: a copy has the view of the
  original, whatever else the tables hold; a failed copy is a part of it; a destroyed table is
  empty and all its blocks are back in the pool.
\<close>

section \<open>What the operations leave alone\<close>

definition only_blocks :: "mc \<Rightarrow> mc \<Rightarrow> bool" where
  "only_blocks st st' \<longleftrightarrow> (\<exists>b h a t. st' = st\<lparr>blk := b, amp := h, am := a, ptr_tbls := t\<rparr>)"

lemma only_blocksI: "st' = st\<lparr>blk := b, amp := h, am := a, ptr_tbls := t\<rparr> \<Longrightarrow> only_blocks st st'"
  by (auto simp: only_blocks_def)

lemma only_blocks_refl [simp]: "only_blocks st st"
  by (rule only_blocksI [where b = "blk st" and h = "amp st" and a = "am st" and t = "ptr_tbls st"]) simp

lemma only_blocks_blk [simp]: "only_blocks st (st\<lparr>blk := b\<rparr>)"
  by (rule only_blocksI [where b = b and h = "amp st" and a = "am st" and t = "ptr_tbls st"]) simp

lemma only_blocks_trans:
  assumes "only_blocks st s" "only_blocks s st'"
  shows "only_blocks st st'"
proof -
  from assms obtain b h a t b' h' a' t' where
    "s = st\<lparr>blk := b, amp := h, am := a, ptr_tbls := t\<rparr>" "st' = s\<lparr>blk := b', amp := h', am := a', ptr_tbls := t'\<rparr>"
    by (auto simp: only_blocks_def)
  then show ?thesis by (intro only_blocksI [where b = b' and h = h' and a = a' and t = t']) simp
qed

lemma only_blocks_simps:
  assumes "only_blocks st st'"
  shows "fmp st' = fmp st" "fm st' = fm st" "csh st' = csh st" "free_tbl st' = free_tbl st" "cs_tbl st' = cs_tbl st"
    "mem st' = mem st" "log st' = log st" "do_not_hook st' = do_not_hook st" "initialized st' = initialized st"
    "fmaps st' = fmaps st" "free_memblk_array st' = free_memblk_array st" "free_fifo_idx st' = free_fifo_idx st"
    "fusr_of st' = fusr_of st" "outside st' = outside st" "quarantine st' = quarantine st" "fifo_ok st' = fifo_ok st"
    "quarantine_view st' = quarantine_view st" "counters st' = counters st"
    "backtraces st' = backtraces st" "num_backtraces st' = num_backtraces st" "sort_mmaps st' = sort_mmaps st" "qsort st' = qsort st"
  using assms by (auto simp: only_blocks_def fusr_of_def outside_def quarantine_def fifo_ok_def quarantine_view_def
      counters_def fun_eq_iff)

lemma only_blocks_add [simp]: "only_blocks st (add_ptr i m st)"
  by (rule only_blocksI [where b = "blk st" and a = "am st" and h = "amp (add_ptr i m st)" and t = "ptr_tbls (add_ptr i m st)"])
    (simp add: add_ptr_def set_ptr_table_def)

lemma only_blocks_copy [simp]: "only_blocks st (copy_alloc_memblk a b st)"
  by (rule only_blocksI [where b = "blk st" and a = "am (copy_alloc_memblk a b st)" and
        h = "amp (copy_alloc_memblk a b st)" and t = "ptr_tbls st"]) (simp add: copy_alloc_memblk_def)

section \<open>One block\<close>

text \<open>A new block \<open>a\<close> of the table \<open>dest\<close> that says what \<open>b\<close> says.\<close>

definition copied :: "table_id \<Rightarrow> addr \<Rightarrow> addr \<Rightarrow> mc \<Rightarrow> mc \<Rightarrow> bool" where
  "copied dest a b st st' \<longleftrightarrow>
     usr_of st' a = usr_of st b \<and> entry_of st' a = entry_of st b \<and>
     (\<forall>x. x \<noteq> a \<longrightarrow> amp st' (memptr_of x) = amp st (memptr_of x) \<and> am st' x = am st x) \<and>
     (\<forall>j. j \<noteq> dest \<longrightarrow> ptr_tbls st' j = ptr_tbls st j) \<and> only_blocks st st'"

lemma duplicate_body_ok:
  assumes ok: "tables_ok N {} F {} C st" and b: "b \<in> N src"
  obtains (failed) bs where "duplicate_body dest (memptr_of b) st = Some (Ret (- 1) (st\<lparr>blk := bs\<rparr>))"
      "tables_ok N {} F {} C (st\<lparr>blk := bs\<rparr>)" "\<not> supplied 1 st"
  | (done_) a st' where "duplicate_body dest (memptr_of b) st = Some (Next st')" "a \<notin> (\<Union>i. N i)"
      "tables_ok (N(dest := insert a (N dest))) {} F {} C st'" "copied dest a b st st'"
      "\<And>k. supplied (Suc k) st \<Longrightarrow> supplied k st'"
proof -
  from do_allocate_alloc_ok [OF ok] obtain a bs where
    al: "do_allocate AllocMemblk st = Some (a, st\<lparr>blk := bs\<rparr>)"
      "tables_ok N (if a = 0 then {} else {a}) F {} C (st\<lparr>blk := bs\<rparr>)" "a \<noteq> 0 \<longrightarrow> a \<notin> (\<Union>i. N i)"
    by auto
  note S = do_allocate_supplied [OF tables_okD(1) [OF ok] _ al(1)]
  show ?thesis
  proof (cases "a = 0")
    case True
    then have "\<not> supplied 1 st" using S(1) [of 0] by auto
    then show ?thesis using failed al True by (simp add: duplicate_body_def)
  next
    case False
    let ?s = "copy_alloc_memblk a b (st\<lparr>blk := bs\<rparr>)"
    have ab: "a \<noteq> b" "a \<notin> (\<Union>i. N i)" using al(3) False b by auto
    have ok2: "tables_ok N {a} F {} C ?s"
      using tables_ok_loose_amp [of N "{a}" F "{}" C "st\<lparr>blk := bs, am := am ?s\<rparr>" a] al(2) False
      by (simp add: copy_alloc_memblk_def)
    note A = add_ptr_ok [OF ok2, of a dest]
    let ?st' = "add_ptr dest (memptr_of a) ?s"
    have am': "am ?st' = am ?s" "blk ?st' = bs" by (simp_all add: add_ptr_def set_ptr_table_def copy_alloc_memblk_def)
    have "amp ?st' (memptr_of x) = amp st (memptr_of x)" if "x \<noteq> a" for x
      using that by (simp add: add_ptr_def set_ptr_table_def mc_add_ptr_frame ptr_table_def copy_alloc_memblk_def)
    moreover have "am ?st' x = am st x" if "x \<noteq> a" for x using that am' by (simp add: copy_alloc_memblk_def)
    moreover have "ptr_tbls ?st' j = ptr_tbls st j" if "j \<noteq> dest" for j
      using that by (simp add: add_ptr_def set_ptr_table_def copy_alloc_memblk_def)
    moreover have "usr_of ?st' a = usr_of st b"
      using fun_cong [OF A(2), of a] by (simp add: usr_of_def copy_alloc_memblk_def)
    moreover have "entry_of ?st' a = entry_of st b"
      unfolding entry_of_def am' by (simp add: copy_alloc_memblk_def)
    moreover have "only_blocks st ?st'"
      using only_blocks_trans [OF only_blocks_blk only_blocks_trans [OF only_blocks_copy only_blocks_add]] .
    ultimately have "copied dest a b st ?st'" by (simp add: copied_def)
    moreover have "duplicate_body dest (memptr_of b) st = Some (Next ?st')"
      using al(1) False by (simp add: duplicate_body_def)
    moreover have "supplied k ?st'" if "supplied (Suc k) st" for k
      using S(2) [OF that] am'(2) by (simp add: supplied_def)
    ultimately show ?thesis using done_ [of ?st' a] A(1) ab(2) by simp
  qed
qed

section \<open>The fold\<close>

text \<open>
  The outcome of copying the blocks \<open>bs\<close>: the blocks \<open>B\<close> among them have copies, the images of
  \<open>f\<close>, and \<open>B\<close> is all of them unless the allocator had no memory.
\<close>

definition duplicated ::
  "table_id \<Rightarrow> (table_id \<Rightarrow> addr set) \<Rightarrow> addr set \<Rightarrow> addr set \<Rightarrow> addr list \<Rightarrow> mc \<Rightarrow> (int, mc) flow \<Rightarrow> bool" where
  "duplicated dest N F C bs st fl \<longleftrightarrow>
     (\<exists>f B. B \<subseteq> set bs \<and> inj_on f B \<and> f ` B \<inter> (\<Union>i. N i) = {} \<and>
        (case fl of Next st' \<Rightarrow> B = set bs | Ret rc st' \<Rightarrow> rc = - 1 \<and> \<not> supplied (length bs) st) \<and>
        (let st' = flow_state fl in
           tables_ok (N(dest := N dest \<union> f ` B)) {} F {} C st' \<and> only_blocks st st' \<and>
           (\<forall>b\<in>B. usr_of st' (f b) = usr_of st b \<and> entry_of st' (f b) = entry_of st b) \<and>
           (\<forall>x. x \<notin> f ` B \<longrightarrow> amp st' (memptr_of x) = amp st (memptr_of x) \<and> am st' x = am st x) \<and>
           (\<forall>j. j \<noteq> dest \<longrightarrow> ptr_tbls st' j = ptr_tbls st j) \<and>
           (\<forall>k. supplied (k + length bs) st \<longrightarrow> supplied k st')))"

lemma duplicate_fold:
  assumes "tables_ok N {} F {} C st" "set bs \<subseteq> N src" "src \<noteq> dest" "distinct bs"
  shows "\<exists>fl. fold_flow (duplicate_body dest) (map memptr_of bs) st = Some fl \<and> duplicated dest N F C bs st fl"
  using assms
proof (induction bs arbitrary: N st)
  case Nil
  then have "duplicated dest N F C [] st (Next st)" by (simp add: duplicated_def)
  then show ?case by simp
next
  case (Cons b bs)
  then have b: "b \<in> N src" by simp
  show ?case
  proof (cases rule: duplicate_body_ok [OF Cons.prems(1), of b src dest])
    case 1
    show ?case by (rule b)
  next
    case (2 bst)
    have "\<not> supplied (length (b # bs)) st" using 2(3) granted_mono [of "length (b # bs)"] by (auto simp: supplied_def)
    moreover have "supplied k (st\<lparr>blk := bst\<rparr>)" if "supplied (k + length (b # bs)) st" for k
      using that calculation granted_mono by (auto simp: supplied_def)
    ultimately have "duplicated dest N F C (b # bs) st (Ret (- 1) (st\<lparr>blk := bst\<rparr>))"
      unfolding duplicated_def using 2(2)
      by (intro exI [of _ "\<lambda>b. b"] exI [of _ "{}"]) (auto simp: Let_def)
    then show ?thesis using 2(1) by simp
  next
    case (3 a s)
    let ?N = "N(dest := insert a (N dest))"
    have "set bs \<subseteq> ?N src" using Cons.prems by simp
    from Cons.IH [OF 3(3) this Cons.prems(3)] Cons.prems(4) obtain fl where
      fl: "fold_flow (duplicate_body dest) (map memptr_of bs) s = Some fl" "duplicated dest ?N F C bs s fl" by (auto simp del: fun_upd_apply)
    let ?st' = "flow_state fl"
    from fl(2) obtain f B where
      f: "B \<subseteq> set bs" "inj_on f B" "f ` B \<inter> (\<Union>i. ?N i) = {}"
        "case fl of Next st' \<Rightarrow> B = set bs | Ret rc st' \<Rightarrow> rc = - 1 \<and> \<not> supplied (length bs) s"
        "tables_ok (?N(dest := ?N dest \<union> f ` B)) {} F {} C ?st'" "only_blocks s ?st'"
        "\<forall>b\<in>B. usr_of ?st' (f b) = usr_of s b \<and> entry_of ?st' (f b) = entry_of s b"
        "\<forall>x. x \<notin> f ` B \<longrightarrow> amp ?st' (memptr_of x) = amp s (memptr_of x) \<and> am ?st' x = am s x"
        "\<forall>j. j \<noteq> dest \<longrightarrow> ptr_tbls ?st' j = ptr_tbls s j" "\<forall>k. supplied (k + length bs) s \<longrightarrow> supplied k ?st'"
      by (auto simp: duplicated_def Let_def)
    note c = 3(4) [unfolded copied_def]
    let ?f = "f(b := a)" and ?B = "insert b B"
    have bB: "b \<notin> B" using f(1) Cons.prems(4) by auto
    have U: "(\<Union>i. ?N i) = insert a (\<Union>i. N i)" by (auto split: if_splits)
    have im: "?f ` ?B = insert a (f ` B)" using bB by (auto simp: image_iff)
    have aB: "a \<notin> f ` B" using f(3) U by blast
    have old: "usr_of s x = usr_of st x \<and> entry_of s x = entry_of st x" if "x \<in> N src" for x
    proof -
      have "x \<noteq> a" using that 3(2) by auto
      then show ?thesis using c by (simp add: usr_of_def entry_of_def)
    qed
    have "duplicated dest N F C (b # bs) st fl"
      unfolding duplicated_def Let_def
    proof (intro exI [of _ ?f] exI [of _ ?B] conjI)
      show "?B \<subseteq> set (b # bs)" using f(1) by auto
      show "inj_on ?f ?B" using f(2) aB bB by (auto simp: inj_on_def)
      show "?f ` ?B \<inter> (\<Union>i. N i) = {}" unfolding im using f(3) 3(2) U by auto
      show "case fl of Next st' \<Rightarrow> ?B = set (b # bs) | Ret rc st' \<Rightarrow> rc = - 1 \<and> \<not> supplied (length (b # bs)) st"
        using f(4) 3(5) [of "length bs"] by (auto split: flow.splits)
      show "tables_ok (N(dest := N dest \<union> ?f ` ?B)) {} F {} C ?st'"
        using f(5) unfolding im by simp
      show "only_blocks st ?st'" using c f(6) only_blocks_trans by blast
      show "\<forall>x\<in>?B. usr_of ?st' (?f x) = usr_of st x \<and> entry_of ?st' (?f x) = entry_of st x"
      proof
        fix x assume x: "x \<in> ?B"
        show "usr_of ?st' (?f x) = usr_of st x \<and> entry_of ?st' (?f x) = entry_of st x"
        proof (cases "x = b")
          case True
          have "usr_of ?st' a = usr_of s a \<and> entry_of ?st' a = entry_of s a"
            using f(8) aB by (simp add: usr_of_def entry_of_def)
          then show ?thesis using True c by simp
        next
          case False
          then have "x \<in> B" "x \<in> N src" using x f(1) Cons.prems(2) by auto
          then show ?thesis using f(7) old False by simp
        qed
      qed
      show "\<forall>x. x \<notin> ?f ` ?B \<longrightarrow> amp ?st' (memptr_of x) = amp st (memptr_of x) \<and> am ?st' x = am st x"
        unfolding im using f(8) c by simp
      show "\<forall>j. j \<noteq> dest \<longrightarrow> ptr_tbls ?st' j = ptr_tbls st j" using f(9) c by simp
      show "\<forall>k. supplied (k + length (b # bs)) st \<longrightarrow> supplied k ?st'" using f(10) 3(5) by simp
    qed
    then show ?thesis using 3(1) fl(1) by simp
  qed
qed

section \<open>Copying a table\<close>

lemma spec_of_only_blocks:
  assumes "only_blocks st st'" "table_view Live st' = table_view Live st"
  shows "spec_of st' = spec_of st"
  using only_blocks_simps(17) [OF assms(1)] assms(2) by (simp add: spec_of_def live_view_table fun_eq_iff)

text \<open>The invariant after a change to the blocks of one working table.\<close>

lemma mc_inv_only_blocks:
  assumes inv: "mc_inv N F C st" and ob: "only_blocks st st'" and i: "i \<noteq> Live"
    and ok: "tables_ok (N(i := D)) {} F {} C st'"
    and old: "\<And>x j. j \<noteq> i \<Longrightarrow> x \<in> N j \<Longrightarrow> usr_of st' x = usr_of st x \<and> am_allocator (am st' x) = am_allocator (am st x)"
    and new: "inj_on (usr_of st') D" "\<forall>x\<in>D. am_allocator (am st' x) \<in> insert NULL C"
  shows "mc_inv (N(i := D)) F C st'"
proof -
  note I = mc_invD [OF inv] and B = only_blocks_simps [OF ob]
  have "inj_on (usr_of st') ((N(i := D)) j)" for j
  proof (cases "j = i")
    case True
    then show ?thesis using new(1) by simp
  next
    case False
    have "inj_on (usr_of st) (N j)" using I(2) by (simp add: keys_ok_def)
    moreover have "\<And>x. x \<in> N j \<Longrightarrow> usr_of st' x = usr_of st x" using old [OF False] by blast
    ultimately show ?thesis using False inj_on_cong [of "N j" "usr_of st'" "usr_of st"] by simp
  qed
  moreover have "usr_of st' ` N Live = usr_of st ` N Live" using old [of Live] i by (intro image_cong) auto
  ultimately have "keys_ok (N(i := D)) F st'" using I(2) B(13) i by (simp add: keys_ok_def)
  moreover have "queue_ok F st'" using I(3) B(15,16) by (simp add: queue_ok_def)
  moreover have "owners_ok (N(i := D)) F C st'"
    using I(4) B(2) old new(2) by (auto simp: owners_ok_def)
  ultimately show ?thesis using ok by (simp add: mc_inv_def)
qed

lemma mc_duplicate_ok:
  assumes inv: "mc_inv N F C st" and dest: "N dest = {}" "src \<noteq> dest" "dest \<noteq> Live"
  obtains rc st' D where "mc_duplicate_all_alloc_memblk dest src st = Some (rc, st')" "rc = 0 \<or> rc = - 1"
    "mc_inv (N(dest := D)) F C st'" "only_blocks st st'"
    "\<And>j. j \<noteq> dest \<Longrightarrow> table_view j st' = table_view j st"
    "rc = 0 \<Longrightarrow> table_view dest st' = table_view src st" "table_view dest st' \<subseteq>\<^sub>m table_view src st"
    "rc = 0 \<Longrightarrow> card D = card (N src)"
    "\<And>k. supplied (k + card (N src)) st \<Longrightarrow> rc = 0 \<and> supplied k st'"
proof -
  note I = mc_invD [OF inv]
  have inj: "inj_on (usr_of st) (N j)" for j using I(2) by (simp add: keys_ok_def)
  obtain ns where ns: "listed src st ns" "distinct ns" "set ns = memptr_of ` N src"
    using listed_exists [OF tables_okD(2) [OF I(1), of src]] by metis
  define bs where "bs = map get_alloc_memblk_from_memptr ns"
  have nsb: "ns = map memptr_of bs" by (simp add: bs_def comp_def)
  have bs: "set bs = N src" "distinct bs"
    using ns(2,3) unfolding nsb by (auto simp: distinct_map inj_image_eq_iff inj_memptr_of)
  from duplicate_fold [OF I(1) _ dest(2) bs(2)] bs(1) obtain fl where
    fl: "fold_flow (duplicate_body dest) ns st = Some fl" "duplicated dest N F C bs st fl" by (auto simp: nsb)
  have "each_alloc_memblk src (duplicate_body dest) st = fold_flow (duplicate_body dest) ns st"
    unfolding each_alloc_memblk_def
  proof (rule for_each_fold [where p = "\<lambda>s. s" and I = "\<lambda>s. \<exists>N'. N' src = N src \<and> tables_ok N' {} F {} C s", OF ns(1)])
    show "\<exists>N'. N' src = N src \<and> tables_ok N' {} F {} C st" using I(1) by blast
  next
    fix n s s' assume n: "n \<in> set ns" and "\<exists>N'. N' src = N src \<and> tables_ok N' {} F {} C s"
      and run: "duplicate_body dest n s = Some (Next s')"
    then obtain N' b where N': "N' src = N src" "tables_ok N' {} F {} C s" and b: "n = memptr_of b" "b \<in> N' src"
      using ns(3) by auto
    show "(\<exists>N'. N' src = N src \<and> tables_ok N' {} F {} C s') \<and>
        (\<forall>m\<in>set ns. mp_hash_next (amp s' m) = mp_hash_next (amp s m)) \<and> ptr_tbls s' src = ptr_tbls s src"
    proof (cases rule: duplicate_body_ok [OF N'(2) b(2), of dest])
      case 1
      then show ?thesis using run b(1) by simp
    next
      case (2 a t)
      then have t: "t = s'" using run b(1) by simp
      have "amp s' m = amp s m" if "m \<in> set ns" for m
      proof -
        from that ns(3) obtain x where x: "m = memptr_of x" "x \<in> N' src" using N'(1) by auto
        then have "x \<noteq> a" using 2(2) by auto
        then show ?thesis using 2(4) x(1) t by (simp add: copied_def)
      qed
      then show ?thesis using 2(3,4) t N'(1) dest(2)
        by (auto simp: copied_def intro!: exI [of _ "N'(dest := insert a (N' dest))"])
    qed
  qed
  then have run: "mc_duplicate_all_alloc_memblk dest src st =
      Some (case fl of Ret rc s \<Rightarrow> (rc, s) | Next s \<Rightarrow> (0, s))"
    using fl(1) by (simp add: mc_duplicate_all_alloc_memblk_def)
  let ?s = "flow_state fl"
  from fl(2) obtain f B where
    f: "B \<subseteq> set bs" "inj_on f B" "f ` B \<inter> (\<Union>i. N i) = {}"
      "case fl of Next st' \<Rightarrow> B = set bs | Ret rc st' \<Rightarrow> rc = - 1 \<and> \<not> supplied (length bs) st"
      "tables_ok (N(dest := f ` B)) {} F {} C ?s" "only_blocks st ?s"
      "\<And>b. b \<in> B \<Longrightarrow> usr_of ?s (f b) = usr_of st b \<and> entry_of ?s (f b) = entry_of st b"
      "\<And>x. x \<notin> f ` B \<Longrightarrow> usr_of ?s x = usr_of st x \<and> am ?s x = am st x"
      "\<And>k. supplied (k + length bs) st \<Longrightarrow> supplied k ?s"
    using dest(1) by (auto simp: duplicated_def Let_def usr_of_def)
  define rc :: int where "rc = (case fl of Ret rc s \<Rightarrow> rc | Next s \<Rightarrow> 0)"
  have run': "mc_duplicate_all_alloc_memblk dest src st = Some (rc, ?s)"
    using run by (cases fl) (simp_all add: rc_def)
  have rc: "rc = 0 \<or> rc = - 1" "rc = 0 \<Longrightarrow> B = N src" "supplied (length bs) st \<Longrightarrow> rc = 0"
    using f(4) bs(1) by (auto simp: rc_def split: flow.splits)
  have old: "usr_of ?s x = usr_of st x \<and> am ?s x = am st x" if "x \<in> N j" for x j
    using f(8) [of x] f(3) that by blast
  have Bsrc: "B \<subseteq> N src" using f(1) bs(1) by simp
  have keys: "inj_on (usr_of ?s) (f ` B)"
  proof (rule inj_onI)
    fix x y assume "x \<in> f ` B" "y \<in> f ` B" "usr_of ?s x = usr_of ?s y"
    then obtain b c where bc: "b \<in> B" "c \<in> B" "x = f b" "y = f c" "usr_of st b = usr_of st c" using f(7) by auto
    then show "x = y" using inj_onD [OF inj, of b c src] Bsrc by auto
  qed
  have inv': "mc_inv (N(dest := f ` B)) F C ?s"
  proof (rule mc_inv_only_blocks [OF inv f(6) dest(3) f(5)])
    show "\<forall>x\<in>f ` B. am_allocator (am ?s x) \<in> insert NULL C"
    proof
      fix x assume "x \<in> f ` B"
      then obtain b where b: "b \<in> B" "x = f b" by blast
      then have "am_allocator (am ?s x) = am_allocator (am st b)" using f(7) by (simp add: entry_of_def)
      then show "am_allocator (am ?s x) \<in> insert NULL C" using I(4) b(1) Bsrc by (auto simp: owners_ok_def)
    qed
  qed (use old keys in auto)
  have others: "table_view j ?s = table_view j st" if "j \<noteq> dest" for j
    by (rule table_view_same [OF I(1) inj f(5)]) (use that old in \<open>auto simp: entry_of_def\<close>)
  have view: "table_view dest ?s = table_view src st" if "rc = 0"
    by (rule table_view_eq [OF I(1) inj f(5), of dest f src])
      (use keys f(2,7) rc(2) [OF that] in \<open>auto simp: bij_betw_def\<close>)
  have part: "table_view dest ?s \<subseteq>\<^sub>m table_view src st"
    unfolding map_le_def
  proof
    fix p assume "p \<in> dom (table_view dest ?s)"
    then obtain v where v: "table_view dest ?s p = Some v" by blast
    have "p \<in> usr_of ?s ` f ` B"
      using dom_table_view [OF f(5), of dest] keys domI [of "table_view dest ?s", OF v] by simp
    then obtain b where b: "b \<in> B" "p = usr_of ?s (f b)" by blast
    have "table_view dest ?s p = Some (entry_of ?s (f b))"
      using table_view_at [OF f(5), of dest "f b"] keys b by simp
    then show "table_view dest ?s p = table_view src st p"
      using v b f(7) [OF b(1)] table_view_at [OF I(1) inj, of b src] Bsrc by auto
  qed
  have len: "length bs = card (N src)" using bs distinct_card by metis
  show ?thesis
  proof (rule that [OF run' rc(1) inv' f(6) others view part])
    show "rc = 0 \<Longrightarrow> card (f ` B) = card (N src)" using rc(2) f(2) by (simp add: card_image)
    show "supplied (k + card (N src)) st \<Longrightarrow> rc = 0 \<and> supplied k ?s" for k
      using f(9) [of k] rc(3) granted_mono [of "k + length bs" _ "length bs"] len by (simp add: supplied_def)
  qed
qed

section \<open>Destroying a table\<close>

lemma destroy_fold:
  assumes "NULL \<notin> set bs"
  shows "\<exists>p st'. fold_flow destroy_body (map memptr_of bs) (prev, st) = Some (Next (p, st')) \<and>
     free_alloc_memblk_if_not_null p st' = fold (do_release AllocMemblk) bs (free_alloc_memblk_if_not_null prev st)"
  using assms
proof (induction bs arbitrary: prev st)
  case Nil
  then show ?case by simp
next
  case (Cons b bs)
  let ?st = "free_alloc_memblk_if_not_null prev st"
  have "destroy_body (memptr_of b) (prev, st) = Some (Next (b, ?st))"
    by (simp add: destroy_body_def free_alloc_memblk_if_not_null_def)
  moreover have "free_alloc_memblk_if_not_null b ?st = do_release AllocMemblk b ?st"
    using Cons.prems by (simp add: free_alloc_memblk_if_not_null_def)
  ultimately show ?case using Cons.IH [of b ?st] Cons.prems by simp
qed

lemma fold_do_release: "fold (do_release k) bs st = st\<lparr>blk := fold (free_kind k) bs (blk st)\<rparr>"
  by (induction bs arbitrary: st) (simp_all add: do_release_def)

lemma mc_destroy_ok:
  assumes inv: "mc_inv N F C st" and i: "i \<noteq> Live"
  obtains st' where "mc_destroy_all_alloc_memblk i st = Some st'" "mc_inv (N(i := {})) F C st'" "only_blocks st st'"
    "\<And>j. j \<noteq> i \<Longrightarrow> table_view j st' = table_view j st" "table_view i st' = Map.empty" "am st' = am st" "amp st' = amp st"
    "\<And>k. supplied k st' = supplied k st"
proof -
  note I = mc_invD [OF inv]
  have inj: "inj_on (usr_of st) (N j)" for j using I(2) by (simp add: keys_ok_def)
  obtain ns where ns: "listed i st ns" "distinct ns" "set ns = memptr_of ` N i"
    using listed_exists [OF tables_okD(2) [OF I(1), of i]] by metis
  define bs where "bs = map get_alloc_memblk_from_memptr ns"
  have nsb: "ns = map memptr_of bs" by (simp add: bs_def comp_def)
  have bs: "set bs = N i" "distinct bs"
    using ns(2,3) unfolding nsb by (auto simp: distinct_map inj_image_eq_iff inj_memptr_of)
  have live: "set bs \<subseteq> blk_live AllocMemblk (blk st)" using bs(1) tables_okD(5) [OF I(1)] by auto
  then have nz: "NULL \<notin> set bs" using blk.live_nonnull [OF tables_okD(1) [OF I(1)]] by blast
  from destroy_fold [OF nz, of NULL st] obtain p s where
    f: "fold_flow destroy_body ns (NULL, st) = Some (Next (p, s))"
      "free_alloc_memblk_if_not_null p s = fold (do_release AllocMemblk) bs st"
    by (auto simp: nsb free_alloc_memblk_if_not_null_def)
  have "for_each_hashnode (\<lambda>s n. mp_hash_next (amp (snd s) n)) (\<lambda>s. ptr_tbls (snd s) i) ALLOC_MEMPTR_HASHTABLE_SIZE
      destroy_body (NULL, st) = fold_flow destroy_body ns (NULL, st)"
    by (rule for_each_fold [where p = snd and I = "\<lambda>_. True"])
      (use ns(1) in \<open>auto simp: destroy_body_def do_release_def split: prod.splits\<close>)
  then have w: "for_each_hashnode (\<lambda>(prev, st) n. mp_hash_next (amp st n)) (\<lambda>(prev, st). ptr_tbls st i)
      ALLOC_MEMPTR_HASHTABLE_SIZE destroy_body (NULL, st) = Some (Next (p, s))"
    using f(1) by (simp add: case_prod_unfold)
  let ?b = "fold (free_kind AllocMemblk) bs (blk st)" and ?t = "(ptr_tbls st)(i := (\<lambda>_. NULL))"
  let ?st' = "st\<lparr>blk := ?b, ptr_tbls := ?t\<rparr>"
  have run: "mc_destroy_all_alloc_memblk i st = Some ?st'"
    using f(2) w by (simp add: mc_destroy_all_alloc_memblk_def free_alloc_memblk_if_not_null_def fold_do_release Let_def)
  note R = blk.release_list [OF tables_okD(1) [OF I(1)] bs(2) live]
  have ob: "only_blocks st ?st'"
    by (rule only_blocksI [where b = ?b and h = "amp st" and a = "am st" and t = ?t]) simp
  note D = tables_okD [OF I(1)]
  have T: "ptr_table_ok ALLOC_MEMPTR_HASHTABLE_SIZE (ptr_table j ?st') (memptr_of ` (N(i := {})) j)" for j
  proof (cases "j = i")
    case True
    then show ?thesis using empty_tables(1) by (simp add: ptr_table_def)
  next
    case False
    then show ?thesis using D(2) [of j] by (simp add: ptr_table_def)
  qed
  have U: "(\<Union>j. (N(i := {})) j) = (\<Union>j. N j) - N i"
  proof -
    have "x \<notin> N i" if "x \<in> N j" "j \<noteq> i" for x j using D(6) [OF that(2)] that(1) by blast
    then show ?thesis by (fastforce split: if_splits)
  qed
  have V: "\<forall>j k. j \<noteq> k \<longrightarrow> (N(i := {})) j \<inter> (N(i := {})) k = {}" using D(6) by (auto split: if_splits)
  have ok: "tables_ok (N(i := {})) {} F {} C ?st'"
    using T U V R D(3,4,5,8-12) bs(1) unfolding tables_ok_def
    by (simp add: free_table_def cs_table_def)
  have usr: "usr_of ?st' = usr_of st" by (simp add: usr_of_def fun_eq_iff)
  have inv': "mc_inv (N(i := {})) F C ?st'" by (rule mc_inv_only_blocks [OF inv ob i ok]) (simp_all add: usr)
  have views: "table_view j ?st' = table_view j st" if "j \<noteq> i" for j
    by (rule table_view_same [OF I(1) inj ok]) (use that in \<open>simp_all add: usr entry_of_def\<close>)
  have empty: "table_view i ?st' = Map.empty" using table_view_empty [OF inv'] by simp
  have "mmaps (bs_alloc ?b) = mmaps (bs_alloc (blk st))"
    by (induction bs arbitrary: st rule: rev_induct)
      (simp_all add: free_kind_def mc_allocator_free_def upd_header_def Let_def)
  then have "supplied k ?st' = supplied k st" for k by (simp add: supplied_def)
  then show ?thesis using that [OF run inv' ob views empty] by simp
qed

end
