(* ===== verification/MC_Group.thy ===== *)
theory MC_Group
  imports MC_Duplicate
begin

text \<open>
  The groups of blocks of one call stack: doubly linked lists through the blocks, with a head in the
  call stack for each of the two uses. \<open>groups_ok C st G\<close> says that for every call stack \<open>c\<close> of \<open>C\<close>
  the list of the use \<open>l\<close> is \<open>G l c\<close>, and that no block is in two lists.
\<close>

section \<open>Doubly linked lists\<close>

fun dll :: "(addr \<Rightarrow> addr) \<Rightarrow> (addr \<Rightarrow> addr) \<Rightarrow> addr \<Rightarrow> addr \<Rightarrow> addr list \<Rightarrow> bool" where
  "dll nx pv h p [] \<longleftrightarrow> h = NULL"
| "dll nx pv h p (x # xs) \<longleftrightarrow> h = x \<and> x \<noteq> NULL \<and> pv x = p \<and> dll nx pv (nx x) x xs"

lemma dll_lst: "dll nx pv h p xs \<Longrightarrow> lst nx h xs"
  by (induction xs arbitrary: h p) auto

lemma dll_cong:
  "(\<And>x. x \<in> set xs \<Longrightarrow> nx' x = nx x \<and> pv' x = pv x) \<Longrightarrow> dll nx' pv' h p xs \<longleftrightarrow> dll nx pv h p xs"
  by (induction xs arbitrary: h p) auto

lemma dll_nonnull: "dll nx pv h p xs \<Longrightarrow> NULL \<notin> set xs"
  using dll_lst lst_null_notin by blast

lemma dll_distinct: "dll nx pv h p xs \<Longrightarrow> distinct xs"
  using dll_lst lst_distinct by blast

text \<open>Changing what the head points back to.\<close>

lemma dll_set_prev:
  assumes "dll nx pv h p xs"
  shows "dll nx (if h \<noteq> NULL then pv(h := q) else pv) h q xs"
proof (cases xs)
  case Nil
  then show ?thesis using assms by simp
next
  case (Cons x ys)
  then have "x \<notin> set ys" using dll_distinct [OF assms] by simp
  then have "dll nx (pv(x := q)) (nx x) x ys \<longleftrightarrow> dll nx pv (nx x) x ys" by (intro dll_cong) auto
  then show ?thesis using assms Cons by auto
qed

lemma dll_push:
  assumes "dll nx pv h NULL xs" "b \<noteq> NULL" "b \<notin> set xs"
  shows "dll (nx(b := h)) ((if h \<noteq> NULL then pv(h := b) else pv)(b := NULL)) b NULL (b # xs)"
proof -
  have "dll nx (if h \<noteq> NULL then pv(h := b) else pv) h b xs" by (rule dll_set_prev [OF assms(1)])
  then have "dll (nx(b := h)) ((if h \<noteq> NULL then pv(h := b) else pv)(b := NULL)) h b xs"
    using assms(3) by (subst dll_cong) auto
  then show ?thesis using assms(2) by simp
qed

lemma dll_pop: "dll nx pv h NULL (b # vs) \<Longrightarrow> dll nx (if nx b \<noteq> NULL then pv(nx b := NULL) else pv) (nx b) NULL vs"
  using dll_set_prev [of nx pv "nx b" b vs NULL] by simp

lemma dll_cut:
  assumes "dll nx pv h p (us @ u # b # vs)"
  shows "pv b = u" "u \<noteq> NULL"
    "dll (nx(u := nx b)) (if nx b \<noteq> NULL then pv(nx b := u) else pv) h p (us @ u # vs)"
  using assms
proof (induction us arbitrary: h p)
  case Nil
  {
    case 1
    then show ?case by simp
  next
    case 2
    then show ?case by simp
  next
    case 3
    let ?pv = "if nx b \<noteq> NULL then pv(nx b := u) else pv"
    have d: "distinct (u # b # vs)" using dll_distinct [OF 3] by simp
    have t: "dll nx ?pv (nx b) u vs" using 3 dll_set_prev [of nx pv "nx b" b vs u] by simp
    then have "dll (nx(u := nx b)) ?pv (nx b) u vs" using d by (subst dll_cong) auto
    moreover have "?pv u = p"
    proof (cases "nx b = NULL")
      case True
      then show ?thesis using 3 by simp
    next
      case False
      then have "nx b \<in> set vs" using t by (cases vs) auto
      then show ?thesis using 3 d by auto
    qed
    ultimately show ?case using 3 by (simp del: fun_upd_apply add: fun_upd_same)
  }
next
  case (Cons w us)
  {
    case 1
    then show ?case using Cons.IH(1) [of "nx w" w] by simp
  next
    case 2
    then show ?case using Cons.IH(2) [of "nx w" w] by simp
  next
    case 3
    let ?pv = "if nx b \<noteq> NULL then pv(nx b := u) else pv"
    have d: "distinct (w # us @ u # b # vs)" using dll_distinct [OF 3] by simp
    have t: "dll (nx(u := nx b)) ?pv (nx w) w (us @ u # vs)"
      using 3 Cons.IH(3) [of "nx w" w] by (simp only: append_Cons dll.simps)
    have "lst nx (nx b) vs" using dll_lst [OF 3] lst_suffix [of nx h "w # us @ [u]" b vs] by simp
    then have "nx b \<noteq> w" using d 3 by (cases vs) auto
    moreover have "w \<noteq> u" using d by auto
    ultimately show ?case using t 3 by (auto simp del: fun_upd_apply simp add: fun_upd_other)
  }
qed

section \<open>The lists of the call stacks\<close>

abbreviation group_next :: "mc \<Rightarrow> addr \<Rightarrow> addr" where "group_next st b \<equiv> am_group_next (am st b)"
abbreviation group_prev :: "mc \<Rightarrow> addr \<Rightarrow> addr" where "group_prev st b \<equiv> am_group_prev (am st b)"

definition groups_ok :: "addr set \<Rightarrow> mc \<Rightarrow> (link_index \<Rightarrow> addr \<Rightarrow> addr list) \<Rightarrow> bool" where
  "groups_ok C st G \<longleftrightarrow>
     (\<forall>l. \<forall>c\<in>C. dll (group_next st) (group_prev st) (group_head l c st) NULL (G l c)) \<and>
     (\<forall>l c l' c'. c \<in> C \<longrightarrow> c' \<in> C \<longrightarrow> (l, c) \<noteq> (l', c') \<longrightarrow> set (G l c) \<inter> set (G l' c') = {})"

lemma groups_okD:
  assumes "groups_ok C st G" "c \<in> C"
  shows "dll (group_next st) (group_prev st) (group_head l c st) NULL (G l c)"
    "c' \<in> C \<Longrightarrow> (l, c) \<noteq> (l', c') \<Longrightarrow> set (G l c) \<inter> set (G l' c') = {}"
  using assms unfolding groups_ok_def by blast+

text \<open>Linking and unlinking change the links of the blocks and the heads, nothing else.\<close>

definition only_groups :: "mc \<Rightarrow> mc \<Rightarrow> bool" where
  "only_groups st st' \<longleftrightarrow> (\<exists>a h. st' = st\<lparr>am := a, csh := h\<rparr> \<and>
     (\<forall>x. am_memblk (a x) = am_memblk (am st x) \<and> am_allocator (a x) = am_allocator (am st x)) \<and>
     (\<forall>c. \<exists>g. length g = length (cs_group_next (csh st c)) \<and> h c = (csh st c)\<lparr>cs_group_next := g\<rparr>))"

lemma only_groups_refl [simp]: "only_groups st st"
  unfolding only_groups_def
  by (intro exI [of _ "am st"] exI [of _ "csh st"] conjI allI) (auto intro: exI [of _ "cs_group_next (csh st c)" for c])

lemma only_groups_trans:
  assumes "only_groups st s" "only_groups s st'"
  shows "only_groups st st'"
proof -
  from assms obtain a h a' h' where s: "s = st\<lparr>am := a, csh := h\<rparr>" "st' = s\<lparr>am := a', csh := h'\<rparr>"
    and 1: "\<And>x. am_memblk (a x) = am_memblk (am st x) \<and> am_allocator (a x) = am_allocator (am st x)"
      "\<And>c. \<exists>g. length g = length (cs_group_next (csh st c)) \<and> h c = (csh st c)\<lparr>cs_group_next := g\<rparr>"
    and 2: "\<And>x. am_memblk (a' x) = am_memblk (am s x) \<and> am_allocator (a' x) = am_allocator (am s x)"
      "\<And>c. \<exists>g. length g = length (cs_group_next (csh s c)) \<and> h' c = (csh s c)\<lparr>cs_group_next := g\<rparr>"
    unfolding only_groups_def by blast
  have "\<exists>g. length g = length (cs_group_next (csh st c)) \<and> h' c = (csh st c)\<lparr>cs_group_next := g\<rparr>" for c
    using 1(2) [of c] 2(2) [of c] s(1) by auto
  moreover have "st' = st\<lparr>am := a', csh := h'\<rparr>" using s by simp
  ultimately show ?thesis unfolding only_groups_def using 1(1) 2(1) s(1) by auto
qed

lemma only_groups_am:
  assumes "\<And>x. am_memblk (f x) = am_memblk x \<and> am_allocator (f x) = am_allocator x"
  shows "only_groups st (upd_am b f st)"
  unfolding only_groups_def upd_am_def
  by (intro exI [of _ "(am st)(b := f (am st b))"] exI [of _ "csh st"] conjI allI)
    (auto simp: assms intro: exI [of _ "cs_group_next (csh st c)" for c])

lemma only_groups_head [simp]: "only_groups st (set_group_head l c b st)"
  unfolding only_groups_def set_group_head_def upd_cs_def
  by (intro exI [of _ "am st"] exI [of _ "(csh st)(c := (csh st c)\<lparr>cs_group_next := (cs_group_next (csh st c))[link_no l := b]\<rparr>)"]
      conjI allI)
    (auto intro: exI [of _ "cs_group_next (csh st x)" for x] exI [of _ "(cs_group_next (csh st c))[link_no l := b]"])

lemma only_groups_simps:
  assumes "only_groups st st'"
  shows "blk st' = blk st" "amp st' = amp st" "fmp st' = fmp st" "fm st' = fm st" "ptr_tbls st' = ptr_tbls st"
    "free_tbl st' = free_tbl st" "cs_tbl st' = cs_tbl st" "mem st' = mem st" "log st' = log st"
    "do_not_hook st' = do_not_hook st" "initialized st' = initialized st" "fmaps st' = fmaps st"
    "free_memblk_array st' = free_memblk_array st" "free_fifo_idx st' = free_fifo_idx st"
    "usr_of st' = usr_of st" "entry_of st' = entry_of st" "fusr_of st' = fusr_of st" "quarantine st' = quarantine st"
    "fifo_ok st' = fifo_ok st" "quarantine_view st' = quarantine_view st" "counters st' = counters st"
    "cs_key (csh st' c) = cs_key (csh st c)" "trace_ok (csh st' c) = trace_ok (csh st c)"
    "cs_hash_next (csh st' c) = cs_hash_next (csh st c)" "am_allocator (am st' x) = am_allocator (am st x)"
    "am_memblk (am st' x) = am_memblk (am st x)" "outside st' = outside st"
proof -
  from assms obtain a h where s: "st' = st\<lparr>am := a, csh := h\<rparr>"
    and 1: "\<And>x. am_memblk (a x) = am_memblk (am st x) \<and> am_allocator (a x) = am_allocator (am st x)"
    and 2: "\<And>c. \<exists>g. length g = length (cs_group_next (csh st c)) \<and> h c = (csh st c)\<lparr>cs_group_next := g\<rparr>"
    unfolding only_groups_def by blast
  show "blk st' = blk st" "amp st' = amp st" "fmp st' = fmp st" "fm st' = fm st" "ptr_tbls st' = ptr_tbls st"
    "free_tbl st' = free_tbl st" "cs_tbl st' = cs_tbl st" "mem st' = mem st" "log st' = log st"
    "do_not_hook st' = do_not_hook st" "initialized st' = initialized st" "fmaps st' = fmaps st"
    "free_memblk_array st' = free_memblk_array st" "free_fifo_idx st' = free_fifo_idx st"
    "usr_of st' = usr_of st" "entry_of st' = entry_of st" "fusr_of st' = fusr_of st" "quarantine st' = quarantine st"
    "fifo_ok st' = fifo_ok st" "quarantine_view st' = quarantine_view st" "counters st' = counters st"
    "am_allocator (am st' x) = am_allocator (am st x)" "am_memblk (am st' x) = am_memblk (am st x)" "outside st' = outside st"
    using 1 by (simp_all add: s usr_of_def entry_of_def fusr_of_def quarantine_def fifo_ok_def quarantine_view_def
        counters_def outside_def fun_eq_iff)
  show "cs_key (csh st' c) = cs_key (csh st c)" "trace_ok (csh st' c) = trace_ok (csh st c)"
    "cs_hash_next (csh st' c) = cs_hash_next (csh st c)"
    using 2 [of c] by (auto simp: s cs_key_def trace_ok_def)
qed

lemma tables_ok_only_groups:
  assumes g: "only_groups st st'" and ok: "tables_ok N X F Y C st"
  shows "tables_ok N X F Y C st'"
proof -
  note S = only_groups_simps [OF g] and D = tables_okD [OF ok]
  have "cs_table_ok CALLSTACK_HASHTABLE_SIZE (csh st', cs_tbl st) C"
    by (rule cs_table_cong [of _ "csh st"]) (use D(4) S(22,24) in \<open>simp_all add: cs_table_def\<close>)
  then show ?thesis
    using ok S D(11,12) unfolding tables_ok_def by (simp add: ptr_table_def free_table_def cs_table_def)
qed

lemma group_head_set:
  assumes "length (cs_group_next (csh st c)) = LINK_MAX"
  shows "group_head l' c' (set_group_head l c b st) = (if l' = l \<and> c' = c then b else group_head l' c' st)"
  using assms
  by (cases l; cases l') (auto simp: group_head_def set_group_head_def upd_cs_def LINK_MAX_def)

lemma group_head_am [simp]: "group_head l c (upd_am b f st) = group_head l c st"
  by (simp add: group_head_def upd_am_def)

section \<open>Linking and unlinking\<close>

lemma link_ok:
  assumes G: "groups_ok C st G" and c: "c \<in> C" "c \<noteq> NULL" "length (cs_group_next (csh st c)) = LINK_MAX"
    and b: "b \<noteq> NULL" "\<And>l c. c \<in> C \<Longrightarrow> b \<notin> set (G l c)"
  shows "\<exists>st'. mc_link_memblk_to_callstack b c l st = Some st' \<and> only_groups st st' \<and>
     groups_ok C st' (G(l := (G l)(c := b # G l c)))"
proof -
  let ?h = "group_head l c st"
  define s1 where "s1 = upd_am b (\<lambda>x. x\<lparr>am_group_next := ?h\<rparr>) (upd_am b (\<lambda>x. x\<lparr>am_group_prev := NULL\<rparr>) st)"
  define s2 where "s2 = (if ?h \<noteq> NULL then upd_am ?h (\<lambda>x. x\<lparr>am_group_prev := b\<rparr>) s1 else s1)"
  let ?st' = "set_group_head l c b s2"
  have run: "mc_link_memblk_to_callstack b c l st = Some ?st'"
    using c(2) by (simp add: mc_link_memblk_to_callstack_def s1_def s2_def Let_def)
  have s2: "csh s2 = csh st" "group_next s2 = (group_next st)(b := ?h)"
    "group_prev s2 = (if ?h \<noteq> NULL then ((group_prev st)(b := NULL))(?h := b) else (group_prev st)(b := NULL))"
    by (auto simp: s1_def s2_def upd_am_def fun_eq_iff)
  have "only_groups st s1"
    unfolding s1_def by (intro only_groups_trans [OF only_groups_am only_groups_am]) simp_all
  moreover have "only_groups s1 s2" by (simp add: s2_def only_groups_am)
  ultimately have og: "only_groups st ?st'" using only_groups_trans only_groups_head by metis
  let ?G = "G(l := (G l)(c := b # G l c))"
  note dl = groups_okD(1) [OF G]
  have hb: "?h \<noteq> b" using dl [OF c(1), of l] b(2) [OF c(1), of l] b(1) by (cases "G l c") auto
  have heads: "group_head l' c' ?st' = (if l' = l \<and> c' = c then b else group_head l' c' st)" for l' c'
    using group_head_set [of s2 c] c(3) s2(1) by (simp add: group_head_def)
  have links: "group_next ?st' = group_next s2" "group_prev ?st' = group_prev s2"
    by (simp_all add: set_group_head_def upd_cs_def)
  have "dll (group_next ?st') (group_prev ?st') (group_head l' c' ?st') NULL (?G l' c')" if c': "c' \<in> C" for l' c'
  proof (cases "l' = l \<and> c' = c")
    case True
    have "dll (group_next s2) (group_prev s2) b NULL (b # G l c)"
      using dll_push [OF dl [OF c(1)] b(1) b(2) [OF c(1)], of l] hb
      unfolding s2 by (cases "?h = NULL") (simp_all only: fun_upd_twist if_True if_False simp_thms)
    then show ?thesis using True heads links by simp
  next
    case False
    have "set (G l c) \<inter> set (G l' c') = {}" using groups_okD(2) [OF G c(1) c', of l l'] False by auto
    moreover have "?h = NULL \<or> ?h \<in> set (G l c)" using dl [OF c(1), of l] by (cases "G l c") auto
    ultimately have "x \<noteq> b \<and> (?h = NULL \<or> x \<noteq> ?h)" if "x \<in> set (G l' c')" for x
      using that b(2) [OF c', of l'] by auto
    then have "dll (group_next s2) (group_prev s2) (group_head l' c' st) NULL (G l' c')"
      using dl [OF c', of l'] unfolding s2 by (subst dll_cong) auto
    then show ?thesis using False heads links by auto
  qed
  moreover have "set (?G l1 c1) \<inter> set (?G l2 c2) = {}" if "c1 \<in> C" "c2 \<in> C" "(l1, c1) \<noteq> (l2, c2)" for l1 c1 l2 c2
  proof -
    have "set (?G l' c') = (if (l', c') = (l, c) then insert b (set (G l c)) else set (G l' c'))" for l' c' by auto
    then show ?thesis
      using groups_okD(2) [OF G that(1,2,3)] that(3) b(2) [OF that(1), of l1] b(2) [OF that(2), of l2] by (cases "(l1, c1) = (l, c)"; cases "(l2, c2) = (l, c)") auto
  qed
  ultimately show ?thesis using run og by (auto simp: groups_ok_def)
qed

lemma unlink_ok:
  assumes G: "groups_ok C st G" and c: "c \<in> C" "c \<noteq> NULL" "length (cs_group_next (csh st c)) = LINK_MAX"
    and b: "b \<in> set (G l c)"
  shows "\<exists>st'. mc_unlink_memblk_from_callstack b c l st = Some st' \<and> only_groups st st' \<and>
     groups_ok C st' (G(l := (G l)(c := remove1 b (G l c))))"
proof -
  let ?n = "group_next st b" and ?p = "group_prev st b"
  note dl = groups_okD(1) [OF G]
  obtain us vs where uv: "G l c = us @ b # vs" using b by (meson split_list)
  have d: "distinct (us @ b # vs)" using dll_distinct [OF dl [OF c(1), of l]] uv by simp
  then have r1: "remove1 b (G l c) = us @ vs" unfolding uv by (simp add: remove1_append)
  have nvs: "?n = NULL \<or> ?n \<in> set vs"
  proof -
    have "lst (group_next st) ?n vs" using lst_suffix dll_lst [OF dl [OF c(1), of l]] uv by metis
    then show ?thesis by (cases vs) auto
  qed
  let ?G = "G(l := (G l)(c := us @ vs))"
  obtain s h where run: "mc_unlink_memblk_from_callstack b c l st = Some s" and og: "only_groups st s"
    and heads: "\<And>l' c'. group_head l' c' s = (if l' = l \<and> c' = c then h else group_head l' c' st)"
    and here: "dll (group_next s) (group_prev s) h NULL (us @ vs)"
    and else_: "\<And>x. x \<notin> set (us @ vs) \<Longrightarrow> x \<noteq> NULL \<Longrightarrow> group_next s x = group_next st x \<and> group_prev s x = group_prev st x"
  proof (cases us rule: rev_cases)
    case Nil
    let ?s1 = "set_group_head l c ?n st"
    let ?s = "if ?n \<noteq> NULL then upd_am ?n (\<lambda>x. x\<lparr>am_group_prev := NULL\<rparr>) ?s1 else ?s1"
    have gs: "group_next ?s = group_next st"
      "group_prev ?s = (if ?n \<noteq> NULL then (group_prev st)(?n := NULL) else group_prev st)"
      by (auto simp: upd_am_def set_group_head_def upd_cs_def fun_eq_iff)
    have p: "?p = NULL" using dl [OF c(1), of l] uv Nil by simp
    have "mc_unlink_memblk_from_callstack b c l st = Some ?s"
      using c(2) p by (simp add: mc_unlink_memblk_from_callstack_def Let_def)
    moreover have "only_groups st ?s"
    proof -
      have "only_groups ?s1 ?s" by (simp add: only_groups_am)
      then show ?thesis by (rule only_groups_trans [OF only_groups_head])
    qed
    moreover have "group_head l' c' ?s = (if l' = l \<and> c' = c then ?n else group_head l' c' st)" for l' c'
      using group_head_set [OF c(3)] by simp
    moreover have "dll (group_next ?s) (group_prev ?s) ?n NULL (us @ vs)"
      using dll_pop [of "group_next st" "group_prev st" "group_head l c st" b vs] dl [OF c(1), of l] uv Nil unfolding gs by simp
    moreover have "group_next ?s x = group_next st x \<and> group_prev ?s x = group_prev st x"
      if "x \<notin> set (us @ vs)" "x \<noteq> NULL" for x
      using that nvs fun_cong [OF gs(1), of x] fun_cong [OF gs(2), of x] by (auto split: if_splits)
    ultimately show ?thesis by (rule that [of ?s ?n])
  next
    case (snoc ts u)
    let ?s1 = "upd_am ?p (\<lambda>x. x\<lparr>am_group_next := ?n\<rparr>) st"
    let ?s = "if ?n \<noteq> NULL then upd_am ?n (\<lambda>x. x\<lparr>am_group_prev := ?p\<rparr>) ?s1 else ?s1"
    note K = dll_cut [of "group_next st" "group_prev st" "group_head l c st" NULL ts u b vs]
    have "dll (group_next st) (group_prev st) (group_head l c st) NULL (ts @ u # b # vs)"
      using dl [OF c(1), of l] uv snoc by simp
    note K = K [OF this]
    have gs: "group_next ?s = (group_next st)(u := ?n)"
      "group_prev ?s = (if ?n \<noteq> NULL then (group_prev st)(?n := u) else group_prev st)"
      using K(1) by (auto simp: upd_am_def fun_eq_iff)
    have "mc_unlink_memblk_from_callstack b c l st = Some ?s"
      using K(1,2) by (simp add: mc_unlink_memblk_from_callstack_def Let_def)
    moreover have "only_groups st ?s"
    proof -
      have "only_groups st ?s1" "only_groups ?s1 ?s" by (simp_all add: only_groups_am)
      then show ?thesis by (rule only_groups_trans)
    qed
    moreover have "group_head l' c' ?s = (if l' = l \<and> c' = c then group_head l c st else group_head l' c' st)" for l' c'
      by simp
    moreover have "dll (group_next ?s) (group_prev ?s) (group_head l c st) NULL (us @ vs)"
      using K(3) snoc unfolding gs by simp
    moreover have "group_next ?s x = group_next st x \<and> group_prev ?s x = group_prev st x"
      if "x \<notin> set (us @ vs)" "x \<noteq> NULL" for x
      using that nvs snoc fun_cong [OF gs(1), of x] fun_cong [OF gs(2), of x] by (auto split: if_splits)
    ultimately show ?thesis by (rule that [of ?s "group_head l c st"])
  qed
  have "dll (group_next s) (group_prev s) (group_head l' c' s) NULL (?G l' c')" if c': "c' \<in> C" for l' c'
  proof (cases "l' = l \<and> c' = c")
    case True
    then show ?thesis using here heads by simp
  next
    case False
    have "set (G l c) \<inter> set (G l' c') = {}" using groups_okD(2) [OF G c(1) c', of l l'] False by auto
    then have "x \<notin> set (us @ vs)" if "x \<in> set (G l' c')" for x using that uv by auto
    moreover have "x \<noteq> NULL" if "x \<in> set (G l' c')" for x using dll_nonnull [OF dl [OF c', of l']] that by auto
    ultimately have "\<And>x. x \<in> set (G l' c') \<Longrightarrow> group_next s x = group_next st x \<and> group_prev s x = group_prev st x"
      using else_ by simp
    from dll_cong [where nx' = "group_next s", OF this] show ?thesis using dl [OF c', of l'] False heads by auto
  qed
  moreover have "set (?G l1 c1) \<inter> set (?G l2 c2) = {}" if "c1 \<in> C" "c2 \<in> C" "(l1, c1) \<noteq> (l2, c2)" for l1 c1 l2 c2
  proof -
    have "set (?G l' c') \<subseteq> set (G l' c')" for l' c' using uv by auto
    then show ?thesis using groups_okD(2) [OF G that] by blast
  qed
  ultimately have "groups_ok C s ?G" unfolding groups_ok_def by blast
  then show ?thesis using run og unfolding r1 by blast
qed

end
