(* ===== verification/MC_Offset.thy ===== *)
theory MC_Offset
  imports MC_Group
begin

text \<open>
  The differences of two tables: \<open>offset_snapshot_against_current_alloc_memblk\<close> takes blocks out of
  the table it walks over, and what is left is the difference of the two collections of
  (call stack, size) pairs.
\<close>

section \<open>A loop that takes the visited node out of the table\<close>

abbreviation node_hash :: "mc \<Rightarrow> addr \<Rightarrow> nat" where
  "node_hash st n \<equiv> calc_ptr_hash (mp_ptr (amp st n)) ALLOC_MEMPTR_HASHTABLE_SIZE"

text \<open>
  Among the nodes \<open>ns\<close> of table \<open>i\<close> only a predecessor of \<open>n\<close> in its own bucket gets a new link, and
  only the head of that bucket moves.
\<close>

definition takes_out :: "table_id \<Rightarrow> addr list \<Rightarrow> addr \<Rightarrow> mc \<Rightarrow> mc \<Rightarrow> bool" where
  "takes_out i ns n st st' \<longleftrightarrow>
     (\<forall>m\<in>set ns. mp_hash_next (amp st' m) \<noteq> mp_hash_next (amp st m) \<longrightarrow>
        mp_hash_next (amp st m) = n \<and> node_hash st m = node_hash st n) \<and>
     (\<forall>j. j \<noteq> node_hash st n \<longrightarrow> ptr_tbls st' i j = ptr_tbls st i j) \<and>
     (\<forall>m\<in>set ns. node_hash st' m = node_hash st m)"

lemma takes_outD:
  assumes "takes_out i ns n st st'"
  shows "m \<in> set ns \<Longrightarrow> mp_hash_next (amp st' m) \<noteq> mp_hash_next (amp st m) \<Longrightarrow>
        mp_hash_next (amp st m) = n \<and> node_hash st m = node_hash st n"
    "j \<noteq> node_hash st n \<Longrightarrow> ptr_tbls st' i j = ptr_tbls st i j"
    "m \<in> set ns \<Longrightarrow> node_hash st' m = node_hash st m"
  using assms by (auto simp: takes_out_def)

lemma lst_no_cycle:
  assumes "lst nx n (n # ys)" "m \<in> set (n # ys)"
  shows "nx m \<noteq> n"
proof
  assume m: "nx m = n"
  obtain us vs where "n # ys = us @ m # vs" using assms(2) by (meson split_list)
  moreover from this have "lst nx (nx m) vs" using assms(1) lst_suffix [of nx n us m vs] by simp
  then have "vs = n # ys" using m assms(1) lst_unique by metis
  ultimately have "length (n # ys) = length us + Suc (length (n # ys))" by (metis length_append length_Cons)
  then show False by simp
qed

text \<open>The bucket \<open>j\<close> of a table whose remaining buckets are \<open>K\<close>.\<close>

lemma walk_seq:
  fixes body :: "addr \<Rightarrow> 's \<Rightarrow> ('r, 's) flow option"
  assumes "lst (\<lambda>m. mp_hash_next (amp (p s) m)) h xs" "I (xs @ rest) s" "set xs \<subseteq> set (bs j)"
    and "\<forall>m\<in>set ns. node_hash (p s) m = H m" "\<forall>k\<in>K. lst (\<lambda>m. mp_hash_next (amp (p s) m)) (ptr_tbls (p s) i k) (bs k)"
    and K: "\<forall>k\<in>insert j K. \<forall>m\<in>set (bs k). H m = k \<and> m \<in> set ns" "j \<notin> K"
    and step: "\<And>n todo s. n \<in> set ns \<Longrightarrow> I (n # todo) s \<Longrightarrow>
        \<exists>s'. body n s = Some (Next s') \<and> I todo s' \<and> takes_out i ns n (p s) (p s')"
  shows "\<exists>s'. walk (\<lambda>s m. mp_hash_next (amp (p s) m)) body h s = Some (Next s') \<and> I rest s' \<and>
     (\<forall>m\<in>set ns. node_hash (p s') m = H m) \<and>
     (\<forall>k\<in>K. lst (\<lambda>m. mp_hash_next (amp (p s') m)) (ptr_tbls (p s') i k) (bs k))"
  using assms(1-5)
proof (induction xs arbitrary: h s)
  case Nil
  then show ?case by (simp add: walk.simps)
next
  case (Cons n ys)
  let ?nx = "\<lambda>s m. mp_hash_next (amp (p s) m)"
  have n: "h = n" "n \<noteq> NULL" "n \<in> set ns" "H n = j" using Cons.prems(1,3) K(1) by auto
  from step [OF n(3), of "ys @ rest" s] Cons.prems(2) obtain s' where
    s': "body n s = Some (Next s')" "I (ys @ rest) s'" "takes_out i ns n (p s) (p s')" by auto
  note T = takes_outD [OF s'(3)]
  have hn: "node_hash (p s) n = j" using Cons.prems(4) n(3,4) by simp
  have L: "lst (?nx s) n (n # ys)" using Cons.prems(1) n(1) by simp
  have ns: "m \<in> set ns" if "m \<in> set (n # ys)" for m using that Cons.prems(3) K(1) by blast
  have same: "?nx s' m = ?nx s m" if "m \<in> set (n # ys)" for m
    using T(1) [OF ns [OF that]] lst_no_cycle [OF L that] by blast
  have "lst (?nx s') (?nx s' n) ys"
    using Cons.prems(1) n(1) same lst_cong [of ys "?nx s'" "?nx s"] by simp
  moreover have "\<forall>m\<in>set ns. node_hash (p s') m = H m" using T(3) Cons.prems(4) by simp
  moreover have "lst (?nx s') (ptr_tbls (p s') i k) (bs k)" if k: "k \<in> K" for k
  proof -
    have "k \<noteq> j" using k K(2) by auto
    have "?nx s' m = ?nx s m" if m: "m \<in> set (bs k)" for m
    proof -
      have "m \<in> set ns" "H m = k" using K(1) k m by auto
      then show ?thesis using T(1) [of m] Cons.prems(4) hn \<open>k \<noteq> j\<close> by auto
    qed
    then show ?thesis using Cons.prems(5) k T(2) [of k] hn \<open>k \<noteq> j\<close> lst_cong [of "bs k" "?nx s'" "?nx s"] by simp
  qed
  ultimately have "\<exists>s''. walk ?nx body (?nx s' n) s' = Some (Next s'') \<and> I rest s'' \<and>
     (\<forall>m\<in>set ns. node_hash (p s'') m = H m) \<and> (\<forall>k\<in>K. lst (?nx s'') (ptr_tbls (p s'') i k) (bs k))"
    using s'(2) Cons.prems(3) by (intro Cons.IH) auto
  then show ?case using s'(1) n(1,2) by (subst walk.simps) simp
qed

lemma walk_buckets_seq:
  fixes body :: "addr \<Rightarrow> 's \<Rightarrow> ('r, 's) flow option"
  assumes "\<forall>k\<in>set ks. lst (\<lambda>m. mp_hash_next (amp (p s) m)) (ptr_tbls (p s) i k) (bs k)" "I (concat (map bs ks)) s"
    and "\<forall>m\<in>set ns. node_hash (p s) m = H m" "distinct ks"
    and "\<forall>k\<in>set ks. \<forall>m\<in>set (bs k). H m = k \<and> m \<in> set ns"
    and step: "\<And>n todo s. n \<in> set ns \<Longrightarrow> I (n # todo) s \<Longrightarrow>
        \<exists>s'. body n s = Some (Next s') \<and> I todo s' \<and> takes_out i ns n (p s) (p s')"
  shows "\<exists>s'. walk_buckets (\<lambda>s m. mp_hash_next (amp (p s) m)) (\<lambda>s. ptr_tbls (p s) i) body ks s = Some (Next s') \<and> I [] s'"
  using assms(1-5)
proof (induction ks arbitrary: s)
  case Nil
  then show ?case by simp
next
  case (Cons j ks)
  let ?nx = "\<lambda>s m. mp_hash_next (amp (p s) m)"
  have "\<exists>s'. walk ?nx body (ptr_tbls (p s) i j) s = Some (Next s') \<and> I (concat (map bs ks)) s' \<and>
     (\<forall>m\<in>set ns. node_hash (p s') m = H m) \<and> (\<forall>k\<in>set ks. lst (?nx s') (ptr_tbls (p s') i k) (bs k))"
    by (rule walk_seq [where xs = "bs j" and j = j]) (use Cons.prems step in auto)
  then obtain s' where "walk ?nx body (ptr_tbls (p s) i j) s = Some (Next s')" "I (concat (map bs ks)) s'"
    "\<forall>m\<in>set ns. node_hash (p s') m = H m" "\<forall>k\<in>set ks. lst (?nx s') (ptr_tbls (p s') i k) (bs k)" by blast
  then show ?case using Cons.IH [of s'] Cons.prems(4,5) by simp
qed

lemma for_each_seq:
  fixes body :: "addr \<Rightarrow> 's \<Rightarrow> ('r, 's) flow option"
  assumes ns: "listed i (p s) ns" and I: "I ns s"
    and step: "\<And>n todo s. n \<in> set ns \<Longrightarrow> I (n # todo) s \<Longrightarrow>
        \<exists>s'. body n s = Some (Next s') \<and> I todo s' \<and> takes_out i ns n (p s) (p s')"
  shows "\<exists>s'. for_each_hashnode (\<lambda>s m. mp_hash_next (amp (p s) m)) (\<lambda>s. ptr_tbls (p s) i)
            ALLOC_MEMPTR_HASHTABLE_SIZE body s = Some (Next s') \<and> I [] s'"
proof -
  obtain bs where bs: "buckets_ok (\<lambda>n. mp_hash_next (amp (p s) n)) (node_hash (p s)) (ptr_tbls (p s) i)
      ALLOC_MEMPTR_HASHTABLE_SIZE bs" "ns = node_list ALLOC_MEMPTR_HASHTABLE_SIZE bs"
    using ns by (auto simp: listed_def)
  have "\<forall>k\<in>set [0..<ALLOC_MEMPTR_HASHTABLE_SIZE]. \<forall>m\<in>set (bs k). node_hash (p s) m = k \<and> m \<in> set ns"
    using bs by (auto simp: buckets_ok_def nodes_UN)
  moreover have "\<forall>k\<in>set [0..<ALLOC_MEMPTR_HASHTABLE_SIZE]. lst (\<lambda>m. mp_hash_next (amp (p s) m)) (ptr_tbls (p s) i k) (bs k)"
    using bs(1) by (simp add: buckets_ok_def)
  moreover have "I (concat (map bs [0..<ALLOC_MEMPTR_HASHTABLE_SIZE])) s" using I bs(2) by (simp add: node_list_def)
  ultimately show ?thesis
    unfolding for_each_hashnode_def
    by (intro walk_buckets_seq [where bs = bs and ns = ns and H = "node_hash (p s)"] step) simp_all
qed

section \<open>Taking a node out\<close>

lemma remove_ptr_takes_out:
  assumes ok: "ptr_table_ok ALLOC_MEMPTR_HASHTABLE_SIZE (ptr_table i st) M"
    and r: "remove_ptr i p st = Some (n, st')" "n \<noteq> NULL"
  shows "m \<in> M \<Longrightarrow> mp_hash_next (amp st' m) \<noteq> mp_hash_next (amp st m) \<Longrightarrow>
        mp_hash_next (amp st m) = n \<and> node_hash st m = node_hash st n"
    "j \<noteq> node_hash st n \<Longrightarrow> ptr_tbls st' i j = ptr_tbls st i j"
    "k \<noteq> i \<Longrightarrow> ptr_tbls st' k = ptr_tbls st k" "m \<notin> M \<Longrightarrow> amp st' m = amp st m"
    "mp_ptr (amp st' m) = mp_ptr (amp st m)" "mp_ptr (amp st n) = p" "amp st' n = amp st n"
proof -
  let ?sz = ALLOC_MEMPTR_HASHTABLE_SIZE and ?nx = "\<lambda>n. mp_hash_next (amp st n)"
  obtain bs where bs: "buckets_ok ?nx (node_hash st) (ptr_tbls st i) ?sz bs" "M = nodes ?sz bs"
    using ok by (auto simp: ptr_table_ok_def ptr_table_def)
  have "0 < ?sz" using bs(1) by (simp add: buckets_ok_def)
  note k = hash_lt [OF this, of p]
  have defs: "remove_ptr i p st = do {
      (prev, node) \<leftarrow> chain_find_prev ?nx (\<lambda>n. mp_ptr (amp st n) = p) NULL (ptr_tbls st i (calc_ptr_hash p ?sz));
      Some (if node = NULL then (NULL, st) else if prev \<noteq> NULL
        then (node, st\<lparr>amp := (amp st)(prev := (amp st prev)\<lparr>mp_hash_next := ?nx node\<rparr>)\<rparr>)
        else (node, st\<lparr>ptr_tbls := (ptr_tbls st)(i := (ptr_tbls st i)(calc_ptr_hash p ?sz := ?nx node))\<rparr>)) }"
    by (auto simp: remove_ptr_def mc_remove_ptr_hashtable_def ptr_table_def set_ptr_table_def Let_def
        split: Option.bind_splits prod.splits intro!: option.expand)
  have "(m \<in> M \<longrightarrow> mp_hash_next (amp st' m) \<noteq> ?nx m \<longrightarrow> ?nx m = n \<and> node_hash st m = node_hash st n) \<and>
    (j \<noteq> node_hash st n \<longrightarrow> ptr_tbls st' i j = ptr_tbls st i j) \<and> (k \<noteq> i \<longrightarrow> ptr_tbls st' k = ptr_tbls st k) \<and>
    (m \<notin> M \<longrightarrow> amp st' m = amp st m) \<and> mp_ptr (amp st' m) = mp_ptr (amp st m) \<and> mp_ptr (amp st n) = p \<and> amp st' n = amp st n"
    for m j k
  proof (cases rule: bucket_find_prev [where H = "\<lambda>p. calc_ptr_hash p ?sz", OF bs(1) k])
    case (1 prev)
    then show ?thesis using r by (simp add: defs)
  next
    case (2 us x vs)
    note L = buckets_ok_D(1) [OF bs(1) k]
    show ?thesis
    proof (cases "us = []")
      case True
      then show ?thesis using 2 r by (auto simp: defs)
    next
      case False
      obtain ts where us: "us = ts @ [last us]" using False by (metis append_butlast_last_id)
      have "last us \<in> set (bs (calc_ptr_hash p ?sz))" using 2(1) False by simp
      then have l: "last us \<noteq> NULL" "last us \<in> M" "node_hash st (last us) = calc_ptr_hash p ?sz"
        using L k bs buckets_ok_D(2) [OF bs(1) k] by (auto dest: lst_nonnull_mem simp: nodes_UN)
      have "last us \<noteq> x" using lst_distinct [OF L] 2(1) False by auto
      have "lst ?nx (?nx (last us)) (x # vs)" using L 2(1) us lst_suffix [of ?nx _ ts "last us" "x # vs"] by (metis append.assoc append_Cons append_Nil)
      then have nx: "?nx (last us) = x" by simp
      have "n = x" "st' = st\<lparr>amp := (amp st)(last us := (amp st (last us))\<lparr>mp_hash_next := ?nx x\<rparr>)\<rparr>"
        using 2 r False l(1) by (auto simp: defs)
      then show ?thesis using l nx 2(2) \<open>last us \<noteq> x\<close> by auto
    qed
  qed
  then show "m \<in> M \<Longrightarrow> mp_hash_next (amp st' m) \<noteq> mp_hash_next (amp st m) \<Longrightarrow>
        mp_hash_next (amp st m) = n \<and> node_hash st m = node_hash st n"
    "j \<noteq> node_hash st n \<Longrightarrow> ptr_tbls st' i j = ptr_tbls st i j"
    "k \<noteq> i \<Longrightarrow> ptr_tbls st' k = ptr_tbls st k" "m \<notin> M \<Longrightarrow> amp st' m = amp st m"
    "mp_ptr (amp st' m) = mp_ptr (amp st m)" "mp_ptr (amp st n) = p" "amp st' n = amp st n"
    by blast+
qed

section \<open>The partner of a block\<close>

definition block_key :: "mc \<Rightarrow> addr \<Rightarrow> addr \<times> size_t" where
  "block_key st b = (am_allocator (am st b), mb_usrsize (am_memblk (am st b)))"

lemma find_snapshot_ok:
  assumes ok: "tables_ok N X F Y C st" and G: "groups_ok C st G"
    and mem: "\<And>c. c \<in> C \<Longrightarrow> set (G LINK_SNAPSHOT c) = {x \<in> N snap. am_allocator (am st x) = c}"
    and a: "am_allocator (am st b) \<in> C" "\<forall>x\<in>N snap. am_allocator (am st x) \<in> C"
  shows "\<exists>r. find_snapshot_alloc_memptr_for_current_memptr snap (memptr_of b) st = Some r \<and>
     (r = NULL \<and> (\<forall>s\<in>N snap. block_key st s \<noteq> block_key st b) \<or>
      (\<exists>s\<in>N snap. r = memptr_of s \<and> r \<noteq> NULL \<and> block_key st s = block_key st b))"
proof -
  note D = tables_okD [OF ok]
  have C0: "NULL \<notin> C" using blk.live_nonnull [OF D(1), of Callstack] D(10) by simp
  have nn: "memptr_of x \<noteq> NULL" if "x \<in> N snap" for x using memptr_live_nonnull(1) [OF ok] that by blast
  have at: "cs_at c st = Some (csh st c)" if "c \<in> C" for c using that C0 by (auto simp: cs_at_def)
  let ?c = "am_allocator (am st b)"
  from ptr_table_find [OF D(2) [of snap], of "mp_ptr (amp st (memptr_of b))"] obtain n where
    n: "find_ptr snap (mp_ptr (amp st (memptr_of b))) st = Some n" "n \<noteq> NULL \<longrightarrow> n \<in> memptr_of ` N snap"
    by (auto simp: find_ptr_def)
  let ?s = "get_alloc_memblk_from_memptr n"
  have sN: "?s \<in> N snap" "memptr_of ?s = n" if "n \<noteq> NULL" using n(2) that by auto
  show ?thesis
  proof (cases "n \<noteq> NULL \<and> same_usrsize st b ?s \<and> mc_match_callstack (csh st ?c) (csh st (am_allocator (am st ?s))) = 0")
    case True
    then have "cs_key (csh st ?c) = cs_key (csh st (am_allocator (am st ?s)))" by (simp add: mc_match_callstack_key)
    then have "?c = am_allocator (am st ?s)" using D(12) a sN(1) True by (auto dest: inj_onD)
    then have "block_key st ?s = block_key st b" using True by (simp add: block_key_def same_usrsize_def)
    then show ?thesis
      using True n(1) sN a at
      by (intro exI [of _ n]) (auto simp: find_snapshot_alloc_memptr_for_current_memptr_def Let_def intro!: bexI [of _ ?s])
  next
    case False
    let ?g = "chain_find (\<lambda>b. am_group_next (am st b)) (same_usrsize st b) (group_head LINK_SNAPSHOT ?c st)"
    have L: "lst (group_next st) (group_head LINK_SNAPSHOT ?c st) (G LINK_SNAPSHOT ?c)"
      by (rule dll_lst [OF groups_okD(1) [OF G a(1)]])
    have key: "block_key st x = block_key st b \<longleftrightarrow> same_usrsize st b x" if "x \<in> set (G LINK_SNAPSHOT ?c)" for x
      using that mem [OF a(1)] by (auto simp: block_key_def same_usrsize_def)
    have run: "find_snapshot_alloc_memptr_for_current_memptr snap (memptr_of b) st =
        do { b \<leftarrow> ?g; Some (if b = NULL then NULL else memptr_of b) }"
      using False n(1) sN(1) a at
      by (auto simp: find_snapshot_alloc_memptr_for_current_memptr_def group_head_def Let_def)
    have "0 \<notin> set (G LINK_SNAPSHOT ?c)" using L by blast
    then show ?thesis
    proof (cases rule: first_match_cases [where P = "same_usrsize st b"])
      case 1
      have "block_key st s \<noteq> block_key st b" if "s \<in> N snap" for s
        using that 1(2) mem [OF a(1)] key by (auto simp: block_key_def)
      then show ?thesis using run chain_find_lst [OF L, of "same_usrsize st b"] 1(1) by simp
    next
      case (2 us x vs)
      then have x: "x \<in> set (G LINK_SNAPSHOT ?c)" by simp
      then have "x \<in> N snap" "block_key st x = block_key st b" using mem [OF a(1)] key [OF x] 2(3) by auto
      then show ?thesis using run chain_find_lst [OF L, of "same_usrsize st b"] 2(1,4) nn by auto
    qed
  qed
qed

section \<open>What the loop leaves alone\<close>

definition only_links :: "mc \<Rightarrow> mc \<Rightarrow> bool" where
  "only_links st st' \<longleftrightarrow> (\<exists>b h a t c. st' = st\<lparr>blk := b, amp := h, am := a, ptr_tbls := t, csh := c\<rparr>) \<and>
     usr_of st' = usr_of st \<and> entry_of st' = entry_of st \<and>
     (\<forall>c. \<exists>g. length g = length (cs_group_next (csh st c)) \<and> csh st' c = (csh st c)\<lparr>cs_group_next := g\<rparr>)"

lemma only_linksI:
  assumes "st' = st\<lparr>blk := b, amp := h, am := a, ptr_tbls := t, csh := c\<rparr>" "usr_of st' = usr_of st" "entry_of st' = entry_of st"
    and "\<And>c. \<exists>g. length g = length (cs_group_next (csh st c)) \<and> csh st' c = (csh st c)\<lparr>cs_group_next := g\<rparr>"
  shows "only_links st st'"
  using assms unfolding only_links_def by blast

lemma same_groups: "\<exists>g. length g = length (cs_group_next x) \<and> x = x\<lparr>cs_group_next := g\<rparr>"
  by (rule exI [of _ "cs_group_next x"]) simp

lemma only_links_refl [simp]: "only_links st st"
  by (rule only_linksI [where b = "blk st" and h = "amp st" and a = "am st" and t = "ptr_tbls st" and c = "csh st"])
    (simp_all add: same_groups)

lemma only_links_groups: "only_groups st st' \<Longrightarrow> only_links st st'"
proof -
  assume og: "only_groups st st'"
  then obtain a h where s: "st' = st\<lparr>am := a, csh := h\<rparr>"
    and 2: "\<And>c. \<exists>g. length g = length (cs_group_next (csh st c)) \<and> h c = (csh st c)\<lparr>cs_group_next := g\<rparr>"
    unfolding only_groups_def by blast
  show ?thesis
    by (rule only_linksI [where b = "blk st" and h = "amp st" and a = a and t = "ptr_tbls st" and c = h])
      (use s 2 only_groups_simps(15,16) [OF og] in simp_all)
qed

lemma only_links_release: "only_links st (free_alloc_memblk_if_not_null b st)"
proof (cases "b = NULL")
  case True
  then show ?thesis by (simp add: free_alloc_memblk_if_not_null_def)
next
  case False
  let ?st = "free_alloc_memblk_if_not_null b st"
  show ?thesis
    by (rule only_linksI [where b = "blk ?st" and h = "amp st" and a = "am st" and t = "ptr_tbls st" and c = "csh st"])
      (simp_all add: free_alloc_memblk_if_not_null_def do_release_def usr_of_def entry_of_def same_groups fun_eq_iff)
qed

lemma only_links_remove:
  assumes "remove_ptr i p st = Some (n, st')" "\<And>m. mp_ptr (amp st' m) = mp_ptr (amp st m)"
  shows "only_links st st'"
proof -
  from assms(1) obtain h t where st': "st' = st\<lparr>amp := h, ptr_tbls := t\<rparr>"
    by (auto simp: remove_ptr_def set_ptr_table_def split: Option.bind_splits)
  show ?thesis
    by (rule only_linksI [where b = "blk st" and h = h and a = "am st" and t = t and c = "csh st"])
      (use assms(2) in \<open>simp_all add: st' usr_of_def entry_of_def same_groups fun_eq_iff\<close>)
qed

lemma only_links_trans:
  assumes "only_links st s" "only_links s st'"
  shows "only_links st st'"
proof -
  from assms obtain b h a t c b' h' a' t' c' where
    s: "s = st\<lparr>blk := b, amp := h, am := a, ptr_tbls := t, csh := c\<rparr>"
      "st' = s\<lparr>blk := b', amp := h', am := a', ptr_tbls := t', csh := c'\<rparr>"
    and e: "usr_of st' = usr_of st" "entry_of st' = entry_of st"
    and g: "\<And>c. \<exists>g. length g = length (cs_group_next (csh st c)) \<and> csh s c = (csh st c)\<lparr>cs_group_next := g\<rparr>"
      "\<And>c. \<exists>g. length g = length (cs_group_next (csh s c)) \<and> csh st' c = (csh s c)\<lparr>cs_group_next := g\<rparr>"
    unfolding only_links_def by auto
  have "\<exists>g. length g = length (cs_group_next (csh st c)) \<and> csh st' c = (csh st c)\<lparr>cs_group_next := g\<rparr>" for c
    using g(1) [of c] g(2) [of c] by auto
  then show ?thesis
    by (intro only_linksI [where b = b' and h = h' and a = a' and t = t' and c = c']) (use s e in simp_all)
qed

lemma only_links_simps:
  assumes "only_links st st'"
  shows "fmp st' = fmp st" "fm st' = fm st" "free_tbl st' = free_tbl st" "cs_tbl st' = cs_tbl st"
    "mem st' = mem st" "log st' = log st" "do_not_hook st' = do_not_hook st" "initialized st' = initialized st"
    "fmaps st' = fmaps st" "fusr_of st' = fusr_of st" "quarantine st' = quarantine st" "fifo_ok st' = fifo_ok st"
    "quarantine_view st' = quarantine_view st" "counters st' = counters st" "outside st' = outside st"
    "usr_of st' = usr_of st" "entry_of st' = entry_of st" "am_allocator (am st' x) = am_allocator (am st x)"
    "am_memblk (am st' x) = am_memblk (am st x)"
    "cs_key (csh st' c) = cs_key (csh st c)" "trace_ok (csh st' c) = trace_ok (csh st c)"
    "length (cs_group_next (csh st' c)) = length (cs_group_next (csh st c))" "block_key st' = block_key st"
proof -
  from assms obtain b h a t c' where s: "st' = st\<lparr>blk := b, amp := h, am := a, ptr_tbls := t, csh := c'\<rparr>"
    and e: "usr_of st' = usr_of st" "entry_of st' = entry_of st"
    and g: "\<And>c. \<exists>g. length g = length (cs_group_next (csh st c)) \<and> csh st' c = (csh st c)\<lparr>cs_group_next := g\<rparr>"
    unfolding only_links_def by auto
  show "usr_of st' = usr_of st" "entry_of st' = entry_of st" by (rule e)+
  then show "am_allocator (am st' x) = am_allocator (am st x)" "am_memblk (am st' x) = am_memblk (am st x)"
    "block_key st' = block_key st"
    by (simp_all add: entry_of_def fun_eq_iff block_key_def)
  show "fmp st' = fmp st" "fm st' = fm st" "free_tbl st' = free_tbl st" "cs_tbl st' = cs_tbl st"
    "mem st' = mem st" "log st' = log st" "do_not_hook st' = do_not_hook st" "initialized st' = initialized st"
    "fmaps st' = fmaps st" "fusr_of st' = fusr_of st" "quarantine st' = quarantine st" "fifo_ok st' = fifo_ok st"
    "quarantine_view st' = quarantine_view st" "counters st' = counters st" "outside st' = outside st"
    by (simp_all add: s fusr_of_def quarantine_def fifo_ok_def quarantine_view_def counters_def outside_def fun_eq_iff)
  show "cs_key (csh st' c) = cs_key (csh st c)" "trace_ok (csh st' c) = trace_ok (csh st c)"
    "length (cs_group_next (csh st' c)) = length (cs_group_next (csh st c))"
    using g [of c] by (auto simp: cs_key_def trace_ok_def)
qed

section \<open>The loop\<close>

text \<open>
  Before the blocks \<open>T\<close> are visited: of the visited blocks \<open>U\<close> had no partner, \<open>S\<close> is what is left
  of the snapshot, the two blocks of the last match are in hand and not yet released.
\<close>

definition in_hand :: "offset_vars \<Rightarrow> addr set" where
  "in_hand v = {ov_prev_current v, ov_prev_snapshot v} - {NULL}"

definition keys :: "mc \<Rightarrow> addr set \<Rightarrow> (addr \<times> size_t) multiset" where
  "keys st B = image_mset (block_key st) (mset_set B)"

definition grouped :: "addr set \<Rightarrow> mc \<Rightarrow> addr set \<Rightarrow> addr set \<Rightarrow> bool" where
  "grouped C st A S \<longleftrightarrow> (\<exists>G. groups_ok C st G \<and>
     (\<forall>c\<in>C. set (G LINK_CURRENT c) = {b \<in> A. am_allocator (am st b) = c} \<and>
             set (G LINK_SNAPSHOT c) = {b \<in> S. am_allocator (am st b) = c}))"

definition offset_inv ::
  "table_id \<Rightarrow> table_id \<Rightarrow> (table_id \<Rightarrow> addr set) \<Rightarrow> addr set \<Rightarrow> addr set \<Rightarrow> mc \<Rightarrow> addr set \<Rightarrow> addr set \<Rightarrow>
   addr list \<Rightarrow> offset_vars \<times> mc \<Rightarrow> bool" where
  "offset_inv cur snap N F C st0 U S todo s \<longleftrightarrow>
     (case s of (v, st) \<Rightarrow>
        let T = get_alloc_memblk_from_memptr ` set todo in
        tables_ok (N(cur := U \<union> T, snap := S)) (in_hand v) F {} C st \<and>
        distinct todo \<and> U \<inter> T = {} \<and> U \<union> T \<subseteq> N cur \<and> S \<subseteq> N snap \<and>
        (ov_prev_current v = ov_prev_snapshot v \<longrightarrow> ov_prev_current v = NULL) \<and>
        only_links st0 st \<and> grouped C st (U \<union> T) S \<and>
        ov_current v = of_nat (card (U \<union> T)) \<and> ov_snapshot v = of_nat (card S) \<and>
        keys st0 S = keys st0 (N snap) - keys st0 (N cur - T) \<and>
        keys st0 U = keys st0 (N cur - T) - keys st0 (N snap))"

lemma release_in_hand:
  assumes ok: "tables_ok N (in_hand v) F Y C st" and d: "ov_prev_current v = ov_prev_snapshot v \<longrightarrow> ov_prev_current v = NULL"
  defines "st' \<equiv> free_alloc_memblk_if_not_null (ov_prev_current v) (free_alloc_memblk_if_not_null (ov_prev_snapshot v) st)"
  shows "tables_ok N {} F Y C st'" "only_links st st'" "amp st' = amp st" "ptr_tbls st' = ptr_tbls st" "am st' = am st"
    "csh st' = csh st"
proof -
  let ?s = "free_alloc_memblk_if_not_null (ov_prev_snapshot v) st"
  have 1: "tables_ok N ({ov_prev_current v} - {NULL}) F Y C ?s"
  proof (cases "ov_prev_snapshot v = NULL")
    case True
    then show ?thesis using ok by (simp add: in_hand_def free_alloc_memblk_if_not_null_def insert_Diff_if insert_commute)
  next
    case False
    then have "in_hand v - {ov_prev_snapshot v} = {ov_prev_current v} - {NULL}" using d by (auto simp: in_hand_def)
    then show ?thesis using do_release_alloc_ok [OF ok, of "ov_prev_snapshot v"] False
      by (simp add: free_alloc_memblk_if_not_null_def in_hand_def)
  qed
  show "tables_ok N {} F Y C st'"
  proof (cases "ov_prev_current v = NULL")
    case True
    then show ?thesis using 1 by (simp add: st'_def free_alloc_memblk_if_not_null_def)
  next
    case False
    then show ?thesis using do_release_alloc_ok [OF 1, of "ov_prev_current v"]
      by (simp add: st'_def free_alloc_memblk_if_not_null_def)
  qed
  show "only_links st st'" unfolding st'_def by (rule only_links_trans [OF only_links_release only_links_release])
  show "amp st' = amp st" "ptr_tbls st' = ptr_tbls st" "am st' = am st" "csh st' = csh st"
    by (simp_all add: st'_def free_alloc_memblk_if_not_null_def do_release_def)
qed

lemma grouped_same: "am st' = am st \<Longrightarrow> csh st' = csh st \<Longrightarrow> grouped C st' A S = grouped C st A S"
  by (simp add: grouped_def groups_ok_def group_head_def)

lemma grouped_unlink:
  assumes g: "grouped C st A S" and c: "NULL \<notin> C" "\<forall>c\<in>C. length (cs_group_next (csh st c)) = LINK_MAX"
    and s: "s \<in> S" "am_allocator (am st s) \<in> C" and b: "b \<in> A" "am_allocator (am st b) \<in> C"
  shows "\<exists>st1 st2. mc_unlink_memblk_from_callstack s (am_allocator (am st s)) LINK_SNAPSHOT st = Some st1 \<and>
     mc_unlink_memblk_from_callstack b (am_allocator (am st1 b)) LINK_CURRENT st1 = Some st2 \<and>
     only_groups st st2 \<and> grouped C st2 (A - {b}) (S - {s})"
proof -
  from g obtain G where G: "groups_ok C st G"
    "\<And>c. c \<in> C \<Longrightarrow> set (G LINK_CURRENT c) = {b \<in> A. am_allocator (am st b) = c}"
    "\<And>c. c \<in> C \<Longrightarrow> set (G LINK_SNAPSHOT c) = {b \<in> S. am_allocator (am st b) = c}"
    by (auto simp: grouped_def)
  let ?cs = "am_allocator (am st s)" and ?cb = "am_allocator (am st b)"
  have nn: "?cs \<noteq> NULL" "?cb \<noteq> NULL" using c(1) s(2) b(2) by metis+
  have lens: "length (cs_group_next (csh st ?cs)) = LINK_MAX" using c(2) s(2) by simp
  have "s \<in> set (G LINK_SNAPSHOT ?cs)" using G(3) s by simp
  from unlink_ok [OF G(1) s(2) nn(1) lens this] obtain st1 where
    1: "mc_unlink_memblk_from_callstack s ?cs LINK_SNAPSHOT st = Some st1" "only_groups st st1"
      "groups_ok C st1 (G(LINK_SNAPSHOT := (G LINK_SNAPSHOT)(?cs := remove1 s (G LINK_SNAPSHOT ?cs))))" by auto
  let ?G1 = "G(LINK_SNAPSHOT := (G LINK_SNAPSHOT)(?cs := remove1 s (G LINK_SNAPSHOT ?cs)))"
  note o1 = only_groups_simps [OF 1(2)]
  have len: "length (cs_group_next (csh st1 c)) = LINK_MAX" if "c \<in> C" for c
    using only_links_simps(22) [OF only_links_groups [OF 1(2)]] c(2) that by simp
  have "b \<in> set (?G1 LINK_CURRENT ?cb)" using G(2) b by simp
  from unlink_ok [OF 1(3) b(2) nn(2) len [OF b(2)] this] obtain st2 where
    2: "mc_unlink_memblk_from_callstack b ?cb LINK_CURRENT st1 = Some st2" "only_groups st1 st2"
      "groups_ok C st2 (?G1(LINK_CURRENT := (?G1 LINK_CURRENT)(?cb := remove1 b (?G1 LINK_CURRENT ?cb))))" by blast
  have og: "only_groups st st2" by (rule only_groups_trans [OF 1(2) 2(2)])
  have dist: "distinct (G l c)" if "c \<in> C" for l c using dll_distinct [OF groups_okD(1) [OF G(1) that]] .
  let ?G2 = "?G1(LINK_CURRENT := (?G1 LINK_CURRENT)(?cb := remove1 b (?G1 LINK_CURRENT ?cb)))"
  have al: "am_allocator (am st2 x) = am_allocator (am st x)" for x using only_groups_simps(25) [OF og] .
  have "set (?G2 LINK_CURRENT c) = {x \<in> A - {b}. am_allocator (am st2 x) = c}" if "c \<in> C" for c
    using G(2) [OF that] dist [OF that] al by (cases "c = ?cb") (auto simp: set_remove1_eq)
  moreover have "set (?G2 LINK_SNAPSHOT c) = {x \<in> S - {s}. am_allocator (am st2 x) = c}" if "c \<in> C" for c
    using G(3) [OF that] dist [OF that] al by (cases "c = ?cs") (auto simp: set_remove1_eq)
  ultimately have "grouped C st2 (A - {b}) (S - {s})"
    unfolding grouped_def using 2(3) by (intro exI [of _ ?G2] conjI ballI) auto
  moreover have "am_allocator (am st1 b) = ?cb" using o1(25) .
  ultimately show ?thesis using 1(1) 2(1) og by auto
qed

end
