(* ===== verification/MC_Cancel.thy ===== *)
theory MC_Cancel
  imports MC_Offset
begin

text \<open>
  Cancelling a table against another: each step of \<open>offset_snapshot_against_current_alloc_memblk\<close>
  keeps the invariant of \<open>MC_Offset\<close>, and at the end both tables hold what the other lacks.
\<close>

section \<open>Counting the pairs\<close>

lemma keys_insert [simp]: "finite B \<Longrightarrow> b \<notin> B \<Longrightarrow> keys st (insert b B) = add_mset (block_key st b) (keys st B)"
  by (simp add: keys_def)

lemma keys_remove: "finite B \<Longrightarrow> b \<in> B \<Longrightarrow> keys st (B - {b}) = keys st B - {#block_key st b#}"
  using keys_insert [of "B - {b}" b st] by (simp add: insert_absorb)

lemma in_keys: "finite B \<Longrightarrow> k \<in># keys st B \<longleftrightarrow> (\<exists>b\<in>B. block_key st b = k)"
  by (auto simp: keys_def)

lemma size_keys: "size (keys st B) = card B"
  by (simp add: keys_def)

lemma add_unmatched:
  fixes K A :: "'a multiset"
  assumes "k \<notin># K - A"
  shows "K - add_mset k A = K - A" "add_mset k A - K = add_mset k (A - K)"
proof -
  have "count K k \<le> count A k" using assms by (simp add: not_in_iff)
  then show "K - add_mset k A = K - A" "add_mset k A - K = add_mset k (A - K)"
    by (auto simp: multiset_eq_iff)
qed

lemma add_matched:
  fixes K A :: "'a multiset"
  assumes "k \<in># K - A"
  shows "K - add_mset k A = K - A - {#k#}" "add_mset k A - K = A - K"
proof -
  have "count A k < count K k" using assms by (simp add: in_diff_count)
  then show "K - add_mset k A = K - A - {#k#}" "add_mset k A - K = A - K"
    by (auto simp: multiset_eq_iff)
qed

lemma of_nat_card_remove:
  assumes "finite A" "b \<in> A"
  shows "(of_nat (card A) :: 'a::len word) - 1 = of_nat (card (A - {b}))"
proof -
  have "card A = Suc (card (A - {b}))" using assms by (metis card.remove)
  then show ?thesis by simp
qed

section \<open>What the loop starts from\<close>

definition cancel_ok :: "table_id \<Rightarrow> table_id \<Rightarrow> (table_id \<Rightarrow> addr set) \<Rightarrow> addr set \<Rightarrow> mc \<Rightarrow> bool" where
  "cancel_ok cur snap N C st \<longleftrightarrow>
     cur \<noteq> snap \<and> finite (N cur) \<and> finite (N snap) \<and> N cur \<inter> N snap = {} \<and> NULL \<notin> N cur \<and> NULL \<notin> N snap \<and>
     NULL \<notin> C \<and> (\<forall>b\<in>N cur \<union> N snap. am_allocator (am st b) \<in> C) \<and>
     inj_on (usr_of st) (N cur) \<and> inj_on (usr_of st) (N snap)"

lemma cancel_okD:
  assumes "cancel_ok cur snap N C st"
  shows "cur \<noteq> snap" "finite (N cur)" "finite (N snap)" "N cur \<inter> N snap = {}" "NULL \<notin> N cur" "NULL \<notin> N snap"
    "NULL \<notin> C" "b \<in> N cur \<Longrightarrow> am_allocator (am st b) \<in> C" "b \<in> N snap \<Longrightarrow> am_allocator (am st b) \<in> C"
    "inj_on (usr_of st) (N cur)" "inj_on (usr_of st) (N snap)"
  using assms by (simp_all add: cancel_ok_def)

lemma offset_invD:
  assumes "offset_inv cur snap N F C st0 U S todo (v, st)"
  defines "T \<equiv> get_alloc_memblk_from_memptr ` set todo"
  shows "tables_ok (N(cur := U \<union> T, snap := S)) (in_hand v) F {} C st"
    "distinct todo" "U \<inter> T = {}" "U \<union> T \<subseteq> N cur" "S \<subseteq> N snap"
    "ov_prev_current v = ov_prev_snapshot v \<longrightarrow> ov_prev_current v = NULL"
    "only_links st0 st" "grouped C st (U \<union> T) S" "ov_current v = of_nat (card (U \<union> T))" "ov_snapshot v = of_nat (card S)"
    "keys st0 S = keys st0 (N snap) - keys st0 (N cur - T)" "keys st0 U = keys st0 (N cur - T) - keys st0 (N snap)"
  using assms by (simp_all add: offset_inv_def Let_def)

lemma offset_invI:
  assumes "T = get_alloc_memblk_from_memptr ` set todo" "tables_ok (N(cur := U \<union> T, snap := S)) (in_hand v) F {} C st"
    "distinct todo" "U \<inter> T = {}" "U \<union> T \<subseteq> N cur" "S \<subseteq> N snap"
    "ov_prev_current v = ov_prev_snapshot v \<longrightarrow> ov_prev_current v = NULL"
    "only_links st0 st" "grouped C st (U \<union> T) S" "ov_current v = of_nat (card (U \<union> T))" "ov_snapshot v = of_nat (card S)"
    "keys st0 S = keys st0 (N snap) - keys st0 (N cur - T)" "keys st0 U = keys st0 (N cur - T) - keys st0 (N snap)"
  shows "offset_inv cur snap N F C st0 U S todo (v, st)"
  using assms by (simp add: offset_inv_def Let_def)

section \<open>Taking the two blocks out of their tables\<close>

lemma remove_ptr_at:
  assumes ok: "tables_ok N X F Y C st" and b: "b \<in> N i" and inj: "inj_on (usr_of st) (N i)"
  shows "\<exists>h t. remove_ptr i (usr_of st b) st = Some (memptr_of b, st\<lparr>amp := h, ptr_tbls := t\<rparr>) \<and>
     tables_ok (N(i := N i - {b})) (insert b X) F Y C (st\<lparr>amp := h, ptr_tbls := t\<rparr>) \<and>
     (\<forall>m. mp_ptr (h m) = mp_ptr (amp st m)) \<and> memptr_of b \<noteq> NULL"
proof (cases rule: remove_ptr_ok [OF ok, of i "usr_of st b"])
  case 1
  then show ?thesis using b by blast
next
  case (2 b' h t)
  then have "b' = b" using inj b by (simp add: inj_on_eq_iff)
  then show ?thesis using 2 by blast
qed

lemma remove_pair:
  assumes ok: "tables_ok N {} F {} C st" and cs: "cur \<noteq> snap" and s: "s \<in> N snap" and b: "b \<in> N cur"
    and inj: "inj_on (usr_of st) (N cur)" "inj_on (usr_of st) (N snap)"
    and ns: "\<And>m. m \<in> set ns \<Longrightarrow> get_alloc_memblk_from_memptr m \<notin> N snap"
  shows "\<exists>st1 st2. remove_ptr snap (usr_of st s) st = Some (memptr_of s, st1) \<and>
     remove_ptr cur (usr_of st1 b) st1 = Some (memptr_of b, st2) \<and>
     tables_ok (N(snap := N snap - {s}, cur := N cur - {b})) {b, s} F {} C st2 \<and>
     only_links st st2 \<and> am st2 = am st \<and> csh st2 = csh st \<and> takes_out cur ns (memptr_of b) st st2"
proof -
  have at: "memptr_of ` N snap \<inter> set ns = {}" using ns by force
  note T0 = tables_okD(2) [OF ok, of snap]
  from remove_ptr_at [OF ok s inj(2)] obtain h t where
    1: "remove_ptr snap (usr_of st s) st = Some (memptr_of s, st\<lparr>amp := h, ptr_tbls := t\<rparr>)"
      "tables_ok (N(snap := N snap - {s})) {s} F {} C (st\<lparr>amp := h, ptr_tbls := t\<rparr>)"
      "\<And>m. mp_ptr (h m) = mp_ptr (amp st m)" "memptr_of s \<noteq> NULL"
    by blast
  let ?st1 = "st\<lparr>amp := h, ptr_tbls := t\<rparr>" and ?N1 = "N(snap := N snap - {s})"
  note R1 = remove_ptr_takes_out [OF T0 1(1,4)]
  have u1: "usr_of ?st1 = usr_of st" using 1(3) by (simp add: usr_of_def fun_eq_iff)
  note T1 = tables_okD(2) [OF 1(2), of cur]
  have b1: "b \<in> ?N1 cur" "inj_on (usr_of ?st1) (?N1 cur)" using b cs inj(1) u1 by simp_all
  from remove_ptr_at [OF 1(2) b1] obtain h2 t2 where
    2: "remove_ptr cur (usr_of ?st1 b) ?st1 = Some (memptr_of b, ?st1\<lparr>amp := h2, ptr_tbls := t2\<rparr>)"
      "tables_ok (?N1(cur := ?N1 cur - {b})) {b, s} F {} C (?st1\<lparr>amp := h2, ptr_tbls := t2\<rparr>)"
      "\<And>m. mp_ptr (h2 m) = mp_ptr (amp ?st1 m)" "memptr_of b \<noteq> NULL"
    by blast
  let ?st2 = "?st1\<lparr>amp := h2, ptr_tbls := t2\<rparr>"
  note R2 = remove_ptr_takes_out [OF T1 2(1,4)]
  have ol: "only_links st ?st2"
    by (rule only_links_trans [OF only_links_remove [OF 1(1)] only_links_remove [OF 2(1)]]) (use 1(3) 2(3) in simp_all)
  have same: "amp ?st1 m = amp st m" if "m \<in> set ns" for m using R1(4) [of m] at that by auto
  have hash: "node_hash ?st1 m = node_hash st m" "node_hash ?st2 m = node_hash st m" for m using 1(3) 2(3) by simp_all
  have "takes_out cur ns (memptr_of b) st ?st2"
    unfolding takes_out_def
  proof (intro conjI ballI allI impI)
    fix m assume m: "m \<in> set ns" and d: "mp_hash_next (amp ?st2 m) \<noteq> mp_hash_next (amp st m)"
    then have d1: "mp_hash_next (amp ?st2 m) \<noteq> mp_hash_next (amp ?st1 m)" using same by simp
    then have "m \<in> memptr_of ` ?N1 cur" using R2(4) [of m] by metis
    from R2(1) [OF this d1] show "mp_hash_next (amp st m) = memptr_of b" "node_hash st m = node_hash st (memptr_of b)"
      using same [OF m] hash by simp_all
  next
    fix j assume "j \<noteq> node_hash st (memptr_of b)"
    then show "ptr_tbls ?st2 cur j = ptr_tbls st cur j" using R2(2) [of j] R1(3) [of cur] cs hash by simp
  next
    fix m assume "m \<in> set ns" show "node_hash ?st2 m = node_hash st m" by (rule hash(2))
  qed
  then show ?thesis using 1(1) 2(1,2) cs ol by (intro exI [of _ ?st1] exI [of _ ?st2]) (simp add: fun_upd_twist)
qed

section \<open>One step of the loop\<close>

lemma takes_out_same: "amp s1 = amp st \<Longrightarrow> ptr_tbls s1 = ptr_tbls st \<Longrightarrow> takes_out i ns n s1 s2 = takes_out i ns n st s2"
  "amp s3 = amp s2 \<Longrightarrow> ptr_tbls s3 = ptr_tbls s2 \<Longrightarrow> takes_out i ns n st s3 = takes_out i ns n st s2"
  by (simp_all add: takes_out_def)

lemma takes_out_nothing [simp]: "takes_out i ns n st st"
  by (simp add: takes_out_def)

text \<open>Without a partner the block stays, with one both leave and are in hand.\<close>

lemma step_without:
  assumes inv: "tables_ok (N(cur := U \<union> insert b T', snap := S)) {} F {} C st" "only_links st0 st"
      "grouped C st (U \<union> insert b T') S" and ck: "cancel_ok cur snap N C st0"
    and T': "T' = get_alloc_memblk_from_memptr ` set todo" "distinct todo" "b \<notin> T'" "U \<inter> insert b T' = {}"
      "U \<union> insert b T' \<subseteq> N cur" "S \<subseteq> N snap"
    and v: "ov_current v = of_nat (card (U \<union> insert b T'))" "ov_snapshot v = of_nat (card S)"
    and k: "keys st0 S = keys st0 (N snap) - keys st0 (N cur - insert b T')"
      "keys st0 U = keys st0 (N cur - insert b T') - keys st0 (N snap)" "block_key st0 b \<notin># keys st0 S"
  shows "offset_inv cur snap N F C st0 (insert b U) S todo (v\<lparr>ov_prev_current := NULL, ov_prev_snapshot := NULL\<rparr>, st)"
proof -
  note K = cancel_okD [OF ck]
  have U: "insert b U \<union> T' = U \<union> insert b T'" by simp
  have fin: "finite (N cur - insert b T')" "finite U" "b \<notin> U" "b \<in> N cur"
    using K(2) T'(4,5) by (auto intro: finite_subset)
  have d: "N cur - T' = insert b (N cur - insert b T')" using fin(4) T'(3) by auto
  note um = add_unmatched [OF k(3) [unfolded k(1)]]
  show ?thesis
  proof (rule offset_invI [OF T'(1)], goal_cases)
    case 1 show ?case unfolding U using inv(1) by (simp add: in_hand_def)
  next
    case 11 then show ?case using um(1) fin(1) k(1) d by simp
  next
    case 12 then show ?case using um(2) fin k(2) d by simp
  qed (use inv T' U v in \<open>simp_all, auto?\<close>)
qed

lemma step_with:
  assumes inv: "tables_ok (N(cur := U \<union> insert b T', snap := S)) {} F {} C st" "only_links st0 st"
      "grouped C st (U \<union> insert b T') S" and ck: "cancel_ok cur snap N C st0"
    and T': "T' = get_alloc_memblk_from_memptr ` set todo" "distinct todo" "b \<notin> T'" "U \<inter> insert b T' = {}"
      "U \<union> insert b T' \<subseteq> N cur" "S \<subseteq> N snap"
    and v: "ov_current v = of_nat (card (U \<union> insert b T'))" "ov_snapshot v = of_nat (card S)"
    and k: "keys st0 S = keys st0 (N snap) - keys st0 (N cur - insert b T')"
      "keys st0 U = keys st0 (N cur - insert b T') - keys st0 (N snap)"
    and s: "s \<in> S" "block_key st0 s = block_key st0 b" and ns: "get_alloc_memblk_from_memptr ` set ns = N cur"
    and v': "v' = \<lparr>ov_current = ov_current v - 1, ov_snapshot = ov_snapshot v - 1,
                   ov_prev_current = b, ov_prev_snapshot = s\<rparr>"
  shows "\<exists>st1 st2 st3 st4. remove_ptr snap (usr_of st s) st = Some (memptr_of s, st1) \<and>
     remove_ptr cur (usr_of st1 b) st1 = Some (memptr_of b, st2) \<and>
     mc_unlink_memblk_from_callstack s (am_allocator (am st2 s)) LINK_SNAPSHOT st2 = Some st3 \<and>
     mc_unlink_memblk_from_callstack b (am_allocator (am st3 b)) LINK_CURRENT st3 = Some st4 \<and>
     offset_inv cur snap N F C st0 U (S - {s}) todo (v', st4) \<and> takes_out cur ns (memptr_of b) st st4"
proof -
  note K = cancel_okD [OF ck]
  let ?N = "N(cur := U \<union> insert b T', snap := S)"
  have mem: "s \<in> N snap" "b \<in> N cur" "b \<notin> U" using s T' by auto
  have fin: "finite (N cur - insert b T')" "finite U" "finite S" "finite (U \<union> insert b T')"
    using K(2,3) T'(5,6) by (auto intro: finite_subset)
  note O = only_links_simps [OF inv(2)]
  have "\<exists>st1 st2. remove_ptr snap (usr_of st s) st = Some (memptr_of s, st1) \<and>
     remove_ptr cur (usr_of st1 b) st1 = Some (memptr_of b, st2) \<and>
     tables_ok (?N(snap := ?N snap - {s}, cur := ?N cur - {b})) {b, s} F {} C st2 \<and>
     only_links st st2 \<and> am st2 = am st \<and> csh st2 = csh st \<and> takes_out cur ns (memptr_of b) st st2"
  proof (rule remove_pair [OF inv(1) K(1)])
    show "inj_on (usr_of st) (?N cur)" "inj_on (usr_of st) (?N snap)"
      using K(1) inj_on_subset [OF K(10) T'(5)] inj_on_subset [OF K(11) T'(6)] O(16)
      by (simp_all del: Un_insert_right)
    show "get_alloc_memblk_from_memptr m \<notin> ?N snap" if "m \<in> set ns" for m
    proof -
      have "get_alloc_memblk_from_memptr m \<in> N cur" using that ns by blast
      then show ?thesis using K(4) T'(6) by auto
    qed
  qed (use s K(1) in simp_all)
  then obtain st1 st2 where r: "remove_ptr snap (usr_of st s) st = Some (memptr_of s, st1)"
     "remove_ptr cur (usr_of st1 b) st1 = Some (memptr_of b, st2)"
     "tables_ok (?N(snap := ?N snap - {s}, cur := ?N cur - {b})) {b, s} F {} C st2"
     "only_links st st2" "am st2 = am st" "csh st2 = csh st" "takes_out cur ns (memptr_of b) st st2" by blast
  have set: "?N(snap := ?N snap - {s}, cur := ?N cur - {b}) = N(cur := U \<union> T', snap := S - {s})"
    using K(1) mem(3) T'(3) by (auto simp: fun_eq_iff)
  have len: "\<forall>c\<in>C. length (cs_group_next (csh st2 c)) = LINK_MAX"
    using tables_okD(11) [OF r(3)] by (simp add: trace_ok_def)
  have g: "grouped C st2 (U \<union> insert b T') S" using inv(3) by (subst grouped_same [OF r(5,6)])
  have al: "am_allocator (am st2 s) \<in> C" "am_allocator (am st2 b) \<in> C"
    using K(8,9) mem r(5) O(18) by simp_all
  have bA: "b \<in> U \<union> insert b T'" by simp
  from grouped_unlink [OF g K(7) len s(1) al(1) bA al(2)] obtain st3 st4 where
    u: "mc_unlink_memblk_from_callstack s (am_allocator (am st2 s)) LINK_SNAPSHOT st2 = Some st3"
       "mc_unlink_memblk_from_callstack b (am_allocator (am st3 b)) LINK_CURRENT st3 = Some st4"
       "only_groups st2 st4" "grouped C st4 (U \<union> insert b T' - {b}) (S - {s})" by blast
  have eqs: "U \<union> insert b T' - {b} = U \<union> T'" "N cur - T' = insert b (N cur - insert b T')"
    using mem(2,3) T'(3) by auto
  have "block_key st0 b \<in># keys st0 S" using s fin(3) by (auto simp: in_keys)
  note ma = add_matched [OF this [unfolded k(1)]]
  have nn: "b \<noteq> NULL" "s \<noteq> NULL" "b \<noteq> s" using mem K(4,5,6) by auto
  have "offset_inv cur snap N F C st0 U (S - {s}) todo (v', st4)"
  proof (rule offset_invI [OF T'(1)], goal_cases)
    case 1
    have "in_hand v' = {b, s}" using nn by (simp add: in_hand_def v' insert_Diff_if)
    then show ?case using tables_ok_only_groups [OF u(3) r(3)] unfolding set by simp
  next
    case 7 show ?case
      by (rule only_links_trans [OF inv(2) only_links_trans [OF r(4) only_links_groups [OF u(3)]]])
  next
    case 8 then show ?case using u(4) eqs(1) by simp
  next
    case 9 then show ?case using of_nat_card_remove [OF fin(4), of b] v(1) eqs(1) by (simp add: v')
  next
    case 10 then show ?case using of_nat_card_remove [OF fin(3) s(1)] v(2) by (simp add: v')
  next
    case 11 then show ?case using ma(1) fin(1,3) k(1) eqs(2) s by (simp add: keys_remove)
  next
    case 12 then show ?case using ma(2) fin(1) k(2) eqs(2) by simp
  qed (use T' nn v' in auto)
  moreover have "takes_out cur ns (memptr_of b) st st4"
    using r(7) takes_out_same(2) [OF only_groups_simps(2,5) [OF u(3)]] by simp
  ultimately show ?thesis using r(1,2) u(1,2) by blast
qed

lemma offset_step:
  assumes inv: "offset_inv cur snap N F C st0 U S (n # todo) (v, st)" and ck: "cancel_ok cur snap N C st0"
    and ns: "get_alloc_memblk_from_memptr ` set ns = N cur"
  shows "\<exists>s' U' S'. offset_body cur snap n (v, st) = Some (Next s') \<and>
     offset_inv cur snap N F C st0 U' S' todo s' \<and> takes_out cur ns n st (snd s')"
proof -
  define b where "b = get_alloc_memblk_from_memptr n"
  define T' where "T' = get_alloc_memblk_from_memptr ` set todo"
  have n: "n = memptr_of b" by (simp add: b_def)
  note I = offset_invD [OF inv, unfolded list.set image_insert, folded b_def T'_def]
  note K = cancel_okD [OF ck]
  define s1 where "s1 = free_alloc_memblk_if_not_null (ov_prev_current v) (free_alloc_memblk_if_not_null (ov_prev_snapshot v) st)"
  note R = release_in_hand [OF I(1,6), folded s1_def]
  note O1 = only_links_trans [OF I(7) R(2)]
  have g: "grouped C s1 (U \<union> insert b T') S" using I(8) by (subst grouped_same [OF R(5,6)]) simp
  have bT: "b \<notin> T'" using I(2) by (auto simp: T'_def b_def dest: arg_cong [where f = memptr_of])
  have sets: "U \<inter> insert b T' = {}" "U \<union> insert b T' \<subseteq> N cur" "b \<in> N cur" using I(3,4) by auto
  have al: "am_allocator (am s1 x) = am_allocator (am st0 x)" for x using only_links_simps(18) [OF O1] .
  have key: "block_key s1 = block_key st0" "usr_of s1 = usr_of st0" using only_links_simps(16,23) [OF O1] by auto
  obtain G where G: "groups_ok C s1 G"
    "\<And>c. c \<in> C \<Longrightarrow> set (G LINK_SNAPSHOT c) = {x \<in> S. am_allocator (am s1 x) = c}"
    using g unfolding grouped_def by blast
  let ?N = "N(cur := U \<union> insert b T', snap := S)"
  have snapN: "?N snap = S" by simp
  have "\<exists>r. find_snapshot_alloc_memptr_for_current_memptr snap (memptr_of b) s1 = Some r \<and>
     (r = NULL \<and> (\<forall>s\<in>?N snap. block_key s1 s \<noteq> block_key s1 b) \<or>
      (\<exists>s\<in>?N snap. r = memptr_of s \<and> r \<noteq> NULL \<and> block_key s1 s = block_key s1 b))"
  proof (rule find_snapshot_ok [OF R(1) G(1)])
    show "set (G LINK_SNAPSHOT c) = {x \<in> ?N snap. am_allocator (am s1 x) = c}" if "c \<in> C" for c
      using G(2) [OF that] by simp
    show "am_allocator (am s1 b) \<in> C" "\<forall>x\<in>?N snap. am_allocator (am s1 x) \<in> C"
      using K(8,9) al sets I(5) by auto
  qed
  then obtain r where r: "find_snapshot_alloc_memptr_for_current_memptr snap n s1 = Some r"
    "r = NULL \<and> (\<forall>s\<in>S. block_key st0 s \<noteq> block_key st0 b) \<or>
     (\<exists>s\<in>S. r = memptr_of s \<and> r \<noteq> NULL \<and> block_key st0 s = block_key st0 b)"
    unfolding n key(1) snapN by blast
  have out: "takes_out cur ns n st s2 = takes_out cur ns n s1 s2" for s2
    by (rule takes_out_same(1) [OF R(3,4), symmetric])
  have body: "offset_body cur snap n (v, st) =
     (if r \<noteq> NULL then do {
           (x, st) \<leftarrow> remove_ptr snap (mp_ptr (amp s1 r)) s1;
           (x, st) \<leftarrow> remove_ptr cur (mp_ptr (amp st n)) st;
           st \<leftarrow> mc_unlink_memblk_from_callstack (get_alloc_memblk_from_memptr r)
                  (am_allocator (am st (get_alloc_memblk_from_memptr r))) LINK_SNAPSHOT st;
           st \<leftarrow> mc_unlink_memblk_from_callstack b (am_allocator (am st b)) LINK_CURRENT st;
           Some (Next (\<lparr>ov_current = ov_current v - 1, ov_snapshot = ov_snapshot v - 1,
                        ov_prev_current = b, ov_prev_snapshot = get_alloc_memblk_from_memptr r\<rparr>, st))
         } else Some (Next (v\<lparr>ov_prev_current := NULL, ov_prev_snapshot := NULL\<rparr>, s1)))"
    using r(1) by (simp add: offset_body_def s1_def Let_def b_def)
  have fS: "finite S" using K(3) I(5) by (rule finite_subset [rotated])
  from r(2) show ?thesis
  proof (elim disjE conjE bexE)
    assume no: "r = NULL" "\<forall>s\<in>S. block_key st0 s \<noteq> block_key st0 b"
    have none: "block_key st0 b \<notin># keys st0 S" using no(2) fS by (auto simp: in_keys)
    have "offset_inv cur snap N F C st0 (insert b U) S todo (v\<lparr>ov_prev_current := NULL, ov_prev_snapshot := NULL\<rparr>, s1)"
      by (rule step_without [OF R(1) O1 g ck T'_def _ bT sets(1,2) I(5,9-12) none]) (use I(2) in simp)
    then show ?thesis using body no(1) out by auto
  next
    fix s assume s: "s \<in> S" "r = memptr_of s" "r \<noteq> NULL" "block_key st0 s = block_key st0 b"
    have "\<exists>st1 st2 st3 st4. remove_ptr snap (usr_of s1 s) s1 = Some (memptr_of s, st1) \<and>
       remove_ptr cur (usr_of st1 b) st1 = Some (memptr_of b, st2) \<and>
       mc_unlink_memblk_from_callstack s (am_allocator (am st2 s)) LINK_SNAPSHOT st2 = Some st3 \<and>
       mc_unlink_memblk_from_callstack b (am_allocator (am st3 b)) LINK_CURRENT st3 = Some st4 \<and>
       offset_inv cur snap N F C st0 U (S - {s}) todo (\<lparr>ov_current = ov_current v - 1, ov_snapshot = ov_snapshot v - 1,
                        ov_prev_current = b, ov_prev_snapshot = s\<rparr>, st4) \<and>
       takes_out cur ns (memptr_of b) s1 st4"
      by (rule step_with [OF R(1) O1 g ck T'_def _ bT sets(1,2) I(5,9-12) s(1,4) ns refl]) (use I(2) in simp)
    then obtain st4 where st4: "offset_body cur snap n (v, st) = Some (Next (\<lparr>ov_current = ov_current v - 1,
        ov_snapshot = ov_snapshot v - 1, ov_prev_current = b, ov_prev_snapshot = s\<rparr>, st4))"
      "offset_inv cur snap N F C st0 U (S - {s}) todo (\<lparr>ov_current = ov_current v - 1, ov_snapshot = ov_snapshot v - 1,
                        ov_prev_current = b, ov_prev_snapshot = s\<rparr>, st4)"
      "takes_out cur ns (memptr_of b) s1 st4"
      using body s(2,3) by (auto simp: usr_of_def n)
    then show ?thesis unfolding out by (metis n snd_conv)
  qed
qed

section \<open>The whole loop\<close>

theorem offset_ok:
  assumes ok: "tables_ok N {} F {} C st" and ck: "cancel_ok cur snap N C st" and g: "grouped C st (N cur) (N snap)"
  shows "\<exists>U S st'. offset_snapshot_against_current_alloc_memblk cur snap st = Some ((of_nat (card U), of_nat (card S)), st') \<and>
     tables_ok (N(cur := U, snap := S)) {} F {} C st' \<and> U \<subseteq> N cur \<and> S \<subseteq> N snap \<and>
     keys st U = keys st (N cur) - keys st (N snap) \<and> keys st S = keys st (N snap) - keys st (N cur) \<and>
     only_links st st' \<and> grouped C st' U S"
proof -
  note K = cancel_okD [OF ck]
  obtain ns where ns: "listed cur st ns" "distinct ns" "set ns = memptr_of ` N cur" using listed_exists [OF tables_okD(2) [OF ok]] by metis
  obtain ms where ms: "listed snap st ms" "distinct ms" "set ms = memptr_of ` N snap" using listed_exists [OF tables_okD(2) [OF ok]] by metis
  have len: "length ns = card (N cur)" "length ms = card (N snap)"
    using ns(2,3) ms(2,3) by (metis distinct_card card_image inj_memptr_of)+
  have img: "get_alloc_memblk_from_memptr ` set ns = N cur" by (simp add: ns(3) image_image)
  let ?v = "\<lparr>ov_current = of_nat (length ns), ov_snapshot = of_nat (length ms), ov_prev_current = NULL, ov_prev_snapshot = NULL\<rparr>"
  have e: "N(cur := N cur, snap := N snap) = N" by (simp add: fun_eq_iff)
  have start: "offset_inv cur snap N F C st {} (N snap) ns (?v, st)"
    by (rule offset_invI [where T = "N cur"]) (use ok img ns(2) len g in \<open>simp_all add: in_hand_def keys_def e\<close>)
  let ?I = "\<lambda>todo s. \<exists>U S. offset_inv cur snap N F C st U S todo s"
  have "\<exists>s'. for_each_hashnode (\<lambda>s m. mp_hash_next (amp (snd s) m)) (\<lambda>s. ptr_tbls (snd s) cur)
          ALLOC_MEMPTR_HASHTABLE_SIZE (offset_body cur snap) (?v, st) = Some (Next s') \<and> ?I [] s'"
  proof (rule for_each_seq)
    show "listed cur (snd (?v, st)) ns" using ns(1) by simp
    show "?I ns (?v, st)" using start by blast
    show "\<exists>s'. offset_body cur snap n s = Some (Next s') \<and> ?I todo s' \<and> takes_out cur ns n (snd s) (snd s')"
      if "n \<in> set ns" "?I (n # todo) s" for n todo s
      using offset_step [OF _ ck img, of F _ _ n todo "fst s" "snd s"] that(2) by fastforce
  qed
  then obtain v s U S where run: "for_each_hashnode (\<lambda>s m. mp_hash_next (amp (snd s) m)) (\<lambda>s. ptr_tbls (snd s) cur)
          ALLOC_MEMPTR_HASHTABLE_SIZE (offset_body cur snap) (?v, st) = Some (Next (v, s))"
    and inv: "offset_inv cur snap N F C st U S [] (v, s)" by (metis surj_pair)
  let ?s = "free_alloc_memblk_if_not_null (ov_prev_current v) (free_alloc_memblk_if_not_null (ov_prev_snapshot v) s)"
  note I = offset_invD [OF inv, unfolded list.set image_empty Un_empty_right Diff_empty]
  note R = release_in_hand [OF I(1,6)]
  have "offset_snapshot_against_current_alloc_memblk cur snap st = Some ((ov_current v, ov_snapshot v), ?s)"
    using run count_nodes_ok [OF ns(1)] count_nodes_ok [OF ms(1)]
    by (simp add: offset_snapshot_against_current_alloc_memblk_def case_prod_beta' Let_def)
  moreover have "grouped C ?s U S" using I(8) by (subst grouped_same [OF R(5,6)]) simp
  ultimately show ?thesis
    using I(4,5,9,10,11,12) R(1) only_links_trans [OF I(7) R(2)]
    by (intro exI [of _ U] exI [of _ S] exI [of _ ?s]) simp
qed

end
