(* ===== verification/MC_Difference.thy ===== *)
theory MC_Difference
  imports MC_Cancel
begin

text \<open>
  The comparison of two tables up to its report: linking the blocks of both to their call stacks,
  cancelling what they have in common, and in the end emptying the groups.
\<close>

section \<open>Linking the blocks of a table\<close>

text \<open>No block is linked to a call stack.\<close>

definition ungrouped :: "addr set \<Rightarrow> mc \<Rightarrow> bool" where
  "ungrouped C st \<longleftrightarrow> (\<forall>l. \<forall>c\<in>C. group_head l c st = NULL)"

lemma ungrouped_groups: "ungrouped C st \<Longrightarrow> groups_ok C st (\<lambda>l c. [])"
  by (simp add: ungrouped_def groups_ok_def)

abbreviation link_body :: "link_index \<Rightarrow> addr \<Rightarrow> mc \<Rightarrow> (unit, mc) flow option" where
  "link_body l \<equiv> \<lambda>memptr st. let b = get_alloc_memblk_from_memptr memptr in
     fall_through (mc_link_memblk_to_callstack b (am_allocator (am st b)) l st)"

text \<open>Linking the blocks \<open>bs\<close> to a grouping where \<open>B\<close> are linked through \<open>l\<close>.\<close>

definition linked_through :: "addr set \<Rightarrow> mc \<Rightarrow> link_index \<Rightarrow> addr set \<Rightarrow> (link_index \<Rightarrow> addr \<Rightarrow> addr list) \<Rightarrow> bool" where
  "linked_through C st l B G \<longleftrightarrow> (\<forall>c\<in>C. set (G l c) = {b \<in> B. am_allocator (am st b) = c})"

lemma link_fold:
  assumes "groups_ok C st G" "linked_through C st l B G"
    and "\<forall>b\<in>set bs. b \<noteq> NULL \<and> am_allocator (am st b) \<in> C" "NULL \<notin> C"
    and "\<forall>c\<in>C. length (cs_group_next (csh st c)) = LINK_MAX"
    and "distinct bs" "B \<inter> set bs = {}" "\<forall>l' c. l' \<noteq> l \<longrightarrow> c \<in> C \<longrightarrow> set (G l' c) \<inter> set bs = {}"
  shows "\<exists>st' G'. fold_flow (link_body l) (map memptr_of bs) st = Some (Next st') \<and> only_groups st st' \<and>
     groups_ok C st' G' \<and> linked_through C st' l (B \<union> set bs) G' \<and> (\<forall>l'. l' \<noteq> l \<longrightarrow> G' l' = G l')"
  using assms
proof (induction bs arbitrary: st G B)
  case Nil
  then show ?case by auto
next
  case (Cons b bs)
  let ?c = "am_allocator (am st b)"
  have c: "?c \<in> C" "?c \<noteq> NULL" "length (cs_group_next (csh st ?c)) = LINK_MAX" "b \<noteq> NULL"
    using Cons.prems(3,4,5) by auto
  have new: "b \<notin> set (G l' c)" if "c \<in> C" for l' c
    using Cons.prems(2,7,8) that by (cases "l' = l") (auto simp: linked_through_def)
  from link_ok [OF Cons.prems(1) c new] obtain s where
    s: "mc_link_memblk_to_callstack b ?c l st = Some s" "only_groups st s"
      "groups_ok C s (G(l := (G l)(?c := b # G l ?c)))" by blast
  let ?G = "G(l := (G l)(?c := b # G l ?c))"
  note O = only_groups_simps [OF s(2)]
  have lt: "linked_through C s l (insert b B) ?G"
    using Cons.prems(2) c(1) O(25) by (auto simp: linked_through_def)
  have len: "\<forall>c\<in>C. length (cs_group_next (csh s c)) = LINK_MAX"
    using Cons.prems(5) only_links_simps(22) [OF only_links_groups [OF s(2)]] by simp
  have "\<exists>st' G'. fold_flow (link_body l) (map memptr_of bs) s = Some (Next st') \<and> only_groups s st' \<and>
     groups_ok C st' G' \<and> linked_through C st' l (insert b B \<union> set bs) G' \<and> (\<forall>l'. l' \<noteq> l \<longrightarrow> G' l' = ?G l')"
    by (rule Cons.IH [OF s(3) lt _ Cons.prems(4) len]) (use Cons.prems(3,6,7,8) O(25) in auto)
  then obtain st' G' where *: "fold_flow (link_body l) (map memptr_of bs) s = Some (Next st')" "only_groups s st'"
     "groups_ok C st' G'" "linked_through C st' l (insert b B \<union> set bs) G'" "\<forall>l'. l' \<noteq> l \<longrightarrow> G' l' = ?G l'" by blast
  have "fold_flow (link_body l) (map memptr_of (b # bs)) st = Some (Next st')"
    using s(1) *(1) by (simp add: fall_through_def)
  moreover have "only_groups st st'" by (rule only_groups_trans [OF s(2) *(2)])
  ultimately show ?case using *(3,4,5) by (intro exI [of _ st'] exI [of _ G']) simp
qed

lemma link_table_ok:
  assumes ok: "tables_ok N {} F {} C st" and G: "groups_ok C st G" "\<forall>c\<in>C. G l c = []"
    and c: "NULL \<notin> C" "\<forall>b\<in>N i. b \<noteq> NULL \<and> am_allocator (am st b) \<in> C"
    and new: "\<forall>l'. \<forall>c\<in>C. set (G l' c) \<inter> N i = {}"
  shows "\<exists>st' G'. mc_link_same_callstack_group i l st = Some st' \<and> only_groups st st' \<and>
     groups_ok C st' G' \<and> linked_through C st' l (N i) G' \<and> (\<forall>l'. l' \<noteq> l \<longrightarrow> G' l' = G l')"
proof -
  obtain ns where ns: "listed i st ns" "distinct ns" "set ns = memptr_of ` N i"
    using listed_exists [OF tables_okD(2) [OF ok, of i]] by metis
  define bs where "bs = map get_alloc_memblk_from_memptr ns"
  have nsb: "ns = map memptr_of bs" by (simp add: bs_def comp_def)
  have bs: "set bs = N i" "distinct bs"
    using ns(2,3) unfolding nsb by (auto simp: distinct_map inj_image_eq_iff inj_memptr_of)
  have len: "\<forall>c\<in>C. length (cs_group_next (csh st c)) = LINK_MAX"
    using tables_okD(11) [OF ok] by (simp add: trace_ok_def)
  have "\<exists>st' G'. fold_flow (link_body l) (map memptr_of bs) st = Some (Next st') \<and> only_groups st st' \<and>
     groups_ok C st' G' \<and> linked_through C st' l ({} \<union> set bs) G' \<and> (\<forall>l'. l' \<noteq> l \<longrightarrow> G' l' = G l')"
    by (rule link_fold [OF G(1)]) (use G(2) c new len bs in \<open>auto simp: linked_through_def\<close>)
  moreover have "each_alloc_memblk i (link_body l) st = fold_flow (link_body l) ns st"
    unfolding each_alloc_memblk_def
  proof (rule for_each_fold [where p = "\<lambda>s. s" and I = "\<lambda>s. True", OF ns(1) TrueI])
    fix n s s' assume "link_body l n s = Some (Next s')"
    then have "amp s' = amp s \<and> ptr_tbls s' = ptr_tbls s"
      by (auto simp: Let_def fall_through_def mc_link_memblk_to_callstack_def set_group_head_def upd_am_def upd_cs_def
          split: Option.bind_splits if_splits)
    then show "True \<and> (\<forall>m\<in>set ns. mp_hash_next (amp s' m) = mp_hash_next (amp s m)) \<and> ptr_tbls s' i = ptr_tbls s i" by simp
  qed
  ultimately show ?thesis
    unfolding mc_link_same_callstack_group_def nsb [symmetric] bs(1) by (auto simp: Un_empty_left)
qed

section \<open>Both tables linked\<close>

lemma link_both_ok:
  assumes ok: "tables_ok N {} F {} C st" and ck: "cancel_ok cur snap N C st" and u: "ungrouped C st"
  shows "\<exists>st1 st2. mc_link_same_callstack_group cur LINK_CURRENT st = Some st1 \<and>
     mc_link_same_callstack_group snap LINK_SNAPSHOT st1 = Some st2 \<and> only_groups st st2 \<and>
     grouped C st2 (N cur) (N snap)"
proof -
  note K = cancel_okD [OF ck]
  have "\<exists>st' G'. mc_link_same_callstack_group cur LINK_CURRENT st = Some st' \<and> only_groups st st' \<and>
     groups_ok C st' G' \<and> linked_through C st' LINK_CURRENT (N cur) G' \<and> (\<forall>l'. l' \<noteq> LINK_CURRENT \<longrightarrow> G' l' = (\<lambda>c. []))"
    by (rule link_table_ok [OF ok ungrouped_groups [OF u]]) (use K in auto)
  then obtain st1 G1 where 1: "mc_link_same_callstack_group cur LINK_CURRENT st = Some st1" "only_groups st st1"
     "groups_ok C st1 G1" "linked_through C st1 LINK_CURRENT (N cur) G1" "\<And>l'. l' \<noteq> LINK_CURRENT \<Longrightarrow> G1 l' = (\<lambda>c. [])"
    by blast
  note O = only_groups_simps [OF 1(2)]
  have disj: "\<forall>l'. \<forall>c\<in>C. set (G1 l' c) \<inter> N snap = {}"
  proof (intro allI ballI)
    fix l' c assume "c \<in> C"
    then show "set (G1 l' c) \<inter> N snap = {}"
      using 1(4,5) K(4) by (cases "l' = LINK_CURRENT") (auto simp: linked_through_def)
  qed
  have "\<exists>st' G'. mc_link_same_callstack_group snap LINK_SNAPSHOT st1 = Some st' \<and> only_groups st1 st' \<and>
     groups_ok C st' G' \<and> linked_through C st' LINK_SNAPSHOT (N snap) G' \<and> (\<forall>l'. l' \<noteq> LINK_SNAPSHOT \<longrightarrow> G' l' = G1 l')"
  proof (rule link_table_ok [OF tables_ok_only_groups [OF 1(2) ok] 1(3) _ K(7) _ disj])
    show "\<forall>c\<in>C. G1 LINK_SNAPSHOT c = []" using 1(5) [of LINK_SNAPSHOT] by simp
    show "\<forall>b\<in>N snap. b \<noteq> NULL \<and> am_allocator (am st1 b) \<in> C" using K(6,9) O(25) by auto
  qed
  then obtain st2 G2 where 2: "mc_link_same_callstack_group snap LINK_SNAPSHOT st1 = Some st2" "only_groups st1 st2"
     "groups_ok C st2 G2" "linked_through C st2 LINK_SNAPSHOT (N snap) G2" "\<And>l'. l' \<noteq> LINK_SNAPSHOT \<Longrightarrow> G2 l' = G1 l'"
    by blast
  have "linked_through C st2 LINK_CURRENT (N cur) G2"
    using 1(4) 2(5) [of LINK_CURRENT] only_groups_simps(25) [OF 2(2)] by (simp add: linked_through_def)
  then have "grouped C st2 (N cur) (N snap)" using 2(3,4) by (auto simp: grouped_def linked_through_def)
  then show ?thesis using 1(1) 2(1) only_groups_trans [OF 1(2) 2(2)] by blast
qed

section \<open>Emptying the groups\<close>

text \<open>\<open>mc_reset_same_callstack_group\<close> clears the heads of one kind of group and nothing else.\<close>

lemma reset_fold:
  assumes "\<forall>c\<in>set cs. length (cs_group_next (csh st c)) = LINK_MAX"
  shows "\<exists>st'. fold_flow (\<lambda>c st. fall_through (Some (set_group_head l c NULL st))) cs st = Some (Next st') \<and>
     only_groups st st' \<and> am st' = am st \<and>
     (\<forall>c\<in>set cs. group_head l c st' = NULL) \<and> (\<forall>l' c. l' \<noteq> l \<or> c \<notin> set cs \<longrightarrow> group_head l' c st' = group_head l' c st)"
  using assms
proof (induction cs arbitrary: st)
  case Nil
  then show ?case by simp
next
  case (Cons c cs)
  let ?s = "set_group_head l c NULL st"
  have og: "only_groups st ?s" by simp
  have hd: "group_head l' c' ?s = (if l' = l \<and> c' = c then NULL else group_head l' c' st)" for l' c'
    by (rule group_head_set) (use Cons.prems in simp)
  have "\<forall>c\<in>set cs. length (cs_group_next (csh ?s c)) = LINK_MAX"
    using Cons.prems only_links_simps(22) [OF only_links_groups [OF og]] by simp
  from Cons.IH [OF this] obtain st' where
    *: "fold_flow (\<lambda>c st. fall_through (Some (set_group_head l c NULL st))) cs ?s = Some (Next st')" "only_groups ?s st'"
      "am st' = am ?s" "\<forall>c\<in>set cs. group_head l c st' = NULL"
      "\<forall>l' c. l' \<noteq> l \<or> c \<notin> set cs \<longrightarrow> group_head l' c st' = group_head l' c ?s" by blast
  have "am ?s = am st" by (simp add: set_group_head_def upd_cs_def)
  moreover have "\<forall>x\<in>set (c # cs). group_head l x st' = NULL" using *(4,5) hd [of l] by (metis set_ConsD)
  moreover have "\<forall>l' x. l' \<noteq> l \<or> x \<notin> set (c # cs) \<longrightarrow> group_head l' x st' = group_head l' x st" using *(5) hd by simp
  ultimately show ?case
    using *(1,3) only_groups_trans [OF og *(2)] by (intro exI [of _ st']) (simp add: fall_through_def)
qed

lemma reset_ok:
  assumes ok: "tables_ok N X F Y C st"
  shows "\<exists>st'. mc_reset_same_callstack_group l st = Some st' \<and> only_groups st st' \<and> am st' = am st \<and>
     (\<forall>c\<in>C. group_head l c st' = NULL) \<and> (\<forall>l' c. l' \<noteq> l \<longrightarrow> group_head l' c st' = group_head l' c st)"
proof -
  let ?sz = CALLSTACK_HASHTABLE_SIZE
  obtain bs where bs: "buckets_ok (\<lambda>n. cs_hash_next (csh st n)) (\<lambda>n. trace_hash ?sz (cs_key (csh st n))) (cs_tbl st) ?sz bs"
    "C = nodes ?sz bs" using tables_okD(4) [OF ok] by (auto simp: cs_table_ok_def cs_table_def)
  have set: "set (node_list ?sz bs) = C" using bs(2) by simp
  have "each_callstack (\<lambda>c st. fall_through (Some (set_group_head l c NULL st))) st =
      fold_flow (\<lambda>c st. fall_through (Some (set_group_head l c NULL st))) (node_list ?sz bs) st"
    unfolding each_callstack_def
  proof (rule for_each_buckets [where nx = "\<lambda>s n. cs_hash_next (csh s n)" and heads = cs_tbl and I = "\<lambda>s. True", OF bs(1) TrueI])
    fix n s s' assume "fall_through (Some (set_group_head l n NULL s)) = Some (Next s')"
    then have og: "only_groups s s'" by (auto simp: fall_through_def)
    show "True \<and> (\<forall>m\<in>set (node_list ?sz bs). cs_hash_next (csh s' m) = cs_hash_next (csh s m)) \<and> cs_tbl s' = cs_tbl s"
      using only_groups_simps(7,24) [OF og] by simp
  qed
  moreover have "\<forall>c\<in>set (node_list ?sz bs). length (cs_group_next (csh st c)) = LINK_MAX"
    using tables_okD(11) [OF ok] set by (simp add: trace_ok_def)
  from reset_fold [OF this, of l] obtain st' where
    "fold_flow (\<lambda>c st. fall_through (Some (set_group_head l c NULL st))) (node_list ?sz bs) st = Some (Next st')"
     "only_groups st st'" "am st' = am st" "\<forall>c\<in>C. group_head l c st' = NULL"
     "\<forall>l' c. l' \<noteq> l \<or> c \<notin> C \<longrightarrow> group_head l' c st' = group_head l' c st" unfolding set by blast
  ultimately show ?thesis by (intro exI [of _ st']) (simp add: mc_reset_same_callstack_group_def)
qed

end
