(* ===== verification/MC_Compare.thy ===== *)
theory MC_Compare
  imports MC_Difference
begin

text \<open>
  The snapshot commands in terms of what the tables say: taking a snapshot copies the view of the
  live blocks, and the comparison of two tables leaves in each the blocks that the other lacks,
  counted by call stack and size.
\<close>

section \<open>Call stacks and sizes\<close>

definition table_pairs :: "table_id \<Rightarrow> mc \<Rightarrow> (addr \<times> size_t) multiset" where
  "table_pairs i st =
     image_mset (\<lambda>p. let (m, c) = the (table_view i st p) in (c, mb_usrsize m)) (mset_set (dom (table_view i st)))"

text \<open>Every block of the table has a call stack, and no call stack has a group.\<close>

definition all_traced :: "table_id \<Rightarrow> mc \<Rightarrow> bool" where
  "all_traced i st \<longleftrightarrow> (\<forall>e\<in>ran (table_view i st). snd e \<noteq> NULL)"

definition no_groups :: "mc \<Rightarrow> bool" where
  "no_groups st \<longleftrightarrow> (\<forall>l c. group_head l c st = NULL)"

lemma ungrouped_all: "no_groups st \<Longrightarrow> ungrouped C st"
  by (simp add: no_groups_def ungrouped_def)

lemma keys_table_pairs:
  assumes "tables_ok N X F Y C st" "inj_on (usr_of st) (N i)"
  shows "keys st (N i) = table_pairs i st"
proof -
  have "(let (m, c) = the (table_view i st (usr_of st b)) in (c, mb_usrsize m)) = block_key st b" if "b \<in> N i" for b
    using table_view_at [OF assms that] by (simp add: entry_of_def block_key_def)
  then have "image_mset (\<lambda>b. let (m, c) = the (table_view i st (usr_of st b)) in (c, mb_usrsize m)) (mset_set (N i)) = keys st (N i)"
    unfolding keys_def by (intro image_mset_cong) simp
  then show ?thesis
    using assms(2) by (simp add: table_pairs_def dom_table_view [OF assms] image_mset_mset_set [symmetric] multiset.map_comp comp_def)
qed

lemma all_traced_blocks:
  assumes "mc_inv N F C st" "all_traced i st" "b \<in> N i"
  shows "am_allocator (am st b) \<in> C"
proof -
  note I = mc_invD [OF assms(1)]
  have "inj_on (usr_of st) (N i)" using I(2) by (simp add: keys_ok_def)
  from table_view_at [OF I(1) this assms(3)] have "entry_of st b \<in> ran (table_view i st)" by (auto simp: ran_def)
  then have "am_allocator (am st b) \<noteq> NULL" using assms(2) by (auto simp: all_traced_def entry_of_def)
  then show ?thesis using I(4) assms(3) by (auto simp: owners_ok_def)
qed

lemma cancel_ok_traced:
  assumes inv: "mc_inv N F C st" and t: "all_traced cur st" "all_traced snap st" and ne: "cur \<noteq> snap"
  shows "cancel_ok cur snap N C st"
proof -
  note I = mc_invD [OF inv] and D = tables_okD [OF mc_invD(1) [OF inv]]
  have live: "N i \<subseteq> blk_live AllocMemblk (blk st)" for i using D(5) by auto
  have fin: "finite (N i)" for i by simp
  have nn: "NULL \<notin> N i" for i using live blk.live_nonnull [OF D(1)] by blast
  have "NULL \<notin> C" using blk.live_nonnull [OF D(1), of Callstack] D(10) by simp
  then show ?thesis
    using fin nn D(6) [OF ne] I(2) ne all_traced_blocks [OF inv t(1)] all_traced_blocks [OF inv t(2)]
    by (auto simp: cancel_ok_def keys_ok_def)
qed

section \<open>The difference of two tables\<close>

lemma compare_ok:
  assumes inv: "mc_inv N F C st" and ng: "ungrouped C st" and t: "all_traced cur st" "all_traced snap st"
    and ne: "cur \<noteq> snap" "cur \<noteq> Live" "snap \<noteq> Live"
  obtains st1 st2 st3 U S where "mc_link_same_callstack_group cur LINK_CURRENT st = Some st1"
    "mc_link_same_callstack_group snap LINK_SNAPSHOT st1 = Some st2"
    "offset_snapshot_against_current_alloc_memblk cur snap st2 = Some ((of_nat (card U), of_nat (card S)), st3)"
    "mc_inv (N(cur := U, snap := S)) F C st3" "U \<subseteq> N cur" "S \<subseteq> N snap" "only_links st st3"
    "keys st U = keys st (N cur) - keys st (N snap)" "keys st S = keys st (N snap) - keys st (N cur)" "grouped C st3 U S"
    "\<And>j. j \<noteq> cur \<Longrightarrow> j \<noteq> snap \<Longrightarrow> table_view j st3 = table_view j st"
proof -
  note I = mc_invD [OF inv]
  have ck: "cancel_ok cur snap N C st" by (rule cancel_ok_traced [OF inv t ne(1)])
  from link_both_ok [OF I(1) ck ng] obtain st1 st2 where
    l: "mc_link_same_callstack_group cur LINK_CURRENT st = Some st1"
       "mc_link_same_callstack_group snap LINK_SNAPSHOT st1 = Some st2" "only_groups st st2"
       "grouped C st2 (N cur) (N snap)" by blast
  note O = only_groups_simps [OF l(3)]
  have ck2: "cancel_ok cur snap N C st2" using ck O(15,25) by (simp add: cancel_ok_def)
  have key: "block_key st2 = block_key st" using only_links_simps(23) [OF only_links_groups [OF l(3)]] .
  from offset_ok [OF tables_ok_only_groups [OF l(3) I(1)] ck2 l(4)] obtain U S st3 where
    o: "offset_snapshot_against_current_alloc_memblk cur snap st2 = Some ((of_nat (card U), of_nat (card S)), st3)"
      "tables_ok (N(cur := U, snap := S)) {} F {} C st3" "U \<subseteq> N cur" "S \<subseteq> N snap"
      "keys st2 U = keys st2 (N cur) - keys st2 (N snap)" "keys st2 S = keys st2 (N snap) - keys st2 (N cur)"
      "only_links st2 st3" "grouped C st3 U S" by blast
  have ol: "only_links st st3" by (rule only_links_trans [OF only_links_groups [OF l(3)] o(7)])
  note P = only_links_simps [OF ol]
  have sub: "(N(cur := U, snap := S)) j \<subseteq> N j" for j using o(3,4) ne(1) by auto
  have "inj_on (usr_of st3) ((N(cur := U, snap := S)) j)" for j
    using I(2) P(16) inj_on_subset [OF _ sub] unfolding keys_ok_def by metis
  then have "keys_ok (N(cur := U, snap := S)) F st3"
    using I(2) P(10,16) ne(2,3) by (simp add: keys_ok_def)
  moreover have "queue_ok F st3" using I(3) P(11,12) by (simp add: queue_ok_def)
  moreover have "owners_ok (N(cur := U, snap := S)) F C st3"
    unfolding owners_ok_def
  proof (intro conjI allI ballI)
    fix j b assume "b \<in> (N(cur := U, snap := S)) j"
    then have "b \<in> N j" using sub by (rule subsetD [rotated])
    then show "am_allocator (am st3 b) \<in> insert NULL C" using I(4) P(18) by (simp add: owners_ok_def)
  qed (use I(4) P(2) in \<open>simp_all add: owners_ok_def\<close>)
  ultimately have inv3: "mc_inv (N(cur := U, snap := S)) F C st3" using o(2) by (simp add: mc_inv_def)
  have inj: "inj_on (usr_of st) (N j)" for j using I(2) by (simp add: keys_ok_def)
  have "table_view j st3 = table_view j st" if "j \<noteq> cur" "j \<noteq> snap" for j
    by (rule table_view_same [OF I(1) inj o(2)]) (use that P(16,17) in simp_all)
  then show ?thesis using inv3 that [OF l(1,2) o(1)] o(3-6,8) ol by (simp add: keys_def key)
qed

lemma table_view_sub:
  assumes st: "tables_ok N X F Y C st" "inj_on (usr_of st) (N i)"
    and st': "tables_ok N' X' F' Y' C' st'" "N' i \<subseteq> N i" "usr_of st' = usr_of st" "entry_of st' = entry_of st"
  shows "table_view i st' \<subseteq>\<^sub>m table_view i st"
proof -
  have inj: "inj_on (usr_of st') (N' i)" using inj_on_subset [OF st(2) st'(2)] st'(3) by simp
  show ?thesis
    unfolding map_le_def
  proof
    fix p assume "p \<in> dom (table_view i st')"
    then obtain b where b: "b \<in> N' i" "p = usr_of st' b" using dom_table_view [OF st'(1) inj] by auto
    then show "table_view i st' p = table_view i st p"
      using table_view_at [OF st'(1) inj b(1)] table_view_at [OF st, of b] st'(2-4) by auto
  qed
qed

lemma difference_ok:
  assumes ok: "mc_ok st" and ng: "no_groups st" and t: "all_traced cur st" "all_traced snap st"
    and ne: "cur \<noteq> snap" "cur \<noteq> Live" "snap \<noteq> Live"
  shows "\<exists>st1 st2 st3. mc_link_same_callstack_group cur LINK_CURRENT st = Some st1 \<and>
     mc_link_same_callstack_group snap LINK_SNAPSHOT st1 = Some st2 \<and>
     offset_snapshot_against_current_alloc_memblk cur snap st2 =
       Some ((of_nat (size (table_pairs cur st3)), of_nat (size (table_pairs snap st3))), st3) \<and>
     table_pairs cur st3 = table_pairs cur st - table_pairs snap st \<and>
     table_pairs snap st3 = table_pairs snap st - table_pairs cur st \<and>
     table_view cur st3 \<subseteq>\<^sub>m table_view cur st \<and> table_view snap st3 \<subseteq>\<^sub>m table_view snap st \<and>
     (\<forall>j. j \<noteq> cur \<longrightarrow> j \<noteq> snap \<longrightarrow> table_view j st3 = table_view j st) \<and>
     mc_ok st3 \<and> spec_of st3 = spec_of st \<and> log st3 = log st \<and> mem st3 = mem st"
proof -
  from ok obtain N F C where inv: "mc_inv N F C st" by (auto simp: mc_ok_def)
  obtain st1 st2 st3 U S where
    run: "mc_link_same_callstack_group cur LINK_CURRENT st = Some st1"
      "mc_link_same_callstack_group snap LINK_SNAPSHOT st1 = Some st2"
      "offset_snapshot_against_current_alloc_memblk cur snap st2 = Some ((of_nat (card U), of_nat (card S)), st3)"
    and inv3: "mc_inv (N(cur := U, snap := S)) F C st3" and sub: "U \<subseteq> N cur" "S \<subseteq> N snap" and ol: "only_links st st3"
    and k: "keys st U = keys st (N cur) - keys st (N snap)" "keys st S = keys st (N snap) - keys st (N cur)"
    and same: "\<And>j. j \<noteq> cur \<Longrightarrow> j \<noteq> snap \<Longrightarrow> table_view j st3 = table_view j st"
    by (rule compare_ok [OF inv ungrouped_all [OF ng] t ne]) (rule that)
  let ?N = "N(cur := U, snap := S)"
  note I = mc_invD [OF inv] and I3 = mc_invD [OF inv3] and P = only_links_simps [OF ol]
  have inj: "inj_on (usr_of st) (N j)" "inj_on (usr_of st3) (?N j)" for j using I(2) I3(2) by (simp_all add: keys_ok_def)
  have at: "?N cur = U" "?N snap = S" using ne(1) by simp_all
  have key: "keys st3 B = keys st B" for B by (simp add: keys_def P(23))
  have pairs: "table_pairs cur st3 = keys st U" "table_pairs snap st3 = keys st S"
    using keys_table_pairs [OF I3(1) inj(2), of cur] keys_table_pairs [OF I3(1) inj(2), of snap] ne(1) key by simp_all
  have old: "table_pairs j st = keys st (N j)" for j using keys_table_pairs [OF I(1) inj(1)] by simp
  have le: "table_view cur st3 \<subseteq>\<^sub>m table_view cur st" "table_view snap st3 \<subseteq>\<^sub>m table_view snap st"
    by (rule table_view_sub [OF I(1) inj(1) I3(1) _ P(16,17)], use sub at in simp)+
  have "live_view st3 = live_view st" using same [of Live] ne by (simp add: live_view_table fun_eq_iff)
  then have "spec_of st3 = spec_of st" using P(13) by (simp add: spec_of_def)
  moreover have "mc_ok st3" using inv3 by (auto simp: mc_ok_def)
  moreover have "card U = size (table_pairs cur st3)" "card S = size (table_pairs snap st3)"
    by (simp_all only: pairs size_keys)
  ultimately show ?thesis
    using run k le same P(5,6) pairs old
    by - (rule exI [of _ st1], rule exI [of _ st2], rule exI [of _ st3], simp)
qed

section \<open>Taking a snapshot\<close>

lemma create_snapshot_ok:
  assumes ok: "mc_ok st"
  shows "\<exists>rc st'. mc_create_snapshot st = Some (rc, st') \<and> (rc = 0 \<or> rc = - 1) \<and> mc_ok st' \<and> spec_of st' = spec_of st \<and>
     table_view Snapshot st' \<subseteq>\<^sub>m table_view Live st \<and> (rc = 0 \<longrightarrow> table_view Snapshot st' = table_view Live st) \<and>
     (\<forall>k. supplied (k + card (dom (live_view st))) st \<longrightarrow> rc = 0 \<and> supplied k st') \<and>
     csh st' = csh st \<and> table_view Live st' = table_view Live st \<and> log st' = log st \<and> mem st' = mem st"
proof -
  from ok obtain N F C where inv: "mc_inv N F C st" by (auto simp: mc_ok_def)
  have inj: "inj_on (usr_of st) (N Live)" using mc_invD(2) [OF inv] by (simp add: keys_ok_def)
  have card: "card (dom (live_view st)) = card (N Live)"
    using dom_table_view [OF mc_invD(1) [OF inv] inj] inj
    by (simp add: live_view_table dom_map_option_comp comp_def card_image dom_def)
  obtain s where s: "mc_destroy_all_alloc_memblk Snapshot st = Some s" "mc_inv (N(Snapshot := {})) F C s" "only_blocks st s"
    "\<And>j. j \<noteq> Snapshot \<Longrightarrow> table_view j s = table_view j st" "\<And>k. supplied k s = supplied k st"
    by (rule mc_destroy_ok [OF inv, of Snapshot]) simp_all
  have e: "(N(Snapshot := {})) Snapshot = {}" "Live \<noteq> Snapshot" "Snapshot \<noteq> Live" "(N(Snapshot := {})) Live = N Live" by simp_all
  obtain rc st' D where d: "mc_duplicate_all_alloc_memblk Snapshot Live s = Some (rc, st')" "rc = 0 \<or> rc = - 1"
    "mc_inv (N(Snapshot := {}, Snapshot := D)) F C st'" "only_blocks s st'"
    "\<And>j. j \<noteq> Snapshot \<Longrightarrow> table_view j st' = table_view j s"
    "rc = 0 \<Longrightarrow> table_view Snapshot st' = table_view Live s" "table_view Snapshot st' \<subseteq>\<^sub>m table_view Live s"
    "rc = 0 \<Longrightarrow> card D = card (N Live)" "\<And>k. supplied (k + card (N Live)) s \<Longrightarrow> rc = 0 \<and> supplied k st'"
    by (rule mc_duplicate_ok [OF s(2) e(1-3), unfolded e(4)]) (rule that)
  have "mc_create_snapshot st = Some (rc, st')" using s(1) d(1) by (simp add: mc_create_snapshot_def)
  moreover have ob: "only_blocks st st'" by (rule only_blocks_trans [OF s(3) d(4)])
  moreover have live: "table_view Live st' = table_view Live st" "table_view Live s = table_view Live st"
    using d(5) [of Live] s(4) [of Live] by simp_all
  moreover have "mc_ok st'" using d(3) unfolding mc_ok_def by blast
  ultimately show ?thesis
    using d(2,6,7,9) s(5) card spec_of_only_blocks [OF ob live(1)] only_blocks_simps(3,6,7) [OF ob]
    by (intro exI [of _ rc] exI [of _ st']) simp
qed

end
