(* ===== verification/MC_Hook.thy ===== *)
theory MC_Hook
  imports MC_Boot
begin

text \<open>
  The replacements of the C library's allocation functions, \<open>memchk_hook.c\<close>. Each wraps a call of
  the original function, adds the red zones and keeps the record of blocks. The original
  functions are the environment: \<open>libc_env\<close> holds what their coming calls answer.

  A function returns its result and the state. \<open>None\<close> includes the read of \<open>buf_to_be_freed\<close> in
  \<open>free\<close> when \<open>mc_unregister_memblk\<close> did not set it.
\<close>

section \<open>The original functions\<close>

definition libc :: "mc \<Rightarrow> libc_env" where
  "libc st = fs_libc (fmaps st)"

definition set_libc :: "libc_env \<Rightarrow> mc \<Rightarrow> mc" where
  "set_libc e st = st\<lparr>fmaps := (fmaps st)\<lparr>fs_libc := e\<rparr>\<rparr>"

definition mc_orig_malloc :: "size_t \<Rightarrow> mc \<Rightarrow> addr \<times> mc" where
  "mc_orig_malloc n st = (case orig_malloc n (libc st) of (p, e) \<Rightarrow> (p, set_libc e st))"

definition mc_orig_realloc :: "addr \<Rightarrow> size_t \<Rightarrow> mc \<Rightarrow> addr \<times> mc" where
  "mc_orig_realloc p n st = (case orig_realloc p n (libc st) of (q, e) \<Rightarrow> (q, set_libc e st))"

definition mc_orig_calloc :: "size_t \<Rightarrow> size_t \<Rightarrow> mc \<Rightarrow> addr \<times> mc" where
  "mc_orig_calloc k n st = (case orig_calloc k n (libc st) of (q, e) \<Rightarrow> (q, set_libc e st))"

definition mc_orig_free :: "addr \<Rightarrow> mc \<Rightarrow> mc" where
  "mc_orig_free p st = set_libc (orig_free p (libc st)) st"

text \<open>\<open>memcpy\<close> between areas that do not overlap.\<close>

definition memcpy :: "addr \<Rightarrow> addr \<Rightarrow> size_t \<Rightarrow> (addr \<Rightarrow> u8) \<Rightarrow> addr \<Rightarrow> u8" where
  "memcpy dest src n m = (\<lambda>a. if a - dest < n then m (src + (a - dest)) else m a)"

section \<open>The hooks\<close>

definition malloc :: "size_t \<Rightarrow> mc \<Rightarrow> (addr \<times> mc) option" where
  "malloc sz st =
     do {
       let bufsize = sz + REDZONE_SIZE * 2;
       st \<leftarrow> mc_init st;
       (if do_not_hook st \<noteq> 0 then Some (mc_orig_malloc sz st)
        else
          let (buf, st) = mc_orig_malloc bufsize st in
          if buf = NULL then Some (NULL, st)
          else do {
            let usrptr = buf + REDZONE_SIZE;
            (rc, st) \<leftarrow> mc_register_memblk buf usrptr bufsize sz st;
            Some (usrptr, st)
          })
     }"

definition free :: "addr \<Rightarrow> mc \<Rightarrow> mc option" where
  "free ptr st =
     (if ptr = NULL then Some st
      else if do_not_hook st \<noteq> 0 then Some (mc_orig_free ptr st)
      else do {
        ((rc, out), st) \<leftarrow> mc_unregister_memblk ptr st;
        buf_to_be_freed \<leftarrow> out;
        Some (if buf_to_be_freed \<noteq> NULL then mc_orig_free buf_to_be_freed st else st)
      })"

definition realloc :: "addr \<Rightarrow> size_t \<Rightarrow> mc \<Rightarrow> (addr \<times> mc) option" where
  "realloc ptr sz st =
     (if ptr = NULL then malloc sz st
      else if sz = 0 then do { st \<leftarrow> free ptr st; Some (NULL, st) }
      else if do_not_hook st \<noteq> 0 then Some (mc_orig_realloc ptr sz st)
      else do {
        oldsize \<leftarrow> mc_handle_realloc_memblk ptr st;
        (if oldsize = - 1
         then Some (NULL, mc_enable_hook (mc_log_print (Realloc_unknown ptr) (mc_disable_hook st)))
         else do {
           (newptr, st) \<leftarrow> malloc sz st;
           (if newptr \<noteq> NULL then do {
              st \<leftarrow> free ptr (st\<lparr>mem := memcpy newptr ptr (if oldsize \<le> sz then oldsize else sz) (mem st)\<rparr>);
              Some (newptr, st)
            } else Some (newptr, st))
         })
      })"

definition calloc :: "size_t \<Rightarrow> size_t \<Rightarrow> mc \<Rightarrow> (addr \<times> mc) option" where
  "calloc nmems sz st =
     (if nmems * sz = 0 then Some (NULL, st)
      else if do_not_hook st \<noteq> 0 then Some (mc_orig_calloc nmems sz st)
      else do {
        (ret, st) \<leftarrow> malloc (nmems * sz) st;
        Some (ret, if ret \<noteq> NULL then st\<lparr>mem := memset ret 0 (nmems * sz) (mem st)\<rparr> else st)
      })"

text \<open>\<open>__builtin_popcountl(val) == 1\<close>\<close>

definition is_power_of_2 :: "size_t \<Rightarrow> bool" where
  "is_power_of_2 val \<longleftrightarrow> length (filter (bit val) [0..<64]) = 1"

definition align_addr :: "addr \<Rightarrow> size_t \<Rightarrow> addr" where
  "align_addr a alignment = (if alignment = 0 then a else (a + alignment - 1) AND NOT (alignment - 1))"

definition aligned_allocator :: "size_t \<Rightarrow> size_t \<Rightarrow> mc \<Rightarrow> (addr \<times> mc) option" where
  "aligned_allocator alignment sz st =
     (let bufsize = sz + REDZONE_SIZE * 2 + alignment - 1;
          (buf, st) = mc_orig_malloc bufsize st
      in
      if buf = NULL then Some (NULL, st)
      else do {
        let usrptr = align_addr (buf + REDZONE_SIZE) alignment;
        (rc, st) \<leftarrow> mc_register_memblk buf usrptr bufsize sz st;
        Some (usrptr, st)
      })"

definition EINVAL :: int where "EINVAL = 22"
definition ENOMEM :: int where "ENOMEM = 12"

text \<open>The result of \<open>posix_memalign\<close> and what it stores through \<open>memptr\<close>, if anything.\<close>

definition posix_memalign :: "size_t \<Rightarrow> size_t \<Rightarrow> mc \<Rightarrow> ((int \<times> addr option) \<times> mc) option" where
  "posix_memalign alignment sz st =
     (if alignment = 0 \<or> \<not> is_power_of_2 alignment then Some ((EINVAL, None), st)
      else do {
        (usrptr, st) \<leftarrow> aligned_allocator alignment sz st;
        Some (if usrptr = NULL then (ENOMEM, None) else (0, Some usrptr), st)
      })"

definition aligned_alloc :: "size_t \<Rightarrow> size_t \<Rightarrow> mc \<Rightarrow> (addr \<times> mc) option" where
  "aligned_alloc alignment sz st =
     (if alignment = 0 \<or> \<not> is_power_of_2 alignment then Some (NULL, st) else aligned_allocator alignment sz st)"

definition memalign :: "size_t \<Rightarrow> size_t \<Rightarrow> mc \<Rightarrow> (addr \<times> mc) option" where
  "memalign alignment sz st =
     (if alignment = 0 \<or> \<not> is_power_of_2 alignment then Some (NULL, st) else aligned_allocator alignment sz st)"

definition valloc :: "size_t \<Rightarrow> mc \<Rightarrow> (addr \<times> mc) option" where
  "valloc sz st = memalign (of_nat PAGE_SIZE) sz st"

definition pvalloc :: "size_t \<Rightarrow> mc \<Rightarrow> (addr \<times> mc) option" where
  "pvalloc sz st =
     memalign (of_nat PAGE_SIZE) ((sz + of_nat PAGE_SIZE - 1) AND NOT (of_nat PAGE_SIZE - 1)) st"

end
