(* ===== verification/MC_Instance.thy ===== *)
theory MC_Instance
  imports MC_Supply
begin

text \<open>
  One concrete run of the library, from the start state of \<open>MC_Boot\<close>: the first call, the
  registration of a block of 32 bytes, its release. The states show that the hypotheses of the
  theorems about registration, release and the checks can hold together.
\<close>

section \<open>Started\<close>

definition mc_started :: mc where
  "mc_started = the (mc_init boot_mc)"

lemma mc_started:
  "mc_init boot_mc = Some mc_started" "mc_ok mc_started" "counters_ok mc_started" "do_not_hook mc_started = 0"
  "live_view mc_started = (\<lambda>_. None)" "quarantine_view mc_started = []" "fmaps mc_started = boot_fmaps"
  "initialized mc_started" "supplied 6 mc_started" "log mc_started = [Started]" "mc_init mc_started = Some mc_started"
proof -
  from mc_init_ok [OF boot_mc_start] obtain st where
    st: "mc_init boot_mc = Some st" "initialized st" "mc_ok st" "counters_ok st" "do_not_hook st = 0"
      "spec_of st = \<lparr>sp_live = (\<lambda>_. None), sp_quarantine = []\<rparr>" "mc_init st = Some st"
      "fmaps st = fmaps boot_mc" "log st = log boot_mc @ [Started]"
      "mmaps (bs_alloc (blk st)) = mmaps (bs_alloc (blk boot_mc))" by blast
  have e: "mc_started = st" using st(1) by (simp add: mc_started_def)
  show "mc_init boot_mc = Some mc_started" "mc_ok mc_started" "counters_ok mc_started" "do_not_hook mc_started = 0"
    "initialized mc_started" "mc_init mc_started = Some mc_started"
    using st e by simp_all
  show "live_view mc_started = (\<lambda>_. None)" "quarantine_view mc_started = []" using st(6) e by (simp_all add: spec_of_def)
  show "fmaps mc_started = boot_fmaps" "log mc_started = [Started]" using st(8,9) e by (simp_all add: boot_mc_def)
  show "supplied 6 mc_started"
    using st(10) e by (simp add: supplied_def granted_def boot_mc_def boot_blk_def MAP_FAILED_def)
qed

section \<open>A block\<close>

definition one_block :: memblk where
  "one_block = \<lparr>mb_buf = 0x100000, mb_bufsize = 64, mb_usrsize = 32\<rparr>"

definition mc_one :: mc where
  "mc_one = snd (the (mc_register_memblk 0x100000 0x100010 64 32 mc_started))"

lemma one_block_layout: "layout_ok (mb_buf one_block) 0x100010 (mb_bufsize one_block) (mb_usrsize one_block)"
  by (simp add: layout_ok_def one_block_def)

lemma mc_one_run: "mc_register_memblk 0x100000 0x100010 64 32 mc_started = Some (0, mc_one)" "supplied 4 mc_one"
proof -
  have "supplied (Suc (Suc 4)) mc_started" using mc_started(9) by simp
  from mc_register_memblk_supplied [OF mc_started(2) this, where buf = "0x100000" and usrptr = "0x100010" and bufsize = 64 and usrsize = 32] show
    "mc_register_memblk 0x100000 0x100010 64 32 mc_started = Some (0, mc_one)" "supplied 4 mc_one"
    by (auto simp: mc_one_def)
qed

lemma mc_one:
  "mc_ok mc_one" "counters_ok mc_one" "live_view mc_one = [0x100010 \<mapsto> one_block]" "quarantine_view mc_one = []"
proof -
  have u: "live_view mc_started 0x100010 = None" "(0x100010 :: addr) \<notin> fst ` set (quarantine_view mc_started)"
    using mc_started(5,6) by simp_all
  from mc_register_memblk_ok [OF mc_started(2) u, where buf = "0x100000" and bufsize = 64 and usrsize = 32] mc_one_run have
    m: "mc_ok mc_one" "spec_of mc_one = spec_register 0x100010 one_block (spec_of mc_started)"
    by (auto simp: one_block_def)
  show "mc_ok mc_one" by (rule m)
  show "live_view mc_one = [0x100010 \<mapsto> one_block]" "quarantine_view mc_one = []"
    using m(2) mc_started(5,6) by (auto simp: spec_of_def spec_register_def)
  show "counters_ok mc_one"
    by (rule mc_register_memblk_counters [OF mc_started(2) u mc_one_run(1) mc_started(3)])
qed

lemma mc_one_intact: "live_intact (mem mc_one) 0x100010 one_block" "log mc_one = [Started]"
  using mc_register_memblk_fills(2,3) [OF mc_started(2) mc_one_run(1)] one_block_layout mc_started(10)
  by (simp_all add: one_block_def)

section \<open>Given back\<close>

definition mc_freed :: mc where
  "mc_freed = snd (the (mc_unregister_memblk 0x100010 mc_one))"

lemma mc_freed_run: "mc_unregister_memblk 0x100010 mc_one = Some ((0, Some NULL), mc_freed)"
proof -
  have live: "live_view mc_one 0x100010 = Some one_block" using mc_one(3) by simp
  from mc_unregister_memblk_clean [OF mc_one(1) live mc_one_intact(1)] obtain rc out st where
    r: "mc_unregister_memblk 0x100010 mc_one = Some ((rc, out), st)"
    using mc_one(4) by (auto simp: FREE_FIFO_SIZE_def)
  have "supplied (Suc 3) mc_one" using mc_one_run(2) by simp
  from mc_unregister_memblk_supplied [OF mc_one(1) this _ r] have "rc = 0" using live by simp
  moreover have "out = Some NULL"
    using mc_unregister_memblk_known [OF mc_one(1) live r] \<open>rc = 0\<close> live mc_one(4)
    by (auto simp: spec_of_def spec_unregister_def spec_enqueue_def FREE_FIFO_SIZE_def)
  ultimately show ?thesis using r by (simp add: mc_freed_def)
qed

lemma mc_freed:
  "mc_ok mc_freed" "counters_ok mc_freed" "live_view mc_freed = (\<lambda>_. None)" "quarantine_view mc_freed = [(0x100010, one_block)]"
proof -
  have live: "live_view mc_one 0x100010 = Some one_block" using mc_one(3) by simp
  note K = mc_unregister_memblk_known [OF mc_one(1) live mc_freed_run]
  show "mc_ok mc_freed" "live_view mc_freed = (\<lambda>_. None)" "quarantine_view mc_freed = [(0x100010, one_block)]"
    using K mc_one(3,4) by (auto simp: spec_of_def spec_unregister_def spec_enqueue_def FREE_FIFO_SIZE_def)
  show "counters_ok mc_freed" by (rule mc_unregister_memblk_counters [OF mc_one(1) live mc_freed_run mc_one(2)])
qed

section \<open>Damaged blocks\<close>

definition demo_block :: mc where
  "demo_block = mc_set_allocated_buffer 0x2000 True (init_alloc_memblk 0x2000 0x100000 0x100010 64 32 boot_mc)"

definition demo_overrun :: mc where
  "demo_overrun = demo_block\<lparr>mem := (mem demo_block)(0x100030 := 0)\<rparr>"

definition demo_underrun :: mc where
  "demo_underrun = demo_block\<lparr>mem := (mem demo_block)(0x10000E := 0)\<rparr>"

lemma demo_fields:
  "am_memblk (am demo_block 0x2000) = one_block" "mp_ptr (amp demo_block (memptr_of 0x2000)) = 0x100010"
  by (simp_all add: demo_block_def mc_set_allocated_buffer_def init_alloc_memblk_def upd_am_def one_block_def Let_def)

lemma demo_layout:
  "block_layout demo_block 0x2000" "block_layout demo_overrun 0x2000" "block_layout demo_underrun 0x2000"
  using one_block_layout demo_fields by (simp_all add: block_layout_def demo_overrun_def demo_underrun_def)

lemma demo_intact: "block_intact demo_block 0x2000" "\<not> block_intact demo_overrun 0x2000"
proof -
  have l: "block_layout (init_alloc_memblk 0x2000 0x100000 0x100010 64 32 boot_mc) 0x2000"
    using one_block_layout by (simp add: block_layout_def init_alloc_memblk_def upd_am_def one_block_def Let_def)
  show "block_intact demo_block 0x2000" unfolding demo_block_def by (rule mc_set_allocated_buffer_intact [OF l])
  show "\<not> block_intact demo_overrun 0x2000" unfolding demo_overrun_def
    by (rule not_intact_write [OF demo_layout(1)])
      (simp_all add: block_zones_def demo_fields trailing_zone_def one_block_def REDZONE_PATTERN_def)
qed

lemma demo_zones:
  "n \<in> {0x100000 ..< 0x100010} \<union> {0x100030 ..< 0x100040} \<Longrightarrow> mem demo_block (of_nat n) = REDZONE_PATTERN"
  using demo_intact(1)
  by (auto simp: block_intact_def zone_holds_def block_zones_def demo_fields leading_zone_def trailing_zone_def one_block_def Let_def)

lemma demo_overrun_zone:
  "mem demo_overrun 0x100030 \<noteq> REDZONE_PATTERN"
  "\<forall>k\<in>{0x100030 ..< 0x100040}. 0x100030 < k \<longrightarrow> mem demo_overrun (of_nat k) = REDZONE_PATTERN"
  using demo_zones by (auto simp: demo_overrun_def REDZONE_PATTERN_def of_nat_inverse dest: arg_cong [of _ _ unat])

lemma demo_underrun_zone:
  "mem demo_underrun 0x10000E \<noteq> REDZONE_PATTERN"
  "\<forall>k\<in>{0x100000 ..< 0x100010}. k < 0x10000E \<longrightarrow> mem demo_underrun (of_nat k) = REDZONE_PATTERN"
  using demo_zones by (auto simp: demo_underrun_def REDZONE_PATTERN_def of_nat_inverse dest: arg_cong [of _ _ unat])

section \<open>Other concrete values\<close>

definition demo_freed :: mc where
  "demo_freed = mc_set_freed_buffer 0x3000 (boot_mc\<lparr>fm := (fm boot_mc)(0x3000 :=
     \<lparr>fm_memblk = one_block, fm_allocator = 0, fm_freer = 0\<rparr>)\<rparr>)"

definition demo_freed_written :: mc where
  "demo_freed_written = demo_freed\<lparr>mem := (mem demo_freed)(0x100020 := 1)\<rparr>"

lemma demo_freed_block: "fm_memblk (fm demo_freed 0x3000) = one_block"
  by (simp add: demo_freed_def mc_set_freed_buffer_def Let_def)

lemma demo_freed_layout: "freed_layout demo_freed 0x3000" "freed_layout demo_freed_written 0x3000"
  using demo_freed_block by (simp_all add: freed_layout_def demo_freed_written_def one_block_def)

lemma demo_freed_intact: "freed_intact demo_freed 0x3000" "\<not> freed_intact demo_freed_written 0x3000"
proof -
  have l: "freed_layout (boot_mc\<lparr>fm := (fm boot_mc)(0x3000 := \<lparr>fm_memblk = one_block, fm_allocator = 0, fm_freer = 0\<rparr>)\<rparr>) 0x3000"
    by (simp add: freed_layout_def one_block_def)
  show "freed_intact demo_freed 0x3000"
    unfolding freed_intact_def zone_holds_def demo_freed_def mc_set_freed_buffer_mem [OF l]
    by (auto simp: freed_zone_def one_block_def mc_set_freed_buffer_def unat_of_nat_u64 Let_def)
  have "(0x100020 :: nat) \<in> freed_zone demo_freed_written 0x3000"
    using demo_freed_block by (simp add: freed_zone_def demo_freed_written_def one_block_def)
  moreover have "mem demo_freed_written (of_nat 0x100020) \<noteq> FREEDBUF_PATTERN"
    by (simp add: demo_freed_written_def FREEDBUF_PATTERN_def)
  ultimately show "\<not> freed_intact demo_freed_written 0x3000" unfolding freed_intact_def zone_holds_def by blast
qed

text \<open>A process whose pool of \<open>free_memblk\<close> objects is full, when the kernel grants no more pages.\<close>

definition full_header :: pool_header where
  "full_header = \<lparr>ph_size = 80, ph_num_memblk_in_pool = 71, ph_num_free = 0, ph_seqno = 0,
     ph_bitmap = [0, 0xffffffffffffff80, 0xffffffffffffffff], ph_top = 0x2000, ph_prev_pool_link = 0, ph_next_pool_link = 0,
     ph_next_available_pool = 0x2000\<rparr>"

definition starved :: mc where
  "starved = demo_block\<lparr>ptr_tbls := (\<lambda>_ _. 0)(Live := (\<lambda>_. 0)(calc_ptr_hash 0x100010 ALLOC_MEMPTR_HASHTABLE_SIZE := memptr_of 0x2000)),
     blk := boot_blk\<lparr>bs_alloc := \<lparr>headers = (\<lambda>_. full_header), mmaps = []\<rparr>\<rparr>\<rparr>"

definition starved_removed :: mc where
  "starved_removed = snd (the (remove_ptr Live 0x100010 starved))"

lemma demo_memptr: "memptr_of 0x2000 \<noteq> NULL"
  by (simp add: memptr_of_def MEMPTR_OFFSET_def)

lemma starved_hook: "do_not_hook starved = 0"
  by (simp add: starved_def demo_block_def mc_set_allocated_buffer_def init_alloc_memblk_def upd_am_def boot_mc_def Let_def)

lemma starved_amp: "amp starved (memptr_of 0x2000) = \<lparr>mp_ptr = 0x100010, mp_hash_next = 0\<rparr>"
  by (simp add: starved_def demo_block_def mc_set_allocated_buffer_def init_alloc_memblk_def upd_am_def boot_mc_def Let_def)

lemma starved_remove:
  "remove_ptr Live 0x100010 starved = Some (memptr_of 0x2000, starved_removed)"
  "starved_removed = starved\<lparr>ptr_tbls := (ptr_tbls starved)(Live := (\<lambda>_. 0))\<rparr>"
proof -
  have "remove_ptr Live 0x100010 starved = Some (memptr_of 0x2000, starved\<lparr>ptr_tbls := (ptr_tbls starved)(Live := (\<lambda>_. 0))\<rparr>)"
    using demo_memptr starved_amp
    by (simp add: remove_ptr_def mc_remove_ptr_hashtable_def ptr_table_def set_ptr_table_def chain_find_prev.simps
        starved_def [THEN arg_cong, of "\<lambda>s. ptr_tbls s"] fun_upd_idem Let_def)
  then show "remove_ptr Live 0x100010 starved = Some (memptr_of 0x2000, starved_removed)"
    "starved_removed = starved\<lparr>ptr_tbls := (ptr_tbls starved)(Live := (\<lambda>_. 0))\<rparr>"
    by (simp_all add: starved_removed_def)
qed

lemma starved_check: "mc_check_allocated_buffer 0x2000 True starved_removed = Some (0, starved_removed)"
proof (rule mc_check_allocated_buffer_intact)
  have f: "am starved_removed = am demo_block" "amp starved_removed = amp demo_block" "mem starved_removed = mem demo_block"
    by (simp_all add: starved_remove(2) starved_def)
  show "block_layout starved_removed 0x2000" using demo_layout(1) f by (simp add: block_layout_def)
  show "block_intact starved_removed 0x2000" using demo_intact(1) f by (simp add: block_intact_def block_zones_def)
qed

lemma starved_allocate: "do_allocate FreeMemblk starved_removed = Some (NULL, starved_removed)"
proof -
  have b: "get_lowest_bit full_header = - 1"
    by code_simp
  have c: "chain_find_prev (\<lambda>h. ph_next_pool_link full_header) (\<lambda>h. ph_num_free full_header \<noteq> 0) NULL 0x2000 = Some (0x2000, NULL)"
    by (subst chain_find_prev.simps, simp add: full_header_def) (subst chain_find_prev.simps, simp)
  have f: "find_pool 0x2000 (bs_size boot_blk FreeMemblk) \<lparr>headers = (\<lambda>_. full_header), mmaps = []\<rparr> =
      Some (NULL, \<lparr>headers = (\<lambda>_. full_header), mmaps = []\<rparr>)"
    unfolding find_pool_def by (simp add: c mmap_pages_def)
  have h: "ph_next_available_pool full_header = 0x2000" "bs_head boot_blk FreeMemblk = 0x2000"
    by (simp_all add: full_header_def boot_blk_def)
  show ?thesis
    by (simp add: do_allocate_def allocate_kind_def mc_allocator_alloc_def starved_remove(2) starved_def h b f)
qed

text \<open>Headers, a table and sizes.\<close>

definition demo_header :: pool_header where
  "demo_header = full_header\<lparr>ph_num_memblk_in_pool := 62, ph_bitmap := [0xc000000000000f00, 0xffffffffffffffff, 0xffffffffffffffff]\<rparr>"

lemma demo_header_spare: "\<forall>i. 62 \<le> i \<longrightarrow> i < 192 \<longrightarrow> slot_free demo_header i"
proof -
  have "\<forall>i\<in>set [62..<192]. slot_free demo_header i" by code_simp
  then show ?thesis unfolding set_upt by (meson atLeastLessThan_iff)
qed

definition demo_full_header :: pool_header where
  "demo_full_header = full_header\<lparr>ph_num_memblk_in_pool := 192, ph_bitmap := [0, 0, 0]\<rparr>"

lemma demo_full_header: "ph_bitmap demo_full_header = [0, 0, 0]" "ph_num_memblk_in_pool demo_full_header = 192"
  by (simp_all add: demo_full_header_def)

definition demo_table :: ptr_table where
  "demo_table = (\<lambda>_. \<lparr>mp_ptr = 0x100010, mp_hash_next = 0\<rparr>, \<lambda>_. 0)"

lemma demo_table: "ptr_table_ok 521 demo_table {}" "ptr_key demo_table m = 0x100010"
  using empty_tables(2) [of "fst demo_table"] by (simp_all add: demo_table_def ptr_key_def FREE_MEMPTR_HASHTABLE_SIZE_def)

lemma demo_sizes: "unat (mb_usrsize (am_memblk (am demo_block b))) < 2 ^ 31"
  by (simp add: demo_block_def mc_set_allocated_buffer_def init_alloc_memblk_def upd_am_def boot_mc_def Let_def)

definition started_alloc :: "addr \<times> blk_state" where
  "started_alloc = the (allocate_kind Callstack (blk mc_started))"

lemma started_blk:
  "blk_ok (blk mc_started)" "allocate_kind Callstack (blk mc_started) = Some (fst started_alloc, snd started_alloc)"
  "fst started_alloc \<noteq> NULL"
proof -
  from mc_started(2) obtain N F C where I: "mc_inv N F C mc_started" by (auto simp: mc_ok_def)
  show ok: "blk_ok (blk mc_started)" using tables_okD(1) [OF mc_invD(1) [OF I]] .
  from blk.alloc_returns [OF ok, of Callstack] show al: "allocate_kind Callstack (blk mc_started) = Some (fst started_alloc, snd started_alloc)"
    by (auto simp: started_alloc_def)
  have "granted (Suc 5) (mmaps (bs_alloc (blk mc_started)))" using mc_started(9) by (simp add: supplied_def)
  from allocate_kind_granted(1) [OF ok this al] show "fst started_alloc \<noteq> NULL" .
qed

definition started_callstack :: "addr \<times> mc" where
  "started_callstack = the (mc_get_callstack mc_started)"

lemma started_callstack:
  "mc_get_callstack mc_started = Some (fst started_callstack, snd started_callstack)" "fst started_callstack \<noteq> NULL"
proof -
  from mc_started(2) obtain N F C where I: "mc_inv N F C mc_started" by (auto simp: mc_ok_def)
  note T = mc_invD(1) [OF I]
  from mc_get_callstack_ok [OF T] show r: "mc_get_callstack mc_started = Some (fst started_callstack, snd started_callstack)"
    by (auto simp: started_callstack_def)
  have "supplied (Suc 5) mc_started" using mc_started(9) by simp
  from mc_get_callstack_supplied(1) [OF T this r] show "fst started_callstack \<noteq> NULL" .
qed

end
