(* ===== verification/MC_Program.thy ===== *)
theory MC_Program
  imports MC_Hook MC_Instance
begin

text \<open>
  The library under a program that keeps to its blocks. \<open>clean\<close> is the invariant of such a run: the
  record is consistent, the buffers of the live and the quarantined blocks do not overlap, the red
  zones and the fill patterns are intact. The hooks keep it, never report anything and hand out
  blocks that are apart from each other, as long as the C library's \<open>malloc\<close> hands out memory that
  is not in use and the kernel grants pages for the bookkeeping.
\<close>

section \<open>Clean states\<close>

text \<open>The blocks whose buffers the library holds: live, or waiting in the quarantine.\<close>

definition entries :: "mc \<Rightarrow> (addr \<times> memblk) set" where
  "entries st = {(p, m). live_view st p = Some m} \<union> set (quarantine_view st)"

definition entry_ok :: "addr \<times> memblk \<Rightarrow> bool" where
  "entry_ok x \<longleftrightarrow> (case x of (p, m) \<Rightarrow>
     layout_ok (mb_buf m) p (mb_bufsize m) (mb_usrsize m) \<and> unat p \<in> buffer_of m \<and> unat (mb_bufsize m) < 2 ^ 31)"

definition apart :: "(addr \<times> memblk) set \<Rightarrow> bool" where
  "apart E \<longleftrightarrow> (\<forall>(p, m)\<in>E. \<forall>(q, n)\<in>E. p \<noteq> q \<longrightarrow> buffer_of m \<inter> buffer_of n = {})"

definition clean :: "mc \<Rightarrow> bool" where
  "clean st \<longleftrightarrow> mc_ok st \<and> initialized st \<and> do_not_hook st = 0 \<and>
     (\<forall>x\<in>entries st. entry_ok x) \<and> apart (entries st) \<and>
     (\<forall>p m. live_view st p = Some m \<longrightarrow> zone_holds (mem st) REDZONE_PATTERN (zones_of p m)) \<and>
     (\<forall>(p, m)\<in>set (quarantine_view st). zone_holds (mem st) FREEDBUF_PATTERN (buffer_of m))"

lemma cleanD:
  assumes "clean st"
  shows "mc_ok st" "initialized st" "do_not_hook st = 0" "x \<in> entries st \<Longrightarrow> entry_ok x" "apart (entries st)"
    "live_view st p = Some m \<Longrightarrow> zone_holds (mem st) REDZONE_PATTERN (zones_of p m)"
    "(p, m) \<in> set (quarantine_view st) \<Longrightarrow> zone_holds (mem st) FREEDBUF_PATTERN (buffer_of m)"
  using assms by (auto simp: clean_def)

lemma clean_live:
  assumes "clean st" "live_view st p = Some m"
  shows "live_intact (mem st) p m" "(p, m) \<in> entries st" "entry_ok (p, m)"
proof -
  show e: "(p, m) \<in> entries st" using assms(2) by (simp add: entries_def)
  show "entry_ok (p, m)" using cleanD(4) [OF assms(1) e] .
  then show "live_intact (mem st) p m" using cleanD(6) [OF assms] by (simp add: live_intact_def entry_ok_def)
qed

lemma clean_quarantine:
  assumes "clean st" "(p, m) \<in> set (quarantine_view st)"
  shows "quarantine_intact (mem st) m"
proof -
  have "entry_ok (p, m)" using cleanD(4) [OF assms(1)] assms(2) by (simp add: entries_def)
  then show ?thesis
    using cleanD(7) [OF assms] by (auto simp: quarantine_intact_def entry_ok_def layout_ok_def)
qed

text \<open>Bytes outside a set of addresses keep their values.\<close>

lemma zone_holds_outside:
  assumes "zone_holds m v Z" "Z \<subseteq> {..<2 ^ 64}" "Z \<inter> W = {}" "\<And>a. unat a \<notin> W \<Longrightarrow> m' a = m a"
  shows "zone_holds m' v Z"
proof -
  have "m' (of_nat n) = v" if "n \<in> Z" for n
  proof -
    have "n < 2 ^ 64" using that assms(2) by auto
    then have "unat (of_nat n :: addr) = n" by (rule unat_of_nat_u64)
    then have "unat (of_nat n :: addr) \<notin> W" using that assms(3) by auto
    then show ?thesis using assms(1,4) that by (simp add: zone_holds_def)
  qed
  then show ?thesis by (simp add: zone_holds_def)
qed

lemma buffer_bound: "entry_ok (p, m) \<Longrightarrow> buffer_of m \<subseteq> {..<2 ^ 64}"
  by (auto simp: entry_ok_def buffer_of_def layout_ok_def)

lemma zones_in_buffer: "entry_ok (p, m) \<Longrightarrow> zones_of p m \<subseteq> buffer_of m \<and> user_bytes p m \<subseteq> buffer_of m"
  using buffer_split by (auto simp: entry_ok_def)

text \<open>A change of memory inside one buffer leaves the other entries intact.\<close>

lemma clean_others:
  assumes cl: "clean st" and out: "\<And>a. unat a \<notin> W \<Longrightarrow> m' a = mem st a"
  shows "live_view st q = Some b \<Longrightarrow> buffer_of b \<inter> W = {} \<Longrightarrow> zone_holds m' REDZONE_PATTERN (zones_of q b)"
    and "(q, b) \<in> set (quarantine_view st) \<Longrightarrow> buffer_of b \<inter> W = {} \<Longrightarrow> zone_holds m' FREEDBUF_PATTERN (buffer_of b)"
proof -
  assume l: "live_view st q = Some b" and d: "buffer_of b \<inter> W = {}"
  note e = clean_live(3) [OF cl l]
  show "zone_holds m' REDZONE_PATTERN (zones_of q b)"
    by (rule zone_holds_outside [OF cleanD(6) [OF cl l] _ _ out])
      (use buffer_bound [OF e] zones_in_buffer [OF e] d in auto)
next
  assume l: "(q, b) \<in> set (quarantine_view st)" and d: "buffer_of b \<inter> W = {}"
  have e: "entry_ok (q, b)" using cleanD(4) [OF cl] l by (simp add: entries_def)
  show "zone_holds m' FREEDBUF_PATTERN (buffer_of b)"
    by (rule zone_holds_outside [OF cleanD(7) [OF cl l] _ d out]) (use buffer_bound [OF e] in auto)
qed

section \<open>Registration and release of clean states\<close>

definition unused :: "addr \<Rightarrow> size_t \<Rightarrow> mc \<Rightarrow> bool" where
  "unused buf n st \<longleftrightarrow> unat buf + unat n \<le> 2 ^ 64 \<and>
     (\<forall>(p, m)\<in>entries st. buffer_of m \<inter> {unat buf ..< unat buf + unat n} = {})"

lemma register_clean:
  assumes cl: "clean st" and sup: "supplied (Suc (Suc k)) st" and un: "unused buf bufsize st"
    and e: "entry_ok (p, \<lparr>mb_buf = buf, mb_bufsize = bufsize, mb_usrsize = usrsize\<rparr>)"
  defines "m \<equiv> \<lparr>mb_buf = buf, mb_bufsize = bufsize, mb_usrsize = usrsize\<rparr>"
  shows "live_view st p = None"
    and "\<exists>st'. mc_register_memblk buf p bufsize usrsize st = Some (0, st') \<and> clean st' \<and> supplied k st' \<and> log st' = log st \<and>
      outside st' = outside st \<and> live_view st' = (live_view st)(p \<mapsto> m) \<and> quarantine_view st' = quarantine_view st \<and>
      (\<forall>a. mem st' a = (if unat a \<in> zones_of p m then REDZONE_PATTERN
             else if unat a \<in> user_bytes p m then INITBUF_PATTERN else mem st a))"
proof -
  let ?B = "{unat buf ..< unat buf + unat bufsize}"
  have mB: "buffer_of m = ?B" by (simp add: m_def buffer_of_def)
  have layout: "layout_ok buf p bufsize usrsize" and em: "entry_ok (p, m)" and pB: "unat p \<in> ?B"
    using e by (simp_all add: entry_ok_def m_def buffer_of_def)
  have dis: "buffer_of b \<inter> ?B = {}" if "(q, b) \<in> entries st" for q b using un that by (auto simp: unused_def)
  have new: "(p, b) \<notin> entries st" for b
  proof
    assume b: "(p, b) \<in> entries st"
    then have "unat p \<in> buffer_of b" using cleanD(4) [OF cl b] by (simp add: entry_ok_def)
    then show False using dis [OF b] pB by blast
  qed
  then show nl: "live_view st p = None" by (cases "live_view st p") (auto simp: entries_def)
  have nq: "p \<notin> fst ` set (quarantine_view st)" using new by (auto simp: entries_def)
  from mc_register_memblk_supplied [OF cleanD(1) [OF cl] sup] obtain st' where
    run: "mc_register_memblk buf p bufsize usrsize st = Some (0, st')" and sup': "supplied k st'" by blast
  from mc_register_memblk_ok [OF cleanD(1) [OF cl] nl nq, of buf bufsize usrsize] run have
    r: "mc_ok st'" "spec_of st' = spec_register p m (spec_of st)" by (auto simp: m_def)
  then have v: "live_view st' = (live_view st)(p \<mapsto> m)" "quarantine_view st' = quarantine_view st"
    by (simp_all add: spec_of_def spec_register_def)
  note F = mc_register_memblk_fills [OF cleanD(1) [OF cl] run layout, folded m_def]
  have ent: "entries st' = insert (p, m) (entries st)"
    using v nl by (auto simp: entries_def split: if_splits)
  have out: "mem st' a = mem st a" if "unat a \<notin> ?B" for a
    using F(1) zones_in_buffer [OF em] that mB by auto
  have "apart (entries st')"
    using cleanD(5) [OF cl] dis unfolding ent apart_def mB [symmetric] by fast
  moreover have "zone_holds (mem st') REDZONE_PATTERN (zones_of q b)" if "live_view st' q = Some b" for q b
  proof (cases "q = p")
    case True
    then show ?thesis using F(2) that v by (simp add: live_intact_def)
  next
    case False
    then have l: "live_view st q = Some b" using that v by simp
    show ?thesis using clean_others(1) [OF cl out l] dis clean_live(2) [OF cl l] by blast
  qed
  moreover have "zone_holds (mem st') FREEDBUF_PATTERN (buffer_of b)" if "(q, b) \<in> set (quarantine_view st')" for q b
  proof -
    have "(q, b) \<in> set (quarantine_view st)" "(q, b) \<in> entries st" using that v(2) by (simp_all add: entries_def)
    then show ?thesis using clean_others(2) [where W = ?B, OF cl out] dis by blast
  qed
  moreover have "\<forall>x\<in>entries st'. entry_ok x" using cleanD(4) [OF cl] em unfolding ent by blast
  moreover have "initialized st'" "do_not_hook st' = 0" using F(4) cleanD(2,3) [OF cl] by (simp_all add: outside_def)
  ultimately have "clean st'" using r(1) by (auto simp: clean_def)
  then show "\<exists>st'. mc_register_memblk buf p bufsize usrsize st = Some (0, st') \<and> clean st' \<and> supplied k st' \<and> log st' = log st \<and>
      outside st' = outside st \<and> live_view st' = (live_view st)(p \<mapsto> m) \<and> quarantine_view st' = quarantine_view st \<and>
      (\<forall>a. mem st' a = (if unat a \<in> zones_of p m then REDZONE_PATTERN
             else if unat a \<in> user_bytes p m then INITBUF_PATTERN else mem st a))"
    using run sup' F v by blast
qed

lemma spec_enqueue_set: "spec_enqueue x q = (old, q') \<Longrightarrow> x \<in> set q' \<and> set q' \<subseteq> insert x (set q)"
  by (cases q) (auto simp: spec_enqueue_def FREE_FIFO_SIZE_def split: if_splits)

lemma live_not_quarantined:
  assumes "mc_ok st" "live_view st p = Some m"
  shows "p \<notin> fst ` set (quarantine_view st)"
proof
  assume q: "p \<in> fst ` set (quarantine_view st)"
  from assms(1) obtain N F C where I: "mc_inv N F C st" by (auto simp: mc_ok_def)
  note T = mc_invD [OF I]
  have "dom (live_view st) = usr_of st ` N Live"
    using dom_live_view [OF T(1)] T(2) by (simp add: keys_ok_def)
  then have "p \<in> usr_of st ` N Live" using assms(2) by auto
  moreover have "p \<in> fusr_of st ` F" using quarantine_addresses [OF T(3)] q by simp
  ultimately show False using T(2) by (auto simp: keys_ok_def)
qed

lemma unregister_clean:
  assumes cl: "clean st" and sup: "supplied 1 st" and live: "live_view st p = Some m"
  shows "\<exists>out st'. mc_unregister_memblk p st = Some ((0, Some out), st') \<and> clean st' \<and> log st' = log st \<and>
      outside st' = outside st \<and> live_view st' = (live_view st)(p := None) \<and>
      set (quarantine_view st') \<subseteq> insert (p, m) (set (quarantine_view st)) \<and>
      (\<forall>a. mem st' a = (if unat a \<in> buffer_of m then FREEDBUF_PATTERN else mem st a))"
proof -
  have old: "length (quarantine_view st) = FREE_FIFO_SIZE \<longrightarrow> quarantine_intact (mem st) (snd (hd (quarantine_view st)))"
  proof
    assume "length (quarantine_view st) = FREE_FIFO_SIZE"
    then have "hd (quarantine_view st) \<in> set (quarantine_view st)" by (intro hd_in_set) (auto simp: FREE_FIFO_SIZE_def)
    then show "quarantine_intact (mem st) (snd (hd (quarantine_view st)))"
      using clean_quarantine [OF cl, of "fst (hd (quarantine_view st))"] by simp
  qed
  from mc_unregister_memblk_clean [OF cleanD(1) [OF cl] live clean_live(1) [OF cl live] old] obtain rc out st' where
    run: "mc_unregister_memblk p st = Some ((rc, out), st')" and lg: "log st' = log st" "outside st' = outside st"
    and mem: "\<forall>x. mem st' x = (if rc = 0 \<and> unat x \<in> buffer_of m then FREEDBUF_PATTERN else mem st x)" by blast
  have "supplied (Suc 0) st" using sup by simp
  from mc_unregister_memblk_supplied [OF cleanD(1) [OF cl] this _ run] have rc: "rc = 0" using live by simp
  note K = mc_unregister_memblk_known [OF cleanD(1) [OF cl] live run]
  then obtain ev where ev: "spec_unregister p (spec_of st) = Some (ev, spec_of st')" "out \<noteq> None" and ok: "mc_ok st'"
    using rc by auto
  then have v: "live_view st' = (live_view st)(p := None)"
      and q: "spec_enqueue (p, m) (quarantine_view st) = (ev, quarantine_view st')"
    using live by (auto simp: spec_of_def spec_unregister_def split: prod.splits)
  note Q = spec_enqueue_set [OF q]
  note pm = clean_live(2) [OF cl live]
  have ent: "entries st' \<subseteq> entries st" using v Q pm by (auto simp: entries_def split: if_splits)
  have outb: "mem st' a = mem st a" if "unat a \<notin> buffer_of m" for a using mem rc that by simp
  have dis: "buffer_of b \<inter> buffer_of m = {}" if "(r, b) \<in> entries st" "r \<noteq> p" for r b
    using cleanD(5) [OF cl] pm that unfolding apart_def by fast
  have "zone_holds (mem st') REDZONE_PATTERN (zones_of r b)" if "live_view st' r = Some b" for r b
  proof -
    have l: "r \<noteq> p" "live_view st r = Some b" using that v by (auto split: if_splits)
    show ?thesis using clean_others(1) [OF cl outb l(2)] dis clean_live(2) [OF cl l(2)] l(1) by blast
  qed
  moreover have "zone_holds (mem st') FREEDBUF_PATTERN (buffer_of b)" if rb: "(r, b) \<in> set (quarantine_view st')" for r b
  proof (cases "(r, b) = (p, m)")
    case True
    have "unat (of_nat k :: addr) = k" if "k \<in> buffer_of m" for k
      using buffer_bound [OF clean_live(3) [OF cl live]] that by (intro unat_of_nat_u64) auto
    then show ?thesis using True mem rc by (simp add: zone_holds_def)
  next
    case False
    then have r: "(r, b) \<in> set (quarantine_view st)" using Q rb by blast
    have "r \<noteq> p" using live_not_quarantined [OF cleanD(1) [OF cl] live] r by force
    then show ?thesis using clean_others(2) [where W = "buffer_of m", OF cl outb r] dis [OF _ \<open>r \<noteq> p\<close>] r by (simp add: entries_def)
  qed
  moreover have "\<forall>x\<in>entries st'. entry_ok x" "apart (entries st')"
    using cleanD(4,5) [OF cl] ent unfolding apart_def by blast+
  moreover have "initialized st'" "do_not_hook st' = 0" using lg(2) cleanD(2,3) [OF cl] by (simp_all add: outside_def)
  ultimately have "clean st'" using ok by (auto simp: clean_def)
  then show ?thesis using run rc ev(2) lg v Q mem by auto
qed

section \<open>The hooks\<close>

lemma libc_frame [simp]:
  "clean (set_libc e st) = clean st" "live_view (set_libc e st) = live_view st"
  "quarantine_view (set_libc e st) = quarantine_view st" "entries (set_libc e st) = entries st"
  "mem (set_libc e st) = mem st" "log (set_libc e st) = log st" "supplied n (set_libc e st) = supplied n st"
  "unused b k (set_libc e st) = unused b k st" "do_not_hook (set_libc e st) = do_not_hook st"
  "initialized (set_libc e st) = initialized st"
proof -
  have q: "quiet st (set_libc e st)" unfolding set_libc_def by (rule quiet_fmaps)
  show v: "live_view (set_libc e st) = live_view st" "quarantine_view (set_libc e st) = quarantine_view st"
    using quiet_views [OF q] by simp_all
  then show E: "entries (set_libc e st) = entries st" by (simp add: entries_def)
  show m: "mem (set_libc e st) = mem st" "log (set_libc e st) = log st" "supplied n (set_libc e st) = supplied n st"
    "do_not_hook (set_libc e st) = do_not_hook st" "initialized (set_libc e st) = initialized st"
    by (simp_all add: set_libc_def supplied_def)
  show "unused b k (set_libc e st) = unused b k st" using E by (simp add: unused_def)
  have "mc_ok (set_libc e st) = mc_ok st" using quiet_mc_inv [OF q] by (simp add: mc_ok_def)
  then show "clean (set_libc e st) = clean st" using v E m by (simp add: clean_def)
qed

text \<open>What the C library promises: a buffer that is null or does not overlap one in use.\<close>

definition grants :: "size_t \<Rightarrow> mc \<Rightarrow> bool" where
  "grants n st \<longleftrightarrow> fst (mc_orig_malloc n st) = NULL \<or> unused (fst (mc_orig_malloc n st)) n st"

definition block_of :: "addr \<Rightarrow> size_t \<Rightarrow> memblk" where
  "block_of p n = \<lparr>mb_buf = p - REDZONE_SIZE, mb_bufsize = n + REDZONE_SIZE * 2, mb_usrsize = n\<rparr>"

lemma malloc_entry:
  assumes "unat buf + unat (n + REDZONE_SIZE * 2) \<le> 2 ^ 64" "unat n + 32 < 2 ^ 31"
  shows "entry_ok (buf + REDZONE_SIZE, block_of (buf + REDZONE_SIZE) n)"
    "unat (buf + REDZONE_SIZE) = unat buf + 16" "unat (n + REDZONE_SIZE * 2) = unat n + 32"
proof -
  have n: "unat (n + 32) = unat n + 32"
    using unat_add_bounded [of n 32] assms(2) by simp
  show "unat (n + REDZONE_SIZE * 2) = unat n + 32" using n by (simp add: REDZONE_SIZE_def)
  have b: "unat (buf + 16) = unat buf + 16"
    using unat_add_bounded [of buf 16] assms(1) n by (simp add: REDZONE_SIZE_def)
  show "unat (buf + REDZONE_SIZE) = unat buf + 16" using b by (simp add: REDZONE_SIZE_def)
  have "buf \<le> buf + 16" using b by (simp add: word_le_nat_alt)
  then show "entry_ok (buf + REDZONE_SIZE, block_of (buf + REDZONE_SIZE) n)"
    using assms b n by (simp add: entry_ok_def block_of_def layout_ok_def buffer_of_def REDZONE_SIZE_def)
qed

lemma malloc_clean:
  assumes cl: "clean st" and sup: "supplied (Suc (Suc k)) st" and g: "grants (n + REDZONE_SIZE * 2) st" and n: "unat n + 32 < 2 ^ 31"
  shows "\<exists>p st'. malloc n st = Some (p, st') \<and> clean st' \<and> supplied k st' \<and> log st' = log st \<and>
     (p = NULL \<longleftrightarrow> fst (mc_orig_malloc (n + REDZONE_SIZE * 2) st) = NULL) \<and>
     (p = NULL \<and> live_view st' = live_view st \<and> mem st' = mem st \<or>
      p \<noteq> NULL \<and> live_view st p = None \<and> live_view st' = (live_view st)(p \<mapsto> block_of p n) \<and>
        (\<forall>i < unat n. mem st' (p + of_nat i) = INITBUF_PATTERN) \<and>
        (\<forall>a. unat a \<notin> buffer_of (block_of p n) \<longrightarrow> mem st' a = mem st a))"
proof -
  obtain buf e where o: "mc_orig_malloc (n + REDZONE_SIZE * 2) st = (buf, set_libc e st)"
    using that by (cases "orig_malloc (n + REDZONE_SIZE * 2) (libc st)") (simp add: mc_orig_malloc_def)
  have ini: "mc_init st = Some st" using cleanD(2) [OF cl] by (simp add: mc_init_def)
  show ?thesis
  proof (cases "buf = NULL")
    case True
    have "supplied k st" using sup granted_mono by (simp add: supplied_def)
    then show ?thesis using True ini o cleanD(3) [OF cl] cl by (simp add: malloc_def)
  next
    case False
    let ?p = "buf + REDZONE_SIZE" and ?m = "block_of (buf + REDZONE_SIZE) n"
    have m: "?m = \<lparr>mb_buf = buf, mb_bufsize = n + REDZONE_SIZE * 2, mb_usrsize = n\<rparr>" by (simp add: block_of_def)
    have un: "unused buf (n + REDZONE_SIZE * 2) st" using g o False by (simp add: grants_def)
    note E = malloc_entry [OF conjunct1 [OF un [unfolded unused_def]] n]
    from register_clean(2) [of "set_libc e st" k buf "n + REDZONE_SIZE * 2" ?p n] register_clean(1) [OF cl sup un] cl sup un E(1)
    obtain st' where r: "mc_register_memblk buf ?p (n + REDZONE_SIZE * 2) n (set_libc e st) = Some (0, st')" "clean st'" "supplied k st'"
        "log st' = log st" "live_view st ?p = None" "live_view st' = (live_view st)(?p \<mapsto> ?m)"
        "\<forall>a. mem st' a = (if unat a \<in> zones_of ?p ?m then REDZONE_PATTERN
             else if unat a \<in> user_bytes ?p ?m then INITBUF_PATTERN else mem st a)"
      unfolding m by auto
    have "malloc n st = Some (?p, st')" using ini o cleanD(3) [OF cl] False r(1) by (simp add: malloc_def)
    moreover have "?p \<noteq> NULL" using E(2) by auto
    moreover have "mem st' (?p + of_nat i) = INITBUF_PATTERN" if "i < unat n" for i
    proof -
      have "unat (?p + of_nat i) = unat ?p + i"
        using that n E(2,3) conjunct1 [OF un [unfolded unused_def]] by (intro unat_add_bounded) simp
      then have "unat (?p + of_nat i) \<in> user_bytes ?p ?m" using that by (simp add: user_bytes_def block_of_def)
      then show ?thesis using r(7) buffer_split(2) [of ?m ?p] E(1) by (auto simp: entry_ok_def)
    qed
    moreover have "mem st' a = mem st a" if "unat a \<notin> buffer_of ?m" for a
      using r(7) zones_in_buffer [OF E(1)] that by auto
    moreover have "fst (mc_orig_malloc (n + REDZONE_SIZE * 2) st) \<noteq> NULL" using o False by simp
    ultimately show ?thesis using r by blast
  qed
qed

text \<open>A program may write to the bytes of its blocks.\<close>

lemma mem_frame [simp]:
  "live_view (st\<lparr>mem := m\<rparr>) = live_view st" "quarantine_view (st\<lparr>mem := m\<rparr>) = quarantine_view st"
  "entries (st\<lparr>mem := m\<rparr>) = entries st" "mc_ok (st\<lparr>mem := m\<rparr>) = mc_ok st" "supplied n (st\<lparr>mem := m\<rparr>) = supplied n st"
proof -
  show l: "live_view (st\<lparr>mem := m\<rparr>) = live_view st"
    by (rule ext) (simp add: live_view_def find_ptr_def ptr_table_def cong: option.case_cong if_cong)
  have q: "quarantine (st\<lparr>mem := m\<rparr>) = quarantine st" "fifo_ok (st\<lparr>mem := m\<rparr>) = fifo_ok st"
    by (simp_all add: quarantine_def fifo_ok_def)
  have u: "usr_of (st\<lparr>mem := m\<rparr>) = usr_of st" "fusr_of (st\<lparr>mem := m\<rparr>) = fusr_of st"
    by (simp_all add: usr_of_def fusr_of_def fun_eq_iff)
  show v: "quarantine_view (st\<lparr>mem := m\<rparr>) = quarantine_view st" using q u by (simp add: quarantine_view_def)
  show "entries (st\<lparr>mem := m\<rparr>) = entries st" using l v by (simp add: entries_def)
  show "mc_ok (st\<lparr>mem := m\<rparr>) = mc_ok st"
    using q u by (simp add: mc_ok_def mc_inv_def keys_ok_def queue_ok_def owners_ok_def)
  show "supplied n (st\<lparr>mem := m\<rparr>) = supplied n st" by (simp add: supplied_def)
qed

lemma write_clean:
  assumes cl: "clean st" and live: "live_view st p = Some m"
    and out: "\<And>a. unat a \<notin> user_bytes p m \<Longrightarrow> m' a = mem st a"
  shows "clean (st\<lparr>mem := m'\<rparr>)"
proof -
  note e = clean_live [OF cl live]
  have lay: "layout_ok (mb_buf m) p (mb_bufsize m) (mb_usrsize m)" using e(3) by (simp add: entry_ok_def)
  have dis: "buffer_of b \<inter> user_bytes p m = {}" if "(q, b) \<in> entries st" "q \<noteq> p" for q b
    using cleanD(5) [OF cl] e(2) that zones_in_buffer [OF e(3)] unfolding apart_def by fast
  have "zone_holds m' REDZONE_PATTERN (zones_of q b)" if l: "live_view st q = Some b" for q b
  proof (cases "q = p")
    case True
    then have "b = m" using l live by simp
    then show ?thesis
      using zone_holds_outside [OF cleanD(6) [OF cl live] _ buffer_split(2) [OF lay] out] True
        zones_in_buffer [OF e(3)] buffer_bound [OF e(3)] by blast
  next
    case False
    then show ?thesis using clean_others(1) [where W = "user_bytes p m", OF cl out l] dis clean_live(2) [OF cl l] by blast
  qed
  moreover have "zone_holds m' FREEDBUF_PATTERN (buffer_of b)" if r: "(q, b) \<in> set (quarantine_view st)" for q b
  proof -
    have "(q, b) \<in> entries st" using r by (simp add: entries_def)
    moreover have "q \<noteq> p" using live_not_quarantined [OF cleanD(1) [OF cl] live] r by force
    ultimately show ?thesis using clean_others(2) [where W = "user_bytes p m", OF cl out r] dis by blast
  qed
  ultimately show ?thesis using cl by (auto simp: clean_def)
qed

lemma free_clean:
  assumes cl: "clean st" and sup: "supplied 1 st" and live: "live_view st p = Some m" and p: "p \<noteq> NULL"
  shows "\<exists>st'. free p st = Some st' \<and> clean st' \<and> log st' = log st \<and> live_view st' = (live_view st)(p := None) \<and>
     (\<forall>a. unat a \<notin> buffer_of m \<longrightarrow> mem st' a = mem st a)"
proof -
  from unregister_clean [OF cl sup live] obtain out s where
    s: "mc_unregister_memblk p st = Some ((0, Some out), s)" "clean s" "log s = log st"
      "live_view s = (live_view st)(p := None)" "\<forall>a. mem s a = (if unat a \<in> buffer_of m then FREEDBUF_PATTERN else mem st a)"
    by blast
  let ?st' = "if out \<noteq> NULL then mc_orig_free out s else s"
  have "free p st = Some ?st'" using s(1) p cleanD(3) [OF cl] by (simp add: free_def)
  moreover have "clean ?st'" "log ?st' = log st" "live_view ?st' = (live_view st)(p := None)" "mem ?st' = mem s"
    using s by (simp_all add: mc_orig_free_def)
  ultimately show ?thesis using s(5) by auto
qed

end
