(* ===== verification/MC_Run.thy ===== *)
theory MC_Run
  imports MC_Program
begin

text \<open>
  The composed hooks (\<open>calloc\<close>, \<open>realloc\<close>, the aligned allocators) on clean states, and the runs of a
  program that keeps to its blocks as a step relation: no run ever produces a report, and the
  record of the library is the program's own view of its blocks.
\<close>

section \<open>calloc and realloc\<close>

lemma calloc_clean:
  assumes cl: "clean st" and sup: "supplied (Suc (Suc k)) st" and g: "grants (nm * sz + REDZONE_SIZE * 2) st"
    and n: "unat nm * unat sz + 32 < 2 ^ 31" "0 < unat nm * unat sz"
  shows "\<exists>p st'. calloc nm sz st = Some (p, st') \<and> clean st' \<and> supplied k st' \<and> log st' = log st \<and>
     (p = NULL \<longleftrightarrow> fst (mc_orig_malloc (nm * sz + REDZONE_SIZE * 2) st) = NULL) \<and>
     (p = NULL \<and> live_view st' = live_view st \<or>
      p \<noteq> NULL \<and> live_view st p = None \<and> live_view st' = (live_view st)(p \<mapsto> block_of p (nm * sz)) \<and>
        (\<forall>i < unat nm * unat sz. mem st' (p + of_nat i) = 0))"
proof -
  have prod: "unat (nm * sz) = unat nm * unat sz"
    by (rule unat_mult_lem [THEN iffD1]) (use n in simp)
  then have nz: "nm * sz \<noteq> 0" using n(2) by auto
  have small: "unat (nm * sz) + 32 < 2 ^ 31" using prod n(1) by simp
  from malloc_clean [OF cl sup g small] obtain p s where
    m: "malloc (nm * sz) st = Some (p, s)" "clean s" "supplied k s" "log s = log st"
    and null: "p = NULL \<longleftrightarrow> fst (mc_orig_malloc (nm * sz + REDZONE_SIZE * 2) st) = NULL"
    and c: "p = NULL \<and> live_view s = live_view st \<or>
        p \<noteq> NULL \<and> live_view st p = None \<and> live_view s = (live_view st)(p \<mapsto> block_of p (nm * sz))" by blast
  have run: "calloc nm sz st = Some (p, if p \<noteq> NULL then s\<lparr>mem := memset p 0 (nm * sz) (mem s)\<rparr> else s)"
    using m(1) nz cleanD(3) [OF cl] by (simp add: calloc_def)
  show ?thesis
  proof (cases "p = NULL")
    case True
    then show ?thesis using run m c null by auto
  next
    case False
    then have l: "live_view st p = None" "live_view s = (live_view st)(p \<mapsto> block_of p (nm * sz))" using c by auto
    let ?m = "block_of p (nm * sz)" and ?M = "memset p 0 (nm * sz) (mem s)"
    have live: "live_view s p = Some ?m" using l(2) by simp
    note e = clean_live(3) [OF m(2) live]
    have room: "unat p + unat (nm * sz) \<le> 2 ^ 64"
      using e by (auto simp: entry_ok_def layout_ok_def block_of_def)
    have M: "?M a = (if unat a \<in> user_bytes p ?m then 0 else mem s a)" for a
      using memset_in [OF room] by (simp add: user_bytes_def block_of_def)
    have "clean (s\<lparr>mem := ?M\<rparr>)" by (rule write_clean [OF m(2) live]) (simp add: M)
    moreover have "?M (p + of_nat i) = 0" if "i < unat nm * unat sz" for i
    proof -
      have "unat (p + of_nat i) = unat p + i" using room that prod by (intro unat_add_bounded) simp
      then show ?thesis using that prod by (simp add: M user_bytes_def block_of_def)
    qed
    ultimately show ?thesis using run False m(3,4) l null by simp
  qed
qed

lemma handle_realloc_live:
  assumes "mc_ok st" "live_view st p = Some m"
  shows "mc_handle_realloc_memblk p st = Some (mb_usrsize m)"
  using assms(2) by (auto simp: mc_handle_realloc_memblk_def live_view_def split: option.splits if_splits)

lemma handle_realloc_unknown:
  assumes "mc_ok st" "live_view st p = None"
  shows "mc_handle_realloc_memblk p st = Some (- 1)"
proof -
  from assms(1) obtain N F C where I: "mc_inv N F C st" by (auto simp: mc_ok_def)
  have "\<exists>n. find_ptr Live p st = Some n"
    using ptrs.lookup_spec [OF tables_okD(2) [OF mc_invD(1) [OF I]], of p Live] by (auto simp: find_ptr_def)
  then show ?thesis using assms(2) by (auto simp: mc_handle_realloc_memblk_def live_view_def split: if_splits)
qed

lemma realloc_clean:
  assumes cl: "clean st" and sup: "supplied 3 st" and g: "grants (n + REDZONE_SIZE * 2) st"
    and n: "unat n + 32 < 2 ^ 31" "n \<noteq> 0" and live: "live_view st p = Some m" and p: "p \<noteq> NULL"
  shows "\<exists>q st'. realloc p n st = Some (q, st') \<and> clean st' \<and> log st' = log st \<and>
     (q = NULL \<longleftrightarrow> fst (mc_orig_malloc (n + REDZONE_SIZE * 2) st) = NULL) \<and>
     (q = NULL \<and> live_view st' = live_view st \<and> mem st' = mem st \<or>
      q \<noteq> NULL \<and> live_view st q = None \<and> live_view st' = (live_view st)(q \<mapsto> block_of q n, p := None) \<and> p \<noteq> q \<and>
        (\<forall>i < min (unat n) (unat (mb_usrsize m)). mem st' (q + of_nat i) = mem st (p + of_nat i)) \<and>
        (\<forall>a. unat a \<notin> buffer_of m \<union> buffer_of (block_of q n) \<longrightarrow> mem st' a = mem st a))"
proof -
  note e = clean_live [OF cl live]
  let ?old = "mb_usrsize m"
  have oldlt: "unat ?old < 2 ^ 31" using e(3) by (auto simp: entry_ok_def layout_ok_def word_le_nat_alt)
  have "unat (- 1 :: size_t) = 2 ^ 64 - 1" by (simp add: unsigned_minus_1_eq_mask mask_eq_exp_minus_1)
  then have ne: "?old \<noteq> - 1" using oldlt by auto
  have "supplied (Suc (Suc 1)) st" using sup by (simp add: numeral_3_eq_3)
  from malloc_clean [OF cl this g n(1)] obtain q s where
    m1: "malloc n st = Some (q, s)" "clean s" "supplied 1 s" "log s = log st"
    and null: "q = NULL \<longleftrightarrow> fst (mc_orig_malloc (n + REDZONE_SIZE * 2) st) = NULL"
    and c: "q = NULL \<and> live_view s = live_view st \<and> mem s = mem st \<or>
        q \<noteq> NULL \<and> live_view st q = None \<and> live_view s = (live_view st)(q \<mapsto> block_of q n) \<and>
        (\<forall>a. unat a \<notin> buffer_of (block_of q n) \<longrightarrow> mem s a = mem st a)" by blast
  let ?k = "if ?old \<le> n then ?old else n" and ?M = "memcpy q p (if ?old \<le> n then ?old else n) (mem s)"
  have run: "realloc p n st = (if q \<noteq> NULL then do { st \<leftarrow> free p (s\<lparr>mem := ?M\<rparr>); Some (q, st) } else Some (q, s))"
    using p n(2) cleanD(3) [OF cl] handle_realloc_live [OF cleanD(1) [OF cl] live] ne m1(1) by (simp add: realloc_def)
  show ?thesis
  proof (cases "q = NULL")
    case True
    then show ?thesis using run m1 c null by auto
  next
    case False
    then have l: "live_view st q = None" "live_view s = (live_view st)(q \<mapsto> block_of q n)"
      and other: "\<And>a. unat a \<notin> buffer_of (block_of q n) \<Longrightarrow> mem s a = mem st a" using c by auto
    have pq: "p \<noteq> q" using l(1) live by auto
    have live_q: "live_view s q = Some (block_of q n)" and live_p: "live_view s p = Some m" using l pq live by simp_all
    note eq = clean_live [OF m1(2) live_q] and ep = clean_live [OF m1(2) live_p]
    have dis: "buffer_of m \<inter> buffer_of (block_of q n) = {}"
      using cleanD(5) [OF m1(2)] eq(2) ep(2) pq unfolding apart_def by fast
    have k: "unat ?k = min (unat n) (unat ?old)" by (simp add: word_le_nat_alt min_def)
    have room: "unat q + unat n \<le> 2 ^ 64" using eq(3) by (auto simp: entry_ok_def layout_ok_def block_of_def)
    have M_out: "?M a = mem s a" if "unat a \<notin> user_bytes q (block_of q n)" for a
    proof -
      have "\<not> a - q < ?k"
      proof
        assume "a - q < ?k"
        then have d: "unat (a - q) < unat n" using k by (simp add: word_less_nat_alt)
        have "unat (q + of_nat (unat (a - q))) = unat q + unat (a - q)"
          using room d by (intro unat_add_bounded) simp
        then have "unat a \<in> user_bytes q (block_of q n)" using d by (simp add: user_bytes_def block_of_def)
        then show False using that by simp
      qed
      then show ?thesis by (simp add: memcpy_def)
    qed
    have cl2: "clean (s\<lparr>mem := ?M\<rparr>)" by (rule write_clean [OF m1(2) live_q M_out])
    have live2: "live_view (s\<lparr>mem := ?M\<rparr>) p = Some m" using live_p by simp
    from free_clean [OF cl2 _ live2 p] m1(3) obtain st' where
      f: "free p (s\<lparr>mem := ?M\<rparr>) = Some st'" "clean st'" "log st' = log st" "live_view st' = (live_view s)(p := None)"
      and keep: "\<forall>a. unat a \<notin> buffer_of m \<longrightarrow> mem st' a = ?M a" using m1(4) by auto
    have "mem st' (q + of_nat i) = mem st (p + of_nat i)" if i: "i < min (unat n) (unat ?old)" for i
    proof -
      have uq: "unat (q + of_nat i) = unat q + i" using room i by (intro unat_add_bounded) simp
      have "unat q + i \<in> user_bytes q (block_of q n)" using i by (simp add: user_bytes_def block_of_def)
      then have "unat (q + of_nat i) \<notin> buffer_of m" using dis zones_in_buffer [OF eq(3)] uq by auto
      then have "mem st' (q + of_nat i) = ?M (q + of_nat i)" using keep by blast
      also have "\<dots> = mem s (p + of_nat i)"
      proof -
        have "of_nat i < ?k" using i k oldlt by (simp add: word_less_nat_alt unat_of_nat_u64)
        then show ?thesis by (simp add: memcpy_def)
      qed
      also have "\<dots> = mem st (p + of_nat i)"
      proof -
        have "unat p + unat ?old \<le> 2 ^ 64" using ep(3) by (auto simp: entry_ok_def layout_ok_def)
        then have "unat (p + of_nat i) = unat p + i" using i by (intro unat_add_bounded) simp
        then have "unat (p + of_nat i) \<in> buffer_of m"
          using i zones_in_buffer [OF ep(3)] by (auto simp: user_bytes_def)
        then show ?thesis using other dis by blast
      qed
      finally show ?thesis .
    qed
    moreover have "mem st' a = mem st a" if a: "unat a \<notin> buffer_of m \<union> buffer_of (block_of q n)" for a
    proof -
      have "unat a \<notin> user_bytes q (block_of q n)" using a zones_in_buffer [OF eq(3)] by blast
      then show ?thesis using a keep M_out other by simp
    qed
    ultimately show ?thesis using run False f l pq null by simp
  qed
qed

section \<open>The aligned allocators\<close>

lemma is_power_of_2_exp:
  assumes "is_power_of_2 a"
  obtains j where "j < 64" "a = 2 ^ j"
proof -
  from assms obtain j where "filter (bit a) [0..<64] = [j]"
    unfolding is_power_of_2_def by (auto simp: length_Suc_conv)
  then have s: "set (filter (bit a) [0..<64]) = {j}" by simp
  have "bit a i \<longleftrightarrow> i = j" for i
  proof (cases "i < 64")
    case True
    then show ?thesis using s by auto
  next
    case False
    have "\<not> bit a i" using bit_imp_le_length [of a i] False by auto
    then show ?thesis using s False by auto
  qed
  moreover have "j < 64" using s by auto
  ultimately have "a = 2 ^ j" by (intro bit_word_eqI) (auto simp: bit_exp_iff)
  then show ?thesis using that \<open>j < 64\<close> by blast
qed

text \<open>Rounding up: the next multiple, at most \<open>2 ^ j - 1\<close> away.\<close>

lemma align_addr_spec:
  assumes "j < 64" "unat x + 2 ^ j \<le> 2 ^ 64"
  shows "2 ^ j dvd unat (align_addr x (2 ^ j))" "unat x \<le> unat (align_addr x (2 ^ j))"
    "unat (align_addr x (2 ^ j)) < unat x + 2 ^ j"
proof -
  have one: "(2 :: addr) ^ j - 1 = mask j" by (simp add: mask_eq_exp_minus_1)
  have w: "x + 2 ^ j - 1 = x + of_nat (2 ^ j - 1)" by simp
  have "(1 :: nat) \<le> 2 ^ j" by simp
  then have "unat x + (2 ^ j - 1) < 2 ^ 64" using assms(2) by linarith
  then have u: "unat (x + 2 ^ j - 1) = unat x + (2 ^ j - 1)"
    unfolding w by (rule unat_add_bounded)
  have "(2 :: addr) ^ j \<noteq> 0" using assms(1) by simp
  then have "align_addr x (2 ^ j) = (x + 2 ^ j - 1) AND NOT (mask j)" by (simp add: align_addr_def one)
  then have r: "unat (align_addr x (2 ^ j)) = (unat x + (2 ^ j - 1)) div 2 ^ j * 2 ^ j"
    using unat_and_not_mask [of "x + 2 ^ j - 1" j] u by simp
  show "2 ^ j dvd unat (align_addr x (2 ^ j))" unfolding r by simp
  have d: "(unat x + (2 ^ j - 1)) div 2 ^ j * 2 ^ j + (unat x + (2 ^ j - 1)) mod 2 ^ j = unat x + (2 ^ j - 1)"
    by (rule div_mult_mod_eq)
  have "(unat x + (2 ^ j - 1)) mod 2 ^ j < 2 ^ j" by (rule mod_less_divisor) simp
  moreover have "(1 :: nat) \<le> 2 ^ j" by simp
  ultimately show "unat x \<le> unat (align_addr x (2 ^ j))" "unat (align_addr x (2 ^ j)) < unat x + 2 ^ j"
    using d unfolding r by linarith+
qed

lemma unat_add3:
  assumes "unat n + k < 2 ^ 64"
  shows "unat ((n :: size_t) + of_nat k) = unat n + k"
  using assms by (rule unat_add_bounded)

text \<open>
  The layout of an aligned block: at least 16 bytes of red zone on either side. \<open>a\<close> is the
  alignment, \<open>a - 1\<close> bytes are requested on top of the two red zones.
\<close>

lemma aligned_entry:
  assumes j: "j < 64" and n: "unat n + 32 + 2 ^ j \<le> 2 ^ 31"
    and buf: "unat buf + unat (n + REDZONE_SIZE * 2 + 2 ^ j - 1) \<le> 2 ^ 64"
  defines "p \<equiv> align_addr (buf + REDZONE_SIZE) (2 ^ j)" and "bs \<equiv> n + REDZONE_SIZE * 2 + 2 ^ j - 1"
  shows "entry_ok (p, \<lparr>mb_buf = buf, mb_bufsize = bs, mb_usrsize = n\<rparr>)" "2 ^ j dvd unat p"
    "unat buf + 16 \<le> unat p" "unat p + unat n + 16 \<le> unat buf + unat bs"
proof -
  have one: "(1 :: nat) \<le> 2 ^ j" by simp
  have w: "bs = n + of_nat (32 + (2 ^ j - 1))" by (simp add: bs_def REDZONE_SIZE_def)
  have bs: "unat bs = unat n + 32 + (2 ^ j - 1)"
    unfolding w using n one by (subst unat_add3) simp_all
  have b: "unat (buf + REDZONE_SIZE) = unat buf + 16"
    using unat_add_bounded [of buf 16] buf bs one unfolding bs_def [symmetric] by (simp add: REDZONE_SIZE_def)
  have "unat (buf + REDZONE_SIZE) + 2 ^ j \<le> 2 ^ 64" using buf bs b one unfolding bs_def [symmetric] by linarith
  note A = align_addr_spec [OF j this, folded p_def]
  show "2 ^ j dvd unat p" by (rule A)
  show lo: "unat buf + 16 \<le> unat p" using A(2) b by simp
  show hi: "unat p + unat n + 16 \<le> unat buf + unat bs" using A(3) b bs one by linarith
  have "unat p < unat buf + 2 ^ 31" "unat buf + unat bs < unat p + unat n + 2 ^ 31" "unat bs < 2 ^ 31"
    using A b bs n one by linarith+
  then show "entry_ok (p, \<lparr>mb_buf = buf, mb_bufsize = bs, mb_usrsize = n\<rparr>)"
    using lo hi buf unfolding bs_def [symmetric]
    by (simp add: entry_ok_def layout_ok_def buffer_of_def word_le_nat_alt)
qed

lemma aligned_allocator_clean:
  assumes cl: "clean st" and sup: "supplied (Suc (Suc k)) st" and j: "j < 64" and n: "unat n + 32 + 2 ^ j \<le> 2 ^ 31"
    and g: "grants (n + REDZONE_SIZE * 2 + 2 ^ j - 1) st"
  shows "\<exists>p st'. aligned_allocator (2 ^ j) n st = Some (p, st') \<and> clean st' \<and> log st' = log st \<and>
     (p = NULL \<longleftrightarrow> fst (mc_orig_malloc (n + REDZONE_SIZE * 2 + 2 ^ j - 1) st) = NULL) \<and>
     (p = NULL \<and> live_view st' = live_view st \<or>
      p \<noteq> NULL \<and> live_view st p = None \<and> 2 ^ j dvd unat p \<and> (\<exists>m. live_view st' = (live_view st)(p \<mapsto> m) \<and> mb_usrsize m = n \<and>
         unat (mb_buf m) + 16 \<le> unat p \<and> unat p + unat n + 16 \<le> unat (mb_buf m) + unat (mb_bufsize m)))"
proof -
  let ?bs = "n + REDZONE_SIZE * 2 + 2 ^ j - 1"
  obtain buf e where o: "mc_orig_malloc ?bs st = (buf, set_libc e st)"
    by (cases "orig_malloc ?bs (libc st)") (simp add: mc_orig_malloc_def)
  show ?thesis
  proof (cases "buf = NULL")
    case True
    then show ?thesis using o cl by (simp add: aligned_allocator_def)
  next
    case False
    let ?p = "align_addr (buf + REDZONE_SIZE) (2 ^ j)"
    have un: "unused buf ?bs st" using g o False by (simp add: grants_def)
    note E = aligned_entry [OF j n conjunct1 [OF un [unfolded unused_def]]]
    have new: "live_view st ?p = None" "?p \<noteq> NULL" using register_clean(1) [OF cl sup un E(1)] E(3) by auto
    from register_clean(2) [of "set_libc e st" k buf ?bs ?p n] cl sup un E(1) obtain st' where
      r: "mc_register_memblk buf ?p ?bs n (set_libc e st) = Some (0, st')" "clean st'" "log st' = log st"
        "live_view st' = (live_view st)(?p \<mapsto> \<lparr>mb_buf = buf, mb_bufsize = ?bs, mb_usrsize = n\<rparr>)" by auto
    have "aligned_allocator (2 ^ j) n st = Some (?p, st')" using o False r(1) by (simp add: aligned_allocator_def)
    then show ?thesis using r E(2-4) new o False by auto
  qed
qed

text \<open>The allocators of the interface. A request for whole pages is one for the next multiple of their size.\<close>

lemma is_power_of_2_iff: "is_power_of_2 a \<longleftrightarrow> (\<exists>j<64. a = 2 ^ j)"
proof
  show "\<exists>j<64. a = 2 ^ j" if "is_power_of_2 a" using is_power_of_2_exp [OF that] by blast
  assume "\<exists>j<64. a = 2 ^ j"
  then obtain j where j: "j < 64" "a = 2 ^ j" by blast
  then have "bit a i \<longleftrightarrow> i = j" if "i < 64" for i using that by (auto simp: bit_exp_iff)
  then have "filter (bit a) [0..<64] = filter (\<lambda>i. i = j) [0..<64]" by (intro filter_cong) auto
  moreover have "card {i. i < 64 \<and> i = j} = 1" using j(1) by (simp add: conj_commute cong: conj_cong)
  ultimately show "is_power_of_2 a" by (simp add: is_power_of_2_def length_filter_conv_card cong: conj_cong)
qed

lemma aligned_interface:
  assumes "j < 64"
  shows "memalign (2 ^ j) n st = aligned_allocator (2 ^ j) n st" "aligned_alloc (2 ^ j) n st = aligned_allocator (2 ^ j) n st"
    "aligned_allocator (2 ^ j) n st = Some (p, st') \<Longrightarrow>
       posix_memalign (2 ^ j) n st = Some (if p = NULL then (ENOMEM, None) else (0, Some p), st')"
proof -
  have "is_power_of_2 (2 ^ j)" "(2 :: size_t) ^ j \<noteq> 0" using assms is_power_of_2_iff by auto
  then show "memalign (2 ^ j) n st = aligned_allocator (2 ^ j) n st" "aligned_alloc (2 ^ j) n st = aligned_allocator (2 ^ j) n st"
    "aligned_allocator (2 ^ j) n st = Some (p, st') \<Longrightarrow>
       posix_memalign (2 ^ j) n st = Some (if p = NULL then (ENOMEM, None) else (0, Some p), st')"
    by (simp_all add: memalign_def aligned_alloc_def posix_memalign_def)
qed

lemma aligned_refused:
  assumes "\<forall>j<64. a \<noteq> 2 ^ j"
  shows "memalign a n st = Some (NULL, st)" "aligned_alloc a n st = Some (NULL, st)" "posix_memalign a n st = Some ((EINVAL, None), st)"
  using assms is_power_of_2_iff [of a] by (auto simp: memalign_def aligned_alloc_def posix_memalign_def)

lemma page_allocators:
  "valloc n st = memalign (2 ^ 12) n st"
  "unat n = (unat m + 4095) div 4096 * 4096 \<Longrightarrow> pvalloc m st = memalign (2 ^ 12) n st"
proof -
  show "valloc n st = memalign (2 ^ 12) n st" by (simp add: valloc_def PAGE_SIZE_def)
  assume n: "unat n = (unat m + 4095) div 4096 * 4096"
  have "unat m + 4095 < 2 ^ 64"
  proof (rule ccontr)
    assume "\<not> unat m + 4095 < 2 ^ 64"
    then have "2 ^ 64 div 4096 * 4096 \<le> unat n" unfolding n by (intro mult_le_mono div_le_mono) simp_all
    then show False using unat_lt_u64 [of n] by simp
  qed
  then have u: "unat (m + 4095) = unat m + 4095" using unat_add_bounded [of m 4095] by simp
  have "(4096 :: size_t) - 1 = mask 12" by (simp add: mask_eq_exp_minus_1)
  then have "unat ((m + 4096 - 1) AND NOT (4096 - 1)) = unat n"
    using unat_and_not_mask [of "m + 4095" 12] u n by (simp add: add.commute)
  then have "(m + 4096 - 1) AND NOT (4096 - 1) = n" by (simp add: word_unat_eq_iff)
  then show "pvalloc m st = memalign (2 ^ 12) n st" by (simp add: pvalloc_def PAGE_SIZE_def)
qed

section \<open>Runs\<close>

text \<open>
  A program: the state of the library and the blocks the program holds, with their sizes. It
  allocates, gives back what it holds, writes to the bytes of its blocks and to memory that
  belongs to no buffer; the library's own pages are not in \<open>mem\<close>, so a write that damages them is not
  among the steps. The hypotheses on each call are part of what is claimed: the kernel grants the
  mappings that the records of the call may take (\<open>supplied\<close>), what the C library hands out does not
  overlap a buffer in use (\<open>grants\<close>; it may have no memory), and sizes and alignments stay below
  2 ^ 31 with the red zones. \<open>valloc\<close> and \<open>pvalloc\<close> are calls of \<open>memalign\<close> (\<open>page_allocators\<close>).
\<close>

type_synonym world = "mc \<times> (addr \<Rightarrow> size_t option)"

inductive step :: "world \<Rightarrow> world \<Rightarrow> bool" where
  step_malloc: "supplied 2 st \<Longrightarrow> grants (n + REDZONE_SIZE * 2) st \<Longrightarrow> unat n + 32 < 2 ^ 31 \<Longrightarrow>
     malloc n st = Some (p, st') \<Longrightarrow> step (st, h) (st', if p = NULL then h else h(p \<mapsto> n))"
| step_calloc: "supplied 2 st \<Longrightarrow> grants (k * n + REDZONE_SIZE * 2) st \<Longrightarrow> unat k * unat n + 32 < 2 ^ 31 \<Longrightarrow>
     0 < unat k * unat n \<Longrightarrow> calloc k n st = Some (p, st') \<Longrightarrow>
     step (st, h) (st', if p = NULL then h else h(p \<mapsto> k * n))"
| step_realloc: "supplied 3 st \<Longrightarrow> grants (n + REDZONE_SIZE * 2) st \<Longrightarrow> unat n + 32 < 2 ^ 31 \<Longrightarrow> n \<noteq> 0 \<Longrightarrow>
     h p \<noteq> None \<Longrightarrow> p \<noteq> NULL \<Longrightarrow> realloc p n st = Some (q, st') \<Longrightarrow>
     step (st, h) (st', if q = NULL then h else h(q \<mapsto> n, p := None))"
| step_calloc_zero: "k * n = 0 \<Longrightarrow> calloc k n st = Some (p, st') \<Longrightarrow> step (st, h) (st', h)"
| step_realloc_null: "supplied 2 st \<Longrightarrow> grants (n + REDZONE_SIZE * 2) st \<Longrightarrow> unat n + 32 < 2 ^ 31 \<Longrightarrow>
     realloc NULL n st = Some (p, st') \<Longrightarrow> step (st, h) (st', if p = NULL then h else h(p \<mapsto> n))"
| step_realloc_zero: "supplied 1 st \<Longrightarrow> h p \<noteq> None \<Longrightarrow> p \<noteq> NULL \<Longrightarrow> realloc p 0 st = Some (q, st') \<Longrightarrow> step (st, h) (st', h(p := None))"
| step_memalign: "supplied 2 st \<Longrightarrow> j < 64 \<Longrightarrow> unat n + 32 + 2 ^ j \<le> 2 ^ 31 \<Longrightarrow> grants (n + REDZONE_SIZE * 2 + 2 ^ j - 1) st \<Longrightarrow>
     memalign (2 ^ j) n st = Some (p, st') \<or> aligned_alloc (2 ^ j) n st = Some (p, st') \<Longrightarrow>
     step (st, h) (st', if p = NULL then h else h(p \<mapsto> n))"
| step_posix_memalign: "supplied 2 st \<Longrightarrow> j < 64 \<Longrightarrow> unat n + 32 + 2 ^ j \<le> 2 ^ 31 \<Longrightarrow> grants (n + REDZONE_SIZE * 2 + 2 ^ j - 1) st \<Longrightarrow>
     posix_memalign (2 ^ j) n st = Some ((rc, out), st') \<Longrightarrow>
     step (st, h) (st', case out of None \<Rightarrow> h | Some p \<Rightarrow> h(p \<mapsto> n))"
| step_refused: "\<forall>j<64. a \<noteq> 2 ^ j \<Longrightarrow> memalign a n st = Some (p, st') \<or> aligned_alloc a n st = Some (p, st') \<or>
     posix_memalign a n st = Some (r, st') \<Longrightarrow> step (st, h) (st', h)"
| step_free: "supplied 1 st \<Longrightarrow> h p \<noteq> None \<Longrightarrow> p \<noteq> NULL \<Longrightarrow> free p st = Some st' \<Longrightarrow> step (st, h) (st', h(p := None))"
| step_free_null: "free NULL st = Some st' \<Longrightarrow> step (st, h) (st', h)"
| step_write: "h p = Some n \<Longrightarrow> i < unat n \<Longrightarrow> step (st, h) (st\<lparr>mem := (mem st)(p + of_nat i := v)\<rparr>, h)"
| step_elsewhere: "\<forall>(q, m)\<in>entries st. unat a \<notin> buffer_of m \<Longrightarrow> step (st, h) (st\<lparr>mem := (mem st)(a := v)\<rparr>, h)"

inductive reachable :: "world \<Rightarrow> world \<Rightarrow> bool" for w where
  start: "reachable w w"
| next_step: "reachable w v \<Longrightarrow> step v u \<Longrightarrow> reachable w u"

text \<open>The library's record is the program's view, and the run is clean.\<close>

definition in_step :: "log_line list \<Rightarrow> world \<Rightarrow> bool" where
  "in_step l w \<longleftrightarrow> (case w of (st, h) \<Rightarrow> clean st \<and> log st = l \<and> h = map_option mb_usrsize \<circ> live_view st)"

lemma in_stepD:
  "in_step l (st, h) \<Longrightarrow> clean st" "in_step l (st, h) \<Longrightarrow> log st = l"
  "in_step l (st, h) \<Longrightarrow> h p = map_option mb_usrsize (live_view st p)"
  by (simp_all add: in_step_def)

lemma in_stepI: "clean st \<Longrightarrow> log st = l \<Longrightarrow> (\<And>p. h p = map_option mb_usrsize (live_view st p)) \<Longrightarrow> in_step l (st, h)"
  by (simp add: in_step_def fun_eq_iff)

lemma step_in_step: "step w v \<Longrightarrow> in_step l w \<Longrightarrow> in_step l v"
proof (induction rule: step.induct)
  case (step_malloc st n p st' h)
  note D = in_stepD [OF step_malloc(5)]
  have "supplied (Suc (Suc 0)) st" using step_malloc(1) by (simp add: numeral_2_eq_2)
  from malloc_clean [OF D(1) this step_malloc(2,3)] step_malloc(4) D(2) show ?case
    by (intro in_stepI) (auto simp: D(3) block_of_def)
next
  case (step_calloc st k n p st' h)
  note D = in_stepD [OF step_calloc(6)]
  have "supplied (Suc (Suc 0)) st" using step_calloc(1) by (simp add: numeral_2_eq_2)
  from calloc_clean [OF D(1) this step_calloc(2,3,4)] step_calloc(5) D(2) show ?case
    by (intro in_stepI) (auto simp: D(3) block_of_def)
next
  case (step_realloc st n h p q st')
  note D = in_stepD [OF step_realloc(8)]
  obtain m where m: "live_view st p = Some m" using step_realloc(5) by (auto simp: D(3))
  from realloc_clean [OF D(1) step_realloc(1,2,3,4) m step_realloc(6)] step_realloc(7) D(2) show ?case
    by (intro in_stepI) (auto simp: D(3) block_of_def)
next
  case (step_calloc_zero k n st p st' h)
  then show ?case by (simp add: calloc_def)
next
  case (step_realloc_null st n p st' h)
  note D = in_stepD [OF step_realloc_null(5)]
  have "supplied (Suc (Suc 0)) st" using step_realloc_null(1) by (simp add: numeral_2_eq_2)
  from malloc_clean [OF D(1) this step_realloc_null(2,3)] step_realloc_null(4) D(2) show ?case
    by (intro in_stepI) (auto simp: D(3) block_of_def realloc_def)
next
  case (step_realloc_zero st h p q st')
  note D = in_stepD [OF step_realloc_zero(5)]
  obtain m where m: "live_view st p = Some m" using step_realloc_zero(2) by (auto simp: D(3))
  from free_clean [OF D(1) step_realloc_zero(1) m step_realloc_zero(3)] step_realloc_zero(3,4) D(2) show ?case
    by (intro in_stepI) (auto simp: D(3) realloc_def)
next
  case (step_memalign st j n p st' h)
  note D = in_stepD [OF step_memalign(6)]
  have "supplied (Suc (Suc 0)) st" using step_memalign(1) by (simp add: numeral_2_eq_2)
  from aligned_allocator_clean [OF D(1) this step_memalign(2,3,4)] step_memalign(5) D(2) show ?case
    unfolding aligned_interface(1,2) [OF step_memalign(2)] by (intro in_stepI) (auto simp: D(3))
next
  case (step_posix_memalign st j n rc out st' h)
  note D = in_stepD [OF step_posix_memalign(6)]
  have "supplied (Suc (Suc 0)) st" using step_posix_memalign(1) by (simp add: numeral_2_eq_2)
  from aligned_allocator_clean [OF D(1) this step_posix_memalign(2,3,4)] obtain p s where
    a: "aligned_allocator (2 ^ j) n st = Some (p, s)" "clean s" "log s = log st"
      "p = NULL \<and> live_view s = live_view st \<or> p \<noteq> NULL \<and> (\<exists>m. live_view s = (live_view st)(p \<mapsto> m) \<and> mb_usrsize m = n)" by blast
  have "st' = s" "out = (if p = NULL then None else Some p)"
    using aligned_interface(3) [OF step_posix_memalign(2) a(1)] step_posix_memalign(5) by auto
  then show ?case using a(2-4) D(2) by (intro in_stepI) (auto simp: D(3))
next
  case (step_refused a n st p st' r h)
  then show ?case using aligned_refused [OF step_refused(1), of n st] by auto
next
  case (step_free st h p st')
  note D = in_stepD [OF step_free(5)]
  obtain m where m: "live_view st p = Some m" using step_free(2) by (auto simp: D(3))
  from free_clean [OF D(1) step_free(1) m step_free(3)] step_free(4) D(2) show ?case
    by (intro in_stepI) (auto simp: D(3))
next
  case (step_free_null st st' h)
  then show ?case by (simp add: free_def)
next
  case (step_write h p n i st v)
  note D = in_stepD [OF step_write(3)]
  obtain m where m: "live_view st p = Some m" "mb_usrsize m = n" using step_write(1) by (auto simp: D(3))
  have "unat p + unat n \<le> 2 ^ 64" using clean_live(3) [OF D(1) m(1)] m(2) by (auto simp: entry_ok_def layout_ok_def)
  then have "unat (p + of_nat i) = unat p + i" using step_write(2) by (intro unat_add_bounded) simp
  then have "unat (p + of_nat i) \<in> user_bytes p m" using step_write(2) m(2) by (simp add: user_bytes_def)
  then have "clean (st\<lparr>mem := (mem st)(p + of_nat i := v)\<rparr>)" by (intro write_clean [OF D(1) m(1)]) auto
  then show ?case using D(2) by (intro in_stepI) (simp_all add: D(3))
next
  case (step_elsewhere st a h v)
  note D = in_stepD [OF step_elsewhere(2)]
  have out: "((mem st)(a := v)) b = mem st b" if "unat b \<notin> {unat a}" for b using that by auto
  have dis: "buffer_of m \<inter> {unat a} = {}" if "(q, m) \<in> entries st" for q m using step_elsewhere(1) that by auto
  have "zone_holds ((mem st)(a := v)) REDZONE_PATTERN (zones_of q m)" if "live_view st q = Some m" for q m
    using clean_others(1) [where W = "{unat a}", OF D(1) out that] dis clean_live(2) [OF D(1) that] by blast
  moreover have "zone_holds ((mem st)(a := v)) FREEDBUF_PATTERN (buffer_of m)" if "(q, m) \<in> set (quarantine_view st)" for q m
  proof -
    have "(q, m) \<in> entries st" using that by (simp add: entries_def)
    then show ?thesis using clean_others(2) [where W = "{unat a}", OF D(1) out that] dis by blast
  qed
  ultimately have "clean (st\<lparr>mem := (mem st)(a := v)\<rparr>)" using D(1) by (auto simp: clean_def)
  then show ?case using D(2) by (intro in_stepI) (simp_all add: D(3))
qed

lemma reachable_in_step: "reachable w v \<Longrightarrow> in_step l w \<Longrightarrow> in_step l v"
  by (induction rule: reachable.induct) (auto intro: step_in_step)

section \<open>A concrete run\<close>

lemma started_clean: "clean mc_started"
  using mc_started(2,4,5,6,8) by (simp add: clean_def entries_def apart_def)

lemma started_supplied: "supplied (Suc (Suc 4)) mc_started" "supplied 2 mc_started" "supplied (Suc (Suc 0)) mc_started"
  using mc_started(9) granted_mono [of 6 "mmaps (bs_alloc (blk mc_started))" 2] by (simp_all add: supplied_def numeral_2_eq_2)

lemma started_libc: "fst (mc_orig_malloc n mc_started) = 0x100000"
  using mc_started(7) by (simp add: mc_orig_malloc_def orig_malloc_def libc_def boot_fmaps_def)

lemma started_grants: "unat n < 2 ^ 31 \<Longrightarrow> grants n mc_started"
  using mc_started(5,6) by (simp add: grants_def started_libc unused_def entries_def)

definition mc_run :: "addr \<times> mc" where
  "mc_run = the (malloc 32 mc_started)"

lemma malloc_registers:
  assumes "mc_init st = Some st" "do_not_hook st = 0" "mc_orig_malloc (n + REDZONE_SIZE * 2) st = (buf, e)" "buf \<noteq> NULL"
    and "mc_register_memblk buf (buf + REDZONE_SIZE) (n + REDZONE_SIZE * 2) n e = Some (rc, s)"
  shows "malloc n st = Some (buf + REDZONE_SIZE, s)"
  using assms by (simp add: malloc_def Let_def)

lemma started_buffer:
  obtains e where "\<And>n. mc_orig_malloc n mc_started = (0x100000, set_libc e mc_started)" "libc_mallocs e = [\<lambda>_. 0x200000]"
  using that [of "snd (orig_malloc 0 (libc mc_started))"]
  by (simp add: mc_orig_malloc_def orig_malloc_def libc_def mc_started(7) boot_fmaps_def)

lemma mc_run:
  "malloc 32 mc_started = Some (0x100010, snd mc_run)" "clean (snd mc_run)" "supplied 4 (snd mc_run)"
  "live_view (snd mc_run) = [0x100010 \<mapsto> block_of 0x100010 32]" "log (snd mc_run) = [Started]"
  "quarantine_view (snd mc_run) = []" "fst (mc_orig_malloc n (snd mc_run)) = 0x200000"
proof -
  let ?p = "0x100000 + REDZONE_SIZE :: addr" and ?n = "32 + REDZONE_SIZE * 2 :: size_t"
  obtain e where e: "mc_orig_malloc ?n mc_started = (0x100000, set_libc e mc_started)" "libc_mallocs e = [\<lambda>_. 0x200000]"
    using started_buffer by metis
  have p: "?p = 0x100010" by (simp add: REDZONE_SIZE_def)
  have un: "unused 0x100000 ?n mc_started"
    using started_grants [of ?n] started_libc [of ?n] by (simp add: grants_def REDZONE_SIZE_def)
  have eo: "entry_ok (?p, \<lparr>mb_buf = 0x100000, mb_bufsize = ?n, mb_usrsize = 32\<rparr>)"
    by (simp add: entry_ok_def layout_ok_def buffer_of_def REDZONE_SIZE_def)
  from register_clean(2) [of "set_libc e mc_started" 4 "0x100000" ?n ?p 32] started_clean started_supplied(1) un eo obtain s where
    s: "mc_register_memblk 0x100000 ?p ?n 32 (set_libc e mc_started) = Some (0, s)" "clean s" "supplied 4 s" "log s = [Started]"
      "outside s = outside (set_libc e mc_started)" "quarantine_view s = []"
      "live_view s = [?p \<mapsto> \<lparr>mb_buf = 0x100000, mb_bufsize = ?n, mb_usrsize = 32\<rparr>]"
    using mc_started(5,6,10) by auto
  have "libc s = e" using s(5) by (simp add: outside_def libc_def set_libc_def)
  then have "fst (mc_orig_malloc n s) = 0x200000" using e(2) by (simp add: mc_orig_malloc_def orig_malloc_def)
  moreover have "malloc 32 mc_started = Some (0x100010, s)"
    using malloc_registers [OF mc_started(11,4) e(1) _ s(1)] unfolding p by simp
  ultimately show "malloc 32 mc_started = Some (0x100010, snd mc_run)" "clean (snd mc_run)" "supplied 4 (snd mc_run)"
    "live_view (snd mc_run) = [0x100010 \<mapsto> block_of 0x100010 32]" "log (snd mc_run) = [Started]"
    "quarantine_view (snd mc_run) = []" "fst (mc_orig_malloc n (snd mc_run)) = 0x200000"
    using s(2-4,6,7) p by (simp_all add: mc_run_def block_of_def REDZONE_SIZE_def)
qed

lemma mc_run_supplied: "supplied 1 (snd mc_run)" "supplied 3 (snd mc_run)"
  using mc_run(3) granted_mono [of 4 "mmaps (bs_alloc (blk (snd mc_run)))"] by (simp_all add: supplied_def)

lemma mc_run_grants: "unat n < 2 ^ 20 \<Longrightarrow> grants n (snd mc_run)"
  using mc_run(4,6,7)
  by (auto simp: grants_def unused_def entries_def block_of_def buffer_of_def REDZONE_SIZE_def split: if_splits)

lemma large_malloc: "\<exists>s. malloc (2 ^ 32) mc_started = Some (0x100010, s)"
proof -
  let ?p = "0x100000 + REDZONE_SIZE :: addr" and ?n = "2 ^ 32 + REDZONE_SIZE * 2 :: size_t"
  obtain e where e: "mc_orig_malloc ?n mc_started = (0x100000, set_libc e mc_started)" using started_buffer by metis
  have "mc_ok (set_libc e mc_started)" using libc_frame(1) cleanD(1) started_clean by metis
  from mc_register_memblk_supplied [OF this, of 4 "0x100000" ?p ?n "2 ^ 32"] started_supplied(1) obtain s where
    "mc_register_memblk 0x100000 ?p ?n (2 ^ 32) (set_libc e mc_started) = Some (0, s)" by auto
  then have "malloc (2 ^ 32) mc_started = Some (?p, s)" by (intro malloc_registers [OF mc_started(11,4) e]) simp
  then show ?thesis by (auto simp: REDZONE_SIZE_def)
qed

lemma mc_run_reachable: "reachable (mc_started, map_option mb_usrsize \<circ> live_view mc_started) (snd mc_run, [0x100010 \<mapsto> 32])"
proof -
  have g: "grants (32 + REDZONE_SIZE * 2) mc_started" by (rule started_grants) (simp add: REDZONE_SIZE_def)
  have "step (mc_started, \<lambda>_. None) (snd mc_run, [0x100010 \<mapsto> 32])"
    using step_malloc [OF started_supplied(2) g _ mc_run(1), of "\<lambda>_. None"] by simp
  moreover have "map_option mb_usrsize \<circ> live_view mc_started = (\<lambda>_. None)" using mc_started(5) by auto
  ultimately show ?thesis using reachable.next_step [OF reachable.start] by simp
qed

end
