(* ===== verification/MC_Copies.thy ===== *)
theory MC_Copies
  imports MC_Compare MC_Run
begin

text \<open>
  The run of \<open>MC_Instance\<close> goes on: the table of its one block is copied, as the comparison with a
  snapshot does first. The states show that the hypotheses of the theorems about snapshots can hold.
\<close>

section \<open>Registration leaves the groups empty\<close>

lemma no_groups_cong: "(\<And>c. cs_group_next (csh st' c) = cs_group_next (csh st c)) \<Longrightarrow> no_groups st' = no_groups st"
  by (simp add: no_groups_def group_head_def)

lemma no_groups_new: "no_groups st \<Longrightarrow> (\<And>c. cs_group_next (csh st' c) = cs_group_next (csh st c) \<or>
    cs_group_next (csh st' c) = replicate LINK_MAX NULL) \<Longrightarrow> no_groups st'"
proof -
  assume ng: "no_groups st" and c: "\<And>c. cs_group_next (csh st' c) = cs_group_next (csh st c) \<or>
    cs_group_next (csh st' c) = replicate LINK_MAX NULL"
  have "replicate LINK_MAX NULL ! link_no l = NULL" for l by (cases l) (simp_all add: LINK_MAX_def)
  then have "group_head l d st' = NULL" for l d
    using c [of d] ng unfolding no_groups_def group_head_def by metis
  then show "no_groups st'" by (simp add: no_groups_def)
qed

lemma mc_get_callstack_no_groups:
  assumes "mc_get_callstack st = Some (c, st')" "no_groups st"
  shows "no_groups st'"
proof (rule no_groups_new [OF assms(2)])
  show "cs_group_next (csh st' d) = cs_group_next (csh st d) \<or> cs_group_next (csh st' d) = replicate LINK_MAX NULL" for d
    using assms(1)
    by (auto simp: mc_get_callstack_def backtrace_def do_allocate_def upd_cs_def add_cs_def set_cs_table_def cs_table_def
        mc_add_callstack_hashtable_def mc_disable_hook_def mc_enable_hook_def Let_def split: Option.bind_splits prod.splits if_splits)
qed

text \<open>After a registration with memory to spare, the entry names a call stack.\<close>

lemma find_after_add: "m \<noteq> NULL \<Longrightarrow> find_ptr i (mp_ptr (amp st m)) (add_ptr i m st) = Some m"
  by (simp add: find_ptr_def add_ptr_def set_ptr_table_def ptr_table_def mc_add_ptr_hashtable_def mc_find_ptr_hashtable_def
      Let_def chain_find.simps)

lemma register_traced:
  assumes inv: "mc_ok st" and s: "supplied (Suc (Suc n)) st" and ng: "no_groups st"
  shows "\<exists>st' m c. mc_register_memblk buf usrptr bufsize usrsize st = Some (0, st') \<and> no_groups st' \<and>
     table_view Live st' usrptr = Some (m, c) \<and> c \<noteq> NULL"
proof -
  from inv obtain N F C where I: "mc_inv N F C st" by (auto simp: mc_ok_def)
  note T = mc_invD(1) [OF I]
  from do_allocate_alloc_ok [OF T] obtain b bs where
    a: "do_allocate AllocMemblk st = Some (b, st\<lparr>blk := bs\<rparr>)"
      "tables_ok N (if b = 0 then {} else {b}) F {} C (st\<lparr>blk := bs\<rparr>)" by auto
  note S = do_allocate_supplied [OF tables_okD(1) [OF T] s a(1)]
  let ?st2 = "init_alloc_memblk b buf usrptr bufsize usrsize (st\<lparr>blk := bs\<rparr>)"
  have ok2: "tables_ok N {b} F {} C ?st2"
    using tables_ok_loose_amp [of N "{b}" F "{}" C "upd_am b (\<lambda>x. x\<lparr>am_memblk := m\<rparr>) (st\<lparr>blk := bs\<rparr>)" b for m] a(2) S(1)
    by (simp add: init_alloc_memblk_def Let_def)
  have s2: "supplied (Suc n) ?st2"
    using S(2) by (simp add: supplied_def init_alloc_memblk_def upd_am_def Let_def)
  from mc_get_callstack_ok [OF ok2] obtain c bs2 h t where
    g: "mc_get_callstack ?st2 = Some (c, with_callstacks bs2 h t ?st2)" by blast
  let ?st3 = "with_callstacks bs2 h t ?st2"
  let ?st5 = "mc_set_allocated_buffer b True (upd_am b (\<lambda>x. x\<lparr>am_allocator := c\<rparr>) ?st3)"
  have c: "c \<noteq> NULL" by (rule mc_get_callstack_supplied(1) [OF ok2 s2 g])
  have nn: "memptr_of b \<noteq> NULL" using memptr_live_nonnull(1) [OF ok2, of b] by simp
  have "no_groups ?st2" using ng by (subst no_groups_cong) (simp_all add: init_alloc_memblk_def upd_am_def Let_def)
  from mc_get_callstack_no_groups [OF g this] have "no_groups (count_alloc usrsize (add_ptr Live (memptr_of b) ?st5))"
    by (subst no_groups_cong [where st = ?st3])
      (simp_all add: count_alloc_def add_ptr_def set_ptr_table_def mc_set_allocated_buffer_def upd_am_def Let_def)
  moreover have "mp_ptr (amp ?st5 (memptr_of b)) = usrptr"
    by (simp add: mc_set_allocated_buffer_def upd_am_def with_callstacks_def init_alloc_memblk_def Let_def)
  with find_after_add [OF nn, of Live ?st5] have
    "find_ptr Live usrptr (count_alloc usrsize (add_ptr Live (memptr_of b) ?st5)) = Some (memptr_of b)"
    by (simp add: find_ptr_def ptr_table_def count_alloc_def)
  then have "table_view Live (count_alloc usrsize (add_ptr Live (memptr_of b) ?st5)) usrptr =
      Some (am_memblk (am ?st5 b), c)"
    using nn by (simp add: table_view_def Let_def count_alloc_def add_ptr_def set_ptr_table_def mc_set_allocated_buffer_def upd_am_def)
  ultimately show ?thesis using mc_register_memblk_success [OF a(1) S(1) g] c by blast
qed

section \<open>The run\<close>

lemma started_no_groups: "no_groups mc_started"
proof -
  have "csh st' = csh st" if "mc_init st = Some st'" for st st'
    using that by (auto simp: mc_init_def mc_disable_hook_def mc_enable_hook_def mc_log_print_def split: if_splits Option.bind_splits)
  from this [OF mc_started(1)] have "csh mc_started = csh boot_mc" .
  moreover have "no_groups boot_mc"
    unfolding no_groups_def group_head_def by (intro allI, case_tac l) (simp_all add: boot_mc_def)
  ultimately show ?thesis by (simp add: no_groups_def group_head_def)
qed

lemma mc_one_traced:
  "no_groups mc_one" "all_traced Live mc_one" "\<exists>c. table_view Live mc_one = [0x100010 \<mapsto> (one_block, c)]"
proof -
  from register_traced [OF mc_started(2) started_supplied(1) started_no_groups, of "0x100000" "0x100010" 64 32]
  obtain m c where s: "no_groups mc_one" "table_view Live mc_one 0x100010 = Some (m, c)" "c \<noteq> NULL"
    using mc_one_run(1) by auto
  have v: "map_option fst (table_view Live mc_one p) = [0x100010 \<mapsto> one_block] p" for p
    using mc_one(3) live_view_table [of mc_one p] by simp
  have "table_view Live mc_one p = [0x100010 \<mapsto> (one_block, c)] p" for p
    using v [of p] s(2) by (cases "table_view Live mc_one p") (auto split: if_splits)
  then have e: "table_view Live mc_one = [0x100010 \<mapsto> (one_block, c)]" by (rule ext)
  show "no_groups mc_one" "all_traced Live mc_one" "\<exists>c. table_view Live mc_one = [0x100010 \<mapsto> (one_block, c)]"
    using s e by (auto simp: all_traced_def)
qed

text \<open>Both working copies are emptied, then the table of live blocks is copied.\<close>

definition mc_copied :: mc where
  "mc_copied = snd (the (do {
     st \<leftarrow> mc_destroy_all_alloc_memblk Copy mc_one;
     st \<leftarrow> mc_destroy_all_alloc_memblk Snapshot_Copy st;
     mc_duplicate_all_alloc_memblk Copy Live st }))"

lemma mc_copied:
  "mc_ok mc_copied" "no_groups mc_copied" "all_traced Copy mc_copied" "all_traced Snapshot_Copy mc_copied"
  "table_pairs Snapshot_Copy mc_copied = {#}" "size (table_pairs Copy mc_copied) = 1"
proof -
  from mc_one(1) obtain N F C where inv: "mc_inv N F C mc_one" by (auto simp: mc_ok_def)
  obtain s where s: "mc_destroy_all_alloc_memblk Copy mc_one = Some s" "mc_inv (N(Copy := {})) F C s" "only_blocks mc_one s"
    "\<And>j. j \<noteq> Copy \<Longrightarrow> table_view j s = table_view j mc_one" "\<And>k. supplied k s = supplied k mc_one"
    by (rule mc_destroy_ok [OF inv, of Copy]) simp_all
  obtain t where t: "mc_destroy_all_alloc_memblk Snapshot_Copy s = Some t" "mc_inv (N(Copy := {}, Snapshot_Copy := {})) F C t"
    "only_blocks s t" "\<And>j. j \<noteq> Snapshot_Copy \<Longrightarrow> table_view j t = table_view j s"
    "table_view Snapshot_Copy t = Map.empty" "\<And>k. supplied k t = supplied k s"
    by (rule mc_destroy_ok [OF s(2), of Snapshot_Copy]) simp_all
  let ?N = "N(Copy := {}, Snapshot_Copy := {})"
  have e: "?N Copy = {}" "Live \<noteq> Copy" "Copy \<noteq> Live" by simp_all
  obtain c where c: "table_view Live mc_one = [0x100010 \<mapsto> (one_block, c)]" using mc_one_traced(3) by blast
  have live: "table_view Live t = [0x100010 \<mapsto> (one_block, c)]" using c s(4) [of Live] t(4) [of Live] by simp
  have "inj_on (usr_of t) (?N Live)" using mc_invD(2) [OF t(2)] unfolding keys_ok_def by blast
  note inj = this
  have img: "usr_of t ` ?N Live = {0x100010}"
    using dom_table_view [OF mc_invD(1) [OF t(2)] inj] live by (simp del: fun_upd_apply)
  have card: "card (?N Live) = 1" using card_image [OF inj] unfolding img by simp
  obtain rc u D where u: "mc_duplicate_all_alloc_memblk Copy Live t = Some (rc, u)" "mc_inv (?N(Copy := D)) F C u" "only_blocks t u"
    "\<And>j. j \<noteq> Copy \<Longrightarrow> table_view j u = table_view j t" "rc = 0 \<Longrightarrow> table_view Copy u = table_view Live t"
    "\<And>k. supplied (k + card (?N Live)) t \<Longrightarrow> rc = 0 \<and> supplied k u"
    by (rule mc_duplicate_ok [OF t(2) e]) (rule that)
  have "rc = 0" using u(6) [of 3] t(6) s(5) mc_one_run(2) card by (simp add: eval_nat_numeral)
  then have v: "table_view Copy u = [0x100010 \<mapsto> (one_block, c)]" using u(5) live by simp
  have is_u: "mc_copied = u" using s(1) t(1) u(1) by (simp add: mc_copied_def)
  have empty: "table_view Snapshot_Copy u = Map.empty" using u(4) [of Snapshot_Copy] t(5) by simp
  have "csh u = csh mc_one"
    using only_blocks_simps(3) [OF s(3)] only_blocks_simps(3) [OF t(3)] only_blocks_simps(3) [OF u(3)] by simp
  then show "no_groups mc_copied" using mc_one_traced(1) is_u by (simp add: no_groups_def group_head_def)
  show "mc_ok mc_copied" using u(2) is_u unfolding mc_ok_def by blast
  show "all_traced Copy mc_copied" using v c mc_one_traced(2) is_u by (simp add: all_traced_def)
  show "all_traced Snapshot_Copy mc_copied" using empty is_u by (simp add: all_traced_def)
  show "table_pairs Snapshot_Copy mc_copied = {#}" "size (table_pairs Copy mc_copied) = 1"
    using empty v is_u by (simp_all add: table_pairs_def)
qed

end
