(* ===== verification/MC_Report.thy ===== *)
theory MC_Report
  imports MC_Compare
begin

text \<open>
  What the reports change: the log, the symbol tables, the sort buffers, the bytes of repaired zones,
  and the totals of the call stacks. The tables, the groups and the counters stay as they are, whenever
  the report returns; printing a frame may not return when the symbols of its mapping cannot be read.
\<close>

section \<open>Loops\<close>

text \<open>What every turn of a loop keeps, the loop keeps, if it returns.\<close>

lemma walk_keeps:
  assumes step: "\<And>n s fl. P s \<Longrightarrow> body n s = Some fl \<Longrightarrow> P (flow_state fl)"
    and run: "walk nx body p s = Some fl" and start: "P s"
  shows "P (flow_state fl)"
proof -
  let ?Q = "\<lambda>nx body p s fl. (\<forall>n s fl. P s \<longrightarrow> body n s = Some fl \<longrightarrow> P (flow_state fl)) \<longrightarrow> P s \<longrightarrow> P (flow_state fl)"
  have "?Q nx body p s fl"
  proof (rule walk.raw_induct [where P = ?Q, OF _ run])
    fix walk nx body n s fl
    assume IH: "\<And>nx body n s fl. walk nx body n s = Some fl \<Longrightarrow> ?Q nx body n s fl"
      and eq: "(if n = NULL then Some (Next s) else do {
         fl \<leftarrow> body n s;
         (case fl of Ret r s' \<Rightarrow> Some (Ret r s') | Next s' \<Rightarrow> walk nx body (nx s' n) s')
       }) = Some fl"
    show "?Q nx body n s fl"
    proof (cases "n = NULL")
      case True
      then show ?thesis using eq by auto
    next
      case False
      then obtain f1 where f1: "body n s = Some f1" using eq by (cases "body n s") auto
      show ?thesis
      proof (cases f1)
        case (Next s1)
        then have "walk nx body (nx s1 n) s1 = Some fl" using eq False f1 by simp
        from IH [OF this] f1 Next show ?thesis by fastforce
      next
        case (Ret r s1)
        then show ?thesis using eq False f1 by auto
      qed
    qed
  qed
  then show ?thesis using step start by blast
qed

lemma walk_buckets_keeps:
  assumes step: "\<And>n s fl. P s \<Longrightarrow> body n s = Some fl \<Longrightarrow> P (flow_state fl)"
    and "walk_buckets nx tbl body is s = Some fl" "P s"
  shows "P (flow_state fl)"
  using assms(2,3)
proof (induction "is" arbitrary: s)
  case (Cons i ns)
  then obtain f1 where f1: "walk nx body (tbl s i) s = Some f1" by (cases "walk nx body (tbl s i) s") auto
  have "P (flow_state f1)" by (rule walk_keeps [OF step f1 Cons.prems(2)])
  then show ?case using Cons.IH Cons.prems(1) f1 by (cases f1) auto
qed auto

lemma for_each_keeps:
  assumes "\<And>n s fl. P s \<Longrightarrow> body n s = Some fl \<Longrightarrow> P (flow_state fl)"
    and "for_each_hashnode nx tbl sz body s = Some fl" "P s"
  shows "P (flow_state fl)"
  using walk_buckets_keeps [of P body nx tbl "[0..<sz]" s fl] assms by (simp add: for_each_hashnode_def)

section \<open>The relation\<close>

definition report_only :: "mc \<Rightarrow> mc \<Rightarrow> bool" where
  "report_only st st' \<longleftrightarrow> (\<exists>m ls fs n sm h.
     st' = st\<lparr>mem := m, log := ls, fmaps := fs, num_backtraces := n, sort_mmaps := sm, csh := h\<rparr> \<and>
     (\<forall>c. \<exists>t. h c = (csh st c)\<lparr>cs_total_size := t\<rparr>))"

lemma same_total: "\<exists>t. x = x\<lparr>cs_total_size := t\<rparr>"
  by (rule exI [of _ "cs_total_size x"]) simp

lemma report_onlyI:
  assumes "st' = st\<lparr>mem := m, log := ls, fmaps := fs, num_backtraces := n, sort_mmaps := sm, csh := h\<rparr>"
    and "\<And>c. \<exists>t. h c = (csh st c)\<lparr>cs_total_size := t\<rparr>"
  shows "report_only st st'"
  using assms unfolding report_only_def by blast

lemma report_only_refl [simp]: "report_only st st"
  by (rule report_onlyI [where m = "mem st" and ls = "log st" and fs = "fmaps st" and n = "num_backtraces st" and
        sm = "sort_mmaps st" and h = "csh st"]) (simp_all add: same_total)

lemma report_only_trans:
  assumes "report_only st s" "report_only s st'"
  shows "report_only st st'"
proof -
  from assms(1) obtain m ls fs n sm h where s: "s = st\<lparr>mem := m, log := ls, fmaps := fs, num_backtraces := n, sort_mmaps := sm, csh := h\<rparr>"
    and 1: "\<And>c. \<exists>t. h c = (csh st c)\<lparr>cs_total_size := t\<rparr>" unfolding report_only_def by blast
  from assms(2) obtain m' ls' fs' n' sm' h' where
    s': "st' = s\<lparr>mem := m', log := ls', fmaps := fs', num_backtraces := n', sort_mmaps := sm', csh := h'\<rparr>"
    and 2: "\<And>c. \<exists>t. h' c = (csh s c)\<lparr>cs_total_size := t\<rparr>" unfolding report_only_def by blast
  show ?thesis
  proof (rule report_onlyI)
    show "st' = st\<lparr>mem := m', log := ls', fmaps := fs', num_backtraces := n', sort_mmaps := sm', csh := h'\<rparr>" using s s' by simp
    fix c
    obtain t t' where "h c = (csh st c)\<lparr>cs_total_size := t\<rparr>" "h' c = (h c)\<lparr>cs_total_size := t'\<rparr>"
      using 1 [of c] 2 [of c] s by auto
    then show "\<exists>t. h' c = (csh st c)\<lparr>cs_total_size := t\<rparr>" by auto
  qed
qed

lemma quiet_report_only: "quiet st st' \<Longrightarrow> report_only st st'"
  by (erule quietE, rule report_onlyI [where m = "mem st" and sm = "sort_mmaps st" and h = "csh st"]) (simp_all add: same_total)

lemma mem_report_only: "report_only st (st\<lparr>mem := m\<rparr>)"
  by (rule report_onlyI [where m = m and ls = "log st" and fs = "fmaps st" and n = "num_backtraces st" and
        sm = "sort_mmaps st" and h = "csh st"]) (simp_all add: same_total)

lemma sort_report_only: "report_only st (st\<lparr>sort_mmaps := sm\<rparr>)"
  by (rule report_onlyI [where m = "mem st" and ls = "log st" and fs = "fmaps st" and n = "num_backtraces st" and
        sm = sm and h = "csh st"]) (simp_all add: same_total)

lemma total_report_only: "report_only st (upd_cs c (\<lambda>x. x\<lparr>cs_total_size := f x\<rparr>) st)"
  by (rule report_onlyI [where m = "mem st" and ls = "log st" and fs = "fmaps st" and n = "num_backtraces st" and
        sm = "sort_mmaps st" and h = "csh (upd_cs c (\<lambda>x. x\<lparr>cs_total_size := f x\<rparr>) st)"])
    (auto simp: upd_cs_def same_total)

lemma log_report_only: "report_only st (mc_log_print l st)"
  by (rule quiet_report_only) (rule quiet_log_print [OF quiet_refl])

lemmas report_steps = log_report_only sort_report_only mem_report_only total_report_only
  init_fmaps_quiet [THEN quiet_report_only] term_fmaps_quiet [THEN quiet_report_only]
  print_callstack_quiet [THEN quiet_report_only]

section \<open>What it leaves alone\<close>

lemma report_only_simps:
  assumes "report_only st st'"
  shows "blk st' = blk st" "amp st' = amp st" "am st' = am st" "fmp st' = fmp st" "fm st' = fm st" "ptr_tbls st' = ptr_tbls st"
    "free_tbl st' = free_tbl st" "cs_tbl st' = cs_tbl st" "counters st' = counters st" "free_fifo_idx st' = free_fifo_idx st"
    "free_memblk_array st' = free_memblk_array st" "cs_key (csh st' c) = cs_key (csh st c)"
    "trace_ok (csh st' c) = trace_ok (csh st c)" "cs_hash_next (csh st' c) = cs_hash_next (csh st c)"
    "group_head l c st' = group_head l c st" "supplied k st' = supplied k st"
    "initialized st' = initialized st" "do_not_hook st' = do_not_hook st"
proof -
  from assms obtain m ls fs n sm h where
    s: "st' = st\<lparr>mem := m, log := ls, fmaps := fs, num_backtraces := n, sort_mmaps := sm, csh := h\<rparr>"
    and "\<exists>t. h c = (csh st c)\<lparr>cs_total_size := t\<rparr>" unfolding report_only_def by blast
  then obtain t where "h c = (csh st c)\<lparr>cs_total_size := t\<rparr>" by blast
  then show "cs_key (csh st' c) = cs_key (csh st c)" "trace_ok (csh st' c) = trace_ok (csh st c)"
    "cs_hash_next (csh st' c) = cs_hash_next (csh st c)" "group_head l c st' = group_head l c st"
    by (simp_all add: s cs_key_def trace_ok_def group_head_def)
  show "blk st' = blk st" "amp st' = amp st" "am st' = am st" "fmp st' = fmp st" "fm st' = fm st" "ptr_tbls st' = ptr_tbls st"
    "free_tbl st' = free_tbl st" "cs_tbl st' = cs_tbl st" "counters st' = counters st" "free_fifo_idx st' = free_fifo_idx st"
    "free_memblk_array st' = free_memblk_array st" "supplied k st' = supplied k st"
    "initialized st' = initialized st" "do_not_hook st' = do_not_hook st"
    by (simp_all add: s counters_def supplied_def)
qed

lemma report_only_views:
  assumes "report_only st st'"
  shows "table_view i st' = table_view i st" "spec_of st' = spec_of st" "usr_of st' = usr_of st" "fusr_of st' = fusr_of st"
    "quarantine st' = quarantine st"
proof -
  note R = report_only_simps [OF assms]
  have "find_ptr j p st' = find_ptr j p st" for j p using R by (simp add: find_ptr_def ptr_table_def)
  note f = this
  show "table_view i st' = table_view i st" by (rule ext) (simp add: table_view_def f R(3) cong: option.case_cong if_cong)
  show v: "usr_of st' = usr_of st" "fusr_of st' = fusr_of st" "quarantine st' = quarantine st"
    using R by (simp_all add: usr_of_def [abs_def] fusr_of_def [abs_def] quarantine_def)
  have "live_view st' = live_view st" by (rule ext) (simp add: live_view_def f R(3) cong: option.case_cong if_cong)
  then show "spec_of st' = spec_of st" using R v by (simp add: spec_of_def quarantine_view_def)
qed

lemma report_only_inv:
  assumes "report_only st st'" "mc_inv N F C st"
  shows "mc_inv N F C st'"
proof -
  note R = report_only_simps [OF assms(1)] and V = report_only_views [OF assms(1)] and I = mc_invD [OF assms(2)]
  note D = tables_okD [OF I(1)]
  have "cs_table_ok CALLSTACK_HASHTABLE_SIZE (csh st', cs_tbl st) C"
    by (rule cs_table_cong [of _ "csh st"]) (use D(4) R(12,14) in \<open>simp_all add: cs_table_def\<close>)
  then have "tables_ok N {} F {} C st'"
    using I(1) R D(11,12) unfolding tables_ok_def by (simp add: ptr_table_def free_table_def cs_table_def)
  moreover have "queue_ok F st'" using I(3) R V by (simp add: queue_ok_def fifo_ok_def)
  ultimately show ?thesis using I R V by (simp add: mc_inv_def keys_ok_def owners_ok_def)
qed

lemma report_only_ungrouped: "report_only st st' \<Longrightarrow> ungrouped C st' = ungrouped C st"
  by (simp add: ungrouped_def report_only_simps(15))

lemma report_only_traced: "report_only st st' \<Longrightarrow> all_traced i st' = all_traced i st"
  by (simp add: all_traced_def report_only_views(1))

section \<open>The reports\<close>

lemma sort_buffer_report: "mc_allocate_sort_buffer n st = Some (ok, st') \<Longrightarrow> report_only st st'"
  by (auto simp: mc_allocate_sort_buffer_def sort_report_only split: Option.bind_splits list.splits)

lemma sort_steps [simp]: "snd (mc_sort_by_alloc_memblk bs st) = st" "snd (mc_sort_per_callstack bs st) = st"
  by (simp_all add: mc_sort_by_alloc_memblk_def mc_sort_per_callstack_def mc_disable_hook_def mc_enable_hook_def Let_def)

lemma print_blocks_report: "print_blocks cnt bs st = Some st' \<Longrightarrow> report_only st st'"
proof (induction bs arbitrary: cnt st)
  case (Cons b bs)
  then obtain k :: callstack and s where "mc_print_callstack (cs_depth k) (cs_trace k) 2
      (mc_log_print (Block cnt (mp_ptr (amp st (memptr_of b))) (mb_usrsize (am_memblk (am st b)))) st) = Some s"
    "print_blocks (cnt + 1) bs s = Some st'"
    by (simp add: Let_def split: Option.bind_splits)
  then show ?case
    using Cons.IH report_only_trans [OF report_only_trans [OF log_report_only print_callstack_quiet [THEN quiet_report_only]]] by blast
qed simp

lemma print_table_report:
  assumes "print_all_memblk_on_hashtable i st = Some (rc, st')"
  shows "report_only st st'"
proof -
  from assms obtain n where "do {
      (ok, st) \<leftarrow> mc_allocate_sort_buffer n st;
      (if \<not> ok then Some (- 1, st) else do {
         bs \<leftarrow> table_blocks i st;
         let (bs, st) = mc_sort_by_alloc_memblk bs st;
         st \<leftarrow> print_blocks 0 bs st;
         Some (0, st) })
    } = Some (rc, st')"
    by (auto simp: print_all_memblk_on_hashtable_def split: Option.bind_splits)
  then obtain ok s where s: "mc_allocate_sort_buffer n st = Some (ok, s)"
    and r: "(if \<not> ok then Some (- 1, s) else do {
         bs \<leftarrow> table_blocks i s;
         let (bs, s) = mc_sort_by_alloc_memblk bs s;
         s \<leftarrow> print_blocks 0 bs s;
         Some (0, s) }) = Some (rc, st')"
    by (cases "mc_allocate_sort_buffer n st") auto
  have "report_only s st'"
  proof (cases ok)
    case True
    with r obtain bs where "print_blocks 0 (fst (mc_sort_by_alloc_memblk bs s)) s = Some st'"
      by (auto simp: Let_def case_prod_beta' split: Option.bind_splits)
    then show ?thesis by (rule print_blocks_report)
  qed (use r in simp)
  then show ?thesis by (rule report_only_trans [OF sort_buffer_report [OF s]])
qed

lemma group_member_report:
  assumes "each_group_member l c f st = Some st'" "\<And>b s. report_only s (f b s)"
  shows "report_only st st'"
proof -
  obtain fl :: "(unit, mc) flow" where fl: "walk (\<lambda>st b. am_group_next (am st b)) (\<lambda>b st. fall_through (Some (f b st))) (group_head l c st) st = Some fl"
    "st' = flow_state fl" using assms(1) by (auto simp: each_group_member_def split: Option.bind_splits)
  have "report_only st (flow_state fl)"
    by (rule walk_keeps [OF _ fl(1)]) (use report_only_trans assms(2) in \<open>auto simp: fall_through_def\<close>)
  then show ?thesis using fl(2) by simp
qed

lemma group_sizes_report: "print_group_sizes line l c st = Some st' \<Longrightarrow> report_only st st'"
  unfolding print_group_sizes_def by (erule group_member_report) (rule log_report_only)

lemma totals_report:
  "each_group_member l c (add_to_total c) st = Some st' \<Longrightarrow> report_only st st'"
  "each_group_member l c (subtract_from_total c) st = Some st' \<Longrightarrow> report_only st st'"
  by (erule group_member_report, simp add: add_to_total_def subtract_from_total_def total_report_only)+

lemma clear_total_report: "report_only st (clear_total c st)"
  by (simp add: clear_total_def total_report_only)

text \<open>The arrays of call stacks: every turn may change totals.\<close>

lemma callstack_array_report:
  assumes "each_callstack_array f st = Some (arr, st')" "\<And>c s r. f c s = Some r \<Longrightarrow> report_only (snd s) (snd r)"
  shows "report_only st st'"
proof -
  obtain fl :: "(unit, addr list \<times> mc) flow" where fl: "for_each_hashnode (\<lambda>(arr, st) c. cs_hash_next (csh st c)) (\<lambda>(arr, st). cs_tbl st)
      CALLSTACK_HASHTABLE_SIZE (\<lambda>c s. do { s \<leftarrow> f c s; Some (Next s) }) ([], st) = Some fl"
    "(arr, st') = flow_state fl" using assms(1) by (auto simp: each_callstack_array_def split: Option.bind_splits)
  have "report_only st (snd (flow_state fl))"
    by (rule for_each_keeps [where P = "\<lambda>s. report_only st (snd s)", OF _ fl(1)])
      (use report_only_trans assms(2) in \<open>auto split: Option.bind_splits\<close>)
  then show ?thesis using fl(2) by (metis snd_conv)
qed

lemma total_per_callstack_report: "total_per_callstack l c s = Some r \<Longrightarrow> report_only (snd s) (snd r)"
  using report_only_trans [OF clear_total_report totals_report(1)] clear_total_report
  by (cases s) (auto simp: total_per_callstack_def Let_def split: if_splits Option.bind_splits)

lemma difference_per_callstack_report: "difference_per_callstack c s = Some r \<Longrightarrow> report_only (snd s) (snd r)"
  using report_only_trans [OF report_only_trans [OF clear_total_report totals_report(1)] totals_report(2)]
  by (cases s) (auto simp: difference_per_callstack_def split: if_splits Option.bind_splits)

lemma print_groups_report: "print_groups l cnt cs st = Some st' \<Longrightarrow> report_only st st'"
proof (induction cs arbitrary: cnt st)
  case (Cons c cs)
  then obtain s1 s2 where s: "print_group_sizes Group_size l c (mc_log_print (Group cnt) st) = Some s1"
    "mc_print_callstack (cs_depth (csh s1 c)) (cs_trace (csh s1 c)) 2 (mc_log_print (Group_total (sint (cs_total_size (csh s1 c)))) s1) = Some s2"
    "print_groups l (cnt + 1) cs s2 = Some st'"
    by (auto simp: Let_def mc_log_print_def split: Option.bind_splits)
  show ?case
    using report_only_trans [OF report_only_trans [OF log_report_only group_sizes_report [OF s(1)]]
        report_only_trans [OF log_report_only report_only_trans [OF print_callstack_quiet [THEN quiet_report_only, OF s(2)] Cons.IH [OF s(3)]]]] .
qed simp

lemma print_differences_report: "print_differences cnt cs st = Some st' \<Longrightarrow> report_only st st'"
proof (induction cs arbitrary: cnt st)
  case (Cons c cs)
  then obtain s0 s1 s2 where s: "print_group_sizes Group_size LINK_CURRENT c (mc_log_print (Group cnt) st) = Some s0"
    "print_group_sizes Group_minus LINK_SNAPSHOT c s0 = Some s1"
    "mc_print_callstack (cs_depth (csh s1 c)) (cs_trace (csh s1 c)) 2 (mc_log_print (Group_total (sint (cs_total_size (csh s1 c)))) s1) = Some s2"
    "print_differences (cnt + 1) cs s2 = Some st'"
    by (auto simp: Let_def mc_log_print_def split: Option.bind_splits)
  show ?case
    using report_only_trans [OF report_only_trans [OF log_report_only report_only_trans [OF group_sizes_report [OF s(1)] group_sizes_report [OF s(2)]]]
        report_only_trans [OF log_report_only report_only_trans [OF print_callstack_quiet [THEN quiet_report_only, OF s(3)] Cons.IH [OF s(4)]]]] .
qed simp

text \<open>An array of call stacks is made, sorted and printed.\<close>

lemma sorted_groups_report:
  assumes "do {
      (arr, st) \<leftarrow> each_callstack_array f st;
      let (arr, st) = mc_sort_per_callstack arr st;
      st \<leftarrow> g arr st;
      Some (0, st) } = Some (rc, st')"
    and "\<And>c s r. f c s = Some r \<Longrightarrow> report_only (snd s) (snd r)" "\<And>arr s s'. g arr s = Some s' \<Longrightarrow> report_only s s'"
  shows "report_only st st'"
proof -
  from assms(1) obtain arr s where a: "each_callstack_array f st = Some (arr, s)" and
    b: "g (fst (mc_sort_per_callstack arr s)) s = Some st'"
    by (auto simp: Let_def case_prod_beta' split: Option.bind_splits)
  show ?thesis by (rule report_only_trans [OF callstack_array_report [OF a assms(2)] assms(3) [OF b]])
qed

lemma print_per_callstack_report:
  assumes "print_all_memblk_per_callstack l st = Some (rc, st')"
  shows "report_only st st'"
proof -
  obtain n where n: "count_groups [l] st = Some n"
    using assms by (cases "count_groups [l] st") (simp_all add: print_all_memblk_per_callstack_def)
  obtain ok s where s: "mc_allocate_sort_buffer (scast (of_nat n :: i32)) st = Some (ok, s)"
    using assms n by (cases "mc_allocate_sort_buffer (scast (of_nat n :: i32)) st") (auto simp: print_all_memblk_per_callstack_def)
  have r: "(if \<not> ok then Some (- 1, s) else do {
         (arr, s) \<leftarrow> each_callstack_array (total_per_callstack l) s;
         let (arr, s) = mc_sort_per_callstack arr s;
         s \<leftarrow> print_groups l 0 arr s;
         Some (0, s) }) = Some (rc, st')"
    using assms n s by (simp add: print_all_memblk_per_callstack_def)
  have "report_only s st'"
  proof (cases ok)
    case True
    show ?thesis
      by (rule sorted_groups_report [where f = "total_per_callstack l" and g = "print_groups l 0" and rc = rc])
        (use r True in simp, erule total_per_callstack_report, erule print_groups_report)
  qed (use r in simp)
  then show ?thesis by (rule report_only_trans [OF sort_buffer_report [OF s]])
qed

lemma print_remaining_report: "print_remaining n some none i st = Some st' \<Longrightarrow> report_only st st'"
  using report_only_trans [OF log_report_only print_table_report]
  by (auto simp: print_remaining_def log_report_only split: if_splits Option.bind_splits)

section \<open>The check of all blocks\<close>

lemma check_alloc_body_report: "check_alloc_body n s = Some fl \<Longrightarrow> report_only (snd s) (snd (flow_state fl))"
  using report_only_trans [OF mc_check_allocated_buffer_quiet [THEN quiet_report_only] mem_report_only]
    mc_check_allocated_buffer_quiet [THEN quiet_report_only]
  by (auto simp: check_alloc_body_def mc_set_allocated_buffer_def Let_def split: Option.bind_splits prod.splits)

lemma check_free_body_report: "check_free_body n s = Some fl \<Longrightarrow> report_only (snd s) (snd (flow_state fl))"
  using report_only_trans [OF mc_check_freed_buffer_quiet [THEN quiet_report_only] mem_report_only]
    mc_check_freed_buffer_quiet [THEN quiet_report_only]
  by (auto simp: check_free_body_def mc_set_freed_buffer_def Let_def split: Option.bind_splits prod.splits)

lemma check_all_report:
  assumes "mc_check_all_memblk st = Some (rc, st')"
  shows "report_only st st'"
proof -
  obtain f1 :: "(unit, int \<times> mc) flow" where f1: "for_each_hashnode (\<lambda>(ret, st) n. mp_hash_next (amp st n)) (\<lambda>(ret, st). ptr_tbls st Live)
      ALLOC_MEMPTR_HASHTABLE_SIZE check_alloc_body (0, st) = Some f1"
    using assms by (auto simp: mc_check_all_memblk_def split: Option.bind_splits)
  then obtain f2 :: "(unit, int \<times> mc) flow" where f2: "for_each_hashnode (\<lambda>(ret, st) n. mp_hash_next (fmp st n)) (\<lambda>(ret, st). free_tbl st)
      FREE_MEMPTR_HASHTABLE_SIZE check_free_body (flow_state f1) = Some f2" "(rc, st') = flow_state f2"
    using assms by (auto simp: mc_check_all_memblk_def split: Option.bind_splits)
  have "report_only st (snd (flow_state f1))"
    by (rule for_each_keeps [where P = "\<lambda>s. report_only st (snd s)", OF _ f1]) (use report_only_trans check_alloc_body_report in auto)
  then have "report_only st (snd (flow_state f2))"
    by (intro for_each_keeps [where P = "\<lambda>s. report_only st (snd s)", OF _ f2(1)]) (use report_only_trans check_free_body_report in auto)
  then show ?thesis using f2(2) by (metis snd_conv)
qed

end
