(* ===== verification/MC_Virtmem.thy ===== *)
theory MC_Virtmem
  imports MC_Listing
begin

text \<open>
  The virtual memory usage of the live blocks, \<open>memchk_virtmem.c\<close>: the pages that the buffers
  touch are gathered in an ordered chain of disjoint page regions, the regions are set against the
  mappings of the process, and their sizes are summed up. The chain hangs on a static head; the
  other nodes come from the pool of \<open>struct pageregion\<close>. As elsewhere the answers of \<open>mmap\<close> and the
  contents of \<open>/proc/self/maps\<close> are the lists of \<open>filemap_state\<close>.
\<close>

section \<open>Data\<close>

record pageregion =
  pr_start :: u64
  pr_end :: u64
  pr_next :: addr

record vmarea =
  va_start :: u64
  va_end :: u64
  va_usage :: u64
  va_next :: addr

text \<open>A pointer to a node that may be the static head.\<close>

datatype region_ptr = Region_head | Region addr

text \<open>
  The state of the file beside that of the library. \<open>vmarea_array\<close> is \<open>None\<close> for the null pointer;
  its length is what the mapping holds, its first \<open>vma_cnt\<close> elements are in use.
\<close>

record virtmem =
  base :: mc
  pr :: "addr \<Rightarrow> pageregion"
  head_next :: addr
  pageregion_cand :: addr
  prev_pageregion_cand :: region_ptr
  vmarea_array :: "vmarea list option"
  vma_cnt :: int

definition SIZEOF_VMAREA :: size_t where "SIZEOF_VMAREA = 32"

definition upd_base :: "(mc \<Rightarrow> mc) \<Rightarrow> virtmem \<Rightarrow> virtmem" where
  "upd_base f vm = vm\<lparr>base := f (base vm)\<rparr>"

definition upd_pr :: "addr \<Rightarrow> (pageregion \<Rightarrow> pageregion) \<Rightarrow> virtmem \<Rightarrow> virtmem" where
  "upd_pr p f vm = vm\<lparr>pr := (pr vm)(p := f (pr vm p))\<rparr>"

definition set_next :: "region_ptr \<Rightarrow> addr \<Rightarrow> virtmem \<Rightarrow> virtmem" where
  "set_next r p vm =
     (case r of Region_head \<Rightarrow> vm\<lparr>head_next := p\<rparr> | Region q \<Rightarrow> upd_pr q (\<lambda>x. x\<lparr>pr_next := p\<rparr>) vm)"

section \<open>Page regions\<close>

definition allocate_pageregion :: "u64 \<Rightarrow> u64 \<Rightarrow> virtmem \<Rightarrow> (addr \<times> virtmem) option" where
  "allocate_pageregion start end vm =
     do {
       (p, b) \<leftarrow> mc_allocate_pageregion (blk (base vm));
       let vm = upd_base (\<lambda>st. st\<lparr>blk := b\<rparr>) vm;
       Some (if p = NULL then (NULL, vm)
             else (p, upd_pr p (\<lambda>x. \<lparr>pr_start = start, pr_end = end, pr_next = NULL\<rparr>) vm))
     }"

definition free_pageregion :: "addr \<Rightarrow> virtmem \<Rightarrow> virtmem" where
  "free_pageregion p vm = upd_base (\<lambda>st. st\<lparr>blk := mc_free_pageregion p (blk st)\<rparr>) vm"

text \<open>The inner loop: the regions that the merged one reaches are released.\<close>

partial_function (option) merge_regions :: "u64 \<Rightarrow> u64 \<Rightarrow> addr \<Rightarrow> virtmem \<Rightarrow> (u64 \<times> addr \<times> virtmem) option" where
  "merge_regions end new_end next_pageregion vm =
     (if next_pageregion = NULL then Some (new_end, next_pageregion, vm)
      else if pr_start (pr vm next_pageregion) > end then Some (new_end, next_pageregion, vm)
      else merge_regions end (pr_end (pr vm next_pageregion)) (pr_next (pr vm next_pageregion))
             (free_pageregion next_pageregion vm))"

definition merge_into :: "u64 \<Rightarrow> u64 \<Rightarrow> addr \<Rightarrow> virtmem \<Rightarrow> virtmem option" where
  "merge_into start end pageregion vm =
     do {
       let r = pr vm pageregion;
       let new_start = (if start < pr_start r then start else pr_start r);
       (new_end, next_pageregion, vm) \<leftarrow> merge_regions end (pr_end r) (pr_next r) vm;
       Some (upd_pr pageregion
               (\<lambda>x. x\<lparr>pr_start := new_start, pr_end := if new_end > end then new_end else end, pr_next := next_pageregion\<rparr>) vm)
     }"

text \<open>The outer loop, from the region \<open>pageregion\<close> behind \<open>prev_pageregion\<close>.\<close>

partial_function (option) register_loop ::
  "u64 \<Rightarrow> u64 \<Rightarrow> addr \<Rightarrow> region_ptr \<Rightarrow> virtmem \<Rightarrow> (int \<times> virtmem) option" where
  "register_loop start end pageregion prev_pageregion vm =
     (if pageregion = NULL then do {
        (new_pageregion, vm) \<leftarrow> allocate_pageregion start end vm;
        Some (if new_pageregion = NULL then (- 1, vm) else (0, set_next prev_pageregion new_pageregion vm))
      }
      else if end < pr_start (pr vm pageregion) then do {
        (new_pageregion, vm) \<leftarrow> allocate_pageregion start end vm;
        Some (if new_pageregion = NULL then (- 1, vm)
              else (0, (set_next prev_pageregion new_pageregion (set_next (Region new_pageregion) pageregion vm))
                         \<lparr>pageregion_cand := new_pageregion, prev_pageregion_cand := prev_pageregion\<rparr>))
      }
      else if start \<le> pr_end (pr vm pageregion) then do { vm \<leftarrow> merge_into start end pageregion vm; Some (0, vm) }
      else register_loop start end (pr_next (pr vm pageregion)) (Region pageregion) vm)"

definition page_start :: "u64 \<Rightarrow> u64" where
  "page_start a = a AND NOT (of_nat PAGE_SIZE - 1)"

definition page_end :: "u64 \<Rightarrow> size_t \<Rightarrow> u64" where
  "page_end a n = (a + n + of_nat PAGE_SIZE - 1) AND NOT (of_nat PAGE_SIZE - 1)"

definition register_block :: "u64 \<Rightarrow> size_t \<Rightarrow> virtmem \<Rightarrow> (int \<times> virtmem) option" where
  "register_block a n vm =
     (let start = page_start a; end = page_end a n in
      if head_next vm = NULL then do {
        (new_pageregion, vm) \<leftarrow> allocate_pageregion start end vm;
        Some (if new_pageregion = NULL then (- 1, vm)
              else (0, vm\<lparr>head_next := new_pageregion, pageregion_cand := new_pageregion,
                         prev_pageregion_cand := Region_head\<rparr>))
      }
      else if pageregion_cand vm = NULL then None
      else if pr_end (pr vm (pageregion_cand vm)) < start
      then register_loop start end (pageregion_cand vm) (prev_pageregion_cand vm) vm
      else register_loop start end (head_next vm) Region_head vm)"

section \<open>Mappings\<close>

text \<open>
  \<open>strncmp(cperm, "---", 3) && cperm[3] == 'p'\<close>; \<open>None\<close> when \<open>cperm\<close> is uninitialised where it is read.
\<close>

definition is_private :: "string option \<Rightarrow> bool option" where
  "is_private s =
     (case s of None \<Rightarrow> None
      | Some p \<Rightarrow>
          if take 3 p = ''---'' then Some False
          else if length p < 3 then None
          else if length p = 3 then Some False
          else Some (p ! 3 = CHR ''p''))"

fun count_vmareas :: "string list \<Rightarrow> maps_vars \<Rightarrow> int \<Rightarrow> (int \<times> maps_vars) option" where
  "count_vmareas [] v cnt = Some (cnt, v)"
| "count_vmareas (buf # bufs) v cnt =
     do {
       v \<leftarrow> scan_line3 buf v;
       p \<leftarrow> is_private (mv_cperm v);
       count_vmareas bufs v (if p then cnt + 1 else cnt)
     }"

definition allocate_vmarea_array :: "size_t \<Rightarrow> filemap_state \<Rightarrow> (vmarea list option \<times> filemap_state) option" where
  "allocate_vmarea_array n fs =
     do {
       alloc_size \<leftarrow> get_aligned_size n (of_nat PAGE_SIZE);
       Some (case fs_mmaps fs of
          True # ms \<Rightarrow>
            (Some (replicate (unat alloc_size div unat SIZEOF_VMAREA) \<lparr>va_start = 0, va_end = 0, va_usage = 0, va_next = NULL\<rparr>),
             fs\<lparr>fs_mmaps := ms\<rparr>)
        | ms \<Rightarrow> (None, fs\<lparr>fs_mmaps := tl ms\<rparr>))
     }"

fun read_vmareas :: "string list \<Rightarrow> maps_vars \<Rightarrow> nat \<Rightarrow> vmarea list \<Rightarrow> vmarea list option" where
  "read_vmareas [] v i as = Some as"
| "read_vmareas (buf # bufs) v i as =
     do {
       v \<leftarrow> scan_line6 buf v;
       p \<leftarrow> is_private (mv_cperm v);
       (if p then do {
          caddr \<leftarrow> mv_caddr v;
          let v = scan_range caddr v;
          start_addr \<leftarrow> mv_start v; end_addr \<leftarrow> mv_end v;
          (if i < length as
           then read_vmareas bufs v (i + 1)
                  (as[i := \<lparr>va_start = start_addr, va_end = end_addr, va_usage = 0, va_next = NULL\<rparr>])
           else None)
        } else read_vmareas bufs v i as)
     }"

definition init_vmareas :: "virtmem \<Rightarrow> (int \<times> virtmem) option" where
  "init_vmareas vm =
     do {
       let (lines, fs) = next_maps (fmaps (base vm));
       (cnt, v) \<leftarrow> count_vmareas lines no_vars 0;
       (arr, fs) \<leftarrow> allocate_vmarea_array (SIZEOF_VMAREA * size_of_int cnt) fs;
       let vm = vm\<lparr>vma_cnt := cnt, vmarea_array := arr\<rparr>;
       (case arr of
          None \<Rightarrow> Some (- 1, upd_base (\<lambda>st. st\<lparr>fmaps := fs\<rparr>) vm)
        | Some as \<Rightarrow> do {
            let (lines, fs) = next_maps fs;
            as \<leftarrow> read_vmareas lines v 0 as;
            Some (0, upd_base (\<lambda>st. st\<lparr>fmaps := fs\<rparr>) (vm\<lparr>vmarea_array := Some as\<rparr>))
          })
     }"

text \<open>The loop over the mappings: a region that reaches past one goes on in a later one.\<close>

fun register_areas :: "vmarea list \<Rightarrow> u64 \<Rightarrow> u64 \<Rightarrow> bool \<Rightarrow> vmarea list \<times> bool" where
  "register_areas [] start end match = ([], match)"
| "register_areas (a # as) start end match =
     (if va_start a \<le> start \<and> va_end a \<ge> end then (a\<lparr>va_usage := va_usage a + (end - start)\<rparr> # as, True)
      else if va_start a \<le> start \<and> va_end a > start
      then (case register_areas as (va_end a) end True of
              (as, match) \<Rightarrow> (a\<lparr>va_usage := va_usage a + (va_end a - start)\<rparr> # as, match))
      else (case register_areas as start end match of (as, match) \<Rightarrow> (a # as, match)))"

definition register_pageregion :: "addr \<Rightarrow> virtmem \<Rightarrow> virtmem option" where
  "register_pageregion p vm =
     (let start = pr_start (pr vm p); end = pr_end (pr vm p); n = nat (vma_cnt vm) in
      do {
        (vm, match) \<leftarrow>
          (if n = 0 then Some (vm, False)
           else case vmarea_array vm of None \<Rightarrow> None
           | Some as \<Rightarrow>
               if length as < n then None
               else (case register_areas (take n as) start end False of
                       (as', match) \<Rightarrow> Some (vm\<lparr>vmarea_array := Some (as' @ drop n as)\<rparr>, match)));
        Some (if match then vm else upd_base (mc_log_print (Pageregion_unmatched start end (end - start))) vm)
      })"

partial_function (option) count_regions :: "addr \<Rightarrow> u64 \<Rightarrow> virtmem \<Rightarrow> (u64 \<times> virtmem) option" where
  "count_regions pageregion ret vm =
     (if pageregion = NULL then Some (ret, vm)
      else do {
        vm \<leftarrow> register_pageregion pageregion vm;
        count_regions (pr_next (pr vm pageregion)) (ret + (pr_end (pr vm pageregion) - pr_start (pr vm pageregion))) vm
      })"

definition count_virtual_memory_size :: "virtmem \<Rightarrow> (u64 \<times> virtmem) option" where
  "count_virtual_memory_size vm = count_regions (head_next vm) 0 vm"

text \<open>The ratios that go with the sizes are not kept in the lines.\<close>

fun print_areas :: "vmarea list \<Rightarrow> u64 \<Rightarrow> u64 \<Rightarrow> mc \<Rightarrow> mc" where
  "print_areas [] total_arena_size total_memblk_usage st =
     mc_log_print (Vmarea_totals total_arena_size total_memblk_usage) st"
| "print_areas (a # as) total_arena_size total_memblk_usage st =
     (if va_usage a \<noteq> 0
      then print_areas as (total_arena_size + (va_end a - va_start a)) (total_memblk_usage + va_usage a)
             (mc_log_print (Vmarea_line (va_start a) (va_end a) (va_usage a)) st)
      else print_areas as total_arena_size total_memblk_usage st)"

definition print_vmareas :: "virtmem \<Rightarrow> virtmem option" where
  "print_vmareas vm =
     (let n = nat (vma_cnt vm) in
      case vmarea_array vm of
        None \<Rightarrow> if n = 0 then Some (upd_base (print_areas [] 0 0) vm) else None
      | Some as \<Rightarrow> if length as < n then None else Some (upd_base (print_areas (take n as) 0 0) vm))"

partial_function (option) free_regions :: "addr \<Rightarrow> virtmem \<Rightarrow> virtmem option" where
  "free_regions pageregion vm =
     (if pageregion = NULL then Some vm
      else free_regions (pr_next (pr vm pageregion)) (free_pageregion pageregion vm))"

definition free_all_pageregions :: "virtmem \<Rightarrow> virtmem option" where
  "free_all_pageregions vm = do { vm \<leftarrow> free_regions (head_next vm) vm; Some (vm\<lparr>head_next := NULL\<rparr>) }"

section \<open>The usage\<close>

definition register_body :: "addr \<Rightarrow> virtmem \<Rightarrow> (unit, virtmem) flow option" where
  "register_body memptr vm =
     do {
       let m = am_memblk (am (base vm) (get_alloc_memblk_from_memptr memptr));
       (rc, vm) \<leftarrow> register_block (mb_buf m) (mb_bufsize m) vm;
       Some (Next vm)
     }"

definition mc_get_virtual_memory_usage :: "virtmem \<Rightarrow> (u64 \<times> virtmem) option" where
  "mc_get_virtual_memory_usage vm =
     do {
       (rc, st) \<leftarrow> mc_duplicate_all_alloc_memblk Copy Live (base vm);
       let vm = vm\<lparr>base := st\<rparr>;
       (if rc \<noteq> 0 then Some (- 1, vm)
        else do {
          fl \<leftarrow> for_each_hashnode (\<lambda>vm n. mp_hash_next (amp (base vm) n)) (\<lambda>vm. ptr_tbls (base vm) Copy)
                  ALLOC_MEMPTR_HASHTABLE_SIZE register_body (vm\<lparr>head_next := NULL\<rparr>);
          let vm = flow_state fl;
          st \<leftarrow> mc_destroy_all_alloc_memblk Copy (base vm);
          (rc, vm) \<leftarrow> init_vmareas (vm\<lparr>base := st\<rparr>);
          (ret, vm) \<leftarrow> count_virtual_memory_size vm;
          vm \<leftarrow> print_vmareas vm;
          vm \<leftarrow> free_all_pageregions vm;
          Some (ret, vm)
        })
     }"

end
