(* ===== verification/MC_Util.thy ===== *)
theory MC_Util
  imports MC_Prelude
begin

text \<open>
  \<open>mc_change_unit\<close> of \<open>memchk_util.c\<close>. A \<open>float\<close> is its exact value, a rational number: the size is
  rounded to a significand of 24 bits, to the nearest and then to the even one, and the divisions
  by 1024 are exact.
\<close>

section \<open>Conversion to \<open>float\<close>\<close>

text \<open>\<open>n div 2 ^ e\<close> rounded to nearest, ties to even.\<close>

definition round_shift :: "nat \<Rightarrow> nat \<Rightarrow> nat" where
  "round_shift e n =
     (let q = n div 2 ^ e; r = n mod 2 ^ e in
      if 2 * r > 2 ^ e \<or> (2 * r = 2 ^ e \<and> odd q) then q + 1 else q)"

text \<open>The exponent of a 64-bit value: how many of its low bits the significand cannot hold.\<close>

definition low_bits :: "nat \<Rightarrow> nat" where
  "low_bits n = (case find (\<lambda>e. n < 2 ^ (24 + e)) [0..<41] of Some e \<Rightarrow> e | None \<Rightarrow> 0)"

definition float_of_size :: "size_t \<Rightarrow> rat" where
  "float_of_size w = (let n = unat w; e = low_bits n in of_nat (round_shift e n * 2 ^ e))"

section \<open>The unit\<close>

function change_unit_loop :: "rat \<Rightarrow> nat \<Rightarrow> rat \<times> nat" where
  "change_unit_loop ret exponentiation =
     (if ret > 1024 then change_unit_loop (ret / 1024) (exponentiation + 1) else (ret, exponentiation))"
  by pat_completeness auto

termination
proof (relation "measure (\<lambda>(r, e). nat \<lfloor>r\<rfloor>)")
  fix r :: rat and e :: nat
  assume "r > 1024"
  then have "\<lfloor>r / 1024\<rfloor> < \<lfloor>r\<rfloor>" by linarith
  moreover have "1 \<le> r" using \<open>r > 1024\<close> by simp
  ultimately show "((r / 1024, e + 1), (r, e)) \<in> measure (\<lambda>(r, e). nat \<lfloor>r\<rfloor>)" by simp
qed simp

declare change_unit_loop.simps [simp del]

definition unit_name :: "nat \<Rightarrow> string" where
  "unit_name exponentiation =
     (if exponentiation = 0 then ''B'' else if exponentiation = 1 then ''KB'' else if exponentiation = 2 then ''MB''
      else if exponentiation = 3 then ''GB'' else if exponentiation = 4 then ''TB'' else if exponentiation = 5 then ''PB''
      else ''UK'')"

definition mc_change_unit :: "size_t \<Rightarrow> rat \<times> string" where
  "mc_change_unit sz =
     (case change_unit_loop (float_of_size sz) 0 of (ret, exponentiation) \<Rightarrow> (ret, unit_name exponentiation))"

section \<open>Rounding\<close>

lemma low_bits:
  assumes "n < 2 ^ 64"
  shows "n < 2 ^ (24 + low_bits n)" "low_bits n \<noteq> 0 \<Longrightarrow> 2 ^ (23 + low_bits n) \<le> n" "low_bits n \<le> 40"
proof -
  have "\<exists>e. find (\<lambda>e. n < 2 ^ (24 + e)) [0..<41] = Some e"
  proof (rule ccontr)
    assume "\<nexists>e. find (\<lambda>e. n < 2 ^ (24 + e)) [0..<41] = Some e"
    then have "find (\<lambda>e. n < 2 ^ (24 + e)) [0..<41] = None" by (cases "find (\<lambda>e. n < 2 ^ (24 + e)) [0..<41]") auto
    then have "\<forall>e\<in>set [0..<41]. \<not> n < 2 ^ (24 + e)" by (auto simp: find_None_iff)
    moreover have "40 \<in> set [0..<41]" by simp
    ultimately have "\<not> n < 2 ^ (24 + 40)" by blast
    then show False using assms by simp
  qed
  then obtain e where e: "find (\<lambda>e. n < 2 ^ (24 + e)) [0..<41] = Some e" by blast
  then obtain i where i: "i < length [0..<41]" "n < 2 ^ (24 + [0..<41] ! i)" "e = [0..<41] ! i"
    "\<forall>j<i. \<not> n < 2 ^ (24 + [0..<41] ! j)" unfolding find_Some_iff by blast
  have ei: "e = i" "i \<le> 40" using i(1,3) by simp_all
  have l: "low_bits n = e" using e by (simp add: low_bits_def)
  show "n < 2 ^ (24 + low_bits n)" "low_bits n \<le> 40" using i(2,3) ei l by simp_all
  show "2 ^ (23 + low_bits n) \<le> n" if "low_bits n \<noteq> 0"
  proof -
    have "i - 1 < i" using that l ei by simp
    then have "\<not> n < 2 ^ (24 + [0..<41] ! (i - 1))" using i(4) by blast
    moreover have "[0..<41] ! (i - 1) = i - 1" "24 + (i - 1) = 23 + i" using ei that l by simp_all
    ultimately show ?thesis using l ei by simp
  qed
qed

lemma round_shift_near: "2 * \<bar>int (round_shift e n * 2 ^ e) - int n\<bar> \<le> 2 ^ e"
proof -
  define q r where "q = n div 2 ^ e" and "r = n mod 2 ^ e"
  have n: "n = q * 2 ^ e + r" unfolding q_def r_def by (rule div_mult_mod_eq [symmetric])
  have r: "r < 2 ^ e" by (simp add: r_def)
  have rs: "round_shift e n = (if 2 * r > 2 ^ e \<or> (2 * r = 2 ^ e \<and> odd q) then q + 1 else q)"
    by (simp add: round_shift_def q_def r_def Let_def)
  show ?thesis
  proof (cases "2 * r > 2 ^ e \<or> (2 * r = 2 ^ e \<and> odd q)")
    case True
    then have "2 * int r \<ge> 2 ^ e" by (metis le_less nat_less_le of_nat_le_iff of_nat_mult of_nat_numeral of_nat_power)
    moreover have "int (round_shift e n * 2 ^ e) - int n = 2 ^ e - int r" using True rs n by (simp add: algebra_simps)
    moreover have "int r < 2 ^ e" using r by (metis of_nat_less_iff of_nat_numeral of_nat_power)
    ultimately show ?thesis by (simp only: abs_of_pos diff_gt_0_iff_gt) simp
  next
    case False
    then have "2 * r \<le> 2 ^ e" by linarith
    then have "2 * int r \<le> 2 ^ e" by (metis of_nat_le_iff of_nat_mult of_nat_numeral of_nat_power)
    moreover have "int (round_shift e n * 2 ^ e) - int n = - int r" using False rs n by simp
    ultimately show ?thesis by simp
  qed
qed

text \<open>The relative error is at most \<open>2 ^ - 24\<close>.\<close>

lemma float_of_size_near: "\<bar>float_of_size w - of_nat (unat w)\<bar> * 2 ^ 24 \<le> of_nat (unat w)"
proof -
  define n e where "n = unat w" and "e = low_bits n"
  have lt: "n < 2 ^ 64" using unsigned_less [of w, where ?'a = nat] by (simp add: n_def)
  define d where "d = int (round_shift e n * 2 ^ e) - int n"
  have d: "2 * \<bar>d\<bar> \<le> 2 ^ e" unfolding d_def by (rule round_shift_near)
  have "\<bar>d\<bar> * 2 ^ 24 \<le> int n"
  proof (cases "e = 0")
    case True
    then have "d = 0" using d by simp
    then show ?thesis by simp
  next
    case False
    have "2 ^ (23 + e) \<le> n" using low_bits(2) [OF lt] False by (simp add: e_def)
    then have "(2 :: int) ^ 23 * 2 ^ e \<le> int n" by (metis of_nat_le_iff of_nat_numeral of_nat_power power_add)
    moreover have "\<bar>d\<bar> * 2 ^ 24 \<le> 2 ^ 23 * 2 ^ e" using d by simp
    ultimately show ?thesis by linarith
  qed
  then have "of_int (\<bar>d\<bar> * 2 ^ 24) \<le> (of_int (int n) :: rat)" by (simp only: of_int_le_iff)
  moreover have "float_of_size w - of_nat (unat w) = of_int d"
    by (simp add: float_of_size_def d_def Let_def n_def e_def)
  ultimately show ?thesis by (simp add: n_def)
qed

section \<open>The loop\<close>

lemma change_unit_loop_spec:
  "case change_unit_loop r e of (r', e') \<Rightarrow> e \<le> e' \<and> r' * 1024 ^ (e' - e) = r \<and> r' \<le> 1024 \<and> (e < e' \<longrightarrow> 1 < r')"
proof (induction r e rule: change_unit_loop.induct)
  case (1 r e)
  show ?case
  proof (cases "r > 1024")
    case True
    obtain r' e' where l: "change_unit_loop (r / 1024) (e + 1) = (r', e')" by (metis surj_pair)
    have IH: "e + 1 \<le> e'" "r' * 1024 ^ (e' - (e + 1)) = r / 1024" "r' \<le> 1024" "e + 1 < e' \<longrightarrow> 1 < r'"
      using 1 [OF True] l by simp_all
    have "e' - e = Suc (e' - (e + 1))" using IH(1) by simp
    then have "r' * 1024 ^ (e' - e) = r" using IH(2) by simp
    moreover have "1 < r'"
    proof (cases "e + 1 < e'")
      case False
      then have "r' = r / 1024" using IH(1,2) by simp
      then show ?thesis using True by simp
    qed (use IH(4) in simp)
    ultimately show ?thesis using True l IH(1,3) by (simp add: change_unit_loop.simps [of r e])
  next
    case False
    then show ?thesis by (simp add: change_unit_loop.simps [of r e])
  qed
qed

text \<open>The value printed, times the unit, is the size rounded to a \<open>float\<close>; the unit is the largest
  that is exceeded.\<close>

lemma mc_change_unit_spec:
  "\<exists>v k. mc_change_unit sz = (v, unit_name k) \<and> v * 1024 ^ k = float_of_size sz \<and> v \<le> 1024 \<and> (0 < k \<longrightarrow> 1 < v) \<and> k \<le> 6"
proof -
  obtain v k where l: "change_unit_loop (float_of_size sz) 0 = (v, k)" by (metis surj_pair)
  then have s: "v * 1024 ^ k = float_of_size sz" "v \<le> 1024" "0 < k \<longrightarrow> 1 < v"
    using change_unit_loop_spec [where r = "float_of_size sz" and e = 0] by simp_all
  have "k \<le> 6"
  proof (rule ccontr)
    assume "\<not> k \<le> 6"
    then have k: "7 \<le> k" by simp
    have "unat sz < 2 ^ 64" using unsigned_less [of sz, where ?'a = nat] by simp
    then have u: "(of_nat (unat sz) :: rat) < 2 ^ 64" by (metis of_nat_less_iff of_nat_numeral of_nat_power)
    have "(1024 :: rat) ^ 7 \<le> 1024 ^ k" using k by (rule power_increasing) simp
    moreover have "(1024 :: rat) ^ k < v * 1024 ^ k" using s(3) k by simp
    ultimately have "(1024 :: rat) ^ 7 < float_of_size sz" using s(1) by simp
    then show False using float_of_size_near [of sz] u by simp
  qed
  then show ?thesis using l s by (auto simp: mc_change_unit_def)
qed

end
