(* ===== verification/MC_Signal.thy ===== *)
theory MC_Signal
  imports MC_Virtmem MC_Util "HOL-Library.Sublist"
begin

text \<open>
  Commands by signals, \<open>memchk_signal.c\<close>: the handlers store the requested command in one slot and
  wake the worker thread, which runs it. The mutex and the condition variable are modelled with the
  worker's program point: the worker holds the mutex except before its first lock and while it
  waits, and a handler needs the mutex to store its command. A handler may interrupt any thread,
  the worker as well.
\<close>

section \<open>Commands\<close>

text \<open>The enumeration of the commands; the slot is \<open>None\<close> for \<open>__cmd == 0\<close>.\<close>

datatype command =
    GET_ALL_MEMBLK
  | GET_ALL_MEMBLK_PER_CALLSTACK
  | CHECK_ALL_MEMBLK
  | CREATE_SNAPSHOT
  | COMPARE_WITH_SNAPSHOT
  | COMPARE_WITH_SNAPSHOT_PER_CALLSTACK
  | DESTROY_SNAPSHOT
  | GET_HISTOGRAM_MEMBLK
  | GET_VIRTUAL_MEMORY_STATUS

definition print_unit :: "size_t \<Rightarrow> mc \<Rightarrow> mc" where
  "print_unit n st = (case mc_change_unit n of (val, u) \<Rightarrow> mc_log_print (In_unit val u) st)"

definition mc_get_virtual_memory_status :: "virtmem \<Rightarrow> virtmem option" where
  "mc_get_virtual_memory_status vm =
     do {
       (virtual_usage, vm) \<leftarrow> mc_get_virtual_memory_usage vm;
       let vm = upd_base (mc_log_print (Virtual_usage virtual_usage)) vm;
       Some (if virtual_usage \<ge> 1024 then upd_base (print_unit virtual_usage) vm else vm)
     }"

text \<open>A command that works on the library's state alone.\<close>

definition on_base :: "(mc \<Rightarrow> (int \<times> mc) option) \<Rightarrow> virtmem \<Rightarrow> (int \<times> virtmem) option" where
  "on_base f vm = do { (ret, st) \<leftarrow> f (base vm); Some (ret, vm\<lparr>base := st\<rparr>) }"

text \<open>The cases of the worker's \<open>switch\<close>.\<close>

definition run_command :: "command \<Rightarrow> virtmem \<Rightarrow> virtmem option" where
  "run_command cmd vm =
     (case cmd of
        GET_ALL_MEMBLK \<Rightarrow> do { (ret, vm) \<leftarrow> on_base mc_print_all_memblk vm; Some vm }
      | GET_ALL_MEMBLK_PER_CALLSTACK \<Rightarrow> do { (ret, vm) \<leftarrow> on_base mc_print_all_memblk_per_callstack vm; Some vm }
      | CHECK_ALL_MEMBLK \<Rightarrow> do {
          (ret, vm) \<leftarrow> on_base mc_check_all_memblk vm;
          Some (if ret = 0 then upd_base (mc_log_print All_blocks_ok) vm else vm)
        }
      | CREATE_SNAPSHOT \<Rightarrow> do {
          (ret, vm) \<leftarrow> on_base mc_create_snapshot (upd_base (mc_log_print Creating_snapshot) vm);
          Some (upd_base (mc_log_print (if ret = 0 then Snapshot_created else Snapshot_error)) vm)
        }
      | COMPARE_WITH_SNAPSHOT \<Rightarrow> do { (ret, vm) \<leftarrow> on_base mc_compare_with_snapshot vm; Some vm }
      | COMPARE_WITH_SNAPSHOT_PER_CALLSTACK \<Rightarrow> do { (ret, vm) \<leftarrow> on_base mc_compare_with_snapshot_per_callstack vm; Some vm }
      | DESTROY_SNAPSHOT \<Rightarrow> do {
          st \<leftarrow> mc_destroy_snapshot (mc_log_print Destroying_snapshot (base vm));
          Some (vm\<lparr>base := mc_log_print Snapshot_destroyed st\<rparr>)
        }
      | GET_HISTOGRAM_MEMBLK \<Rightarrow> Some (upd_base mc_print_histogram_alloc_memblk vm)
      | GET_VIRTUAL_MEMORY_STATUS \<Rightarrow> mc_get_virtual_memory_status vm)"

section \<open>The handlers\<close>

text \<open>\<open>get_status\<close> answers at once, the others store a command.\<close>

datatype handler = Get_status | Notify command

definition get_status :: "mc \<Rightarrow> mc" where
  "get_status st =
     (let num_alloc_memblk = mc_get_alloc_memblk_cnt st; allocated_size = mc_get_allocated_size st;
          st = mc_log_print (Allocated_bytes allocated_size) (mc_log_print (Num_blocks num_alloc_memblk) st)
      in if allocated_size > 1024 then print_unit allocated_size st else st)"

text \<open>The handlers that \<open>mc_signal_init\<close> installs, by the distance of the signal to \<open>SIGRTMIN\<close>.\<close>

definition installed_handler :: "nat \<Rightarrow> handler option" where
  "installed_handler k =
     (if k = 0 then Some Get_status
      else if k = 1 then Some (Notify GET_ALL_MEMBLK)
      else if k = 2 then Some (Notify GET_ALL_MEMBLK_PER_CALLSTACK)
      else if k = 3 then Some (Notify CHECK_ALL_MEMBLK)
      else if k = 4 then Some (Notify CREATE_SNAPSHOT)
      else if k = 5 then Some (Notify COMPARE_WITH_SNAPSHOT)
      else if k = 6 then Some (Notify COMPARE_WITH_SNAPSHOT_PER_CALLSTACK)
      else if k = 7 then Some (Notify DESTROY_SNAPSHOT)
      else if k = 8 then Some (Notify GET_HISTOGRAM_MEMBLK)
      else if k = 9 then Some (Notify GET_VIRTUAL_MEMORY_STATUS)
      else None)"

section \<open>The worker\<close>

text \<open>
  Where the worker is: before its first lock, at the test of the slot, in the wait, at the switch.
  \<open>sg_handler\<close> is the command of a handler that has interrupted the worker and not yet stored it.
\<close>

datatype worker_pc = Starting | Testing | Waiting | Switching

record worker_state =
  sg_cmd :: "command option"
  sg_pc :: worker_pc
  sg_handler :: "command option"
  sg_vm :: virtmem

datatype event = Internal | Notified command | Executed command

definition mutex_free :: "worker_state \<Rightarrow> bool" where
  "mutex_free s \<longleftrightarrow> sg_pc s = Starting \<or> sg_pc s = Waiting"

text \<open>\<open>notify\<close>; \<open>None\<close> while it has to wait for the mutex.\<close>

definition notify :: "command \<Rightarrow> worker_state \<Rightarrow> worker_state option" where
  "notify cmd s = (if mutex_free s then Some (s\<lparr>sg_cmd := Some cmd\<rparr>) else None)"

text \<open>One step of \<open>work_thread\<close>. Returning from the wait needs no command: the wait is not in a loop.\<close>

definition work_thread_step :: "worker_state \<Rightarrow> (event \<times> worker_state) option" where
  "work_thread_step s =
     (case sg_pc s of
        Starting \<Rightarrow> Some (Internal, s\<lparr>sg_pc := Testing, sg_vm := upd_base (mc_log_print Work_thread) (sg_vm s)\<rparr>)
      | Testing \<Rightarrow> Some (Internal, s\<lparr>sg_pc := if sg_cmd s = None then Waiting else Switching\<rparr>)
      | Waiting \<Rightarrow> Some (Internal, s\<lparr>sg_pc := Switching\<rparr>)
      | Switching \<Rightarrow>
          (case sg_cmd s of
             None \<Rightarrow> Some (Internal, s\<lparr>sg_pc := Testing, sg_cmd := None\<rparr>)
           | Some cmd \<Rightarrow> do {
               vm \<leftarrow> run_command cmd (sg_vm s);
               Some (Executed cmd, s\<lparr>sg_pc := Testing, sg_cmd := None, sg_vm := vm\<rparr>)
             }))"

inductive signal_step :: "worker_state \<Rightarrow> event \<Rightarrow> worker_state \<Rightarrow> bool" where
  worker: "sg_handler s = None \<Longrightarrow> work_thread_step s = Some (e, s') \<Longrightarrow> signal_step s e s'"
| handler_elsewhere: "notify cmd s = Some s' \<Longrightarrow> signal_step s (Notified cmd) s'"
| worker_interrupted: "sg_handler s = None \<Longrightarrow> signal_step s Internal (s\<lparr>sg_handler := Some cmd\<rparr>)"
| handler_on_worker: "sg_handler s = Some cmd \<Longrightarrow> notify cmd s = Some s' \<Longrightarrow>
    signal_step s (Notified cmd) (s'\<lparr>sg_handler := None\<rparr>)"

inductive signal_run :: "worker_state \<Rightarrow> event list \<Rightarrow> worker_state \<Rightarrow> bool" where
  start: "signal_run s [] s"
| continue: "signal_run s es s' \<Longrightarrow> signal_step s' e s'' \<Longrightarrow> signal_run s (es @ [e]) s''"

fun notified :: "event list \<Rightarrow> command list" where
  "notified [] = []"
| "notified (Notified c # es) = c # notified es"
| "notified (e # es) = notified es"

fun executed :: "event list \<Rightarrow> command list" where
  "executed [] = []"
| "executed (Executed c # es) = c # executed es"
| "executed (e # es) = executed es"

lemma notified_append [simp]: "notified (es @ fs) = notified es @ notified fs"
  by (induction es rule: notified.induct) simp_all

lemma executed_append [simp]: "executed (es @ fs) = executed es @ executed fs"
  by (induction es rule: executed.induct) simp_all

inductive_cases signal_stepE [consumes 1, case_names worker handler_elsewhere worker_interrupted handler_on_worker]:
  "signal_step s e s'"

section \<open>What is executed was requested\<close>

definition pending :: "worker_state \<Rightarrow> command list" where
  "pending s = (case sg_cmd s of None \<Rightarrow> [] | Some c \<Rightarrow> [c])"

text \<open>The commands executed and the one in the slot are a part of those requested, in their order.\<close>

definition requests_ok :: "command list \<Rightarrow> command list \<Rightarrow> worker_state \<Rightarrow> bool" where
  "requests_ok ns es s \<longleftrightarrow> subseq (es @ pending s) ns"

lemma work_thread_step_requests:
  assumes "work_thread_step s = Some (e, s')" "requests_ok ns es s"
  shows "requests_ok (ns @ notified [e]) (es @ executed [e]) s'"
  using assms
  by (auto simp: work_thread_step_def requests_ok_def pending_def split: worker_pc.splits option.splits Option.bind_splits if_splits)

lemma notify_requests:
  assumes "notify cmd s = Some s'" "requests_ok ns es s"
  shows "requests_ok (ns @ [cmd]) es s'"
proof -
  have "subseq es (es @ pending s)" using list_emb_append_mono [of "(=)" es es "[]" "pending s"] by simp
  then have "subseq es ns" using assms(2) subseq_order.order_trans by (auto simp: requests_ok_def)
  then show ?thesis using assms(1) by (auto simp: notify_def requests_ok_def pending_def split: if_splits intro: list_emb_append_mono)
qed

lemma signal_step_requests:
  assumes "signal_step s e s'" "requests_ok ns es s"
  shows "requests_ok (ns @ notified [e]) (es @ executed [e]) s'"
  using assms(1)
proof (cases rule: signal_stepE)
  case worker
  then show ?thesis using work_thread_step_requests assms(2) by blast
next
  case (handler_elsewhere cmd)
  then show ?thesis using notify_requests [OF _ assms(2)] by simp
next
  case (worker_interrupted cmd)
  then show ?thesis using assms(2) by (simp add: requests_ok_def pending_def)
next
  case (handler_on_worker cmd s1)
  then show ?thesis using notify_requests [OF _ assms(2), of cmd s1] by (simp add: requests_ok_def pending_def)
qed

lemma signal_run_requests:
  assumes "signal_run s es s'" "sg_cmd s = None"
  shows "requests_ok (notified es) (executed es) s'"
  using assms
proof (induction rule: signal_run.induct)
  case (start s)
  then show ?case by (simp add: requests_ok_def pending_def)
next
  case (continue s es s' e s'')
  then show ?case using signal_step_requests [OF continue.hyps(2)] by simp
qed

section \<open>A stuck worker\<close>

text \<open>A handler that interrupts the worker while it holds the mutex waits for itself.\<close>

definition self_blocked :: "worker_state \<Rightarrow> bool" where
  "self_blocked s \<longleftrightarrow> sg_handler s \<noteq> None \<and> \<not> mutex_free s"

lemma self_blocked_no_step: "self_blocked s \<Longrightarrow> \<not> signal_step s e s'"
  by (auto simp: self_blocked_def notify_def elim!: signal_stepE)

section \<open>Runs\<close>

text \<open>The state in which \<open>mc_signal_init\<close> leaves the thread it creates.\<close>

definition mc_signal_init :: "virtmem \<Rightarrow> worker_state" where
  "mc_signal_init vm = \<lparr>sg_cmd = None, sg_pc = Starting, sg_handler = None, sg_vm = vm\<rparr>"

lemma signal_run_trans: "signal_run s' fs s'' \<Longrightarrow> signal_run s es s' \<Longrightarrow> signal_run s (es @ fs) s''"
proof (induction arbitrary: es rule: signal_run.induct)
  case (continue s' fs t e u)
  from signal_run.continue [OF continue.IH [OF continue.prems] continue.hyps(2)] show ?case by simp
qed simp

lemma signal_run_one: "signal_step s e s' \<Longrightarrow> signal_run s [e] s'"
  using signal_run.continue [OF signal_run.start] by simp

lemma signal_run_step: "signal_step s e s' \<Longrightarrow> signal_run s' es s'' \<Longrightarrow> signal_run s (e # es) s''"
  using signal_run_trans [OF _ signal_run_one] by simp

text \<open>The state of the library when the worker gets to its first command.\<close>

definition worker_vm :: "worker_state \<Rightarrow> virtmem" where
  "worker_vm s = (if sg_pc s = Starting then upd_base (mc_log_print Work_thread) (sg_vm s) else sg_vm s)"

lemma pending_runs:
  assumes "sg_handler s = None" "sg_cmd s = Some c" "run_command c (worker_vm s) = Some vm'"
  shows "\<exists>es s'. signal_run s es s' \<and> length es \<le> 3 \<and> notified es = [] \<and> executed es = [c] \<and>
     sg_cmd s' = None \<and> sg_vm s' = vm' \<and> sg_pc s' = Testing"
proof -
  have switching: "\<exists>s'. signal_run t [Executed c] s' \<and> sg_cmd s' = None \<and> sg_vm s' = vm' \<and> sg_pc s' = Testing"
    if "sg_handler t = None" "sg_cmd t = Some c" "sg_pc t = Switching" "run_command c (sg_vm t) = Some vm'" for t
    using that signal_run_one [OF signal_step.worker [of t "Executed c"]]
    by (auto simp: work_thread_step_def)
  have testing: "\<exists>s'. signal_run t [Internal, Executed c] s' \<and> sg_cmd s' = None \<and> sg_vm s' = vm' \<and> sg_pc s' = Testing"
    if t: "sg_handler t = None" "sg_cmd t = Some c" "sg_pc t = Testing \<or> sg_pc t = Waiting" "run_command c (sg_vm t) = Some vm'" for t
  proof -
    have "signal_step t Internal (t\<lparr>sg_pc := Switching\<rparr>)"
      using t by (intro signal_step.worker) (auto simp: work_thread_step_def)
    then show ?thesis using switching [of "t\<lparr>sg_pc := Switching\<rparr>"] t signal_run_step by fastforce
  qed
  show ?thesis
  proof (cases "sg_pc s")
    case Starting
    let ?t = "s\<lparr>sg_pc := Testing, sg_vm := worker_vm s\<rparr>"
    have "signal_step s Internal ?t"
      using assms Starting by (intro signal_step.worker) (auto simp: work_thread_step_def worker_vm_def)
    then show ?thesis using testing [of ?t] assms signal_run_step [of s Internal ?t "[Internal, Executed c]"] by fastforce
  next
    case Testing
    then show ?thesis using testing [of s] assms by (fastforce simp: worker_vm_def)
  next
    case Waiting
    then show ?thesis using testing [of s] assms by (fastforce simp: worker_vm_def)
  next
    case Switching
    then show ?thesis using switching [of s] assms by (fastforce simp: worker_vm_def)
  qed
qed

text \<open>There is one slot: a request that comes before the worker got to the last one replaces it.\<close>

lemma overwritten:
  assumes "sg_handler s = None" "mutex_free s" "run_command c2 (worker_vm s) = Some vm'"
  shows "\<exists>es s'. signal_run s es s' \<and> notified es = [c1, c2] \<and> executed es = [c2] \<and> sg_cmd s' = None \<and> sg_vm s' = vm' \<and>
     sg_pc s' = Testing"
proof -
  let ?s1 = "s\<lparr>sg_cmd := Some c1\<rparr>" and ?s2 = "s\<lparr>sg_cmd := Some c2\<rparr>"
  have "notify c1 s = Some ?s1" "notify c2 ?s1 = Some ?s2" using assms(2) by (simp_all add: notify_def mutex_free_def)
  then have n: "signal_run s [Notified c1, Notified c2] ?s2"
    using signal_run_step signal_run_one signal_step.handler_elsewhere by metis
  have "worker_vm ?s2 = worker_vm s" by (simp add: worker_vm_def)
  with pending_runs [of ?s2 c2 vm'] assms obtain es s' where
    "signal_run ?s2 es s'" "notified es = []" "executed es = [c2]" "sg_cmd s' = None" "sg_vm s' = vm'" "sg_pc s' = Testing"
    by auto
  then show ?thesis
    using signal_run_trans [OF _ n] by (intro exI [of _ "[Notified c1, Notified c2] @ es"] exI [of _ s']) auto
qed

lemma deadlock_reachable:
  "\<exists>es s'. signal_run (mc_signal_init vm) es s' \<and> notified es = [c] \<and> executed es = [] \<and> (\<forall>e s''. \<not> signal_step s' e s'')"
proof -
  let ?s0 = "mc_signal_init vm"
  let ?s1 = "?s0\<lparr>sg_cmd := Some c\<rparr>"
  let ?s2 = "?s1\<lparr>sg_pc := Testing, sg_vm := upd_base (mc_log_print Work_thread) vm\<rparr>"
  let ?s3 = "?s2\<lparr>sg_handler := Some c\<rparr>"
  have 1: "signal_step ?s0 (Notified c) ?s1"
    by (rule signal_step.handler_elsewhere) (simp add: notify_def mutex_free_def mc_signal_init_def)
  have 2: "signal_step ?s1 Internal ?s2" by (rule signal_step.worker) (simp_all add: work_thread_step_def mc_signal_init_def)
  have 3: "signal_step ?s2 Internal ?s3" by (rule signal_step.worker_interrupted) (simp add: mc_signal_init_def)
  have "signal_run ?s0 [Notified c, Internal, Internal] ?s3"
    by (rule signal_run_step [OF 1 signal_run_step [OF 2 signal_run_one [OF 3]]])
  moreover have "self_blocked ?s3" by (simp add: self_blocked_def mutex_free_def)
  ultimately show ?thesis
    using self_blocked_no_step by (intro exI [of _ "[Notified c, Internal, Internal]"] exI [of _ ?s3]) auto
qed

end
