(* ===== verification/MC_Commands.thy ===== *)
theory MC_Commands
  imports MC_Report MC_Signal MC_Copies
begin

text \<open>
  The commands of the worker on the record of blocks. Between commands the two working copies are
  empty and no call stack has a group; every report returns to such a state, as long as the copies
  and the sort buffer it needs can be allocated.
\<close>

section \<open>Between commands\<close>

definition settled_at :: "(table_id \<Rightarrow> addr set) \<Rightarrow> addr set \<Rightarrow> addr set \<Rightarrow> mc \<Rightarrow> bool" where
  "settled_at N F C st \<longleftrightarrow> mc_inv N F C st \<and> N Copy = {} \<and> N Snapshot_Copy = {} \<and> ungrouped C st \<and>
     all_traced Live st \<and> all_traced Snapshot st"

definition settled :: "mc \<Rightarrow> bool" where
  "settled st \<longleftrightarrow> (\<exists>N F C. settled_at N F C st)"

text \<open>What a command leaves alone: the live blocks with their call stacks, the quarantine, the counters.\<close>

definition same_record :: "mc \<Rightarrow> mc \<Rightarrow> bool" where
  "same_record st st' \<longleftrightarrow> table_view Live st' = table_view Live st \<and> quarantine_view st' = quarantine_view st \<and>
     counters st' = counters st"

lemma same_record_refl [simp]: "same_record st st"
  by (simp add: same_record_def)

lemma same_record_trans: "same_record st s \<Longrightarrow> same_record s st' \<Longrightarrow> same_record st st'"
  by (simp add: same_record_def)

lemma same_record_spec: "same_record st st' \<Longrightarrow> spec_of st' = spec_of st"
  by (simp add: same_record_def spec_of_def live_view_table fun_eq_iff)

lemma settled_atD:
  assumes "settled_at N F C st"
  shows "mc_inv N F C st" "N Copy = {}" "N Snapshot_Copy = {}" "ungrouped C st" "all_traced Live st" "all_traced Snapshot st"
  using assms by (simp_all add: settled_at_def)

lemma traced_same: "table_view j st' = table_view i st \<Longrightarrow> all_traced j st' = all_traced i st"
  by (simp add: all_traced_def)

section \<open>The parts of a report\<close>

lemma report_record:
  assumes "report_only st st'"
  shows "same_record st st'" "table_view i st' = table_view i st"
  using report_only_views [OF assms] report_only_simps(9) [OF assms] by (simp_all add: same_record_def spec_of_def)

lemma blocks_ungrouped: "only_blocks st st' \<Longrightarrow> ungrouped C st' = ungrouped C st"
  by (simp add: ungrouped_def group_head_def only_blocks_simps(3))

lemma blocks_record:
  assumes "only_blocks st st'" "table_view Live st' = table_view Live st"
  shows "same_record st st'"
  using assms only_blocks_simps(17,18) [OF assms(1)] by (simp add: same_record_def)

lemma mc_inv_only_groups:
  assumes g: "only_groups st st'" and inv: "mc_inv N F C st"
  shows "mc_inv N F C st'"
proof -
  note S = only_groups_simps [OF g] and I = mc_invD [OF inv]
  show ?thesis
    using tables_ok_only_groups [OF g I(1)] I(2-4) S
    by (simp add: mc_inv_def keys_ok_def queue_ok_def owners_ok_def)
qed

lemma groups_view:
  assumes "only_groups st st'"
  shows "table_view i st' = table_view i st" "same_record st st'" "supplied k st' = supplied k st"
proof -
  note S = only_groups_simps [OF assms]
  have f: "find_ptr j p st' = find_ptr j p st" for j p using S by (simp add: find_ptr_def ptr_table_def)
  show v: "table_view i st' = table_view i st" for i
    by (rule ext) (simp add: table_view_def f S(25,26) Let_def cong: option.case_cong if_cong)
  show "same_record st st'" using v [of Live] S(20,21) by (simp add: same_record_def)
  show "supplied k st' = supplied k st" using S(1) by (simp add: supplied_def)
qed

text \<open>Emptying both kinds of groups.\<close>

lemma reset_both_ok:
  assumes "mc_inv N F C st"
  obtains s st' where "mc_reset_same_callstack_group LINK_CURRENT st = Some s"
    "mc_reset_same_callstack_group LINK_SNAPSHOT s = Some st'" "mc_inv N F C st'" "ungrouped C st'" "only_groups st st'"
proof -
  from reset_ok [OF mc_invD(1) [OF assms], of LINK_CURRENT] obtain s where s: "mc_reset_same_callstack_group LINK_CURRENT st = Some s"
    "only_groups st s" "\<forall>c\<in>C. group_head LINK_CURRENT c s = NULL" by blast
  have i: "mc_inv N F C s" by (rule mc_inv_only_groups [OF s(2) assms])
  from reset_ok [OF mc_invD(1) [OF i], of LINK_SNAPSHOT] obtain t where t: "mc_reset_same_callstack_group LINK_SNAPSHOT s = Some t"
    "only_groups s t" "\<forall>c\<in>C. group_head LINK_SNAPSHOT c t = NULL" "\<forall>l c. l \<noteq> LINK_SNAPSHOT \<longrightarrow> group_head l c t = group_head l c s" by blast
  have "group_head l c t = NULL" if "c \<in> C" for l c using s(3) t(3,4) that by (cases l) auto
  then show ?thesis using that [OF s(1) t(1) mc_inv_only_groups [OF t(2) i] _ only_groups_trans [OF s(2) t(2)]]
    by (simp add: ungrouped_def)
qed

text \<open>A working copy of the live blocks.\<close>

lemma copy_ok:
  assumes s: "settled_at N F C st" and sup: "supplied (k + card (N Live)) st"
  obtains s D where "mc_duplicate_all_alloc_memblk Copy Live st = Some (0, s)" "mc_inv (N(Copy := D)) F C s" "only_blocks st s"
    "\<And>j. j \<noteq> Copy \<Longrightarrow> table_view j s = table_view j st" "table_view Copy s = table_view Live st"
    "card D = card (N Live)" "supplied k s"
proof -
  note S = settled_atD [OF s]
  obtain rc u D where u: "mc_duplicate_all_alloc_memblk Copy Live st = Some (rc, u)" "mc_inv (N(Copy := D)) F C u" "only_blocks st u"
    "\<And>j. j \<noteq> Copy \<Longrightarrow> table_view j u = table_view j st" "rc = 0 \<Longrightarrow> table_view Copy u = table_view Live st"
    "rc = 0 \<Longrightarrow> card D = card (N Live)" "\<And>k. supplied (k + card (N Live)) st \<Longrightarrow> rc = 0 \<and> supplied k u"
    by (rule mc_duplicate_ok [OF S(1,2), of Live]) (auto intro: that)
  show ?thesis using that [of u D] u u(7) [OF sup] by simp
qed

section \<open>The listings\<close>

text \<open>A report on the copy, and the copy is destroyed.\<close>

lemma drop_copy_ok:
  assumes st: "settled_at N F C st"
    and s: "mc_inv (N(Copy := D)) F C s" "ungrouped C s" "same_record st s" "table_view Snapshot s = table_view Snapshot st"
    and run: "mc_destroy_all_alloc_memblk Copy s = Some st'"
  shows "settled_at N F C st'" "same_record st st'" "table_view Snapshot st' = table_view Snapshot st"
proof -
  note S = settled_atD [OF st]
  obtain t where t: "mc_destroy_all_alloc_memblk Copy s = Some t" "mc_inv (N(Copy := D, Copy := {})) F C t" "only_blocks s t"
    "\<And>j. j \<noteq> Copy \<Longrightarrow> table_view j t = table_view j s"
    by (rule mc_destroy_ok [OF s(1), of Copy]) auto
  have st': "st' = t" using run t(1) by simp
  have N: "N(Copy := D, Copy := {}) = N" using S(2) by (simp add: fun_eq_iff)
  have v: "table_view Live t = table_view Live s" using t(4) by simp
  show r: "same_record st st'" using same_record_trans [OF s(3) blocks_record [OF t(3) v]] st' by simp
  show n: "table_view Snapshot st' = table_view Snapshot st" using t(4) [of Snapshot] s(4) st' by simp
  have "table_view Live st' = table_view Live st" using r by (simp add: same_record_def)
  from traced_same [OF this] have "all_traced Live st'" using S(5) by simp
  moreover have "all_traced Snapshot st'" using S(6) traced_same [OF n] by simp
  moreover have "mc_inv N F C st'" using t(2) unfolding N st' .
  moreover have "ungrouped C st'" using blocks_ungrouped [OF t(3)] s(2) st' by simp
  ultimately show "settled_at N F C st'" using S(2,3) by (simp add: settled_at_def)
qed

lemma print_all_settled:
  assumes st: "settled_at N F C st" and sup: "supplied (card (N Live)) st" and run: "mc_print_all_memblk st = Some (rc, st')"
  shows "settled_at N F C st' \<and> same_record st st' \<and> table_view Snapshot st' = table_view Snapshot st"
proof -
  obtain s D where d: "mc_duplicate_all_alloc_memblk Copy Live st = Some (0, s)" "mc_inv (N(Copy := D)) F C s" "only_blocks st s"
    "\<And>j. j \<noteq> Copy \<Longrightarrow> table_view j s = table_view j st"
    by (rule copy_ok [OF st, of 0]) (use sup in auto)
  from run d(1) obtain s1 r s2 s3 where s1: "init_fmaps s = Some s1" and s2: "print_all_memblk_on_hashtable Copy s1 = Some (r, s2)"
    and s3: "term_fmaps s2 = Some s3" "mc_destroy_all_alloc_memblk Copy s3 = Some st'"
    by (auto simp: mc_print_all_memblk_def Option.bind_eq_Some_conv)
  have r: "report_only s s3"
    using report_only_trans [OF init_fmaps_quiet [THEN quiet_report_only, OF s1]
        report_only_trans [OF print_table_report [OF s2] term_fmaps_quiet [THEN quiet_report_only, OF s3(1)]]] .
  have v: "table_view Live s = table_view Live st" "table_view Snapshot s = table_view Snapshot st" using d(4) by simp_all
  have "mc_inv (N(Copy := D)) F C s3" by (rule report_only_inv [OF r d(2)])
  moreover have "ungrouped C s3"
    using settled_atD(4) [OF st] blocks_ungrouped [OF d(3)] report_only_ungrouped [OF r] by simp
  moreover have "same_record st s3" by (rule same_record_trans [OF blocks_record [OF d(3) v(1)] report_record(1) [OF r]])
  moreover have "table_view Snapshot s3 = table_view Snapshot st" using v(2) report_record(2) [OF r] by simp
  ultimately show ?thesis using drop_copy_ok [OF st _ _ _ _ s3(2)] by blast
qed

text \<open>Linking the copy leaves the groups of the other kind empty; all are emptied in the end.\<close>

lemma link_copy_ok:
  assumes inv: "mc_inv N F C st" and u: "ungrouped C st" and t: "all_traced i st"
  obtains s where "mc_link_same_callstack_group i LINK_CURRENT st = Some s" "only_groups st s"
    "\<And>c. c \<in> C \<Longrightarrow> group_head LINK_SNAPSHOT c s = NULL" "grouped C s (N i) {}"
proof -
  note D = tables_okD [OF mc_invD(1) [OF inv]]
  have "NULL \<notin> C" using blk.live_nonnull [OF D(1), of Callstack] D(10) by simp
  moreover have "\<forall>b\<in>N i. b \<noteq> NULL \<and> am_allocator (am st b) \<in> C"
  proof
    fix b assume b: "b \<in> N i"
    then have "b \<in> blk_live AllocMemblk (blk st)" using D(5) by auto
    then have "b \<noteq> NULL" using blk.live_nonnull [OF D(1)] by blast
    then show "b \<noteq> NULL \<and> am_allocator (am st b) \<in> C" using all_traced_blocks [OF inv t b] by blast
  qed
  ultimately obtain s G where s: "mc_link_same_callstack_group i LINK_CURRENT st = Some s" "only_groups st s"
    "groups_ok C s G" "\<forall>l'. l' \<noteq> LINK_CURRENT \<longrightarrow> G l' = (\<lambda>c. [])" "linked_through C s LINK_CURRENT (N i) G"
    using link_table_ok [OF mc_invD(1) [OF inv] ungrouped_groups [OF u], where i = i and l = LINK_CURRENT] by auto
  have "group_head LINK_SNAPSHOT c s = NULL" if "c \<in> C" for c
    using groups_okD(1) [OF s(3) that, of LINK_SNAPSHOT] s(4) by simp
  moreover have "grouped C s (N i) {}" using s(3-5) by (auto simp: grouped_def linked_through_def)
  ultimately show ?thesis using that s(1,2) by blast
qed

lemma print_per_callstack_settled:
  assumes st: "settled_at N F C st" and sup: "supplied (card (N Live)) st" and run: "mc_print_all_memblk_per_callstack st = Some (rc, st')"
  shows "settled_at N F C st' \<and> same_record st st' \<and> table_view Snapshot st' = table_view Snapshot st"
proof -
  note S = settled_atD [OF st]
  obtain s D where d: "mc_duplicate_all_alloc_memblk Copy Live st = Some (0, s)" "mc_inv (N(Copy := D)) F C s" "only_blocks st s"
    "\<And>j. j \<noteq> Copy \<Longrightarrow> table_view j s = table_view j st" "table_view Copy s = table_view Live st"
    by (rule copy_ok [OF st, of 0]) (use sup in auto)
  have u: "ungrouped C s" using S(4) blocks_ungrouped [OF d(3)] by simp
  have "all_traced Copy s" using S(5) traced_same [OF d(5)] by simp
  then obtain l where l: "mc_link_same_callstack_group Copy LINK_CURRENT s = Some l" "only_groups s l"
    "\<And>c. c \<in> C \<Longrightarrow> group_head LINK_SNAPSHOT c l = NULL" by (rule link_copy_ok [OF d(2) u]) blast
  from run d(1) l(1) obtain s1 r s2 s3 s0 where s1: "init_fmaps l = Some s1" and s2: "print_all_memblk_per_callstack LINK_CURRENT s1 = Some (r, s2)"
    and s3: "term_fmaps s2 = Some s3" and s0: "mc_reset_same_callstack_group LINK_CURRENT s3 = Some s0" "mc_destroy_all_alloc_memblk Copy s0 = Some st'"
    by (auto simp: mc_print_all_memblk_per_callstack_def Option.bind_eq_Some_conv)
  have r: "report_only l s3"
    using report_only_trans [OF init_fmaps_quiet [THEN quiet_report_only, OF s1]
        report_only_trans [OF print_per_callstack_report [OF s2] term_fmaps_quiet [THEN quiet_report_only, OF s3]]] .
  have i3: "mc_inv (N(Copy := D)) F C s3" by (rule report_only_inv [OF r mc_inv_only_groups [OF l(2) d(2)]])
  from reset_ok [OF mc_invD(1) [OF i3], of LINK_CURRENT] obtain s4 where s4: "mc_reset_same_callstack_group LINK_CURRENT s3 = Some s4"
    "only_groups s3 s4" "\<forall>c\<in>C. group_head LINK_CURRENT c s4 = NULL"
    "\<forall>l' c. l' \<noteq> LINK_CURRENT \<longrightarrow> group_head l' c s4 = group_head l' c s3" by blast
  have "group_head j c s4 = NULL" if "c \<in> C" for j c
    using s4(3,4) l(3) [OF that] report_only_simps(15) [OF r] that by (cases j) auto
  then have u4: "ungrouped C s4" by (simp add: ungrouped_def)
  have dst: "mc_destroy_all_alloc_memblk Copy s4 = Some st'"
    using s0 s4(1) by simp
  have v: "table_view Live s = table_view Live st" "table_view Snapshot s = table_view Snapshot st" using d(4) by simp_all
  have "same_record st s4"
    using same_record_trans [OF blocks_record [OF d(3) v(1)] same_record_trans [OF groups_view(2) [OF l(2)]
        same_record_trans [OF report_record(1) [OF r] groups_view(2) [OF s4(2)]]]] .
  moreover have "table_view Snapshot s4 = table_view Snapshot st"
    using v(2) groups_view(1) [OF l(2)] report_record(2) [OF r] groups_view(1) [OF s4(2)] by simp
  ultimately show ?thesis using drop_copy_ok [OF st mc_inv_only_groups [OF s4(2) i3] u4 _ _ dst] by blast
qed

section \<open>The comparisons\<close>

text \<open>A comparison of the two copies leaves some of their blocks, and no groups.\<close>

definition compares :: "(table_id \<Rightarrow> addr set) \<Rightarrow> addr set \<Rightarrow> addr set \<Rightarrow> mc \<Rightarrow> mc \<Rightarrow> bool" where
  "compares N F C s s' \<longleftrightarrow> (\<exists>U S. mc_inv (N(Copy := U, Snapshot_Copy := S)) F C s') \<and> ungrouped C s' \<and> same_record s s' \<and>
     table_view Snapshot s' = table_view Snapshot s"

lemma offset_copies_ok:
  assumes inv: "mc_inv N F C s" and u: "ungrouped C s" and t: "all_traced Copy s" "all_traced Snapshot_Copy s"
  obtains s1 s2 s3 U S where "mc_link_same_callstack_group Copy LINK_CURRENT s = Some s1"
    "mc_link_same_callstack_group Snapshot_Copy LINK_SNAPSHOT s1 = Some s2"
    "offset_snapshot_against_current_alloc_memblk Copy Snapshot_Copy s2 = Some ((of_nat (card U), of_nat (card S)), s3)"
    "mc_inv (N(Copy := U, Snapshot_Copy := S)) F C s3" "U \<subseteq> N Copy" "S \<subseteq> N Snapshot_Copy" "grouped C s3 U S"
    "same_record s s3" "table_view Snapshot s3 = table_view Snapshot s" "sort_mmaps s3 = sort_mmaps s" "only_links s s3"
proof -
  have ne: "Copy \<noteq> Snapshot_Copy" "Copy \<noteq> Live" "Snapshot_Copy \<noteq> Live" by simp_all
  obtain s1 s2 s3 U S where
    r: "mc_link_same_callstack_group Copy LINK_CURRENT s = Some s1"
      "mc_link_same_callstack_group Snapshot_Copy LINK_SNAPSHOT s1 = Some s2"
      "offset_snapshot_against_current_alloc_memblk Copy Snapshot_Copy s2 = Some ((of_nat (card U), of_nat (card S)), s3)"
      "mc_inv (N(Copy := U, Snapshot_Copy := S)) F C s3" "U \<subseteq> N Copy" "S \<subseteq> N Snapshot_Copy" "grouped C s3 U S"
    and ol: "only_links s s3" and v: "\<And>j. j \<noteq> Copy \<Longrightarrow> j \<noteq> Snapshot_Copy \<Longrightarrow> table_view j s3 = table_view j s"
    by (rule compare_ok [OF inv u t ne]) (rule that)
  have "sort_mmaps s3 = sort_mmaps s" using ol by (auto simp: only_links_def)
  moreover have "same_record s s3" using only_links_simps(13,14) [OF ol] v [of Live] by (simp add: same_record_def)
  ultimately show ?thesis using that [OF r] v [of Snapshot] ol by simp
qed

text \<open>What is left of the comparison: the report, and the groups are emptied.\<close>

lemma finish_compare:
  assumes i: "mc_inv (N(Copy := U, Snapshot_Copy := S)) F C s3" and v: "same_record s s3" "table_view Snapshot s3 = table_view Snapshot s"
    and r: "report_only s3 s4" and run: "mc_reset_same_callstack_group LINK_CURRENT s4 = Some s5" "mc_reset_same_callstack_group LINK_SNAPSHOT s5 = Some s'"
  shows "compares N F C s s'"
proof -
  obtain a b where ab: "mc_reset_same_callstack_group LINK_CURRENT s4 = Some a" "mc_reset_same_callstack_group LINK_SNAPSHOT a = Some b"
    "mc_inv (N(Copy := U, Snapshot_Copy := S)) F C b" "ungrouped C b" "only_groups s4 b"
    by (rule reset_both_ok [OF report_only_inv [OF r i]])
  then have s': "s' = b" using run by simp
  have "same_record s b" by (rule same_record_trans [OF v(1) same_record_trans [OF report_record(1) [OF r] groups_view(2) [OF ab(5)]]])
  moreover have "table_view Snapshot b = table_view Snapshot s" using v(2) report_record(2) [OF r] groups_view(1) [OF ab(5)] by simp
  ultimately show ?thesis using ab(3,4) s' by (auto simp: compares_def)
qed

lemma compare_copies_ok:
  assumes inv: "mc_inv N F C s" and u: "ungrouped C s" and t: "all_traced Copy s" "all_traced Snapshot_Copy s"
    and run: "mc_compare_snapshot_and_current_alloc_memblk Copy Snapshot_Copy s = Some (rc, s')"
  shows "compares N F C s s'"
proof -
  obtain s1 s2 s3 U S where
    o: "mc_link_same_callstack_group Copy LINK_CURRENT s = Some s1"
      "mc_link_same_callstack_group Snapshot_Copy LINK_SNAPSHOT s1 = Some s2"
      "offset_snapshot_against_current_alloc_memblk Copy Snapshot_Copy s2 = Some ((of_nat (card U), of_nat (card S)), s3)"
      "mc_inv (N(Copy := U, Snapshot_Copy := S)) F C s3" "U \<subseteq> N Copy" "S \<subseteq> N Snapshot_Copy" "grouped C s3 U S"
      "same_record s s3" "table_view Snapshot s3 = table_view Snapshot s" "sort_mmaps s3 = sort_mmaps s" "only_links s s3"
    by (rule offset_copies_ok [OF inv u t]) (rule that)
  from run o(1-3) obtain a b c d e where
    r: "init_fmaps s3 = Some a" "print_remaining (of_nat (card U)) Blocks_increased No_block_increased Copy a = Some b"
      "print_remaining (of_nat (card S)) Blocks_decreased No_block_decreased Snapshot_Copy b = Some c" "term_fmaps c = Some d"
      "mc_reset_same_callstack_group LINK_CURRENT d = Some e" "mc_reset_same_callstack_group LINK_SNAPSHOT e = Some s'"
    by (auto simp: mc_compare_snapshot_and_current_alloc_memblk_def Option.bind_eq_Some_conv)
  have "report_only s3 d"
    using report_only_trans [OF report_only_trans [OF init_fmaps_quiet [THEN quiet_report_only, OF r(1)] print_remaining_report [OF r(2)]]
        report_only_trans [OF print_remaining_report [OF r(3)] term_fmaps_quiet [THEN quiet_report_only, OF r(4)]]] .
  from finish_compare [OF o(4,8,9) this r(5,6)] show ?thesis .
qed

lemma compare_copies_per_callstack_ok:
  assumes inv: "mc_inv N F C s" and u: "ungrouped C s" and t: "all_traced Copy s" "all_traced Snapshot_Copy s"
    and n: "card (N Copy) + card (N Snapshot_Copy) < 2 ^ 32" and b: "sort_mmaps s = True # oks"
    and run: "mc_compare_snapshot_and_current_alloc_memblk_per_callstack Copy Snapshot_Copy s = Some (rc, s')"
  shows "compares N F C s s'"
proof -
  obtain s1 s2 s3 U S where
    o: "mc_link_same_callstack_group Copy LINK_CURRENT s = Some s1"
      "mc_link_same_callstack_group Snapshot_Copy LINK_SNAPSHOT s1 = Some s2"
      "offset_snapshot_against_current_alloc_memblk Copy Snapshot_Copy s2 = Some ((of_nat (card U), of_nat (card S)), s3)"
      "mc_inv (N(Copy := U, Snapshot_Copy := S)) F C s3" "U \<subseteq> N Copy" "S \<subseteq> N Snapshot_Copy" "grouped C s3 U S"
      "same_record s s3" "table_view Snapshot s3 = table_view Snapshot s" "sort_mmaps s3 = sort_mmaps s" "only_links s s3"
    by (rule offset_copies_ok [OF inv u t]) (rule that)
  note run' = run [unfolded mc_compare_snapshot_and_current_alloc_memblk_per_callstack_def o(1-3) Option.bind.simps prod.case]
  have fin: "finite U" "finite S" using o(5,6) by (auto intro: finite_subset)
  have card: "card U + card S < 2 ^ 32"
    using card_mono [OF _ o(5)] card_mono [OF _ o(6)] n by (simp add: le_less_trans [OF add_mono])
  show ?thesis
  proof (cases "(of_nat (card U) + of_nat (card S) :: i32) = 0")
    case True
    then have "(of_nat (card U + card S) :: i32) = 0" by simp
    then have "unat (of_nat (card U + card S) :: i32) = 0" by (simp only: unat_0)
    then have "card U + card S = 0" using card by (simp only: unat_of_nat) simp
    then have "U = {}" "S = {}" using fin by simp_all
    then have "ungrouped C s3"
    proof -
      from o(7) obtain G where G: "groups_ok C s3 G" "\<forall>c\<in>C. set (G LINK_CURRENT c) = {} \<and> set (G LINK_SNAPSHOT c) = {}"
        unfolding grouped_def \<open>U = {}\<close> \<open>S = {}\<close> by auto
      have "group_head l c s3 = NULL" if "c \<in> C" for l c
        using groups_okD(1) [OF G(1) that, of l] G(2) that by (cases l) auto
      then show ?thesis by (simp add: ungrouped_def)
    qed
    moreover have "s' = mc_log_print No_block_changed s3" using run' True by simp
    moreover note report_record [OF log_report_only [of s3 No_block_changed]]
    moreover have "mc_inv (N(Copy := U, Snapshot_Copy := S)) F C (mc_log_print No_block_changed s3)"
      by (rule report_only_inv [OF log_report_only o(4)])
    ultimately show ?thesis
      using same_record_trans [OF o(8)] o(9) report_only_ungrouped [OF log_report_only] by (auto simp: compares_def)
  next
    case False
    with run' obtain a n ok c where a: "init_fmaps s3 = Some a" "mc_allocate_sort_buffer n a = Some (ok, c)"
      and r: "(if \<not> ok then Some (- 1, c) else do {
             (callstack_array, st) \<leftarrow> each_callstack_array difference_per_callstack c;
             let (callstack_array, st) = mc_sort_per_callstack callstack_array st;
             st \<leftarrow> print_differences 0 callstack_array st;
             st \<leftarrow> term_fmaps st;
             st \<leftarrow> mc_reset_same_callstack_group LINK_CURRENT st;
             st \<leftarrow> mc_reset_same_callstack_group LINK_SNAPSHOT st;
             Some (0, st) }) = Some (rc, s')"
      by (simp only: if_False Option.bind_eq_Some_conv) force
    have "sort_mmaps a = True # oks" using init_fmaps_quiet [OF a(1)] o(10) b by (auto elim: quietE)
    then have ok using a(2) by (auto simp: mc_allocate_sort_buffer_def Option.bind_eq_Some_conv)
    with r obtain arr d e f g where d: "each_callstack_array difference_per_callstack c = Some (arr, d)"
      "print_differences 0 (fst (mc_sort_per_callstack arr d)) d = Some e" "term_fmaps e = Some f"
      "mc_reset_same_callstack_group LINK_CURRENT f = Some g" "mc_reset_same_callstack_group LINK_SNAPSHOT g = Some s'"
      by (auto simp: Let_def case_prod_beta' Option.bind_eq_Some_conv)
    have "report_only c d" by (rule callstack_array_report [OF d(1) difference_per_callstack_report])
    then have "report_only s3 f"
      using report_only_trans [OF report_only_trans [OF init_fmaps_quiet [THEN quiet_report_only, OF a(1)] sort_buffer_report [OF a(2)]]
        report_only_trans [OF _ report_only_trans [OF print_differences_report [OF d(2)] term_fmaps_quiet [THEN quiet_report_only, OF d(3)]]]]
      by blast
    from finish_compare [OF o(4,8,9) this d(4,5)] show ?thesis .
  qed
qed

lemma settled_traced:
  assumes st: "settled_at N F C st" and v: "same_record st st'" "table_view Snapshot st' = table_view Snapshot st"
    and i: "mc_inv N F C st'" "ungrouped C st'"
  shows "settled_at N F C st'"
proof -
  have "table_view Live st' = table_view Live st" using v(1) by (simp add: same_record_def)
  from traced_same [OF this] traced_same [OF v(2)] show ?thesis using settled_atD [OF st] i by (simp add: settled_at_def)
qed

text \<open>Working copies of the live blocks and of the snapshot.\<close>

lemma two_copies_ok:
  assumes st: "settled_at N F C st" and sup: "supplied (card (N Live) + card (N Snapshot)) st"
  obtains s s2 D E where "mc_duplicate_all_alloc_memblk Copy Live st = Some (0, s)"
    "mc_duplicate_all_alloc_memblk Snapshot_Copy Snapshot s = Some (0, s2)"
    "mc_inv (N(Copy := D, Snapshot_Copy := E)) F C s2" "only_blocks st s2" "card D = card (N Live)" "card E = card (N Snapshot)"
    "table_view Live s2 = table_view Live st" "table_view Snapshot s2 = table_view Snapshot st"
    "ungrouped C s2" "all_traced Copy s2" "all_traced Snapshot_Copy s2"
proof -
  note S = settled_atD [OF st]
  have "supplied (card (N Snapshot) + card (N Live)) st" using sup by (simp add: add.commute)
  then obtain s D where d: "mc_duplicate_all_alloc_memblk Copy Live st = Some (0, s)" "mc_inv (N(Copy := D)) F C s" "only_blocks st s"
    "\<And>j. j \<noteq> Copy \<Longrightarrow> table_view j s = table_view j st" "table_view Copy s = table_view Live st"
    "card D = card (N Live)" "supplied (card (N Snapshot)) s" by (rule copy_ok [OF st]) (rule that)
  have e: "(N(Copy := D)) Snapshot_Copy = {}" "Snapshot \<noteq> Snapshot_Copy" "Snapshot_Copy \<noteq> Live" "(N(Copy := D)) Snapshot = N Snapshot"
    using S(3) by simp_all
  obtain rc0 s2 E where d2: "mc_duplicate_all_alloc_memblk Snapshot_Copy Snapshot s = Some (rc0, s2)" "rc0 = 0 \<or> rc0 = - 1"
    "mc_inv (N(Copy := D, Snapshot_Copy := E)) F C s2" "only_blocks s s2"
    "\<And>j. j \<noteq> Snapshot_Copy \<Longrightarrow> table_view j s2 = table_view j s"
    "rc0 = 0 \<Longrightarrow> table_view Snapshot_Copy s2 = table_view Snapshot s" "table_view Snapshot_Copy s2 \<subseteq>\<^sub>m table_view Snapshot s"
    "rc0 = 0 \<Longrightarrow> card E = card (N Snapshot)" "\<And>k. supplied (k + card (N Snapshot)) s \<Longrightarrow> rc0 = 0 \<and> supplied k s2"
    by (rule mc_duplicate_ok [OF d(2) e(1-3), unfolded e(4)]) (rule that)
  have rc0: "rc0 = 0" using d2(9) [of 0] d(7) by simp
  have ob: "only_blocks st s2" by (rule only_blocks_trans [OF d(3) d2(4)])
  have tv: "table_view Copy s2 = table_view Live st" "table_view Snapshot_Copy s2 = table_view Snapshot st"
    "table_view Live s2 = table_view Live st" "table_view Snapshot s2 = table_view Snapshot st"
    using d(4,5) d2(5,6) rc0 by simp_all
  have "ungrouped C s2" using S(4) blocks_ungrouped [OF ob] by simp
  moreover have "all_traced Copy s2" "all_traced Snapshot_Copy s2" using S(5,6) traced_same [OF tv(1)] traced_same [OF tv(2)] by simp_all
  moreover have "mc_duplicate_all_alloc_memblk Snapshot_Copy Snapshot s = Some (0, s2)" using d2(1) rc0 by simp
  ultimately show ?thesis using that [OF d(1) _ d2(3) ob d(6) d2(8) [OF rc0] tv(3,4)] by blast
qed

lemma with_copies_settled:
  assumes st: "settled_at N F C st" and sup: "supplied (card (N Live) + card (N Snapshot)) st" and run: "with_copies cmp st = Some (rc, st')"
    and cmp: "\<And>N' s r s'. mc_inv N' F C s \<Longrightarrow> ungrouped C s \<Longrightarrow> all_traced Copy s \<Longrightarrow> all_traced Snapshot_Copy s \<Longrightarrow>
      card (N' Copy) = card (N Live) \<Longrightarrow> card (N' Snapshot_Copy) = card (N Snapshot) \<Longrightarrow> sort_mmaps s = sort_mmaps st \<Longrightarrow>
      cmp Copy Snapshot_Copy s = Some (r, s') \<Longrightarrow> compares N' F C s s'"
  shows "settled_at N F C st' \<and> same_record st st' \<and> table_view Snapshot st' = table_view Snapshot st"
proof -
  note S = settled_atD [OF st]
  obtain s s2 D E where d: "mc_duplicate_all_alloc_memblk Copy Live st = Some (0, s)"
    "mc_duplicate_all_alloc_memblk Snapshot_Copy Snapshot s = Some (0, s2)"
    and d2: "mc_inv (N(Copy := D, Snapshot_Copy := E)) F C s2" and ob: "only_blocks st s2"
    and cd: "card D = card (N Live)" "card E = card (N Snapshot)"
    and tv: "table_view Live s2 = table_view Live st" "table_view Snapshot s2 = table_view Snapshot st"
    and u: "ungrouped C s2" "all_traced Copy s2" "all_traced Snapshot_Copy s2"
    by (rule two_copies_ok [OF st sup]) (rule that)
  let ?N = "N(Copy := D, Snapshot_Copy := E)"
  from run d obtain r s3 s4 where r: "cmp Copy Snapshot_Copy s2 = Some (r, s3)"
    "mc_destroy_all_alloc_memblk Copy s3 = Some s4" "mc_destroy_all_alloc_memblk Snapshot_Copy s4 = Some st'"
    by (auto simp: with_copies_def Option.bind_eq_Some_conv)
  have "compares ?N F C s2 s3"
    by (rule cmp [OF d2 u _ _ only_blocks_simps(21) [OF ob] r(1)]) (use cd in simp_all)
  then obtain U X where c: "mc_inv (?N(Copy := U, Snapshot_Copy := X)) F C s3" "ungrouped C s3" "same_record s2 s3"
    "table_view Snapshot s3 = table_view Snapshot s2" by (auto simp: compares_def)
  let ?M = "?N(Copy := U, Snapshot_Copy := X)"
  obtain t where t: "mc_destroy_all_alloc_memblk Copy s3 = Some t" "mc_inv (?M(Copy := {})) F C t" "only_blocks s3 t"
    "\<And>j. j \<noteq> Copy \<Longrightarrow> table_view j t = table_view j s3" by (rule mc_destroy_ok [OF c(1), of Copy]) auto
  obtain q where q: "mc_destroy_all_alloc_memblk Snapshot_Copy t = Some q" "mc_inv (?M(Copy := {}, Snapshot_Copy := {})) F C q"
    "only_blocks t q" "\<And>j. j \<noteq> Snapshot_Copy \<Longrightarrow> table_view j q = table_view j t"
    by (rule mc_destroy_ok [OF t(2), of Snapshot_Copy]) auto
  have st': "st' = q" using r(2,3) t(1) q(1) by simp
  have "?M(Copy := {}, Snapshot_Copy := {}) = N" using S(2,3) by (simp add: fun_eq_iff)
  then have "mc_inv N F C q" using q(2) by simp
  moreover have ob': "only_blocks s3 q" by (rule only_blocks_trans [OF t(3) q(3)])
  moreover have "ungrouped C q" using c(2) blocks_ungrouped [OF ob'] by simp
  moreover have "table_view Live q = table_view Live s3" using q(4) t(4) by simp
  with same_record_trans [OF blocks_record [OF ob tv(1)] same_record_trans [OF c(3) blocks_record [OF ob']]] have "same_record st q" by blast
  moreover have "table_view Snapshot q = table_view Snapshot st" using q(4) t(4) c(4) tv(2) by simp
  ultimately show ?thesis using settled_traced [OF st] st' by simp
qed

section \<open>Every command\<close>

lemma create_snapshot_settled:
  assumes st: "settled_at N F C st" and sup: "supplied (card (N Live)) st" and run: "mc_create_snapshot st = Some (rc, st')"
  shows "\<exists>N. settled_at N F C st' \<and> same_record st st' \<and> rc = 0 \<and> table_view Snapshot st' = table_view Live st"
proof -
  note S = settled_atD [OF st]
  obtain s where s: "mc_destroy_all_alloc_memblk Snapshot st = Some s" "mc_inv (N(Snapshot := {})) F C s" "only_blocks st s"
    "\<And>j. j \<noteq> Snapshot \<Longrightarrow> table_view j s = table_view j st" "\<And>k. supplied k s = supplied k st"
    by (rule mc_destroy_ok [OF S(1), of Snapshot]) simp_all
  have e: "(N(Snapshot := {})) Snapshot = {}" "Live \<noteq> Snapshot" "Snapshot \<noteq> Live" "(N(Snapshot := {})) Live = N Live" by simp_all
  obtain rc0 t D where d: "mc_duplicate_all_alloc_memblk Snapshot Live s = Some (rc0, t)" "rc0 = 0 \<or> rc0 = - 1"
    "mc_inv (N(Snapshot := {}, Snapshot := D)) F C t" "only_blocks s t"
    "\<And>j. j \<noteq> Snapshot \<Longrightarrow> table_view j t = table_view j s"
    "rc0 = 0 \<Longrightarrow> table_view Snapshot t = table_view Live s" "table_view Snapshot t \<subseteq>\<^sub>m table_view Live s"
    "rc0 = 0 \<Longrightarrow> card D = card (N Live)" "\<And>k. supplied (k + card (N Live)) s \<Longrightarrow> rc0 = 0 \<and> supplied k t"
    by (rule mc_duplicate_ok [OF s(2) e(1-3), unfolded e(4)]) (rule that)
  have rc0: "rc0 = 0" using d(9) [of 0] sup s(5) by simp
  have st': "st' = t" "rc = 0" using run s(1) d(1) rc0 by (simp_all add: mc_create_snapshot_def)
  have ob: "only_blocks st t" by (rule only_blocks_trans [OF s(3) d(4)])
  have tv: "table_view Live t = table_view Live st" "table_view Snapshot t = table_view Live st" using d(5,6) s(4) rc0 by simp_all
  have "settled_at (N(Snapshot := D)) F C t"
    using S d(3) traced_same [OF tv(1)] traced_same [OF tv(2)] blocks_ungrouped [OF ob] by (simp add: settled_at_def)
  then show ?thesis using st' blocks_record [OF ob tv(1)] tv(2) by blast
qed

lemma destroy_snapshot_settled:
  assumes st: "settled_at N F C st" and run: "mc_destroy_snapshot st = Some st'"
  shows "\<exists>N. settled_at N F C st' \<and> same_record st st' \<and> table_view Snapshot st' = Map.empty"
proof -
  note S = settled_atD [OF st]
  obtain s where s: "mc_destroy_all_alloc_memblk Snapshot st = Some s" "mc_inv (N(Snapshot := {})) F C s" "only_blocks st s"
    "\<And>j. j \<noteq> Snapshot \<Longrightarrow> table_view j s = table_view j st" "table_view Snapshot s = Map.empty"
    by (rule mc_destroy_ok [OF S(1), of Snapshot]) simp_all
  have st': "st' = s" using run s(1) by (simp add: mc_destroy_snapshot_def)
  have tv: "table_view Live s = table_view Live st" using s(4) by simp
  have "settled_at (N(Snapshot := {})) F C s"
    using S s(2,5) traced_same [OF tv] blocks_ungrouped [OF s(3)] by (simp add: settled_at_def all_traced_def)
  then show ?thesis using st' blocks_record [OF s(3) tv] s(5) by blast
qed

lemma report_settled:
  assumes "settled_at N F C st" "report_only st st'"
  shows "settled_at N F C st' \<and> same_record st st' \<and> table_view Snapshot st' = table_view Snapshot st"
proof -
  note r = report_record [OF assms(2)]
  have "settled_at N F C st'"
    by (rule settled_traced [OF assms(1) r(1) r(2) report_only_inv [OF assms(2) settled_atD(1) [OF assms(1)]]])
      (use settled_atD(4) [OF assms(1)] report_only_ungrouped [OF assms(2)] in simp)
  then show ?thesis using r by simp
qed

lemma print_histogram_report: "report_only st (print_histogram is sz st)"
proof (induction "is" arbitrary: sz st)
  case (Cons i ns)
  show ?case
    unfolding print_histogram.simps Let_def
    by (cases "i < HISTO_BINS - 1"; simp only: if_True if_False; rule report_only_trans [OF log_report_only Cons.IH])
qed simp

lemma card_table_view:
  assumes "settled_at N F C st"
  shows "card (dom (table_view i st)) = card (N i)"
proof -
  note I = mc_invD [OF settled_atD(1) [OF assms]]
  have "inj_on (usr_of st) (N i)" using I(2) by (simp add: keys_ok_def)
  then show ?thesis using dom_table_view [OF I(1), of i] by (simp add: card_image)
qed

text \<open>What a command does to the snapshot.\<close>

definition snapshot_after :: "command \<Rightarrow> mc \<Rightarrow> addr \<Rightarrow> (memblk \<times> addr) option" where
  "snapshot_after cmd st =
     (if cmd = CREATE_SNAPSHOT then table_view Live st
      else if cmd = DESTROY_SNAPSHOT then Map.empty
      else table_view Snapshot st)"

definition settles :: "command \<Rightarrow> mc \<Rightarrow> mc \<Rightarrow> bool" where
  "settles cmd st st' \<longleftrightarrow> settled st' \<and> same_record st st' \<and> table_view Snapshot st' = snapshot_after cmd st"

lemma settlesI:
  "cmd \<noteq> CREATE_SNAPSHOT \<Longrightarrow> cmd \<noteq> DESTROY_SNAPSHOT \<Longrightarrow>
   settled_at N F C st' \<and> same_record st st' \<and> table_view Snapshot st' = table_view Snapshot st \<Longrightarrow> settles cmd st st'"
  by (auto simp: settles_def settled_def snapshot_after_def)

lemma settles_report: "settles cmd st s \<Longrightarrow> report_only s st' \<Longrightarrow> settles cmd st st'"
proof -
  assume s: "settles cmd st s" and r: "report_only s st'"
  from s obtain N F C where "settled_at N F C s" by (auto simp: settles_def settled_def)
  from report_settled [OF this r] s same_record_trans [of st s st'] show "settles cmd st st'"
    unfolding settles_def settled_def by auto
qed

lemma run_command_settles:
  assumes st: "settled st" and sup: "supplied (card (dom (table_view Live st)) + card (dom (table_view Snapshot st))) st"
    and n: "card (dom (table_view Live st)) + card (dom (table_view Snapshot st)) < 2 ^ 32" and b: "sort_mmaps st = True # oks"
    and cmd: "cmd \<noteq> GET_VIRTUAL_MEMORY_STATUS" and vm: "base vm = st" and run: "run_command cmd vm = Some vm'"
  shows "settles cmd st (base vm')"
proof -
  from st obtain N F C where S: "settled_at N F C st" by (auto simp: settled_def)
  have sup: "supplied (card (N Live) + card (N Snapshot)) st" and n: "card (N Live) + card (N Snapshot) < 2 ^ 32"
    using sup n by (simp_all add: card_table_view [OF S])
  have sup1: "supplied (card (N Live)) st" using sup granted_mono [of _ _ "card (N Live)"] by (simp add: supplied_def)
  show ?thesis
  proof (cases cmd)
    case GET_ALL_MEMBLK
    then obtain rc where "mc_print_all_memblk st = Some (rc, base vm')"
      using run vm by (auto simp: run_command_def on_base_def Option.bind_eq_Some_conv)
    then show ?thesis using print_all_settled [OF S sup1] GET_ALL_MEMBLK by (intro settlesI) auto
  next
    case GET_ALL_MEMBLK_PER_CALLSTACK
    then obtain rc where "mc_print_all_memblk_per_callstack st = Some (rc, base vm')"
      using run vm by (auto simp: run_command_def on_base_def Option.bind_eq_Some_conv)
    then show ?thesis using print_per_callstack_settled [OF S sup1] GET_ALL_MEMBLK_PER_CALLSTACK by (intro settlesI) auto
  next
    case CHECK_ALL_MEMBLK
    then obtain rc s where c: "mc_check_all_memblk st = Some (rc, s)" "base vm' = (if rc = 0 then mc_log_print All_blocks_ok s else s)"
      using run vm by (auto simp: run_command_def on_base_def upd_base_def Option.bind_eq_Some_conv)
    note r = check_all_report [OF c(1)]
    have "report_only st (base vm')"
      using r report_only_trans [OF r log_report_only] unfolding c(2) by (cases "rc = 0") simp_all
    from settlesI [OF _ _ report_settled [OF S this]] show ?thesis using CHECK_ALL_MEMBLK by simp
  next
    case CREATE_SNAPSHOT
    let ?s = "mc_log_print Creating_snapshot st"
    from CREATE_SNAPSHOT obtain rc s where c: "mc_create_snapshot ?s = Some (rc, s)"
      "base vm' = mc_log_print (if rc = 0 then Snapshot_created else Snapshot_error) s"
      using run vm by (auto simp: run_command_def on_base_def upd_base_def Option.bind_eq_Some_conv)
    note R = report_settled [OF S log_report_only, of Creating_snapshot]
    have "supplied (card (N Live)) ?s" using sup1 report_only_simps(16) [OF log_report_only] by simp
    with R obtain N' where "settled_at N' F C s" "same_record ?s s" "table_view Snapshot s = table_view Live ?s"
      using create_snapshot_settled [of N F C ?s rc s] c(1) by blast
    moreover have "same_record st ?s" "table_view Live ?s = table_view Live st" using R by (simp_all add: same_record_def)
    moreover have "same_record st s" by (rule same_record_trans [OF calculation(4,2)])
    ultimately have "settles cmd st s" unfolding settles_def settled_def using CREATE_SNAPSHOT
      by (intro conjI exI [of _ N'] exI [of _ F] exI [of _ C]) (simp_all add: snapshot_after_def)
    then show ?thesis unfolding c(2) by (rule settles_report [OF _ log_report_only])
  next
    case COMPARE_WITH_SNAPSHOT
    then obtain rc where "with_copies mc_compare_snapshot_and_current_alloc_memblk st = Some (rc, base vm')"
      using run vm by (auto simp: run_command_def on_base_def mc_compare_with_snapshot_def Option.bind_eq_Some_conv)
    from with_copies_settled [OF S sup this] compare_copies_ok COMPARE_WITH_SNAPSHOT show ?thesis by (intro settlesI) auto
  next
    case COMPARE_WITH_SNAPSHOT_PER_CALLSTACK
    then obtain rc where "with_copies mc_compare_snapshot_and_current_alloc_memblk_per_callstack st = Some (rc, base vm')"
      using run vm by (auto simp: run_command_def on_base_def mc_compare_with_snapshot_per_callstack_def Option.bind_eq_Some_conv)
    from with_copies_settled [OF S sup this] compare_copies_per_callstack_ok n b COMPARE_WITH_SNAPSHOT_PER_CALLSTACK
    show ?thesis by (intro settlesI) auto
  next
    case DESTROY_SNAPSHOT
    let ?s = "mc_log_print Destroying_snapshot st"
    from DESTROY_SNAPSHOT obtain s where c: "mc_destroy_snapshot ?s = Some s" "base vm' = mc_log_print Snapshot_destroyed s"
      using run vm by (auto simp: run_command_def Option.bind_eq_Some_conv)
    note R = report_settled [OF S log_report_only, of Destroying_snapshot]
    with destroy_snapshot_settled [OF _ c(1), of N F C] obtain N' where
      "settled_at N' F C s" "same_record ?s s" "table_view Snapshot s = Map.empty" by blast
    moreover have "same_record st ?s" using R by simp
    moreover have "same_record st s" by (rule same_record_trans [OF calculation(4,2)])
    ultimately have "settles cmd st s" unfolding settles_def settled_def using DESTROY_SNAPSHOT
      by (intro conjI exI [of _ N'] exI [of _ F] exI [of _ C]) (simp_all add: snapshot_after_def)
    then show ?thesis unfolding c(2) by (rule settles_report [OF _ log_report_only])
  next
    case GET_HISTOGRAM_MEMBLK
    then have "base vm' = mc_print_histogram_alloc_memblk st" using run vm by (auto simp: run_command_def upd_base_def)
    then have "report_only st (base vm')" using print_histogram_report by (simp add: mc_print_histogram_alloc_memblk_def)
    from settlesI [OF _ _ report_settled [OF S this]] show ?thesis using GET_HISTOGRAM_MEMBLK by simp
  qed (use cmd in simp)
qed

text \<open>The snapshot commands and the histogram return from every such state.\<close>

lemma run_command_returns:
  assumes "settled (base vm)" "cmd \<in> {CREATE_SNAPSHOT, DESTROY_SNAPSHOT, GET_HISTOGRAM_MEMBLK}"
  shows "\<exists>vm'. run_command cmd vm = Some vm'"
proof -
  from assms(1) obtain N F C where S: "settled_at N F C (base vm)" by (auto simp: settled_def)
  have inv: "mc_inv N F C (mc_log_print l (base vm))" for l by (rule report_only_inv [OF log_report_only settled_atD(1) [OF S]])
  then have "mc_ok (mc_log_print l (base vm))" for l by (auto simp: mc_ok_def)
  from create_snapshot_ok [OF this, of Creating_snapshot] obtain rc st where
    c: "mc_create_snapshot (mc_log_print Creating_snapshot (base vm)) = Some (rc, st)" by blast
  obtain t where d: "mc_destroy_all_alloc_memblk Snapshot (mc_log_print Destroying_snapshot (base vm)) = Some t"
    by (rule mc_destroy_ok [OF inv [of Destroying_snapshot], of Snapshot]) auto
  show ?thesis using assms(2) c d by (auto simp: run_command_def on_base_def upd_base_def mc_destroy_snapshot_def)
qed

section \<open>A settled state\<close>

text \<open>The run of \<open>MC_Copies\<close>, with every copy destroyed and a sort buffer to spare.\<close>

definition mc_settled :: mc where
  "mc_settled = (the (do {
     st \<leftarrow> mc_destroy_all_alloc_memblk Copy mc_one;
     st \<leftarrow> mc_destroy_all_alloc_memblk Snapshot_Copy st;
     mc_destroy_snapshot st }))\<lparr>sort_mmaps := [True]\<rparr>"

lemma mc_settled:
  "settled mc_settled" "supplied 4 mc_settled" "table_view Live mc_settled = table_view Live mc_one"
  "table_view Snapshot mc_settled = Map.empty" "sort_mmaps mc_settled = [True]" "quarantine_view mc_settled = []"
proof -
  from mc_one(1) obtain N F C where inv: "mc_inv N F C mc_one" by (auto simp: mc_ok_def)
  obtain s where s: "mc_destroy_all_alloc_memblk Copy mc_one = Some s" "mc_inv (N(Copy := {})) F C s" "only_blocks mc_one s"
    "\<And>j. j \<noteq> Copy \<Longrightarrow> table_view j s = table_view j mc_one" "\<And>k. supplied k s = supplied k mc_one"
    by (rule mc_destroy_ok [OF inv, of Copy]) simp_all
  obtain t where t: "mc_destroy_all_alloc_memblk Snapshot_Copy s = Some t" "mc_inv (N(Copy := {}, Snapshot_Copy := {})) F C t"
    "only_blocks s t" "\<And>j. j \<noteq> Snapshot_Copy \<Longrightarrow> table_view j t = table_view j s" "\<And>k. supplied k t = supplied k s"
    by (rule mc_destroy_ok [OF s(2), of Snapshot_Copy]) simp_all
  let ?N = "N(Copy := {}, Snapshot_Copy := {}, Snapshot := {})"
  obtain u where u: "mc_destroy_all_alloc_memblk Snapshot t = Some u" "mc_inv ?N F C u" "only_blocks t u"
    "\<And>j. j \<noteq> Snapshot \<Longrightarrow> table_view j u = table_view j t" "table_view Snapshot u = Map.empty" "\<And>k. supplied k u = supplied k t"
    by (rule mc_destroy_ok [OF t(2), of Snapshot]) simp_all
  have ob: "only_blocks mc_one u" by (rule only_blocks_trans [OF s(3) only_blocks_trans [OF t(3) u(3)]])
  have e: "mc_settled = u\<lparr>sort_mmaps := [True]\<rparr>" using s(1) t(1) u(1) by (simp add: mc_settled_def mc_destroy_snapshot_def)
  have r: "report_only u mc_settled" unfolding e by (rule sort_report_only)
  have live: "table_view Live u = table_view Live mc_one" using s(4) t(4) u(4) by simp
  have "all_traced Live u" using mc_one_traced(2) traced_same [OF live] by simp
  moreover have "ungrouped C u" using ungrouped_all [OF mc_one_traced(1)] blocks_ungrouped [OF ob] by simp
  ultimately have "settled_at ?N F C u" using u(2,5) by (simp add: settled_at_def all_traced_def)
  from report_settled [OF this r] show "settled mc_settled" by (auto simp: settled_def)
  show "table_view Live mc_settled = table_view Live mc_one" "table_view Snapshot mc_settled = Map.empty"
    using report_record(2) [OF r] live u(5) by simp_all
  show "supplied 4 mc_settled" using mc_one_run(2) s(5) t(5) u(6) report_only_simps(16) [OF r] by simp
  show "sort_mmaps mc_settled = [True]" by (simp add: e)
  show "quarantine_view mc_settled = []" using report_record(1) [OF r] only_blocks_simps(17) [OF ob] mc_one(4) by (simp add: same_record_def)
qed

end
