(* ===== verification/MC_Mappings.thy ===== *)
theory MC_Mappings
  imports MC_Symbol
begin

text \<open>
  What reading \<open>/proc/self/maps\<close> gives: the lines are printed from mappings as the kernel does, the table
  holds the executable ones in their order, and an address is resolved to the file and the offset of
  the first of them that contains it. A mapping without a file takes the name of an earlier line.
\<close>

section \<open>The lines of the kernel\<close>

record mapping =
  mg_start :: u64
  mg_end :: u64
  mg_perm :: string
  mg_offset :: u64
  mg_device :: string
  mg_inode :: string
  mg_path :: string                    \<comment> \<open>empty for an anonymous mapping\<close>

definition hex_char :: "nat \<Rightarrow> char" where
  "hex_char n = char_of (if n < 10 then 48 + n else 87 + n)"

fun print_hex :: "nat \<Rightarrow> string" where
  "print_hex n = (if n < 16 then [] else print_hex (n div 16)) @ [hex_char (n mod 16)]"

declare print_hex.simps [simp del]

text \<open>\<open>%08lx\<close>\<close>

definition print_hex8 :: "u64 \<Rightarrow> string" where
  "print_hex8 w = (let s = print_hex (unat w) in replicate (8 - length s) (CHR ''0'') @ s)"

definition blank :: char where "blank = CHR '' ''"

definition mapping_range :: "mapping \<Rightarrow> string" where
  "mapping_range m = print_hex8 (mg_start m) @ CHR ''-'' # print_hex8 (mg_end m)"

definition maps_header :: "mapping \<Rightarrow> string" where
  "maps_header m =
     mapping_range m @ blank # mg_perm m @ blank # print_hex8 (mg_offset m) @ blank # mg_device m @ blank # mg_inode m @ [blank]"

text \<open>A path begins in column 73.\<close>

definition maps_line :: "mapping \<Rightarrow> string" where
  "maps_line m =
     maps_header m @
     (if mg_path m = [] then [] else replicate (73 - length (maps_header m)) blank @ mg_path m) @ [CHR 0x0A]"

definition executable :: "mapping \<Rightarrow> bool" where
  "executable m \<longleftrightarrow> mg_perm m ! 2 = CHR ''x''"

text \<open>Words fit the buffers of the code; an offset of more than 9 digits would not.\<close>

definition word_ok :: "nat \<Rightarrow> string \<Rightarrow> bool" where
  "word_ok n w \<longleftrightarrow> w \<noteq> [] \<and> length w < n \<and> list_all (\<lambda>c. \<not> isspace c) w"

definition mapping_ok :: "mapping \<Rightarrow> bool" where
  "mapping_ok m \<longleftrightarrow> length (mg_perm m) = 4 \<and> word_ok 8 (mg_perm m) \<and> unat (mg_offset m) < 16 ^ 9 \<and>
     word_ok 16 (mg_device m) \<and> word_ok 24 (mg_inode m) \<and> (mg_path m = [] \<or> word_ok 255 (mg_path m))"

section \<open>Hexadecimal numbers\<close>

lemma hex_digit_char: "n < 16 \<Longrightarrow> hex_digit (hex_char n) = Some n"
  by (auto simp: hex_digit_def hex_char_def Let_def)

lemma print_hex_digits: "list_all (\<lambda>c. hex_digit c \<noteq> None) (print_hex n)" "print_hex n \<noteq> []"
proof -
  show "list_all (\<lambda>c. hex_digit c \<noteq> None) (print_hex n)"
  proof (induction n rule: print_hex.induct)
    case (1 n)
    then show ?case using hex_digit_char [of "n mod 16"] by (subst print_hex.simps) simp
  qed
  show "print_hex n \<noteq> []" by (subst print_hex.simps) simp
qed

lemma length_print_hex: "n < 16 ^ k \<Longrightarrow> 0 < k \<Longrightarrow> length (print_hex n) \<le> k"
proof (induction k arbitrary: n)
  case (Suc k)
  show ?case
  proof (cases "n < 16")
    case True
    then show ?thesis by (simp add: print_hex.simps [of n])
  next
    case False
    then have "n div 16 < 16 ^ k" "0 < k" using Suc.prems by (cases k; simp add: less_mult_imp_div_less)+
    from Suc.IH [OF this] show ?thesis using False by (simp add: print_hex.simps [of n])
  qed
qed simp

lemma print_hex8_digits: "list_all (\<lambda>c. hex_digit c \<noteq> None) (print_hex8 w)" "print_hex8 w \<noteq> []"
proof -
  have "hex_digit (CHR ''0'') = Some 0" by (simp add: hex_digit_def)
  then show "list_all (\<lambda>c. hex_digit c \<noteq> None) (print_hex8 w)"
    using print_hex_digits(1) [of "unat w"] by (auto simp: print_hex8_def Let_def list_all_iff)
  show "print_hex8 w \<noteq> []" using print_hex_digits(2) [of "unat w"] by (simp add: print_hex8_def Let_def)
qed

lemma length_print_hex8: "unat w < 16 ^ k \<Longrightarrow> 8 \<le> k \<Longrightarrow> length (print_hex8 w) \<le> k"
  using length_print_hex [of "unat w" k] by (simp add: print_hex8_def Let_def)

lemma hex_value_print:
  assumes "rest = [] \<or> hex_digit (hd rest) = None"
  shows "hex_value v (print_hex n @ rest) = (v * 16 ^ length (print_hex n) + n, rest)"
  using assms
proof (induction n arbitrary: rest v rule: less_induct)
  case (less n)
  have stop: "hex_value x rest = (x, rest)" for x using less.prems by (cases rest) auto
  show ?case
  proof (cases "n < 16")
    case True
    then show ?thesis using stop hex_digit_char [of n] by (simp add: print_hex.simps [of n])
  next
    case False
    have e: "print_hex n = print_hex (n div 16) @ [hex_char (n mod 16)]" using False by (simp add: print_hex.simps [of n])
    have gen: "hex_value v (print_hex k @ xs) = hex_value (v * 16 ^ length (print_hex k) + k) xs" if "k < n" for k xs
    proof -
      have split: "list_all (\<lambda>c. hex_digit c \<noteq> None) ds \<Longrightarrow> hex_value w (ds @ xs) = hex_value (fst (hex_value w ds)) xs" for ds w
        by (induction ds arbitrary: w) auto
      show ?thesis using print_hex_digits(1) split [of "print_hex k" v] less.IH [OF that, of "[]" v] by simp
    qed
    have "hex_value v (print_hex n @ rest) = hex_value (v * 16 ^ length (print_hex (n div 16)) + n div 16) (hex_char (n mod 16) # rest)"
      unfolding e using gen [of "n div 16"] False by simp
    also have "\<dots> = (v * 16 ^ length (print_hex n) + n, rest)"
      using hex_digit_char [of "n mod 16"] stop by (simp add: e algebra_simps)
    finally show ?thesis .
  qed
qed

lemma hex_value_zeros: "hex_value 0 (replicate k (CHR ''0'') @ s) = hex_value 0 s"
proof (induction k)
  case (Suc k)
  have "hex_digit (CHR ''0'') = Some 0" by (simp add: hex_digit_def)
  then show ?case using Suc by simp
qed simp

lemma scan_hex_print:
  assumes "rest = [] \<or> hex_digit (hd rest) = None"
  shows "scan_hex (print_hex8 w @ rest) = Some (w, rest)"
proof -
  obtain c cs where c: "print_hex8 w = c # cs" "hex_digit c \<noteq> None" using print_hex8_digits [of w] by (cases "print_hex8 w") auto
  have "hex_value 0 (print_hex8 w @ rest) = (unat w, rest)"
    using hex_value_zeros hex_value_print [OF assms, of 0 "unat w"] by (simp add: print_hex8_def Let_def)
  moreover have "min (unat w) (2 ^ 64 - 1) = unat w"
  proof (rule min_absorb1)
    show "unat w \<le> 2 ^ 64 - 1" using unat_lt_u64 [of w] by (simp del: unat_lt_u64)
  qed
  ultimately show ?thesis using c by (simp add: scan_hex_def del: hex_value.simps)
qed

section \<open>The words of a line\<close>

abbreviation solid :: "string \<Rightarrow> bool" where
  "solid w \<equiv> w \<noteq> [] \<and> list_all (\<lambda>c. \<not> isspace c) w"

lemma scan_words_word:
  assumes "list_all (\<lambda>c. \<not> isspace c) w" "isspace c" "acc \<noteq> [] \<or> w \<noteq> []"
  shows "scan_words acc (w @ c # rest) = (rev acc @ w) # scan_words [] rest"
  using assms
proof (induction w arbitrary: acc)
  case (Cons x w)
  show ?case using Cons.IH [of "x # acc"] Cons.prems by simp
qed simp

lemma scan_words_blanks: "scan_words [] (replicate k blank @ rest) = scan_words [] rest"
  by (induction k) (simp_all add: blank_def isspace_def)

lemma hex_solid: "hex_digit c \<noteq> None \<Longrightarrow> \<not> isspace c"
  by (auto simp: hex_digit_def isspace_def Let_def)

lemma print_hex8_solid: "list_all (\<lambda>c. \<not> isspace c) (print_hex8 w)"
  using print_hex8_digits(1) hex_solid by (auto simp: list_all_iff)

lemma mapping_range_solid: "solid (mapping_range m)"
  using print_hex8_solid by (simp add: mapping_range_def isspace_def)

lemma length_range: "length (mapping_range m) < 40"
proof -
  have "length (print_hex8 w) \<le> 16" for w :: u64 using length_print_hex8 [of w 16] unat_lt_u64 [of w] by simp
  from this [of "mg_start m"] this [of "mg_end m"] show ?thesis by (simp add: mapping_range_def)
qed

definition line_words :: "mapping \<Rightarrow> string list" where
  "line_words m =
     [mapping_range m, mg_perm m, print_hex8 (mg_offset m), mg_device m, mg_inode m] @ (if mg_path m = [] then [] else [mg_path m])"

lemma scan_line_words:
  assumes "mapping_ok m"
  shows "scan_words [] (maps_line m) = line_words m"
proof -
  have sp: "isspace blank" "isspace (CHR 0x0A)" by (simp_all add: blank_def isspace_def)
  have W: "scan_words [] (w @ blank # rest) = w # scan_words [] rest" if "solid w" for w rest
    using scan_words_word [of w blank "[]" rest] that sp(1) by simp
  have s: "solid (mapping_range m)" "solid (mg_perm m)" "solid (print_hex8 (mg_offset m))" "solid (mg_device m)" "solid (mg_inode m)"
    using assms mapping_range_solid print_hex8_solid print_hex8_digits(2) by (auto simp: mapping_ok_def word_ok_def)
  have h: "scan_words [] (maps_header m @ rest) =
      [mapping_range m, mg_perm m, print_hex8 (mg_offset m), mg_device m, mg_inode m] @ scan_words [] rest" for rest
    using W [OF s(1)] W [OF s(2)] W [OF s(3)] W [OF s(4)] W [OF s(5)] by (simp add: maps_header_def)
  show ?thesis
  proof (cases "mg_path m = []")
    case True
    have "scan_words [] [CHR 0x0A] = []" using sp by simp
    then show ?thesis using True h by (simp add: maps_line_def line_words_def del: scan_words.simps)
  next
    case False
    then have "solid (mg_path m)" using assms by (auto simp: mapping_ok_def word_ok_def)
    then have "scan_words [] (mg_path m @ [CHR 0x0A]) = [mg_path m]"
      using scan_words_word [of "mg_path m" "CHR 0x0A" "[]" "[]"] sp(2) by simp
    then show ?thesis using False h scan_words_blanks by (simp add: maps_line_def line_words_def del: scan_words.simps)
  qed
qed

section \<open>Reading the lines\<close>

lemma count_filemaps_lines:
  assumes "\<forall>m\<in>set ms. mapping_ok m"
  shows "\<exists>v'. count_filemaps (map maps_line ms) v cnt = Some (cnt + int (length (filter executable ms)), v') \<and>
     mv_cfile v' = mv_cfile v"
  using assms
proof (induction ms arbitrary: v cnt)
  case (Cons m ms)
  have m: "mapping_ok m" using Cons.prems by simp
  have l: "length (mg_perm m) = 4" "length (print_hex8 (mg_offset m)) < 512"
    using m length_print_hex8 [of "mg_offset m" 9] by (simp_all add: mapping_ok_def)
  obtain v1 where v1: "scan_line3 (maps_line m) v = Some v1" "mv_cperm v1 = Some (mg_perm m)" "mv_cfile v1 = mv_cfile v"
    using scan_line_words [OF m] length_range [of m] l by (simp add: scan_line3_def scan_word_def line_words_def)
  have t: "third_char (Some (mg_perm m)) = Some (mg_perm m ! 2)" using l(1) by (simp add: third_char_def)
  have IH: "\<exists>v'. count_filemaps (map maps_line ms) v1 k = Some (k + int (length (filter executable ms)), v') \<and>
     mv_cfile v' = mv_cfile v1" for k
    using Cons.IH Cons.prems by simp
  show ?case
  proof (cases "executable m")
    case True
    then show ?thesis using IH [of "cnt + 1"] v1 t by (auto simp: executable_def [of m] algebra_simps)
  next
    case False
    then show ?thesis using IH [of cnt] v1 t by (auto simp: executable_def [of m])
  qed
qed simp

text \<open>The entry of a mapping that has the name \<open>name\<close>.\<close>

definition filemap_of :: "string \<Rightarrow> mapping \<Rightarrow> filemap" where
  "filemap_of name m = \<lparr>fl_start_addr = mg_start m, fl_end_addr = mg_end m, fl_file_offset = mg_offset m,
     fl_name = name, fl_abfd = 0, fl_symbols = NULL\<rparr>"

text \<open>
  The names as the code finds them: an anonymous mapping has that of the last line with a name, and
  without one the variable was never set.
\<close>

fun entries_of :: "string option \<Rightarrow> mapping list \<Rightarrow> filemap list option" where
  "entries_of c [] = Some []"
| "entries_of c (m # ms) =
     (let c = (if mg_path m = [] then c else Some (mg_path m)) in
      if executable m
      then do { name \<leftarrow> c; fs \<leftarrow> entries_of c ms; Some (filemap_of (take 255 name) m # fs) }
      else entries_of c ms)"

lemma scan_line6_words:
  assumes m: "mapping_ok m"
  shows "scan_line6 (maps_line m) v = Some (v\<lparr>mv_caddr := Some (mapping_range m), mv_cperm := Some (mg_perm m),
     mv_coffset := Some (print_hex8 (mg_offset m)), mv_cfile := if mg_path m = [] then mv_cfile v else Some (mg_path m)\<rparr>)"
proof -
  have "length (mg_perm m) = 4" "length (print_hex8 (mg_offset m)) < 10" "length (mg_device m) < 512" "length (mg_inode m) < 512"
    "length (mg_path m) < 512"
    using m length_print_hex8 [of "mg_offset m" 9] by (auto simp: mapping_ok_def word_ok_def)
  then show ?thesis
    using scan_line_words [OF m] length_range [of m]
    by (simp add: scan_line6_def scan_word_def line_words_def nth_append)
qed

lemma scan_range_line:
  "scan_range (mapping_range m) v = v\<lparr>mv_start := Some (mg_start m), mv_end := Some (mg_end m)\<rparr>"
proof -
  have "hex_digit (CHR ''-'') = None" by (simp add: hex_digit_def)
  then show ?thesis
    using scan_hex_print [of "CHR ''-'' # print_hex8 (mg_end m)" "mg_start m"] scan_hex_print [of "[]" "mg_end m"]
    by (simp add: scan_range_def mapping_range_def)
qed

lemma scan_offset_line: "scan_offset (print_hex8 w) v = v\<lparr>mv_offset := Some w\<rparr>"
  using scan_hex_print [of "[]" w] by (simp add: scan_offset_def)

lemma read_filemaps_lines:
  assumes "\<forall>m\<in>set ms. mapping_ok m" "entries_of (mv_cfile v) ms = Some es" "i + length es \<le> length (fs_array fs)"
  shows "read_filemaps (map maps_line ms) v i fs = Some (fs\<lparr>fs_array := take i (fs_array fs) @ es @ drop (i + length es) (fs_array fs)\<rparr>)"
  using assms
proof (induction ms arbitrary: v i fs es)
  case (Cons m ms)
  have m: "mapping_ok m" using Cons.prems(1) by simp
  have l: "length (mg_perm m) = 4" using m by (simp add: mapping_ok_def)
  let ?c = "if mg_path m = [] then mv_cfile v else Some (mg_path m)"
  let ?v = "v\<lparr>mv_caddr := Some (mapping_range m), mv_cperm := Some (mg_perm m),
     mv_coffset := Some (print_hex8 (mg_offset m)), mv_cfile := ?c\<rparr>"
  have t: "third_char (Some (mg_perm m)) = Some (mg_perm m ! 2)" using l by (simp add: third_char_def)
  show ?case
  proof (cases "executable m")
    case False
    then have "entries_of (mv_cfile ?v) ms = Some es" using Cons.prems(2) by (simp add: Let_def)
    from Cons.IH [OF _ this Cons.prems(3)] show ?thesis
      using Cons.prems(1) False scan_line6_words [OF m] t by (simp add: executable_def)
  next
    case True
    from Cons.prems(2) True obtain name es' where n: "?c = Some name" "entries_of ?c ms = Some es'"
      "es = filemap_of (take 255 name) m # es'"
      by (auto simp: Let_def Option.bind_eq_Some_conv split: if_splits)
    let ?v' = "?v\<lparr>mv_start := Some (mg_start m), mv_end := Some (mg_end m), mv_offset := Some (mg_offset m)\<rparr>"
    let ?fs = "fs\<lparr>fs_array := (fs_array fs)[i := filemap_of (take 255 name) m]\<rparr>"
    have i: "i < length (fs_array fs)" using Cons.prems(3) n(3) by simp
    have "add_filemap i (mg_start m) (mg_end m) (mg_offset m) name fs = Some ?fs"
      using i by (simp add: add_filemap_def filemap_of_def MAX_FILEMAPNAME_LEN_def)
    then have "read_filemaps (map maps_line (m # ms)) v i fs = read_filemaps (map maps_line ms) ?v' (i + 1) ?fs"
      using scan_line6_words [OF m] t True n(1) by (simp add: executable_def scan_range_line scan_offset_line)
    also have "\<dots> = Some (?fs\<lparr>fs_array := take (i + 1) (fs_array ?fs) @ es' @ drop (i + 1 + length es') (fs_array ?fs)\<rparr>)"
      by (rule Cons.IH) (use Cons.prems n in simp_all)
    also have "\<dots> = Some (fs\<lparr>fs_array := take i (fs_array fs) @ es @ drop (i + length es) (fs_array fs)\<rparr>)"
      using i n(3) by (simp add: take_Suc_conv_app_nth)
    finally show ?thesis .
  qed
qed simp

section \<open>The table\<close>

lemma alloc_filemaps_ok:
  assumes "fs_cnt fs = int k" "k < 2 ^ 40" "fs_mmaps fs = True # mm"
  shows "\<exists>sz n. k \<le> n \<and> alloc_filemaps fs = Some (0, fs\<lparr>fs_size := sz, fs_mmaps := mm, fs_mapped := True,
     fs_array := replicate n zero_filemap\<rparr>)"
proof -
  let ?sz = "SIZEOF_FILEMAP * size_of_int (fs_cnt fs)"
  have e: "?sz = of_nat (296 * k)" by (simp add: assms(1) SIZEOF_FILEMAP_def size_of_int_def)
  have "296 * k < 2 ^ 64" using assms(2) by simp
  then have sz: "unat ?sz = 296 * k" unfolding e by (rule unat_of_nat_u64)
  have p: "unat (of_nat PAGE_SIZE :: size_t) = 4096" by (simp add: PAGE_SIZE_def)
  let ?n = "aligned_up (unat ?sz) 4096"
  have "?n < 2 ^ 64"
  proof -
    have "?n \<le> 4096 * (k + 1)" unfolding sz by (rule aligned_up_least) simp_all
    then show ?thesis using assms(2) by simp
  qed
  then have "get_aligned_size ?sz (of_nat PAGE_SIZE) = Some (of_nat ?n)" "unat (of_nat ?n :: size_t) = ?n"
    using get_aligned_size_exact [of "of_nat PAGE_SIZE" ?sz] p by (simp_all add: unat_of_nat_u64)
  moreover have "k \<le> ?n div 296" using aligned_up_ge [of 4096 "unat ?sz"] sz by (simp add: less_eq_div_iff_mult_less_eq)
  ultimately show ?thesis using assms(3) by (auto simp: alloc_filemaps_def SIZEOF_FILEMAP_def)
qed

text \<open>An entry without what the lookup adds to it.\<close>

definition place :: "filemap \<Rightarrow> filemap" where
  "place f = f\<lparr>fl_abfd := 0, fl_symbols := NULL\<rparr>"

definition holds :: "filemap list \<Rightarrow> filemap_state \<Rightarrow> bool" where
  "holds es fs \<longleftrightarrow> fs_cnt fs = int (length es) \<and> length es \<le> length (fs_array fs) \<and>
     map place (take (length es) (fs_array fs)) = es"

lemma place_filemap_of [simp]: "place (filemap_of n m) = filemap_of n m"
  by (simp add: place_def filemap_of_def)

lemma place_simps [simp]:
  "fl_start_addr (place f) = fl_start_addr f" "fl_end_addr (place f) = fl_end_addr f"
  "fl_file_offset (place f) = fl_file_offset f" "fl_name (place f) = fl_name f" "place (f\<lparr>fl_abfd := b\<rparr>) = place f"
  "place (f\<lparr>fl_symbols := p\<rparr>) = place f" "covers (place f) a = covers f a" "file_offset_of (place f) a = file_offset_of f a"
  by (simp_all add: place_def covers_def file_offset_of_def)

lemma entries_of_places: "entries_of c ms = Some es \<Longrightarrow> map place es = es \<and> length es = length (filter executable ms)"
proof (induction ms arbitrary: c es)
  case (Cons m ms)
  then show ?case
    by (cases "executable m"; cases "mg_path m = []") (auto simp: Let_def Option.bind_eq_Some_conv)
qed simp

text \<open>What the two passes over the file find is the same file, and there is memory.\<close>

definition maps_given :: "mapping list \<Rightarrow> filemap_state \<Rightarrow> bool" where
  "maps_given ms fs \<longleftrightarrow> fs_usage_cnt fs = 0 \<and> length ms < 2 ^ 40 \<and> (\<forall>m\<in>set ms. mapping_ok m) \<and>
     (\<exists>rest. fs_maps fs = map maps_line ms # map maps_line ms # rest) \<and> (\<exists>mm. fs_mmaps fs = True # mm)"

lemma init_filemaps_lines:
  assumes g: "maps_given ms fs" and e: "entries_of None ms = Some es"
  shows "\<exists>fs'. init_filemaps fs = Some (0, fs') \<and> holds es fs' \<and> fs_usage_cnt fs' = 1 \<and> fs_bfd fs' = fs_bfd fs \<and>
     fs_mapped fs' \<and> fs_maps fs' = tl (tl (fs_maps fs)) \<and> fs_mmaps fs' = tl (fs_mmaps fs) \<and>
     fs_libc fs' = fs_libc fs \<and> take (length es) (fs_array fs') = es"
proof -
  from g obtain rest mm where fs: "fs_usage_cnt fs = 0" "length ms < 2 ^ 40" "\<forall>m\<in>set ms. mapping_ok m"
    "fs_maps fs = map maps_line ms # map maps_line ms # rest" "fs_mmaps fs = True # mm"
    by (auto simp: maps_given_def)
  note pe = entries_of_places [OF e]
  obtain v where v: "count_filemaps (map maps_line ms) no_vars 0 = Some (int (length es), v)" "mv_cfile v = None"
    using count_filemaps_lines [OF fs(3), of no_vars 0] pe by (auto simp: no_vars_def)
  let ?l = "map maps_line ms"
  let ?f = "fs\<lparr>fs_maps := ?l # rest, fs_cnt := int (length es)\<rparr>"
  have "length es < 2 ^ 40" using pe fs(2) length_filter_le [of executable ms] by linarith
  from alloc_filemaps_ok [of ?f, OF _ this, of mm] fs(5) obtain sz n where n: "length es \<le> n"
    "alloc_filemaps ?f = Some (0, ?f\<lparr>fs_size := sz, fs_mmaps := mm, fs_mapped := True, fs_array := replicate n zero_filemap\<rparr>)"
    by auto
  let ?g = "?f\<lparr>fs_size := sz, fs_mmaps := mm, fs_mapped := True, fs_array := replicate n zero_filemap, fs_maps := rest\<rparr>"
  have r: "read_filemaps ?l v 0 ?g = Some (?g\<lparr>fs_array := es @ replicate (n - length es) zero_filemap\<rparr>)"
    using read_filemaps_lines [OF fs(3), of v es 0 ?g] e v(2) n(1) by simp
  have "init_filemaps fs = Some (0, ?g\<lparr>fs_array := es @ replicate (n - length es) zero_filemap, fs_usage_cnt := 1\<rparr>)"
    using fs(1,4) v(1) n(2) r by (simp add: init_filemaps_def next_maps_def)
  then show ?thesis using pe n(1) fs(4,5) by (simp add: holds_def)
qed

section \<open>Finding an address\<close>

lemma find_from_exact: "\<forall>i\<in>set is. i < length fms \<Longrightarrow> find_from a is fms = Some (find (\<lambda>i. covers (fms ! i) a) is)"
  by (induction "is") auto

lemma find_nth:
  assumes "n \<le> length xs"
  shows "map_option (nth xs) (find (\<lambda>i. P (xs ! i)) [0..<n]) = find P (take n xs)"
proof -
  have "map_option f (find (\<lambda>i. P (f i)) is) = find P (map f is)" for f :: "nat \<Rightarrow> 'a" and "is"
    by (induction "is") auto
  moreover have "map (nth xs) [0..<n] = take n xs" using assms by (intro nth_equalityI) simp_all
  ultimately show ?thesis by metis
qed

lemma holds_find:
  assumes "holds es fs"
  obtains r where "find_from a [0..<nat (fs_cnt fs)] (fs_array fs) = Some r"
    "map_option (\<lambda>i. place (fs_array fs ! i)) r = find (\<lambda>f. covers f a) es" "\<And>i. r = Some i \<Longrightarrow> i < length es"
proof -
  let ?n = "length es" let ?A = "fs_array fs"
  have h: "nat (fs_cnt fs) = ?n" "?n \<le> length ?A" "es = map place (take ?n ?A)" using assms by (simp_all add: holds_def)
  have f: "find (\<lambda>f. covers f a) (map place xs) = map_option place (find (\<lambda>f. covers f a) xs)" for xs
    by (induction xs) auto
  have r: "find_from a [0..<nat (fs_cnt fs)] ?A = Some (find (\<lambda>i. covers (?A ! i) a) [0..<?n])"
    unfolding h(1) by (rule find_from_exact) (use h(2) in auto)
  have n: "map_option (nth ?A) (find (\<lambda>i. covers (?A ! i) a) [0..<?n]) = find (\<lambda>f. covers f a) (take ?n ?A)"
    by (rule find_nth [OF h(2)])
  have "map_option (\<lambda>i. place (?A ! i)) (find (\<lambda>i. covers (?A ! i) a) [0..<?n]) = find (\<lambda>f. covers f a) es"
    by (subst (2) h(3)) (simp add: f n [symmetric] option.map_comp comp_def)
  moreover have "i < ?n" if "find (\<lambda>i. covers (?A ! i) a) [0..<?n] = Some i" for i
    using that by (auto simp: find_Some_iff)
  ultimately show ?thesis by (rule that [OF r])
qed

text \<open>What an address is: a file and an offset in it, those of the first executable mapping that contains it.\<close>

definition resolve :: "mapping list \<Rightarrow> addr \<Rightarrow> unit + string \<times> u64" where
  "resolve ms a =
     (case find (\<lambda>m. executable m \<and> mg_start m \<le> a \<and> a < mg_end m) ms of
        None \<Rightarrow> Inl ()
      | Some m \<Rightarrow> Inr (mg_path m, a - mg_start m + mg_offset m))"

text \<open>Every executable mapping has a file.\<close>

definition all_named :: "mapping list \<Rightarrow> bool" where
  "all_named ms \<longleftrightarrow> (\<forall>m\<in>set ms. executable m \<longrightarrow> mg_path m \<noteq> [])"

definition named_entries :: "mapping list \<Rightarrow> filemap list" where
  "named_entries ms = map (\<lambda>m. filemap_of (mg_path m) m) (filter executable ms)"

lemma entries_of_named:
  assumes "all_named ms" "\<forall>m\<in>set ms. mapping_ok m"
  shows "entries_of c ms = Some (named_entries ms)"
  using assms
proof (induction ms arbitrary: c)
  case (Cons m ms)
  then have "all_named ms" "executable m \<longrightarrow> mg_path m \<noteq> [] \<and> take 255 (mg_path m) = mg_path m"
    by (auto simp: all_named_def mapping_ok_def word_ok_def)
  then show ?case using Cons.IH Cons.prems(2) by (auto simp: Let_def named_entries_def)
qed (simp add: named_entries_def)

lemma find_named:
  "find (\<lambda>f. covers f a) (named_entries ms) =
   map_option (\<lambda>m. filemap_of (mg_path m) m) (find (\<lambda>m. executable m \<and> mg_start m \<le> a \<and> a < mg_end m) ms)"
  by (induction ms) (auto simp: named_entries_def covers_def filemap_of_def)

lemma copy_filemapname_short: "length name < 255 \<Longrightarrow> copy_filemapname MAX_FILEMAPNAME_LEN name = Some name"
  by (simp add: copy_filemapname_def strncpy_string_def MAX_FILEMAPNAME_LEN_def)

lemma find_mapping_ok:
  assumes "\<forall>m\<in>set ms. mapping_ok m" "find P ms = Some m"
  shows "length (mg_path m) < 255"
proof -
  have "m \<in> set ms" using assms(2) by (auto simp: find_Some_iff)
  then show ?thesis using assms(1) by (auto simp: mapping_ok_def word_ok_def)
qed

lemma symbol_offset_exact:
  assumes h: "holds (named_entries ms) fs" and ok: "\<forall>m\<in>set ms. mapping_ok m"
  shows "mc_get_symbol_offset a MAX_FILEMAPNAME_LEN fs = Some (resolve ms a)"
proof -
  obtain r where r: "find_from a [0..<nat (fs_cnt fs)] (fs_array fs) = Some r"
    "map_option (\<lambda>i. place (fs_array fs ! i)) r = find (\<lambda>f. covers f a) (named_entries ms)" by (rule holds_find [OF h])
  show ?thesis
  proof (cases "find (\<lambda>m. executable m \<and> mg_start m \<le> a \<and> a < mg_end m) ms")
    case None
    then show ?thesis using r by (simp add: mc_get_symbol_offset_def mc_find_filemap_def resolve_def find_named)
  next
    case (Some m)
    then obtain i where i: "r = Some i" "place (fs_array fs ! i) = filemap_of (mg_path m) m"
      using r(2) by (auto simp: find_named)
    have "fl_name (fs_array fs ! i) = mg_path m" "file_offset_of (fs_array fs ! i) a = a - mg_start m + mg_offset m"
      using arg_cong [OF i(2), of fl_name] arg_cong [OF i(2), of "\<lambda>f. file_offset_of f a"]
      by (simp_all only: place_simps) (simp_all add: filemap_of_def file_offset_of_def)
    then show ?thesis using r(1) i(1) Some copy_filemapname_short find_mapping_ok [OF ok Some]
      by (simp add: mc_get_symbol_offset_def mc_find_filemap_def resolve_def)
  qed
qed

section \<open>Mappings without a file\<close>

text \<open>\<open>cfile\<close> keeps the name of an earlier line: addresses of anonymous code are given to that file.\<close>

lemma anonymous_takes_name:
  assumes g: "maps_given [m, x] fs" and p: "mg_path m \<noteq> []" and x: "executable x" "mg_path x = []"
    and a: "mg_start x \<le> a" "a < mg_end x" "\<not> (executable m \<and> mg_start m \<le> a \<and> a < mg_end m)"
  shows "\<exists>fs'. init_filemaps fs = Some (0, fs') \<and>
     mc_get_symbol_offset a MAX_FILEMAPNAME_LEN fs' = Some (Inr (mg_path m, a - mg_start x + mg_offset x))"
proof -
  have l: "length (mg_path m) < 255" using g p by (auto simp: maps_given_def mapping_ok_def word_ok_def)
  let ?m = "if executable m then [filemap_of (mg_path m) m] else []"
  let ?es = "?m @ [filemap_of (mg_path m) x]"
  have "entries_of None [m, x] = Some ?es" using p x l by (simp add: Let_def)
  from init_filemaps_lines [OF g this] obtain fs' where fs': "init_filemaps fs = Some (0, fs')" "holds ?es fs'" by blast
  obtain r where r: "find_from a [0..<nat (fs_cnt fs')] (fs_array fs') = Some r"
    "map_option (\<lambda>i. place (fs_array fs' ! i)) r = find (\<lambda>f. covers f a) ?es" by (rule holds_find [OF fs'(2)])
  have "find (\<lambda>f. covers f a) ?es = Some (filemap_of (mg_path m) x)" using a by (auto simp: covers_def filemap_of_def)
  then obtain i where i: "r = Some i" "place (fs_array fs' ! i) = filemap_of (mg_path m) x" using r(2) by auto
  have "fl_name (fs_array fs' ! i) = mg_path m" "file_offset_of (fs_array fs' ! i) a = a - mg_start x + mg_offset x"
    using arg_cong [OF i(2), of fl_name] arg_cong [OF i(2), of "\<lambda>f. file_offset_of f a"]
    by (simp_all only: place_simps) (simp_all add: filemap_of_def file_offset_of_def)
  then have "mc_get_symbol_offset a MAX_FILEMAPNAME_LEN fs' = Some (Inr (mg_path m, a - mg_start x + mg_offset x))"
    using r(1) i(1) copy_filemapname_short [OF l] by (simp add: mc_get_symbol_offset_def mc_find_filemap_def)
  then show ?thesis using fs'(1) by blast
qed

text \<open>And without an earlier name the buffer was never written.\<close>

lemma anonymous_first:
  assumes "mapping_ok x" "executable x" "mg_path x = []"
  shows "read_filemaps (map maps_line (x # ms)) no_vars i fs = None"
proof -
  have l: "length (mg_perm x) = 4" using assms(1) by (simp add: mapping_ok_def)
  have t: "third_char (Some (mg_perm x)) = Some (CHR ''x'')" using l assms(2) by (simp add: third_char_def executable_def)
  show ?thesis
    using scan_line6_words [OF assms(1), of no_vars] t assms(3) by (simp add: scan_range_line scan_offset_line no_vars_def)
qed

end
