(* ===== verification/MC_Lookup.thy ===== *)
theory MC_Lookup
  imports MC_Mappings
begin

text \<open>
  The lookup of symbols on a table that holds given entries: opening the BFD object of a mapping keeps
  the entries, the lookup returns when the objects that the addresses lie in can be opened and their
  names fit the buffers, its answer is the place of the address, and the last user closes the table.
\<close>

section \<open>What the lookup keeps\<close>

definition same_table :: "filemap list \<Rightarrow> filemap_state \<Rightarrow> filemap_state \<Rightarrow> bool" where
  "same_table es fs fs' \<longleftrightarrow> holds es fs' \<and> fs_bfd fs' = fs_bfd fs \<and> fs_usage_cnt fs' = fs_usage_cnt fs \<and>
     fs_maps fs' = fs_maps fs \<and> fs_mmaps fs' = fs_mmaps fs"

lemma same_table_refl: "holds es fs \<Longrightarrow> same_table es fs fs"
  by (simp add: same_table_def)

lemma same_table_trans: "same_table es fs s \<Longrightarrow> same_table es s fs' \<Longrightarrow> same_table es fs fs'"
  by (simp add: same_table_def)

lemma holds_upd:
  assumes "holds es fs" "\<And>x. place (f x) = place x"
  shows "holds es (upd_filemap i f fs)"
proof -
  let ?A = "fs_array fs" and ?n = "length es"
  have "map place (?A[i := f (?A ! i)]) = map place ?A"
    using assms(2) by (cases "i < length ?A") (simp_all add: map_update list_update_beyond list_update_same_conv)
  then have "map place (take ?n (?A[i := f (?A ! i)])) = map place (take ?n ?A)" by (metis take_map)
  then show ?thesis using assms(1) by (simp add: holds_def upd_filemap_def)
qed

lemma holds_libc:
  "holds es (fs_free p fs) = holds es fs" "fs_malloc n fs = (p, fs') \<Longrightarrow> holds es fs' = holds es fs"
  by (auto simp: holds_def fs_free_def fs_malloc_def split: prod.splits)

lemma same_table_steps:
  assumes "holds es fs"
  shows "same_table es fs (upd_filemap i (\<lambda>f. f\<lparr>fl_abfd := b\<rparr>) fs)" "same_table es fs (upd_filemap i (\<lambda>f. f\<lparr>fl_symbols := q\<rparr>) fs)"
    "same_table es fs (fs_free q fs)" "fs_malloc n fs = (p, fs') \<Longrightarrow> same_table es fs fs'"
proof -
  show "same_table es fs (upd_filemap i (\<lambda>f. f\<lparr>fl_abfd := b\<rparr>) fs)" "same_table es fs (upd_filemap i (\<lambda>f. f\<lparr>fl_symbols := q\<rparr>) fs)"
    using holds_upd [OF assms] by (simp_all add: same_table_def) (simp_all add: upd_filemap_def)
  show "same_table es fs (fs_free q fs)" using assms by (simp add: same_table_def holds_libc) (simp add: fs_free_def)
  show "fs_malloc n fs = (p, fs') \<Longrightarrow> same_table es fs fs'"
    using assms holds_libc(2) by (auto simp: same_table_def fs_malloc_def split: prod.splits)
qed

lemma init_bfd_table:
  assumes h: "holds es fs" and run: "init_bfd_filemap i fs = Some (rc, fs')"
  shows "same_table es fs fs'"
proof -
  let ?a = "bfd_openr (fs_bfd fs) (fl_name (fs_array fs ! i))"
  let ?f1 = "upd_filemap i (\<lambda>f. f\<lparr>fl_abfd := ?a\<rparr>) fs"
  have 1: "same_table es fs ?f1" by (rule same_table_steps(1) [OF h])
  have step: "same_table es fs t" if "same_table es fs s" "holds es s \<Longrightarrow> same_table es s t" for s t
    using same_table_trans [OF that(1) that(2)] that(1) by (simp add: same_table_def)
  obtain p2 f2 where 2: "fs_malloc (size_of_int (if bfd_symtab_bound (fs_bfd fs) ?a = 0 then bfd_dynamic_bound (fs_bfd fs) ?a
      else bfd_symtab_bound (fs_bfd fs) ?a)) ?f1 = (p2, f2)" by fastforce
  let ?f3 = "upd_filemap i (\<lambda>f. f\<lparr>fl_symbols := p2\<rparr>) f2"
  have 3: "same_table es fs ?f3" by (rule step [OF step [OF 1 same_table_steps(4) [OF _ 2]] same_table_steps(2)])
  have 4: "same_table es fs (fs_free p2 ?f3)" by (rule step [OF 3 same_table_steps(3)])
  obtain p5 f5 where 5: "fs_malloc (size_of_int (bfd_dynamic_bound (fs_bfd fs) ?a)) (fs_free p2 ?f3) = (p5, f5)" by fastforce
  have 6: "same_table es fs (upd_filemap i (\<lambda>f. f\<lparr>fl_symbols := p5\<rparr>) f5)"
    by (rule step [OF step [OF 4 same_table_steps(4) [OF _ 5]] same_table_steps(2)])
  show ?thesis
    using run 1 3 4 6 unfolding init_bfd_filemap_def Let_def 2 prod.case 5
    by (auto split: if_splits)
qed

lemma init_bfd_returns:
  "bfd_openr (fs_bfd fs) (fl_name (fs_array fs ! i)) \<noteq> 0 \<Longrightarrow> \<exists>rc fs'. init_bfd_filemap i fs = Some (rc, fs')"
  by (simp add: init_bfd_filemap_def Let_def split: prod.split)

section \<open>Names that fit\<close>

definition fits :: "bfd_api \<Rightarrow> nat \<Rightarrow> line_info \<Rightarrow> bool" where
  "fits api abfd l \<longleftrightarrow> (case l of (file, func, line) \<Rightarrow>
     (\<forall>f. file = Some f \<longrightarrow> length f < MAX_SYMFILENAME_LEN - 1) \<and>
     (\<forall>g. func = Some g \<longrightarrow> length g < MAX_SYMFUNCNAME_LEN - 1 \<and>
        (\<forall>d. bfd_demangle api abfd g = Some d \<longrightarrow> length d < MAX_SYMFUNCNAME_LEN - 1)))"

text \<open>Every answer of the BFD library fits, and an inlined caller has a name.\<close>

definition bfd_fits :: "bfd_api \<Rightarrow> bool" where
  "bfd_fits api \<longleftrightarrow>
     (\<forall>abfd symbols sec off l. bfd_nearest_line api abfd symbols sec off = Some l \<longrightarrow> fits api abfd l) \<and>
     (\<forall>abfd off n l. bfd_inliner api abfd off n = Some l \<longrightarrow> fits api abfd l \<and> fst (snd l) \<noteq> None)"

lemma funcsymbol_returns:
  "fits api abfd (sf, Some g, nr) \<Longrightarrow> \<exists>s. funcsymbol_of api abfd dem sf g nr = Some s"
  by (cases sf; cases "bfd_demangle api abfd g") (auto simp: fits_def funcsymbol_of_def strncpy_string_def)

lemma unwind_inline_returns:
  assumes "bfd_fits api" "fits api abfd (sf, Some g, nr)"
  shows "\<exists>ss. unwind_inline api abfd dem offset i left sf g nr = Some ss"
  using assms(2)
proof (induction left arbitrary: i sf g nr)
  case 0
  then show ?case using funcsymbol_returns [OF 0, of dem] by auto
next
  case (Suc left)
  obtain s where s: "funcsymbol_of api abfd dem sf g nr = Some s" using funcsymbol_returns [OF Suc.prems] by blast
  show ?case
  proof (cases "bfd_inliner api abfd offset i")
    case None
    then show ?thesis using s by simp
  next
    case (Some l)
    obtain sf' f nr' where l: "l = (sf', f, nr')" by (cases l)
    have a: "fits api abfd l \<and> fst (snd l) \<noteq> None" using assms(1) Some unfolding bfd_fits_def by blast
    from l obtain g' where f: "f = Some g'" "fits api abfd (sf', Some g', nr')"
      using a by auto
    then obtain ss where "unwind_inline api abfd dem offset (i + 1) left sf' g' nr' = Some ss" using Suc.IH by blast
    then show ?thesis using s Some l f(1)
      by (subst unwind_inline.simps) (simp del: unwind_inline.simps)
  qed
qed

lemma sections_fit:
  assumes "bfd_fits api" "fold (find_address_in_section api abfd symbols offset) ss found = Some l"
    and "\<And>x. found = Some x \<Longrightarrow> fits api abfd x"
  shows "fits api abfd l"
  using assms(2,3)
proof (induction ss arbitrary: found)
  case (Cons s ss)
  have "fits api abfd x" if "find_address_in_section api abfd symbols offset s found = Some x" for x
    using that Cons.prems(2) assms(1) unfolding find_address_in_section_def bfd_fits_def
    by (cases x) (auto split: if_splits)
  then show ?case using Cons.IH [of "find_address_in_section api abfd symbols offset s found"] Cons.prems(1) by simp
qed simp

lemma symbol_from_offset_returns:
  assumes "bfd_fits api"
  shows "\<exists>ss. mc_get_symbol_from_offset api abfd symbols offset dem k = Some ss"
proof (cases "fold (find_address_in_section api abfd symbols offset) (bfd_sections api abfd) None")
  case (Some l)
  have "fits api abfd l" by (rule sections_fit [OF assms Some]) simp
  then show ?thesis using unwind_inline_returns [OF assms] Some
    by (cases l; cases "fst (snd l)") (auto simp: mc_get_symbol_from_offset_def)
qed (simp add: mc_get_symbol_from_offset_def)

section \<open>The lookup\<close>

text \<open>The object of every entry that contains one of the addresses can be opened.\<close>

definition openable :: "addr set \<Rightarrow> bfd_api \<Rightarrow> filemap list \<Rightarrow> bool" where
  "openable A api es \<longleftrightarrow> (\<forall>f\<in>set es. (\<exists>a\<in>A. covers f a) \<longrightarrow> bfd_openr api (fl_name f) \<noteq> 0)"

definition short_names :: "filemap list \<Rightarrow> bool" where
  "short_names es \<longleftrightarrow> (\<forall>f\<in>set es. length (fl_name f) < 255)"

lemma holds_at:
  assumes "holds es s" "i < length es"
  shows "place (fs_array s ! i) = es ! i"
proof -
  have l: "length es \<le> length (fs_array s)" and m: "map place (take (length es) (fs_array s)) = es"
    using assms(1) by (simp_all add: holds_def)
  have "map place (take (length es) (fs_array s)) ! i = place (fs_array s ! i)" using assms(2) l by simp
  then show ?thesis by (simp only: m)
qed

lemma find_and_init_cases:
  assumes h: "holds es fs" and o: "openable A (fs_bfd fs) es" "a \<in> A"
  obtains (none) fs' where "mc_find_and_init_bfd_filemap a fs = Some (None, fs')" "same_table es fs fs'"
  | (found) i fs' f where "mc_find_and_init_bfd_filemap a fs = Some (Some i, fs')" "same_table es fs fs'"
    "find (\<lambda>f. covers f a) es = Some f" "place (fs_array fs' ! i) = f" "f \<in> set es"
proof -
  obtain r where r: "find_from a [0..<nat (fs_cnt fs)] (fs_array fs) = Some r"
    "map_option (\<lambda>i. place (fs_array fs ! i)) r = find (\<lambda>f. covers f a) es" "\<And>i. r = Some i \<Longrightarrow> i < length es"
    by (rule holds_find [OF h, of a]) (rule that)
  show ?thesis
  proof (cases r)
    case None
    then show ?thesis using none [of fs] r(1) same_table_refl [OF h] by (simp add: mc_find_and_init_bfd_filemap_def)
  next
    case (Some i)
    have i: "i < length es" by (rule r(3) [OF Some])
    have pl: "place (fs_array s ! i) = es ! i" if "holds es s" for s by (rule holds_at [OF that i])
    have f: "find (\<lambda>f. covers f a) es = Some (es ! i)" using r(2) Some pl [OF h] by simp
    have c: "covers (es ! i) a" "es ! i \<in> set es" using f i by (auto simp: find_Some_iff)
    have nm: "fl_name (fs_array fs ! i) = fl_name (es ! i)" using pl [OF h] place_simps(4) by metis
    show ?thesis
    proof (cases "fl_abfd (fs_array fs ! i) = 0")
      case False
      then have "mc_find_and_init_bfd_filemap a fs = Some (Some i, fs)" using r(1) Some by (simp add: mc_find_and_init_bfd_filemap_def)
      then show ?thesis using found [OF _ same_table_refl [OF h] f pl [OF h] c(2)] by blast
    next
      case True
      have "bfd_openr (fs_bfd fs) (fl_name (fs_array fs ! i)) \<noteq> 0" using o c by (auto simp: openable_def nm)
      then obtain rc fs' where b: "init_bfd_filemap i fs = Some (rc, fs')" using init_bfd_returns by blast
      have t: "same_table es fs fs'" by (rule init_bfd_table [OF h b])
      have e: "mc_find_and_init_bfd_filemap a fs = Some (if rc < 0 then None else Some i, fs')"
        using r(1) Some True b by (simp add: mc_find_and_init_bfd_filemap_def)
      show ?thesis
      proof (cases "rc < 0")
        case True
        then show ?thesis using none [of fs'] e t by simp
      next
        case False
        then show ?thesis using found [of i fs' "es ! i"] e t f c(2) pl [of fs'] by (simp add: same_table_def)
      qed
    qed
  qed
qed

lemma get_symbol_ok:
  assumes h: "holds es fs" and o: "openable A (fs_bfd fs) es" "a \<in> A" and fit: "bfd_fits (fs_bfd fs)" and n: "short_names es"
  obtains r fs' where "mc_get_symbol a True MAX_FILEMAPNAME_LEN k fs = Some (r, fs')" "same_table es fs fs'"
    "\<And>name off syms. r = Inr (name, off, syms) \<Longrightarrow>
       \<exists>f. find (\<lambda>f. covers f a) es = Some f \<and> name = fl_name f \<and> off = file_offset_of f a"
  using h o
proof (cases rule: find_and_init_cases)
  case (none fs')
  then show ?thesis using that [of "Inl ()" fs'] by (simp add: mc_get_symbol_def)
next
  case (found i fs' f)
  have nm: "fl_name (fs_array fs' ! i) = fl_name f" "file_offset_of (fs_array fs' ! i) a = file_offset_of f a"
    using found(4) by (metis place_simps(4)) (metis found(4) place_simps(8))
  have "length (fl_name f) < 255" using n found(5) by (simp add: short_names_def)
  then have c: "copy_filemapname MAX_FILEMAPNAME_LEN (fl_name f) = Some (fl_name f)" by (rule copy_filemapname_short)
  have "fs_bfd fs' = fs_bfd fs" using found(2) by (simp add: same_table_def)
  then obtain ss where ss: "mc_get_symbol_from_offset (fs_bfd fs') (fl_abfd (fs_array fs' ! i)) (fl_symbols (fs_array fs' ! i))
      (file_offset_of f a) True k = Some ss" using symbol_from_offset_returns [OF fit] by metis
  have "mc_get_symbol a True MAX_FILEMAPNAME_LEN k fs = Some (Inr (fl_name f, file_offset_of f a, ss), fs')"
    using found(1) c ss by (simp add: mc_get_symbol_def nm Let_def)
  then show ?thesis using that found(2,3) by blast
qed

section \<open>The first lookup\<close>

text \<open>
  When the symbols of an object that was opened can be read: its table has a size, there is memory for
  it, and the BFD library can fill it. Without a static table the dynamic one is taken.
\<close>

definition symbols_readable :: "filemap_state \<Rightarrow> string \<Rightarrow> bool" where
  "symbols_readable fs name \<longleftrightarrow>
     (let api = fs_bfd fs; abfd = bfd_openr api name; dynamic = (bfd_symtab_bound api abfd = 0);
          size = (if dynamic then bfd_dynamic_bound api abfd else bfd_symtab_bound api abfd)
      in 0 \<le> size \<and> fst (fs_malloc (size_of_int size) fs) \<noteq> NULL \<and>
         0 \<le> (if dynamic then bfd_canon_dynamic api abfd else bfd_canon_symtab api abfd))"

lemma symbols_readable_cong: "fs_bfd fs' = fs_bfd fs \<Longrightarrow> fs_libc fs' = fs_libc fs \<Longrightarrow> symbols_readable fs' name = symbols_readable fs name"
  by (simp add: symbols_readable_def fs_malloc_def Let_def split: prod.split)

lemma upd_filemap_simps [simp]:
  "fs_bfd (upd_filemap i f fs) = fs_bfd fs" "fs_libc (upd_filemap i f fs) = fs_libc fs"
  "i < length (fs_array fs) \<Longrightarrow> fs_array (upd_filemap i f fs) ! i = f (fs_array fs ! i)"
  "length (fs_array (upd_filemap i f fs)) = length (fs_array fs)"
  "fs_array (fs_free p fs) = fs_array fs"
  by (simp_all add: upd_filemap_def fs_free_def)

lemma fs_malloc_array: "fs_malloc n fs = (p, fs') \<Longrightarrow> fs_array fs' = fs_array fs"
  "fst (fs_malloc n (upd_filemap i f fs)) = fst (fs_malloc n fs)"
  by (auto simp: fs_malloc_def split: prod.splits)

lemma init_bfd_exact:
  assumes "init_bfd_filemap i fs = Some (rc, fs')" "i < length (fs_array fs)"
    and "bfd_openr (fs_bfd fs) (fl_name (fs_array fs ! i)) \<noteq> 0"
  shows "rc = (if symbols_readable fs (fl_name (fs_array fs ! i)) then 0 else - 1)"
    and "fl_abfd (fs_array fs' ! i) = bfd_openr (fs_bfd fs) (fl_name (fs_array fs ! i))"
proof -
  let ?a = "bfd_openr (fs_bfd fs) (fl_name (fs_array fs ! i))"
  let ?n = "size_of_int (if bfd_symtab_bound (fs_bfd fs) ?a = 0 then bfd_dynamic_bound (fs_bfd fs) ?a else bfd_symtab_bound (fs_bfd fs) ?a)"
  let ?f1 = "upd_filemap i (\<lambda>f. f\<lparr>fl_abfd := ?a\<rparr>) fs"
  obtain p f2 where 2: "fs_malloc ?n ?f1 = (p, f2)" by fastforce
  note A2 = fs_malloc_array(1) [OF 2]
  have p: "p = fst (fs_malloc ?n fs)" using 2 fs_malloc_array(2) [of ?n i _ fs] by (metis fst_conv)
  obtain q f5 where 5: "fs_malloc (size_of_int (bfd_dynamic_bound (fs_bfd fs) ?a)) (fs_free p (upd_filemap i (\<lambda>f. f\<lparr>fl_symbols := p\<rparr>) f2)) = (q, f5)"
    by fastforce
  note A5 = fs_malloc_array(1) [OF 5]
  show "rc = (if symbols_readable fs (fl_name (fs_array fs ! i)) then 0 else - 1)"
    using assms(1,3) p unfolding init_bfd_filemap_def Let_def 2 prod.case 5 symbols_readable_def by (auto split: if_splits)
  show "fl_abfd (fs_array fs' ! i) = ?a"
    using assms A2 A5 unfolding init_bfd_filemap_def Let_def 2 prod.case 5 by (auto split: if_splits)
qed

text \<open>The answer on a table that was just made.\<close>

lemma get_symbol_first:
  assumes h: "holds es fs" "take (length es) (fs_array fs) = es" and o: "openable {a} (fs_bfd fs) es" and fit: "bfd_fits (fs_bfd fs)"
    and n: "short_names es"
  shows "\<exists>r fs'. mc_get_symbol a True MAX_FILEMAPNAME_LEN k fs = Some (r, fs') \<and>
     (case find (\<lambda>f. covers f a) es of None \<Rightarrow> r = Inl ()
      | Some f \<Rightarrow> if symbols_readable fs (fl_name f)
          then \<exists>q syms. mc_get_symbol_from_offset (fs_bfd fs) (bfd_openr (fs_bfd fs) (fl_name f)) q (file_offset_of f a) True k = Some syms \<and>
            r = Inr (fl_name f, file_offset_of f a, syms)
          else r = Inl ())"
proof -
  obtain r where r: "find_from a [0..<nat (fs_cnt fs)] (fs_array fs) = Some r"
    "map_option (\<lambda>i. place (fs_array fs ! i)) r = find (\<lambda>f. covers f a) es" "\<And>i. r = Some i \<Longrightarrow> i < length es"
    by (rule holds_find [OF h(1), of a]) (rule that)
  show ?thesis
  proof (cases r)
    case None
    then show ?thesis using r(1,2) by (simp add: mc_get_symbol_def mc_find_and_init_bfd_filemap_def)
  next
    case (Some i)
    have i: "i < length es" "i < length (fs_array fs)" using r(3) [OF Some] h(1) by (simp_all add: holds_def)
    have at: "fs_array fs ! i = es ! i" using h(2) i(1) by (metis nth_take)
    have pl: "place (es ! i) = es ! i" using holds_at [OF h(1) i(1)] at by simp
    have f: "find (\<lambda>f. covers f a) es = Some (es ! i)" using r(2) Some at pl by simp
    have c: "covers (es ! i) a" "es ! i \<in> set es" using f i by (auto simp: find_Some_iff)
    have "fl_abfd (place (es ! i)) = 0" by (simp add: place_def)
    then have z: "fl_abfd (es ! i) = 0" using pl by simp
    have op: "bfd_openr (fs_bfd fs) (fl_name (fs_array fs ! i)) \<noteq> 0" using o c at by (auto simp: openable_def)
    then obtain rc fs' where b: "init_bfd_filemap i fs = Some (rc, fs')" using init_bfd_returns by blast
    note X = init_bfd_exact [OF b i(2) op]
    have t: "same_table es fs fs'" by (rule init_bfd_table [OF h(1) b])
    have init: "mc_find_and_init_bfd_filemap a fs = Some (if rc < 0 then None else Some i, fs')"
      using r(1) Some z at b by (simp add: mc_find_and_init_bfd_filemap_def)
    show ?thesis
    proof (cases "symbols_readable fs (fl_name (es ! i))")
      case False
      then show ?thesis using X(1) at init f by (simp add: mc_get_symbol_def)
    next
      case True
      have pl': "place (fs_array fs' ! i) = es ! i" using t by (intro holds_at [OF _ i(1)]) (simp add: same_table_def)
      have nm: "fl_name (fs_array fs' ! i) = fl_name (es ! i)" "file_offset_of (fs_array fs' ! i) a = file_offset_of (es ! i) a"
        using pl' by (metis place_simps(4)) (metis pl' place_simps(8))
      have "length (fl_name (es ! i)) < 255" using n c(2) by (simp add: short_names_def)
      then have cp: "copy_filemapname MAX_FILEMAPNAME_LEN (fl_name (es ! i)) = Some (fl_name (es ! i))" by (rule copy_filemapname_short)
      have bf: "fs_bfd fs' = fs_bfd fs" using t by (simp add: same_table_def)
      obtain ss where ss: "mc_get_symbol_from_offset (fs_bfd fs) (bfd_openr (fs_bfd fs) (fl_name (es ! i))) (fl_symbols (fs_array fs' ! i))
          (file_offset_of (es ! i) a) True k = Some ss" using symbol_from_offset_returns [OF fit] by metis
      have "mc_get_symbol a True MAX_FILEMAPNAME_LEN k fs = Some (Inr (fl_name (es ! i), file_offset_of (es ! i) a, ss), fs')"
        using init X True at cp ss bf by (simp add: mc_get_symbol_def nm Let_def)
      then show ?thesis using f True ss by auto
    qed
  qed
qed

section \<open>The last user\<close>

text \<open>The last user gives the table back.\<close>

lemma term_bfd_table:
  assumes "holds es fs" "i < length es"
  shows "\<exists>fs'. term_bfd_filemap i fs = Some fs' \<and> same_table es fs fs'"
proof -
  have i: "i < length (fs_array fs)" using assms by (simp add: holds_def)
  let ?s = "if fl_abfd (fs_array fs ! i) \<noteq> 0 then upd_filemap i (\<lambda>f. f\<lparr>fl_abfd := 0\<rparr>) fs else fs"
  have s: "same_table es fs ?s" using same_table_steps(1) [OF assms(1)] same_table_refl [OF assms(1)] by simp
  then have hs: "holds es ?s" by (simp add: same_table_def)
  have "same_table es ?s (upd_filemap i (\<lambda>f. f\<lparr>fl_symbols := NULL\<rparr>) (fs_free q ?s))" for q
  proof (rule same_table_trans [OF same_table_steps(3) [OF hs] same_table_steps(2)])
    show "holds es (fs_free q ?s)" using hs by (simp add: holds_libc)
  qed
  then have "same_table es fs (upd_filemap i (\<lambda>f. f\<lparr>fl_symbols := NULL\<rparr>) (fs_free q ?s))" for q
    using same_table_trans [OF s] by blast
  then show ?thesis using i s unfolding term_bfd_filemap_def Let_def by auto
qed

lemma term_bfd_all:
  "holds es fs \<Longrightarrow> \<forall>i\<in>set is. i < length es \<Longrightarrow> \<exists>fs'. term_bfd_filemaps is fs = Some fs' \<and> same_table es fs fs'"
proof (induction "is" arbitrary: fs)
  case (Cons i ns)
  then obtain s where s: "term_bfd_filemap i fs = Some s" "same_table es fs s" using term_bfd_table by force
  then have "holds es s" by (simp add: same_table_def)
  with Cons obtain fs' where "term_bfd_filemaps ns s = Some fs'" "same_table es s fs'" by auto
  then show ?case using s same_table_trans [OF s(2)] by auto
qed (simp add: same_table_refl)

lemma term_filemaps_ok:
  assumes "holds es fs" "fs_usage_cnt fs = 1"
  shows "\<exists>fs'. mc_term_filemaps fs = Some fs' \<and> fs_usage_cnt fs' = 0 \<and> \<not> fs_mapped fs' \<and> fs_bfd fs' = fs_bfd fs \<and>
     fs_maps fs' = fs_maps fs \<and> fs_mmaps fs' = fs_mmaps fs"
proof -
  let ?s = "fs\<lparr>fs_usage_cnt := 0\<rparr>"
  have "holds es ?s" "nat (fs_cnt ?s) = length es" using assms(1) by (simp_all add: holds_def)
  then obtain t where t: "term_bfd_filemaps [0..<nat (fs_cnt ?s)] ?s = Some t" "same_table es ?s t" using term_bfd_all [of es ?s] by force
  have "fs_usage_cnt t = 0" "fs_bfd t = fs_bfd fs" "fs_maps t = fs_maps fs" "fs_mmaps t = fs_mmaps fs"
    using t(2) by (simp_all add: same_table_def)
  moreover have "mc_term_filemaps fs = Some (t\<lparr>fs_mapped := False, fs_array := []\<rparr>)"
    using t(1) assms(2) by (simp add: mc_term_filemaps_def)
  ultimately show ?thesis by simp
qed

section \<open>Rounds of reading\<close>

text \<open>
  What reports need: the objects of the mappings can be read, and \<open>/proc/self/maps\<close> can be read for so
  many rounds, of two passes each. Between the first and the last user the table is open.
\<close>

definition symbols_ok :: "addr set \<Rightarrow> mapping list \<Rightarrow> bfd_api \<Rightarrow> bool" where
  "symbols_ok A ms api \<longleftrightarrow> all_named ms \<and> (\<forall>m\<in>set ms. mapping_ok m) \<and> length ms < 2 ^ 40 \<and> bfd_fits api \<and>
     openable A api (named_entries ms)"

definition rounds :: "nat \<Rightarrow> mapping list \<Rightarrow> filemap_state \<Rightarrow> bool" where
  "rounds k ms fs \<longleftrightarrow> (\<exists>rest. fs_maps fs = replicate (2 * k) (map maps_line ms) @ rest) \<and>
     (\<exists>mm. fs_mmaps fs = replicate k True @ mm)"

definition ready :: "nat \<Rightarrow> addr set \<Rightarrow> mapping list \<Rightarrow> filemap_state \<Rightarrow> bool" where
  "ready k A ms fs \<longleftrightarrow> symbols_ok A ms (fs_bfd fs) \<and> fs_usage_cnt fs = 0 \<and> rounds k ms fs"

definition reading :: "nat \<Rightarrow> addr set \<Rightarrow> mapping list \<Rightarrow> filemap_state \<Rightarrow> bool" where
  "reading k A ms fs \<longleftrightarrow> symbols_ok A ms (fs_bfd fs) \<and> fs_usage_cnt fs = 1 \<and> rounds k ms fs \<and> holds (named_entries ms) fs"

lemma rounds_less: "rounds (Suc k) ms fs \<Longrightarrow> rounds k ms fs"
proof -
  assume "rounds (Suc k) ms fs"
  then obtain r m where "fs_maps fs = replicate (2 * Suc k) (map maps_line ms) @ r" "fs_mmaps fs = replicate (Suc k) True @ m"
    by (auto simp: rounds_def)
  then have "fs_maps fs = replicate (2 * k) (map maps_line ms) @ (map maps_line ms # map maps_line ms # r)"
    "fs_mmaps fs = replicate k True @ (True # m)"
    by (simp_all add: replicate_app_Cons_same)
  then show ?thesis unfolding rounds_def by blast
qed

lemma ready_less: "ready (Suc k) A ms fs \<Longrightarrow> ready k A ms fs"
  using rounds_less by (simp add: ready_def)

lemma ready_mono: "ready k A ms fs \<Longrightarrow> j \<le> k \<Longrightarrow> ready j A ms fs"
  by (induction k) (auto simp: le_Suc_eq dest: ready_less)

lemma init_ready:
  assumes "ready (Suc k) A ms fs"
  shows "\<exists>fs'. mc_init_filemaps_from_procmap fs = Some (0, fs') \<and> reading k A ms fs'"
proof -
  from assms obtain r m where r: "fs_maps fs = map maps_line ms # map maps_line ms # replicate (2 * k) (map maps_line ms) @ r"
    "fs_mmaps fs = True # replicate k True @ m" by (auto simp: ready_def rounds_def)
  have s: "symbols_ok A ms (fs_bfd fs)" "fs_usage_cnt fs = 0" using assms by (simp_all add: ready_def)
  then have "maps_given ms fs" "entries_of None ms = Some (named_entries ms)"
    using r entries_of_named by (simp_all add: maps_given_def symbols_ok_def)
  from init_filemaps_lines [OF this] show ?thesis using r s
    by (auto simp: mc_init_filemaps_from_procmap_def reading_def rounds_def)
qed

lemma symbol_reading:
  assumes "reading k A ms fs" "a \<in> A"
  shows "\<exists>r fs'. mc_get_symbol a True MAX_FILEMAPNAME_LEN n fs = Some (r, fs') \<and> reading k A ms fs'"
proof -
  have s: "holds (named_entries ms) fs" "openable A (fs_bfd fs) (named_entries ms)" "bfd_fits (fs_bfd fs)"
    using assms(1) by (simp_all add: reading_def symbols_ok_def)
  have "short_names (named_entries ms)"
    using assms(1) by (auto simp: reading_def symbols_ok_def all_named_def short_names_def named_entries_def filemap_of_def
        mapping_ok_def word_ok_def)
  from get_symbol_ok [OF s(1,2) assms(2) s(3) this] obtain r fs' where
    "mc_get_symbol a True MAX_FILEMAPNAME_LEN n fs = Some (r, fs')" "same_table (named_entries ms) fs fs'" by metis
  then show ?thesis using assms(1) by (auto simp: reading_def same_table_def rounds_def)
qed

lemma term_reading:
  assumes "reading k A ms fs"
  shows "\<exists>fs'. mc_term_filemaps fs = Some fs' \<and> ready k A ms fs'"
  using term_filemaps_ok [of "named_entries ms" fs] assms by (auto simp: reading_def ready_def rounds_def)

section \<open>From the first user to the last\<close>

lemma resolve_find:
  "resolve ms a = (case find (\<lambda>f. covers f a) (named_entries ms) of None \<Rightarrow> Inl () | Some f \<Rightarrow> Inr (fl_name f, file_offset_of f a))"
  by (auto simp: find_named resolve_def filemap_of_def file_offset_of_def split: option.split)

lemma address_place:
  assumes g: "maps_given ms fs" and nm: "all_named ms"
  shows "\<exists>fs'. mc_prepare_symbol fs = Some (0, fs') \<and> fs_cnt fs' = int (length (filter executable ms)) \<and>
     (\<forall>a. mc_get_symbol_offset a MAX_FILEMAPNAME_LEN fs' = Some (resolve ms a)) \<and>
     (\<forall>a k. bfd_fits (fs_bfd fs) \<longrightarrow> openable {a} (fs_bfd fs) (named_entries ms) \<longrightarrow>
        (\<exists>r fs''. mc_get_symbol a True MAX_FILEMAPNAME_LEN k fs' = Some (r, fs'') \<and>
           (case resolve ms a of Inl _ \<Rightarrow> r = Inl ()
            | Inr (name, off) \<Rightarrow> if symbols_readable fs name
                then \<exists>q syms. mc_get_symbol_from_offset (fs_bfd fs) (bfd_openr (fs_bfd fs) name) q off True k = Some syms \<and>
                  r = Inr (name, off, syms)
                else r = Inl ()))) \<and>
     (\<exists>fs''. mc_finish_symbol fs' = Some fs'' \<and> fs_usage_cnt fs'' = 0 \<and> \<not> fs_mapped fs'')"
proof -
  have ok: "\<forall>m\<in>set ms. mapping_ok m" using g by (simp add: maps_given_def)
  from init_filemaps_lines [OF g entries_of_named [OF nm ok]] obtain fs' where
    i: "init_filemaps fs = Some (0, fs')" "holds (named_entries ms) fs'" "fs_usage_cnt fs' = 1" "fs_bfd fs' = fs_bfd fs"
    "fs_libc fs' = fs_libc fs" "take (length (named_entries ms)) (fs_array fs') = named_entries ms" by blast
  have sn: "short_names (named_entries ms)"
    using ok nm by (auto simp: all_named_def short_names_def named_entries_def filemap_of_def mapping_ok_def word_ok_def)
  note R = symbols_readable_cong [OF i(4,5)]
  have "\<exists>r fs''. mc_get_symbol a True MAX_FILEMAPNAME_LEN k fs' = Some (r, fs'') \<and>
           (case resolve ms a of Inl _ \<Rightarrow> r = Inl ()
            | Inr (name, off) \<Rightarrow> if symbols_readable fs name
                then \<exists>q syms. mc_get_symbol_from_offset (fs_bfd fs) (bfd_openr (fs_bfd fs) name) q off True k = Some syms \<and>
                  r = Inr (name, off, syms)
                else r = Inl ())"
    if fit: "bfd_fits (fs_bfd fs)" and op: "openable {a} (fs_bfd fs) (named_entries ms)" for a k
    using get_symbol_first [OF i(2,6) _ _ sn, of a k, unfolded i(4) R, OF op fit]
    by (cases "find (\<lambda>f. covers f a) (named_entries ms)") (simp_all add: resolve_find)
  moreover have "fs_cnt fs' = int (length (filter executable ms))" using i(2) by (simp add: holds_def named_entries_def)
  ultimately show ?thesis
    using i symbol_offset_exact [OF i(2) ok] term_filemaps_ok [OF i(2,3)]
    by (auto simp: mc_prepare_symbol_def mc_init_filemaps_from_procmap_def mc_finish_symbol_def)
qed

section \<open>A process of one file\<close>

definition bin_a :: mapping where
  "bin_a = \<lparr>mg_start = 0x400000, mg_end = 0x401000, mg_perm = ''r-xp'', mg_offset = 0, mg_device = ''08:02'', mg_inode = ''173521'',
     mg_path = ''/bin/a''\<rparr>"

definition bin_api :: bfd_api where
  "bin_api = \<lparr>bfd_openr = (\<lambda>_. 1), bfd_symtab_bound = (\<lambda>_. 8), bfd_dynamic_bound = (\<lambda>_. 0), bfd_canon_symtab = (\<lambda>_. 1),
     bfd_canon_dynamic = (\<lambda>_. 0), bfd_sections = (\<lambda>_. [\<lparr>sec_alloc = True, sec_vma = 0, sec_size = 0x1000\<rparr>]),
     bfd_nearest_line = (\<lambda>_ _ _ _. Some (Some ''a.c'', Some ''main'', 7)), bfd_inliner = (\<lambda>_ _ _. None),
     bfd_demangle = (\<lambda>_ _. None)\<rparr>"

definition bin_fmaps :: "nat \<Rightarrow> filemap_state" where
  "bin_fmaps k = \<lparr>fs_array = [], fs_mapped = False, fs_cnt = 0, fs_usage_cnt = 0, fs_size = 0,
     fs_maps = replicate (2 * k) [maps_line bin_a], fs_mmaps = replicate k True,
     fs_libc = \<lparr>libc_mallocs = [\<lambda>_. 0x700000], libc_reallocs = [], libc_callocs = [], libc_frees = []\<rparr>, fs_bfd = bin_api\<rparr>"

lemma bin_a_ok: "mapping_ok bin_a" "all_named [bin_a]" "executable bin_a"
  by (simp_all add: mapping_ok_def word_ok_def bin_a_def all_named_def isspace_def executable_def)

lemma bin_maps_given: "maps_given [bin_a] (bin_fmaps 1)"
proof -
  have "fs_maps (bin_fmaps 1) = [[maps_line bin_a], [maps_line bin_a]]" by (simp add: bin_fmaps_def numeral_2_eq_2)
  then show ?thesis using bin_a_ok(1) by (simp add: maps_given_def bin_fmaps_def)
qed

lemma bin_fmaps_ready: "ready k UNIV [bin_a] (bin_fmaps k)"
proof -
  have "bfd_fits bin_api" by (auto simp: bfd_fits_def bin_api_def fits_def MAX_SYMFILENAME_LEN_def MAX_SYMFUNCNAME_LEN_def)
  moreover have "openable UNIV bin_api (named_entries [bin_a])" by (simp add: openable_def bin_api_def)
  moreover have "rounds k [bin_a] (bin_fmaps k)" by (simp add: rounds_def bin_fmaps_def)
  ultimately show ?thesis using bin_a_ok by (simp add: ready_def symbols_ok_def bin_fmaps_def)
qed

end
