(* ===== verification/MC_Reading.thy ===== *)
theory MC_Reading
  imports MC_Commands MC_Lookup
begin

text \<open>
  The parts of a report return: frames of call stacks, the listing of a table, the loops over groups and
  over the table of call stacks. What they need is an open table of mappings (\<open>reading\<close> of
  \<open>MC_Lookup\<close>), call stacks whose frames can be resolved, and counts that fit an \<open>int\<close>.
\<close>

section \<open>Frames\<close>

lemma init_fmaps_ready:
  assumes "ready (Suc k) A ms (fmaps st)"
  shows "\<exists>st'. init_fmaps st = Some st' \<and> reading k A ms (fmaps st')"
  using init_ready [OF assms] by (auto simp: init_fmaps_def mc_enable_hook_def mc_disable_hook_def)

lemma term_fmaps_ready:
  assumes "reading k A ms (fmaps st)"
  shows "\<exists>st'. term_fmaps st = Some st' \<and> ready k A ms (fmaps st')"
  using term_reading [OF assms] by (auto simp: term_fmaps_def mc_enable_hook_def mc_disable_hook_def)

lemma fmaps_log [simp]: "fmaps (mc_log_print l st) = fmaps st"
  by (simp add: mc_log_print_def)

lemma fmaps_inlines [simp]: "fmaps (print_inlines ss st) = fmaps st"
  by (induction ss arbitrary: st) simp_all

lemma print_frame_reading:
  assumes "reading k A ms (fmaps st)" "a \<in> A"
  shows "\<exists>st'. print_frame a st = Some st' \<and> reading k A ms (fmaps st')"
proof -
  obtain r fs where r: "mc_get_symbol a True MAX_FILEMAPNAME_LEN 10 (fmaps st) = Some (r, fs)" "reading k A ms fs"
    using symbol_reading [OF assms] by metis
  let ?s = "mc_enable_hook ((mc_disable_hook st)\<lparr>fmaps := fs\<rparr>)"
  have s: "fmaps ?s = fs" by (simp add: mc_enable_hook_def mc_disable_hook_def)
  have "\<exists>st'. print_frame a st = Some st' \<and> fmaps st' = fs"
    using r(1) s by (cases r) (auto simp: print_frame_def Let_def split: list.split)
  then show ?thesis using r(2) by blast
qed

lemma print_frames_reading:
  "reading k A ms (fmaps st) \<Longrightarrow> set as \<subseteq> A \<Longrightarrow> \<exists>st'. print_frames as st = Some st' \<and> reading k A ms (fmaps st')"
proof (induction "as" arbitrary: st)
  case (Cons a as)
  then obtain s where s: "print_frame a st = Some s" "reading k A ms (fmaps s)" using print_frame_reading [of k A ms st a] by auto
  then show ?case using Cons.IH [OF s(2)] Cons.prems(2) by auto
qed simp

text \<open>The frames of the call stacks in \<open>C\<close> lie in \<open>A\<close>.\<close>

definition frames_in :: "addr set \<Rightarrow> addr set \<Rightarrow> mc \<Rightarrow> bool" where
  "frames_in A C st \<longleftrightarrow> (\<forall>c\<in>C. c \<noteq> NULL \<and> trace_ok (csh st c) \<and> set (cs_trace (csh st c)) \<subseteq> A)"

lemma frames_in_report: "report_only st st' \<Longrightarrow> frames_in A C st' = frames_in A C st"
proof -
  assume r: "report_only st st'"
  obtain m ls fs n sm h where s: "st' = st\<lparr>mem := m, log := ls, fmaps := fs, num_backtraces := n, sort_mmaps := sm, csh := h\<rparr>"
    and h: "\<forall>c. \<exists>t. h c = (csh st c)\<lparr>cs_total_size := t\<rparr>" using r unfolding report_only_def by blast
  have "cs_trace (csh st' c) = cs_trace (csh st c)" for c
  proof -
    obtain t where "h c = (csh st c)\<lparr>cs_total_size := t\<rparr>" using h by blast
    then show ?thesis by (simp add: s)
  qed
  then show ?thesis using report_only_simps(13) [OF r] by (simp add: frames_in_def)
qed

lemma print_callstack_reading:
  assumes "reading k A ms (fmaps st)" "trace_ok c" "set (cs_trace c) \<subseteq> A"
  shows "\<exists>st'. mc_print_callstack (cs_depth c) (cs_trace c) n st = Some st' \<and> reading k A ms (fmaps st')"
proof -
  have "set (map (\<lambda>i. cs_trace c ! i) [n..<nat (cs_depth c)]) \<subseteq> A" using assms(2,3) by (auto simp: trace_ok_def)
  from print_frames_reading [OF assms(1) this] show ?thesis by (simp add: mc_print_callstack_def)
qed

text \<open>The call stack that is about to be taken.\<close>

lemma print_current_reading:
  assumes "reading k A ms (fmaps st)" "\<forall>n. set (backtraces st n) \<subseteq> A"
  shows "\<exists>st'. mc_print_current_callstack n st = Some st' \<and> reading k A ms (fmaps st')"
proof -
  obtain c s where cs: "backtrace (mc_disable_hook st) = (c, s)" by fastforce
  then have "c = current_callstack st" by (simp add: current_callstack_def)
  moreover have "set (next_trace st) \<subseteq> A"
    using assms(2) set_take_subset [of MAX_CALLSTACK_DEPTH "backtraces st (num_backtraces st)"] unfolding next_trace_def by blast
  ultimately have c: "trace_ok c" "set (cs_trace c) \<subseteq> A" using current_callstack_simps by simp_all
  have "fmaps (mc_enable_hook s) = fmaps st"
    using cs by (auto simp: backtrace_def mc_disable_hook_def mc_enable_hook_def Let_def)
  then show ?thesis using print_callstack_reading [OF _ c, of k ms "mc_enable_hook s" n] assms(1) cs
    by (simp add: mc_print_current_callstack_def)
qed

section \<open>The listing of a table\<close>

lemma print_blocks_reading:
  "reading k A ms (fmaps st) \<Longrightarrow> frames_in A C st \<Longrightarrow> \<forall>b\<in>set bs. am_allocator (am st b) \<in> C \<Longrightarrow>
   \<exists>st'. print_blocks cnt bs st = Some st' \<and> reading k A ms (fmaps st')"
proof (induction bs arbitrary: cnt st)
  case (Cons b bs)
  let ?c = "am_allocator (am st b)"
  let ?s = "mc_log_print (Block cnt (mp_ptr (amp st (memptr_of b))) (mb_usrsize (am_memblk (am st b)))) st"
  have c: "?c \<noteq> NULL" "trace_ok (csh st ?c)" "set (cs_trace (csh st ?c)) \<subseteq> A" using Cons.prems(2,3) by (auto simp: frames_in_def)
  have s: "am ?s = am st" "csh ?s = csh st" by (simp_all add: mc_log_print_def)
  obtain t where t: "mc_print_callstack (cs_depth (csh st ?c)) (cs_trace (csh st ?c)) 2 ?s = Some t" "reading k A ms (fmaps t)"
    using print_callstack_reading [OF _ c(2,3), of k ms ?s 2] Cons.prems(1) by auto
  have r: "report_only st t"
    by (rule report_only_trans [OF log_report_only print_callstack_quiet [THEN quiet_report_only, OF t(1)]])
  have "\<forall>b\<in>set bs. am_allocator (am t b) \<in> C" using Cons.prems(3) report_only_simps(3) [OF r] by simp
  with Cons.IH [OF t(2)] frames_in_report [OF r] Cons.prems(2) obtain st' where
    "print_blocks (cnt + 1) bs t = Some st'" "reading k A ms (fmaps st')" by blast
  then show ?case using c(1) t(1) by (auto simp: cs_at_def s)
qed simp

lemma sort_buffer_returns:
  assumes "unat n < 2 ^ 50"
  shows "\<exists>ok st'. mc_allocate_sort_buffer n st = Some (ok, st') \<and> fmaps st' = fmaps st \<and> qsort st' = qsort st"
proof -
  have "unat (n * 8) = unat n * 8" using assms by (subst unat_mult_lem [THEN iffD1]) simp_all
  moreover have p: "unat (of_nat PAGE_SIZE :: size_t) = 4096" by (simp add: PAGE_SIZE_def)
  moreover have "aligned_up (unat n * 8) 4096 \<le> 4096 * (unat n + 1)" by (rule aligned_up_least) simp_all
  ultimately have "aligned_up (unat (n * 8)) (unat (of_nat PAGE_SIZE :: size_t)) < 2 ^ 64" using assms by simp
  from get_aligned_size_exact [OF _ this] p obtain sz where "get_aligned_size (n * 8) (of_nat PAGE_SIZE) = Some sz" by auto
  then show ?thesis by (auto simp: mc_allocate_sort_buffer_def split: list.split)
qed

lemma small_count:
  assumes "n < 2 ^ 31"
  shows "unat (scast (of_nat n :: i32) :: size_t) = n"
proof -
  have u: "unat (of_nat n :: u64) = n" using assms by (intro unat_of_nat_u64) simp
  then have "int_of_u64 (of_nat n) = int n" using int_of_u64_small [of "of_nat n"] assms by simp
  moreover have "take_bit 64 n = n" using assms by (intro take_bit_nat_eq_self) simp
  ultimately have "sint (of_nat n :: i32) = int n" by (simp add: int_of_u64_def unsigned_of_nat)
  then have "(scast (of_nat n :: i32) :: size_t) = of_nat n" by (metis of_int_of_nat_eq of_int_sint)
  then show ?thesis using u by simp
qed

lemma listed_report: "report_only st st' \<Longrightarrow> listed i st' ns = listed i st ns"
  by (simp add: listed_def report_only_simps)

lemma table_nodes:
  assumes "mc_inv N F C st"
  obtains ns where "listed i st ns" "set (map get_alloc_memblk_from_memptr ns) = N i" "length ns = card (N i)"
proof -
  obtain ns where ns: "listed i st ns" "distinct ns" "set ns = memptr_of ` N i"
    using listed_exists [OF tables_okD(2) [OF mc_invD(1) [OF assms], of i]] by metis
  have "length ns = card (N i)" using ns(2,3) by (metis card_image distinct_card inj_memptr_of inj_on_subset subset_UNIV)
  then show ?thesis using that ns by (auto simp: image_image)
qed

text \<open>All that is needed of \<open>qsort\<close> here.\<close>

definition permutes :: "((addr \<Rightarrow> addr \<Rightarrow> int) \<Rightarrow> addr list \<Rightarrow> addr list) \<Rightarrow> bool" where
  "permutes q \<longleftrightarrow> (\<forall>cmp xs. mset (q cmp xs) = mset xs)"

lemma sorted_set: "permutes (qsort st) \<Longrightarrow> set (fst (mc_sort_by_alloc_memblk bs st)) = set bs"
  "permutes (qsort st) \<Longrightarrow> set (fst (mc_sort_per_callstack bs st)) = set bs"
proof -
  have "set (qsort st cmp xs) = set xs" if "permutes (qsort st)" for cmp xs
    by (rule mset_eq_setD) (use that in \<open>simp add: permutes_def\<close>)
  then show "permutes (qsort st) \<Longrightarrow> set (fst (mc_sort_by_alloc_memblk bs st)) = set bs"
    "permutes (qsort st) \<Longrightarrow> set (fst (mc_sort_per_callstack bs st)) = set bs"
    by (simp_all add: mc_sort_by_alloc_memblk_def mc_sort_per_callstack_def mc_disable_hook_def Let_def)
qed

lemma report_qsort: "report_only st st' \<Longrightarrow> qsort st' = qsort st"
  by (auto simp: report_only_def)

lemma print_table_reading:
  assumes inv: "mc_inv N F C st" and t: "\<forall>b\<in>N i. am_allocator (am st b) \<in> C" and f: "frames_in A C st"
    and n: "card (N i) < 2 ^ 31" and q: "permutes (qsort st)" and r: "reading k A ms (fmaps st)"
  shows "\<exists>rc st'. print_all_memblk_on_hashtable i st = Some (rc, st') \<and> reading k A ms (fmaps st')"
proof -
  obtain ns where ns: "listed i st ns" "set (map get_alloc_memblk_from_memptr ns) = N i" "length ns = card (N i)"
    by (rule table_nodes [OF inv])
  have "unat (scast (of_nat (length ns) :: i32) :: size_t) < 2 ^ 50" using small_count [of "length ns"] ns(3) n by simp
  from sort_buffer_returns [OF this] obtain ok s where s:
    "mc_allocate_sort_buffer (scast (of_nat (length ns) :: i32)) st = Some (ok, s)" "fmaps s = fmaps st" "qsort s = qsort st" by blast
  note rs = sort_buffer_report [OF s(1)]
  show ?thesis
  proof (cases ok)
    case False
    then show ?thesis using count_nodes_ok [OF ns(1)] s r by (simp add: print_all_memblk_on_hashtable_def)
  next
    case True
    let ?bs = "map get_alloc_memblk_from_memptr ns"
    have b: "set (fst (mc_sort_by_alloc_memblk ?bs s)) = N i" using sorted_set(1) [of s ?bs] q s(3) ns(2) by simp
    have a: "\<forall>b\<in>N i. am_allocator (am s b) \<in> C"
      using t report_only_simps(3) [OF rs] by simp
    obtain st' where p: "print_blocks 0 (fst (mc_sort_by_alloc_memblk ?bs s)) s = Some st'" "reading k A ms (fmaps st')"
      using print_blocks_reading [of k A ms s C "fst (mc_sort_by_alloc_memblk ?bs s)" 0] r s(2) frames_in_report [OF rs] f a b by auto
    have "table_blocks i s = Some ?bs" using table_blocks_ok [of i s ns] listed_report [OF rs] ns(1) by simp
    then show ?thesis using True count_nodes_ok [OF ns(1)] s(1) p sort_steps(1) [of ?bs s]
      by (cases "mc_sort_by_alloc_memblk ?bs s") (simp add: print_all_memblk_on_hashtable_def)
  qed
qed

section \<open>The groups\<close>

lemma each_group_member_fold:
  assumes "lst (group_next st) (group_head l c st) xs" "\<And>b s. am (f b s) = am s"
  shows "each_group_member l c f st = Some (fold f xs st)"
proof -
  let ?body = "\<lambda>b s. fall_through (Some (f b s)) :: (unit, mc) flow option"
  have "walk (\<lambda>s b. am_group_next (am s b)) ?body (group_head l c st) st = fold_flow ?body xs st"
    by (rule walk_fold(1) [where I = "\<lambda>s. am s = am st"]) (use assms in \<open>auto simp: fall_through_def\<close>)
  also have "\<dots> = Some (Next (fold f xs st))" by (rule fold_flow_fold) (simp add: fall_through_def)
  finally show ?thesis by (simp add: each_group_member_def)
qed

lemma group_member_returns:
  assumes "groups_ok C st G" "c \<in> C" "\<And>b s. am (f b s) = am s" "\<And>b s. fmaps (f b s) = fmaps s"
  shows "\<exists>st'. each_group_member l c f st = Some st' \<and> fmaps st' = fmaps st"
proof -
  have "lst (group_next st) (group_head l c st) (G l c)" by (rule dll_lst [OF groups_okD(1) [OF assms(1,2)]])
  moreover have "fmaps (fold f xs s) = fmaps s" for xs s by (induction xs arbitrary: s) (simp_all add: assms(4))
  ultimately show ?thesis using each_group_member_fold assms(3) by blast
qed

lemma groups_ok_report: "report_only st st' \<Longrightarrow> groups_ok C st' G = groups_ok C st G"
  by (simp add: groups_ok_def report_only_simps)

lemma print_group_returns:
  assumes "groups_ok C st G" "c \<in> C"
  shows "\<exists>st'. print_group_sizes line l c st = Some st' \<and> fmaps st' = fmaps st"
  unfolding print_group_sizes_def by (rule group_member_returns [OF assms]) (simp_all add: mc_log_print_def)

lemma totals_return:
  assumes "groups_ok C st G" "c \<in> C"
  shows "\<exists>st'. each_group_member l c (add_to_total c) st = Some st' \<and> fmaps st' = fmaps st"
    "\<exists>st'. each_group_member l c (subtract_from_total c) st = Some st' \<and> fmaps st' = fmaps st"
  by (rule group_member_returns [OF assms]; simp add: add_to_total_def subtract_from_total_def upd_cs_def)+

text \<open>What one turn of a printing loop needs, and what the report up to it keeps.\<close>

lemma group_turn:
  assumes r: "report_only st s" "fmaps s = fmaps st" and o: "reading k A ms (fmaps st)" "frames_in A C st" "c \<in> C"
  shows "\<exists>t. mc_print_callstack (cs_depth (csh s c)) (cs_trace (csh s c)) 2 (mc_log_print l s) = Some t \<and>
     reading k A ms (fmaps t) \<and> report_only st t"
proof -
  have "trace_ok (csh s c)" "set (cs_trace (csh s c)) \<subseteq> A"
    using frames_in_report [OF r(1)] o(2,3) by (auto simp: frames_in_def)
  from print_callstack_reading [OF _ this, of k ms "mc_log_print l s" 2] o(1) r(2) obtain t where
    t: "mc_print_callstack (cs_depth (csh s c)) (cs_trace (csh s c)) 2 (mc_log_print l s) = Some t" "reading k A ms (fmaps t)" by auto
  show ?thesis
    using t report_only_trans [OF r(1) report_only_trans [OF log_report_only print_callstack_quiet [THEN quiet_report_only, OF t(1)]]]
    by blast
qed

lemma csh_log [simp]: "csh (mc_log_print l st) = csh st"
  by (simp add: mc_log_print_def)

lemma print_groups_reading:
  "reading k A ms (fmaps st) \<Longrightarrow> frames_in A C st \<Longrightarrow> groups_ok C st G \<Longrightarrow> set cs \<subseteq> C \<Longrightarrow>
   \<exists>st'. print_groups l cnt cs st = Some st' \<and> reading k A ms (fmaps st')"
proof (induction cs arbitrary: cnt st)
  case (Cons c cs)
  have c: "c \<in> C" using Cons.prems(4) by simp
  have "groups_ok C (mc_log_print (Group cnt) st) G" using Cons.prems(3) groups_ok_report [OF log_report_only] by simp
  from print_group_returns [OF this c, of Group_size l] obtain s where
    s: "print_group_sizes Group_size l c (mc_log_print (Group cnt) st) = Some s" "fmaps s = fmaps st" by auto
  have r: "report_only st s" by (rule report_only_trans [OF log_report_only group_sizes_report [OF s(1)]])
  from group_turn [OF r s(2) Cons.prems(1,2) c] obtain t where
    t: "mc_print_callstack (cs_depth (csh s c)) (cs_trace (csh s c)) 2 (mc_log_print (Group_total (sint (cs_total_size (csh s c)))) s) = Some t"
      "reading k A ms (fmaps t)" "report_only st t" by blast
  have "\<exists>st'. print_groups l (cnt + 1) cs t = Some st' \<and> reading k A ms (fmaps st')"
    by (rule Cons.IH [OF t(2)]) (use Cons.prems frames_in_report [OF t(3)] groups_ok_report [OF t(3)] in simp_all)
  then show ?case using s(1) t(1) by (auto simp: Let_def)
qed simp

lemma print_differences_reading:
  "reading k A ms (fmaps st) \<Longrightarrow> frames_in A C st \<Longrightarrow> groups_ok C st G \<Longrightarrow> set cs \<subseteq> C \<Longrightarrow>
   \<exists>st'. print_differences cnt cs st = Some st' \<and> reading k A ms (fmaps st')"
proof (induction cs arbitrary: cnt st)
  case (Cons c cs)
  have c: "c \<in> C" using Cons.prems(4) by simp
  have "groups_ok C (mc_log_print (Group cnt) st) G" using Cons.prems(3) groups_ok_report [OF log_report_only] by simp
  from print_group_returns [OF this c, of Group_size LINK_CURRENT] obtain s0 where
    s0: "print_group_sizes Group_size LINK_CURRENT c (mc_log_print (Group cnt) st) = Some s0" "fmaps s0 = fmaps st" by auto
  have r0: "report_only st s0" by (rule report_only_trans [OF log_report_only group_sizes_report [OF s0(1)]])
  have "groups_ok C s0 G" using Cons.prems(3) groups_ok_report [OF r0] by simp
  from print_group_returns [OF this c, of Group_minus LINK_SNAPSHOT] obtain s where
    s: "print_group_sizes Group_minus LINK_SNAPSHOT c s0 = Some s" "fmaps s = fmaps st" using s0(2) by auto
  have r: "report_only st s" by (rule report_only_trans [OF r0 group_sizes_report [OF s(1)]])
  from group_turn [OF r s(2) Cons.prems(1,2) c] obtain t where
    t: "mc_print_callstack (cs_depth (csh s c)) (cs_trace (csh s c)) 2 (mc_log_print (Group_total (sint (cs_total_size (csh s c)))) s) = Some t"
      "reading k A ms (fmaps t)" "report_only st t" by blast
  have "\<exists>st'. print_differences (cnt + 1) cs t = Some st' \<and> reading k A ms (fmaps st')"
    by (rule Cons.IH [OF t(2)]) (use Cons.prems frames_in_report [OF t(3)] groups_ok_report [OF t(3)] in simp_all)
  then show ?case using s0(1) s(1) t(1) by (auto simp: Let_def)
qed simp

section \<open>The arrays of call stacks\<close>

text \<open>A traversal of the table of call stacks visits \<open>L\<close>.\<close>

definition cs_listed :: "mc \<Rightarrow> addr list \<Rightarrow> bool" where
  "cs_listed st L \<longleftrightarrow> (\<exists>bs. buckets_ok (\<lambda>n. cs_hash_next (csh st n)) (\<lambda>n. trace_hash CALLSTACK_HASHTABLE_SIZE (cs_key (csh st n)))
     (cs_tbl st) CALLSTACK_HASHTABLE_SIZE bs \<and> L = node_list CALLSTACK_HASHTABLE_SIZE bs)"

lemma cs_listed_exists:
  assumes "mc_inv N F C st"
  obtains L where "cs_listed st L" "set L = C" "distinct L"
proof -
  let ?sz = CALLSTACK_HASHTABLE_SIZE
  obtain bs where bs: "buckets_ok (\<lambda>n. cs_hash_next (csh st n)) (\<lambda>n. trace_hash ?sz (cs_key (csh st n))) (cs_tbl st) ?sz bs"
    "C = nodes ?sz bs" using tables_okD(4) [OF mc_invD(1) [OF assms]] by (auto simp: cs_table_ok_def cs_table_def)
  show ?thesis by (rule that [of "node_list ?sz bs"]) (use bs distinct_node_list [OF bs(1)] in \<open>auto simp: cs_listed_def\<close>)
qed

lemma cs_each_fold:
  fixes body :: "addr \<Rightarrow> 's \<Rightarrow> ('r, 's) flow option"
  assumes "cs_listed (p s) L"
    and step: "\<And>n s s'. n \<in> set L \<Longrightarrow> body n s = Some (Next s') \<Longrightarrow>
       (\<forall>m. cs_hash_next (csh (p s') m) = cs_hash_next (csh (p s) m)) \<and> cs_tbl (p s') = cs_tbl (p s)"
  shows "for_each_hashnode (\<lambda>s n. cs_hash_next (csh (p s) n)) (\<lambda>s. cs_tbl (p s)) CALLSTACK_HASHTABLE_SIZE body s = fold_flow body L s"
proof -
  let ?sz = CALLSTACK_HASHTABLE_SIZE
  let ?nx = "\<lambda>s n. cs_hash_next (csh (p s) n)" and ?hd = "\<lambda>s. cs_tbl (p s)"
  obtain bs where bs: "buckets_ok (?nx s) (\<lambda>n. trace_hash ?sz (cs_key (csh (p s) n))) (?hd s) ?sz bs" "L = node_list ?sz bs"
    using assms(1) by (auto simp: cs_listed_def)
  show ?thesis unfolding bs(2)
  proof (rule for_each_buckets [where nx = ?nx and heads = ?hd and I = "\<lambda>s. True", OF bs(1) TrueI])
    fix n s s' assume "n \<in> nodes ?sz bs" "body n s = Some (Next s')"
    with step [of n s s'] bs(2) show "True \<and> (\<forall>m\<in>nodes ?sz bs. ?nx s' m = ?nx s m) \<and> ?hd s' = ?hd s" by simp
  qed
qed

lemma fold_flow_returns:
  "(\<And>n s. n \<in> set ns \<Longrightarrow> P s \<Longrightarrow> \<exists>s'. body n s = Some (Next s') \<and> P s') \<Longrightarrow> P s \<Longrightarrow>
   \<exists>s'. fold_flow body ns s = Some (Next s') \<and> P s'"
proof (induction ns arbitrary: s)
  case (Cons n ns)
  from Cons.prems obtain s1 where s1: "body n s = Some (Next s1)" "P s1" by (meson list.set_intros(1))
  have "\<exists>s'. fold_flow body ns s1 = Some (Next s') \<and> P s'" by (rule Cons.IH [OF _ s1(2)]) (use Cons.prems(1) in simp)
  then show ?case using s1(1) by simp
qed simp

lemma array_returns:
  assumes inv: "mc_inv N F C st" and G: "groups_ok C st G"
    and f: "\<And>c s. c \<in> C \<Longrightarrow> groups_ok C (snd s) G \<Longrightarrow>
       \<exists>r. f c s = Some r \<and> fmaps (snd r) = fmaps (snd s) \<and> set (fst r) \<subseteq> insert c (set (fst s))"
    and rep: "\<And>c s r. f c s = Some r \<Longrightarrow> report_only (snd s) (snd r)"
  shows "\<exists>arr st'. each_callstack_array f st = Some (arr, st') \<and> fmaps st' = fmaps st \<and> set arr \<subseteq> C"
proof -
  let ?b = "\<lambda>c s. do { s \<leftarrow> f c s; Some (Next s :: (unit, addr list \<times> mc) flow) }"
  obtain L where L: "set L = C" and ls: "cs_listed st L" by (rule cs_listed_exists [OF inv])
  have "for_each_hashnode (\<lambda>s n. cs_hash_next (csh (snd s) n)) (\<lambda>s. cs_tbl (snd s)) CALLSTACK_HASHTABLE_SIZE ?b ([], st) =
      fold_flow ?b L ([], st)"
  proof (rule cs_each_fold [where p = snd])
    show "cs_listed (snd ([], st)) L" using ls by simp
  next
    fix n and s s' :: "addr list \<times> mc" assume "?b n s = Some (Next s')"
    then have "f n s = Some s'" by (auto simp: Option.bind_eq_Some_conv)
    from report_only_simps(8,14) [OF rep [OF this]] show "(\<forall>m. cs_hash_next (csh (snd s') m) = cs_hash_next (csh (snd s) m)) \<and>
        cs_tbl (snd s') = cs_tbl (snd s)" by simp
  qed
  moreover have "\<exists>s'. fold_flow ?b L ([], st) = Some (Next s') \<and> (groups_ok C (snd s') G \<and> fmaps (snd s') = fmaps st \<and> set (fst s') \<subseteq> C)"
  proof (rule fold_flow_returns)
    fix n and s :: "addr list \<times> mc" assume n: "n \<in> set L" and P: "groups_ok C (snd s) G \<and> fmaps (snd s) = fmaps st \<and> set (fst s) \<subseteq> C"
    from f [of n s] n P L obtain r where r: "f n s = Some r" "fmaps (snd r) = fmaps (snd s)" "set (fst r) \<subseteq> insert n (set (fst s))" by auto
    have "groups_ok C (snd r) G" using P groups_ok_report [OF rep [OF r(1)]] by simp
    then show "\<exists>s'. ?b n s = Some (Next s') \<and> (groups_ok C (snd s') G \<and> fmaps (snd s') = fmaps st \<and> set (fst s') \<subseteq> C)"
      using r P n L by auto
  qed (use G in simp)
  ultimately show ?thesis by (auto simp: each_callstack_array_def case_prod_unfold)
qed

lemma total_returns:
  assumes "c \<in> C" "groups_ok C (snd s) G"
  shows "\<exists>r. total_per_callstack l c s = Some r \<and> fmaps (snd r) = fmaps (snd s) \<and> set (fst r) \<subseteq> insert c (set (fst s))"
proof -
  obtain arr st where s: "s = (arr, st)" by (cases s)
  have "groups_ok C (clear_total c st) G" using assms(2) s groups_ok_report [OF clear_total_report] by simp
  from totals_return(1) [OF this assms(1), of l] obtain st' where
    "each_group_member l c (add_to_total c) (clear_total c st) = Some st'" "fmaps st' = fmaps (clear_total c st)" by blast
  moreover have "fmaps (clear_total c st) = fmaps st" by (simp add: clear_total_def upd_cs_def)
  ultimately show ?thesis by (auto simp: total_per_callstack_def s Let_def)
qed

lemma difference_returns:
  assumes "c \<in> C" "groups_ok C (snd s) G"
  shows "\<exists>r. difference_per_callstack c s = Some r \<and> fmaps (snd r) = fmaps (snd s) \<and> set (fst r) \<subseteq> insert c (set (fst s))"
proof -
  obtain arr st where s: "s = (arr, st)" by (cases s)
  have g: "groups_ok C (clear_total c st) G" using assms(2) s groups_ok_report [OF clear_total_report] by simp
  from totals_return(1) [OF this assms(1), of LINK_CURRENT] obtain s1 where
    s1: "each_group_member LINK_CURRENT c (add_to_total c) (clear_total c st) = Some s1" "fmaps s1 = fmaps (clear_total c st)" by blast
  have "groups_ok C s1 G" using g groups_ok_report [OF totals_report(1) [OF s1(1)]] by simp
  from totals_return(2) [OF this assms(1), of LINK_SNAPSHOT] obtain s2 where
    s2: "each_group_member LINK_SNAPSHOT c (subtract_from_total c) s1 = Some s2" "fmaps s2 = fmaps s1" by blast
  have "fmaps (clear_total c st) = fmaps st" by (simp add: clear_total_def upd_cs_def)
  then show ?thesis using s1 s2 by (auto simp: difference_per_callstack_def s)
qed

text \<open>The number of call stacks with a group is at most that of the blocks in the groups.\<close>

lemma count_groups_returns:
  assumes inv: "mc_inv N F C st" and g: "grouped C st U S" and fin: "finite U" "finite S"
  shows "\<exists>n. count_groups ls st = Some n \<and> n \<le> card U + card S"
proof -
  let ?f = "\<lambda>c n. if has_group ls st c then n + 1 else n :: nat"
  obtain L where L: "set L = C" "distinct L" and ls: "cs_listed st L" by (rule cs_listed_exists [OF inv])
  have fold: "fold ?f xs m = m + length (filter (has_group ls st) xs)" for xs m by (induction xs arbitrary: m) auto
  have "for_each_hashnode (\<lambda>n c. cs_hash_next (csh st c)) (\<lambda>n. cs_tbl st) CALLSTACK_HASHTABLE_SIZE
      (\<lambda>c n. Some (Next (?f c n) :: (unit, nat) flow)) 0 = fold_flow (\<lambda>c n. Some (Next (?f c n))) L 0"
    using cs_each_fold [where p = "\<lambda>_. st" and body = "\<lambda>c n. Some (Next (?f c n))", OF ls] by simp
  also have "\<dots> = Some (Next (fold ?f L 0))" by (rule fold_flow_fold) simp
  finally have c: "count_groups ls st = Some (length (filter (has_group ls st) L))" by (simp add: count_groups_def fold)
  from g obtain G where G: "groups_ok C st G" "\<forall>c\<in>C. set (G LINK_CURRENT c) = {b \<in> U. am_allocator (am st b) = c} \<and>
      set (G LINK_SNAPSHOT c) = {b \<in> S. am_allocator (am st b) = c}" by (auto simp: grouped_def)
  have "set (filter (has_group ls st) L) \<subseteq> (\<lambda>b. am_allocator (am st b)) ` (U \<union> S)"
  proof
    fix x assume "x \<in> set (filter (has_group ls st) L)"
    then obtain l where x: "x \<in> C" "group_head l x st \<noteq> NULL" using L(1) by (auto simp: has_group_def)
    have "G l x \<noteq> []" using groups_okD(1) [OF G(1) x(1), of l] x(2) by auto
    then have "hd (G l x) \<in> set (G l x)" by simp
    then have "hd (G l x) \<in> U \<union> S \<and> x = am_allocator (am st (hd (G l x)))" using G(2) x(1) by (cases l) auto
    then show "x \<in> (\<lambda>b. am_allocator (am st b)) ` (U \<union> S)" by blast
  qed
  then have "card (set (filter (has_group ls st) L)) \<le> card (U \<union> S)"
    using fin by (meson card_image_le card_mono finite_UnI finite_imageI order_trans)
  moreover have "card (set (filter (has_group ls st) L)) = length (filter (has_group ls st) L)"
    using L(2) by (intro distinct_card) simp
  ultimately show ?thesis using c card_Un_le [of U S] by auto
qed

end
