(* ===== verification/MC_Check.thy ===== *)
theory MC_Check
  imports MC_Walk MC_Program
begin

text \<open>
  The check of all blocks, \<open>mc_check_all_memblk\<close>: it answers 0 exactly when every block is intact, and
  afterwards every block is, because damaged zones are filled again. The two loops have the same
  shape; \<open>patched\<close> describes both: a zone of bytes holds its pattern, and beside that only reports.
\<close>

section \<open>Patched states\<close>

definition patched :: "nat set \<Rightarrow> u8 \<Rightarrow> mc \<Rightarrow> mc \<Rightarrow> bool" where
  "patched Z v st s \<longleftrightarrow> quiet (st\<lparr>mem := mem s\<rparr>) s \<and> (\<forall>a. mem s a = (if unat a \<in> Z then v else mem st a))"

lemma patched_start: "patched {} v st st"
  by (simp add: patched_def)

lemma quiet_mem: "quiet (st\<lparr>mem := m\<rparr>) s \<Longrightarrow> quiet (st\<lparr>mem := m'\<rparr>) (s\<lparr>mem := m'\<rparr>)"
proof -
  assume "quiet (st\<lparr>mem := m\<rparr>) s"
  then obtain ls fs n where "s = st\<lparr>mem := m, log := log st @ ls, fmaps := fs, num_backtraces := n\<rparr>"
    by (auto elim: quietE)
  then show ?thesis by (intro quietI [where ls = ls and fs = fs and n = n]) simp
qed

lemma patchedD:
  assumes "patched Z v st s"
  shows "amp s = amp st" "am s = am st" "fmp s = fmp st" "fm s = fm st" "ptr_tbls s = ptr_tbls st" "free_tbl s = free_tbl st"
    "mem s a = (if unat a \<in> Z then v else mem st a)" "quiet (st\<lparr>mem := mem s\<rparr>) s"
  using assms quiet_simps [of "st\<lparr>mem := mem s\<rparr>" s] by (simp_all add: patched_def)

text \<open>A step that reports, or that reports and fills the zone \<open>W\<close>.\<close>

lemma patched_keep:
  assumes p: "patched Z v st s" and q: "quiet s s'" and w: "zone_holds (mem s) v W"
  shows "patched (Z \<union> W) v st s'"
proof -
  have m: "mem s' = mem s" using quiet_simps(17) [OF q] .
  have "mem s a = v" if "unat a \<in> W" for a
  proof -
    have "mem s (of_nat (unat a)) = v" using w that by (simp only: zone_holds_def)
    then show ?thesis by simp
  qed
  moreover have "quiet (st\<lparr>mem := mem s\<rparr>) s'" using quiet_trans [OF patchedD(8) [OF p] q] .
  ultimately show ?thesis using patchedD(7) [OF p] m by (auto simp: patched_def)
qed

lemma patched_fill:
  assumes p: "patched Z v st s" and q: "quiet s s1" and f: "s' = s1\<lparr>mem := mem s'\<rparr>"
    and m: "\<And>a. mem s' a = (if unat a \<in> W then v else mem s1 a)"
  shows "patched (Z \<union> W) v st s'"
proof -
  have "quiet (st\<lparr>mem := mem s\<rparr>) s1" using quiet_trans [OF patchedD(8) [OF p] q] .
  then have "quiet (st\<lparr>mem := mem s'\<rparr>) s'" using quiet_mem [where st = st and m = "mem s" and s = s1 and m' = "mem s'"] f by simp
  then show ?thesis using patchedD(7) [OF p] m quiet_simps(17) [OF q] by (auto simp: patched_def)
qed

lemma zone_holds_patched:
  assumes "patched Z v st s" "W \<inter> Z = {}" "W \<subseteq> {..<2 ^ 64}"
  shows "zone_holds (mem s) u W \<longleftrightarrow> zone_holds (mem st) u W"
proof -
  have "mem s (of_nat n) = mem st (of_nat n)" if "n \<in> W" for n
  proof -
    have "unat (of_nat n :: addr) = n" using that assms(3) by (intro unat_of_nat_u64) auto
    then show ?thesis using patchedD(7) [OF assms(1), of "of_nat n"] assms(2) that by auto
  qed
  then show ?thesis by (simp add: zone_holds_def)
qed

section \<open>A loop of checks\<close>

definition verdict :: "bool \<Rightarrow> int" where
  "verdict ok = (if ok then 0 else - 1)"

lemma verdict_or [simp]: "or (verdict a) (verdict b) = verdict (a \<and> b)"
  by (simp add: verdict_def)

lemma verdict_simps [simp]: "verdict True = 0" "verdict a = 0 \<longleftrightarrow> a"
  by (simp_all add: verdict_def)

lemma checks_fold:
  fixes body :: "addr \<Rightarrow> int \<times> mc \<Rightarrow> (unit, int \<times> mc) flow option"
  assumes step: "\<And>n Z r s fl. n \<in> set ns \<Longrightarrow> patched Z v st s \<Longrightarrow> zone n \<inter> Z = {} \<Longrightarrow> body n (r, s) = Some fl \<Longrightarrow>
      \<exists>s'. fl = Next (or r (verdict (zone_holds (mem st) v (zone n))), s') \<and> patched (Z \<union> zone n) v st s'"
    and "distinct ns" "\<And>n m. n \<in> set ns \<Longrightarrow> m \<in> set ns \<Longrightarrow> n \<noteq> m \<Longrightarrow> zone n \<inter> zone m = {}"
    and "patched Z v st s" "Z \<inter> (\<Union>n\<in>set ns. zone n) = {}" "fold_flow body ns (verdict a, s) = Some fl"
  obtains s' where "fl = Next (verdict (a \<and> (\<forall>n\<in>set ns. zone_holds (mem st) v (zone n))), s')"
    "patched (Z \<union> (\<Union>n\<in>set ns. zone n)) v st s'"
  using assms
proof (induction ns arbitrary: Z s a thesis)
  case Nil
  then show ?case by (intro Nil.prems(1) [of s]) auto
next
  case (Cons n ns)
  obtain f1 where f1: "body n (verdict a, s) = Some f1" using Cons.prems(7) by (cases "body n (verdict a, s)") auto
  obtain s1 where s1: "f1 = Next (verdict (a \<and> zone_holds (mem st) v (zone n)), s1)" "patched (Z \<union> zone n) v st s1"
    using Cons.prems(2) [OF _ Cons.prems(5) _ f1] Cons.prems(6) by auto
  have d: "zone n \<inter> zone m = {}" if "m \<in> set ns" for m using Cons.prems(3) Cons.prems(4) [of n m] that by auto
  show ?case
  proof (rule Cons.IH [where Z = "Z \<union> zone n" and s = s1 and a = "a \<and> zone_holds (mem st) v (zone n)"])
    show "fold_flow body ns (verdict (a \<and> zone_holds (mem st) v (zone n)), s1) = Some fl" using Cons.prems(7) f1 s1(1) by simp
    show "(Z \<union> zone n) \<inter> (\<Union>n\<in>set ns. zone n) = {}" using Cons.prems(6) d by auto
    show "patched (Z \<union> zone n) v st s1" by (rule s1)
    show "distinct ns" using Cons.prems(3) by simp
  qed (use Cons.prems(1,2,4) in \<open>auto simp: Un_assoc conj_assoc\<close>)
qed

section \<open>The two bodies\<close>

lemma check_alloc_body_frame:
  assumes "check_alloc_body n s = Some (Next s')"
  shows "amp (snd s') = amp (snd s)" "ptr_tbls (snd s') = ptr_tbls (snd s)" "fmp (snd s') = fmp (snd s)" "free_tbl (snd s') = free_tbl (snd s)"
proof -
  obtain rc s1 where c: "mc_check_allocated_buffer (get_alloc_memblk_from_memptr n) False (snd s) = Some (rc, s1)"
    "s' = (or (fst s) rc, if rc \<noteq> 0 then mc_set_allocated_buffer (get_alloc_memblk_from_memptr n) False s1 else s1)"
    using assms by (auto simp: check_alloc_body_def Let_def split: prod.splits Option.bind_splits)
  note Q = quiet_simps [OF mc_check_allocated_buffer_quiet [OF c(1)]]
  show "amp (snd s') = amp (snd s)" "ptr_tbls (snd s') = ptr_tbls (snd s)" "fmp (snd s') = fmp (snd s)" "free_tbl (snd s') = free_tbl (snd s)"
    using Q by (auto simp: c(2) mc_set_allocated_buffer_def Let_def)
qed

lemma check_free_body_frame:
  assumes "check_free_body n s = Some (Next s')"
  shows "fmp (snd s') = fmp (snd s)" "free_tbl (snd s') = free_tbl (snd s)"
proof -
  obtain rc s1 where c: "mc_check_freed_buffer (get_free_memblk_from_memptr n) (snd s) = Some (rc, s1)"
    "s' = (or (fst s) rc, if rc \<noteq> 0 then mc_set_freed_buffer (get_free_memblk_from_memptr n) s1 else s1)"
    using assms by (auto simp: check_free_body_def Let_def split: prod.splits Option.bind_splits)
  note Q = quiet_simps [OF mc_check_freed_buffer_quiet [OF c(1)]]
  show "fmp (snd s') = fmp (snd s)" "free_tbl (snd s') = free_tbl (snd s)"
    using Q by (auto simp: c(2) mc_set_freed_buffer_def Let_def)
qed

lemma block_zones_bound: "block_layout st b \<Longrightarrow> block_zones st b \<subseteq> {..<2 ^ 64}"
  by (auto simp: block_layout_def layout_ok_def block_zones_def leading_zone_def trailing_zone_def Let_def intro: less_le_trans)

lemma freed_zone_bound: "freed_layout st f \<Longrightarrow> freed_zone st f \<subseteq> {..<2 ^ 64}"
  by (auto simp: freed_layout_def freed_zone_def Let_def)

lemma check_alloc_step:
  assumes l: "block_layout st b" and p: "patched Z REDZONE_PATTERN st s" and d: "block_zones st b \<inter> Z = {}"
    and run: "check_alloc_body (memptr_of b) (r, s) = Some fl"
  shows "\<exists>s'. fl = Next (or r (verdict (zone_holds (mem st) REDZONE_PATTERN (block_zones st b))), s') \<and>
     patched (Z \<union> block_zones st b) REDZONE_PATTERN st s'"
proof -
  note P = patchedD [OF p]
  have z: "block_zones s b = block_zones st b" "block_layout s b" using P l by (simp_all add: block_zones_def block_layout_def Let_def)
  have hold: "zone_holds (mem s) REDZONE_PATTERN (block_zones st b) \<longleftrightarrow> zone_holds (mem st) REDZONE_PATTERN (block_zones st b)"
    by (rule zone_holds_patched [OF p d block_zones_bound [OF l]])
  obtain rc s1 where c: "mc_check_allocated_buffer b False s = Some (rc, s1)"
    "fl = Next (or r rc, if rc \<noteq> 0 then mc_set_allocated_buffer b False s1 else s1)"
    using run by (auto simp: check_alloc_body_def Let_def split: Option.bind_splits)
  note q = mc_check_allocated_buffer_quiet [OF c(1)]
  have rc: "rc = verdict (zone_holds (mem st) REDZONE_PATTERN (block_zones st b))"
    using mc_check_allocated_buffer_rc [OF z(2) c(1)] hold z(1) by (simp add: block_intact_def verdict_def)
  show ?thesis
  proof (cases "zone_holds (mem st) REDZONE_PATTERN (block_zones st b)")
    case True
    then have "rc = 0" using rc by simp
    then show ?thesis using c(2) rc True patched_keep [OF p q] hold by auto
  next
    case False
    let ?s' = "mc_set_allocated_buffer b False s1"
    have z1: "block_zones s1 b = block_zones st b" "block_layout s1 b"
      using quiet_simps [OF q] z by (simp_all add: block_zones_def block_layout_def Let_def)
    have "patched (Z \<union> block_zones st b) REDZONE_PATTERN st ?s'"
      by (rule patched_fill [OF p q mc_set_allocated_buffer_frame]) (simp add: mc_set_allocated_buffer_mem [OF z1(2)] z1(1))
    moreover have "rc \<noteq> 0" using rc False by simp
    ultimately show ?thesis using c(2) rc by auto
  qed
qed

lemma check_free_step:
  assumes l: "freed_layout st f" and p: "patched Z FREEDBUF_PATTERN st s" and d: "freed_zone st f \<inter> Z = {}"
    and run: "check_free_body (memptr_of f) (r, s) = Some fl"
  shows "\<exists>s'. fl = Next (or r (verdict (zone_holds (mem st) FREEDBUF_PATTERN (freed_zone st f))), s') \<and>
     patched (Z \<union> freed_zone st f) FREEDBUF_PATTERN st s'"
proof -
  note P = patchedD [OF p]
  have z: "freed_zone s f = freed_zone st f" "freed_layout s f" using P l by (simp_all add: freed_zone_def freed_layout_def Let_def)
  have hold: "zone_holds (mem s) FREEDBUF_PATTERN (freed_zone st f) \<longleftrightarrow> zone_holds (mem st) FREEDBUF_PATTERN (freed_zone st f)"
    by (rule zone_holds_patched [OF p d freed_zone_bound [OF l]])
  obtain rc s1 where c: "mc_check_freed_buffer f s = Some (rc, s1)"
    "fl = Next (or r rc, if rc \<noteq> 0 then mc_set_freed_buffer f s1 else s1)"
    using run by (auto simp: check_free_body_def Let_def split: Option.bind_splits)
  note q = mc_check_freed_buffer_quiet [OF c(1)]
  have rc: "rc = verdict (zone_holds (mem st) FREEDBUF_PATTERN (freed_zone st f))"
    using mc_check_freed_buffer_rc [OF z(2) c(1)] hold z(1) by (simp add: freed_intact_def verdict_def)
  show ?thesis
  proof (cases "zone_holds (mem st) FREEDBUF_PATTERN (freed_zone st f)")
    case True
    then have "rc = 0" using rc by simp
    then show ?thesis using c(2) rc True patched_keep [OF p q] hold by auto
  next
    case False
    let ?s' = "mc_set_freed_buffer f s1"
    have z1: "freed_zone s1 f = freed_zone st f" "freed_layout s1 f"
      using quiet_simps [OF q] z by (simp_all add: freed_zone_def freed_layout_def Let_def)
    have "patched (Z \<union> freed_zone st f) FREEDBUF_PATTERN st ?s'"
      by (rule patched_fill [OF p q mc_set_freed_buffer_frame]) (simp add: mc_set_freed_buffer_mem [OF z1(2)] z1(1))
    moreover have "rc \<noteq> 0" using rc False by simp
    ultimately show ?thesis using c(2) rc by auto
  qed
qed

section \<open>All blocks\<close>

text \<open>A clean state but for the bytes of the red zones and the freed buffers.\<close>

definition laid_out :: "mc \<Rightarrow> bool" where
  "laid_out st \<longleftrightarrow> mc_ok st \<and> initialized st \<and> do_not_hook st = 0 \<and> (\<forall>x\<in>entries st. entry_ok x) \<and> apart (entries st)"

definition all_intact :: "mc \<Rightarrow> bool" where
  "all_intact st \<longleftrightarrow>
     (\<forall>p m. live_view st p = Some m \<longrightarrow> zone_holds (mem st) REDZONE_PATTERN (zones_of p m)) \<and>
     (\<forall>(p, m)\<in>set (quarantine_view st). zone_holds (mem st) FREEDBUF_PATTERN (buffer_of m))"

lemma clean_laid_out: "clean st \<longleftrightarrow> laid_out st \<and> all_intact st"
  by (auto simp: clean_def laid_out_def all_intact_def)

text \<open>The objects of the two tables under the two views.\<close>

lemma laid_out_tables:
  assumes "laid_out st"
  obtains N F C where "mc_inv N F C st"
    "\<And>b. b \<in> N Live \<Longrightarrow> live_view st (usr_of st b) = Some (am_memblk (am st b)) \<and> block_layout st b \<and>
       block_zones st b = zones_of (usr_of st b) (am_memblk (am st b)) \<and> block_zones st b \<subseteq> buffer_of (am_memblk (am st b))"
    "\<And>p m. live_view st p = Some m \<Longrightarrow> \<exists>b\<in>N Live. p = usr_of st b \<and> m = am_memblk (am st b)"
    "\<And>b c. b \<in> N Live \<Longrightarrow> c \<in> N Live \<Longrightarrow> b \<noteq> c \<Longrightarrow> block_zones st b \<inter> block_zones st c = {}"
    "\<And>f. f \<in> F \<Longrightarrow> freed_layout st f \<and> freed_zone st f = buffer_of (fm_memblk (fm st f))"
    "set (quarantine_view st) = (\<lambda>f. (fusr_of st f, fm_memblk (fm st f))) ` F"
    "\<And>f g. f \<in> F \<Longrightarrow> g \<in> F \<Longrightarrow> f \<noteq> g \<Longrightarrow> freed_zone st f \<inter> freed_zone st g = {}"
    "\<And>f p m. f \<in> F \<Longrightarrow> live_view st p = Some m \<Longrightarrow> buffer_of m \<inter> freed_zone st f = {}"
proof -
  from assms obtain N F C where I: "mc_inv N F C st" by (auto simp: laid_out_def mc_ok_def)
  note T = mc_invD [OF I]
  have inj: "inj_on (usr_of st) (N Live)" "inj_on (fusr_of st) F" "usr_of st ` N Live \<inter> fusr_of st ` F = {}"
    using T(2) by (auto simp: keys_ok_def)
  note at = live_view_at [OF T(1) inj(1)]
  have ap: "buffer_of m \<inter> buffer_of n = {}" if "(p, m) \<in> entries st" "(q, n) \<in> entries st" "p \<noteq> q" for p m q n
    using assms that unfolding laid_out_def apart_def by fast
  have eok: "entry_ok (p, m)" if "(p, m) \<in> entries st" for p m using assms that by (auto simp: laid_out_def)
  have le: "(usr_of st b, am_memblk (am st b)) \<in> entries st" if "b \<in> N Live" for b using at [OF that] by (simp add: entries_def)
  have lay: "block_layout st b" "block_zones st b = zones_of (usr_of st b) (am_memblk (am st b))"
    "block_zones st b \<subseteq> buffer_of (am_memblk (am st b))" if "b \<in> N Live" for b
  proof -
    show "block_layout st b" using eok [OF le [OF that]] by (simp add: entry_ok_def block_layout_def usr_of_def Let_def)
    show z: "block_zones st b = zones_of (usr_of st b) (am_memblk (am st b))"
      by (simp add: block_zones_def zones_of_def usr_of_def Let_def)
    show "block_zones st b \<subseteq> buffer_of (am_memblk (am st b))" using zones_in_buffer [OF eok [OF le [OF that]]] z by simp
  qed
  have live: "\<exists>b\<in>N Live. p = usr_of st b \<and> m = am_memblk (am st b)" if "live_view st p = Some m" for p m
  proof -
    have "p \<in> usr_of st ` N Live" using dom_live_view [OF T(1) inj(1)] that by auto
    then show ?thesis using at that by auto
  qed
  have qv: "set (quarantine_view st) = (\<lambda>f. (fusr_of st f, fm_memblk (fm st f))) ` F"
    using T(3) by (simp add: quarantine_view_def queue_ok_def)
  have fe: "(fusr_of st f, fm_memblk (fm st f)) \<in> entries st" if "f \<in> F" for f using qv that by (simp add: entries_def)
  have fz: "freed_zone st f = buffer_of (fm_memblk (fm st f))" for f by (simp add: freed_zone_def buffer_of_def Let_def)
  have fl: "freed_layout st f" if "f \<in> F" for f
    using eok [OF fe [OF that]] by (simp add: entry_ok_def freed_layout_def layout_ok_def Let_def)
  show ?thesis
  proof (rule that [OF I])
    show "live_view st (usr_of st b) = Some (am_memblk (am st b)) \<and> block_layout st b \<and>
       block_zones st b = zones_of (usr_of st b) (am_memblk (am st b)) \<and> block_zones st b \<subseteq> buffer_of (am_memblk (am st b))"
      if "b \<in> N Live" for b using at [OF that] lay [OF that] by blast
    show "block_zones st b \<inter> block_zones st c = {}" if "b \<in> N Live" "c \<in> N Live" "b \<noteq> c" for b c
    proof -
      have "usr_of st b \<noteq> usr_of st c" using inj(1) that by (auto simp: inj_on_def)
      then show ?thesis using ap [OF le [OF that(1)] le [OF that(2)]] lay(3) [OF that(1)] lay(3) [OF that(2)] by blast
    qed
    show "freed_zone st f \<inter> freed_zone st g = {}" if "f \<in> F" "g \<in> F" "f \<noteq> g" for f g
    proof -
      have "fusr_of st f \<noteq> fusr_of st g" using inj(2) that by (auto simp: inj_on_def)
      then show ?thesis using ap [OF fe [OF that(1)] fe [OF that(2)]] fz by simp
    qed
    show "buffer_of m \<inter> freed_zone st f = {}" if "f \<in> F" "live_view st p = Some m" for f p m
    proof -
      have "p \<noteq> fusr_of st f" using live [OF that(2)] inj(3) that(1) by blast
      moreover have "(p, m) \<in> entries st" using that(2) by (simp add: entries_def)
      ultimately show ?thesis using ap [OF _ fe [OF that(1)]] fz by simp
    qed
  qed (use live qv fl fz in auto)
qed

text \<open>The two loops as folds over the objects of the tables.\<close>

lemma free_table_listed:
  assumes "tables_ok N X F Y C st"
  obtains bs where
    "buckets_ok (\<lambda>n. mp_hash_next (fmp st n)) (\<lambda>n. calc_ptr_hash (mp_ptr (fmp st n)) FREE_MEMPTR_HASHTABLE_SIZE) (free_tbl st)
       FREE_MEMPTR_HASHTABLE_SIZE bs" "set (node_list FREE_MEMPTR_HASHTABLE_SIZE bs) = memptr_of ` F"
    "distinct (node_list FREE_MEMPTR_HASHTABLE_SIZE bs)"
  using tables_okD(3) [OF assms] distinct_node_list by (fastforce simp: ptr_table_ok_def free_table_def)

lemma check_loops:
  assumes "tables_ok N X F Y C st"
  obtains ns fs where "distinct ns" "set ns = memptr_of ` N Live" "distinct fs" "set fs = memptr_of ` F"
    "mc_check_all_memblk st = do {
       fl \<leftarrow> fold_flow check_alloc_body ns (0, st);
       fl \<leftarrow> fold_flow check_free_body fs (flow_state fl);
       Some (flow_state fl)
     }"
proof -
  obtain ns where ns: "listed Live st ns" "distinct ns" "set ns = memptr_of ` N Live" "0 \<notin> set ns"
    by (rule listed_exists [OF tables_okD(2) [OF assms, of Live]])
  obtain bs where bs:
    "buckets_ok (\<lambda>n. mp_hash_next (fmp st n)) (\<lambda>n. calc_ptr_hash (mp_ptr (fmp st n)) FREE_MEMPTR_HASHTABLE_SIZE) (free_tbl st)
       FREE_MEMPTR_HASHTABLE_SIZE bs" "set (node_list FREE_MEMPTR_HASHTABLE_SIZE bs) = memptr_of ` F"
    "distinct (node_list FREE_MEMPTR_HASHTABLE_SIZE bs)"
    by (rule free_table_listed [OF assms])
  let ?fs = "node_list FREE_MEMPTR_HASHTABLE_SIZE bs"
  have nx: "(\<lambda>(ret :: int, st) n. mp_hash_next (amp st n)) = (\<lambda>s n. mp_hash_next (amp (snd s) n))"
    "(\<lambda>(ret :: int, st). ptr_tbls st Live) = (\<lambda>s. ptr_tbls (snd s) Live)"
    "(\<lambda>(ret :: int, st) n. mp_hash_next (fmp st n)) = (\<lambda>s n. mp_hash_next (fmp (snd s) n))"
    "(\<lambda>(ret :: int, st). free_tbl st) = (\<lambda>s. free_tbl (snd s))"
    by (auto simp: fun_eq_iff)
  have 1: "for_each_hashnode (\<lambda>s n. mp_hash_next (amp (snd s) n)) (\<lambda>s. ptr_tbls (snd s) Live) ALLOC_MEMPTR_HASHTABLE_SIZE
      check_alloc_body (0, st) = fold_flow check_alloc_body ns (0, st)"
    by (rule for_each_fold [where I = "\<lambda>_. True"]) (use ns(1) check_alloc_body_frame in auto)
  have 2: "for_each_hashnode (\<lambda>s n. mp_hash_next (fmp (snd s) n)) (\<lambda>s. free_tbl (snd s)) FREE_MEMPTR_HASHTABLE_SIZE
      check_free_body s = fold_flow check_free_body ?fs s" if "fmp (snd s) = fmp st" "free_tbl (snd s) = free_tbl st" for s
    by (rule for_each_buckets [where I = "\<lambda>_. True" and h = "\<lambda>n. calc_ptr_hash (mp_ptr (fmp st n)) FREE_MEMPTR_HASHTABLE_SIZE"])
      (use that bs(1) check_free_body_frame in auto)
  have 3: "fmp (snd (flow_state fl)) = fmp st \<and> free_tbl (snd (flow_state fl)) = free_tbl st"
    if "fold_flow check_alloc_body ms s = Some fl" "fmp (snd s) = fmp st" "free_tbl (snd s) = free_tbl st" for ms s fl
    using that
  proof (induction ms arbitrary: s)
    case Nil
    then show ?case by (auto simp: flow_state_def)
  next
    case (Cons m ms)
    obtain f1 where f1: "check_alloc_body m s = Some f1" using Cons.prems(1) by (cases "check_alloc_body m s") auto
    then obtain s1 where s1: "f1 = Next s1"
      by (auto simp: check_alloc_body_def Let_def split: prod.splits Option.bind_splits)
    have "fmp (snd s1) = fmp (snd s)" "free_tbl (snd s1) = free_tbl (snd s)"
      using check_alloc_body_frame(3,4) [of m s s1] f1 s1 by simp_all
    then show ?case using Cons.IH [of s1] Cons.prems f1 s1 by simp
  qed
  show ?thesis
  proof (rule that [OF ns(2,3) bs(3,2)])
    show "mc_check_all_memblk st = do {
       fl \<leftarrow> fold_flow check_alloc_body ns (0, st);
       fl \<leftarrow> fold_flow check_free_body ?fs (flow_state fl);
       Some (flow_state fl)
     }"
      unfolding mc_check_all_memblk_def nx 1
    proof (rule Option.bind_cong [OF refl])
      fix fl assume "fold_flow check_alloc_body ns (0, st) = Some fl"
      from 3 [OF this] show "(for_each_hashnode (\<lambda>s n. mp_hash_next (fmp (snd s) n)) (\<lambda>s. free_tbl (snd s)) FREE_MEMPTR_HASHTABLE_SIZE
          check_free_body (flow_state fl) \<bind> (\<lambda>fl. Some (flow_state fl))) =
        (fold_flow check_free_body ?fs (flow_state fl) \<bind> (\<lambda>fl. Some (flow_state fl)))" by (simp add: 2)
    qed
  qed
qed

lemma quiet_initialized: "quiet st s \<Longrightarrow> initialized s = initialized st"
  by (auto elim: quietE)

lemma patched_laid_out:
  assumes "patched Z v st s"
  shows "live_view s = live_view st" "quarantine_view s = quarantine_view st" "laid_out s = laid_out st"
proof -
  note q = patchedD(8) [OF assms]
  show v: "live_view s = live_view st" "quarantine_view s = quarantine_view st" using quiet_views [OF q] by simp_all
  have "mc_ok s = mc_ok st" using quiet_mc_inv [OF q] mem_frame(4) [where st = st and m = "mem s"] by (simp add: mc_ok_def)
  moreover have "initialized s = initialized st" using quiet_initialized [OF q] by simp
  ultimately show "laid_out s = laid_out st" using v quiet_simps(18) [OF q] by (simp add: laid_out_def entries_def)
qed

lemma zone_patched: "patched Z v st s \<Longrightarrow> W \<subseteq> Z \<Longrightarrow> Z \<subseteq> {..<2 ^ 64} \<Longrightarrow> zone_holds (mem s) v W"
proof -
  assume p: "patched Z v st s" and w: "W \<subseteq> Z" "Z \<subseteq> {..<2 ^ 64}"
  have "mem s (of_nat n) = v" if "n \<in> W" for n
  proof -
    have "n < 2 ^ 64" using w that by auto
    then have "unat (of_nat n :: addr) = n" by (rule unat_of_nat_u64)
    then show ?thesis using patchedD(7) [OF p, of "of_nat n"] w(1) that by auto
  qed
  then show ?thesis by (simp add: zone_holds_def)
qed

lemma check_all_result:
  assumes L: "laid_out st" and run: "mc_check_all_memblk st = Some (rc, st')"
  shows "rc = verdict (all_intact st)" "clean st'" "live_view st' = live_view st" "quarantine_view st' = quarantine_view st"
    "\<And>p m n. live_view st p = Some m \<Longrightarrow> n \<in> user_bytes p m \<Longrightarrow> mem st' (of_nat n) = mem st (of_nat n)"
proof -
  obtain N F C where I: "mc_inv N F C st"
    and B: "\<And>b. b \<in> N Live \<Longrightarrow> live_view st (usr_of st b) = Some (am_memblk (am st b)) \<and> block_layout st b \<and>
       block_zones st b = zones_of (usr_of st b) (am_memblk (am st b)) \<and> block_zones st b \<subseteq> buffer_of (am_memblk (am st b))"
    and V: "\<And>p m. live_view st p = Some m \<Longrightarrow> \<exists>b\<in>N Live. p = usr_of st b \<and> m = am_memblk (am st b)"
    and BD: "\<And>b c. b \<in> N Live \<Longrightarrow> c \<in> N Live \<Longrightarrow> b \<noteq> c \<Longrightarrow> block_zones st b \<inter> block_zones st c = {}"
    and FL: "\<And>f. f \<in> F \<Longrightarrow> freed_layout st f \<and> freed_zone st f = buffer_of (fm_memblk (fm st f))"
    and Q: "set (quarantine_view st) = (\<lambda>f. (fusr_of st f, fm_memblk (fm st f))) ` F"
    and FD: "\<And>f g. f \<in> F \<Longrightarrow> g \<in> F \<Longrightarrow> f \<noteq> g \<Longrightarrow> freed_zone st f \<inter> freed_zone st g = {}"
    and LF: "\<And>f p m. f \<in> F \<Longrightarrow> live_view st p = Some m \<Longrightarrow> buffer_of m \<inter> freed_zone st f = {}"
    by (rule laid_out_tables [OF L]) (rule that)
  obtain ns fs where ns: "distinct ns" "set ns = memptr_of ` N Live" and fs: "distinct fs" "set fs = memptr_of ` F"
    and loops: "mc_check_all_memblk st = do {
       fl \<leftarrow> fold_flow check_alloc_body ns (0, st);
       fl \<leftarrow> fold_flow check_free_body fs (flow_state fl);
       Some (flow_state fl) }"
    by (rule check_loops [OF mc_invD(1) [OF I]])
  let ?bz = "\<lambda>n. block_zones st (get_alloc_memblk_from_memptr n)" and ?fz = "\<lambda>n. freed_zone st (get_free_memblk_from_memptr n)"
  have bzd: "?bz n \<inter> ?bz m = {}" if "n \<in> set ns" "m \<in> set ns" "n \<noteq> m" for n m
  proof -
    from that ns(2) obtain b c where "b \<in> N Live" "n = memptr_of b" "c \<in> N Live" "m = memptr_of c" by auto
    then show ?thesis using BD [of b c] that(3) by auto
  qed
  have fzd: "?fz n \<inter> ?fz m = {}" if "n \<in> set fs" "m \<in> set fs" "n \<noteq> m" for n m
  proof -
    from that fs(2) obtain f g where "f \<in> F" "n = memptr_of f" "g \<in> F" "m = memptr_of g" by auto
    then show ?thesis using FD [of f g] that(3) by auto
  qed
  define ZL where "ZL = (\<Union>n\<in>set ns. ?bz n)"
  define ZF where "ZF = (\<Union>n\<in>set fs. ?fz n)"
  have zl: "ZL = (\<Union>b\<in>N Live. block_zones st b)" and zf: "ZF = (\<Union>f\<in>F. freed_zone st f)"
    by (simp_all add: ZL_def ZF_def ns(2) fs(2))
  have bound: "ZL \<subseteq> {..<2 ^ 64}" "ZF \<subseteq> {..<2 ^ 64}"
    using block_zones_bound B freed_zone_bound FL unfolding zl zf by blast+
  have sep: "ZL \<inter> ZF = {}" using LF B unfolding zl zf by fast
  from run loops obtain f1 f2 where f1: "fold_flow check_alloc_body ns (verdict True, st) = Some f1"
    and f2: "fold_flow check_free_body fs (flow_state f1) = Some f2" and rc: "(rc, st') = flow_state f2"
    by (auto split: Option.bind_splits)
  obtain s1 where s1: "f1 = Next (verdict (True \<and> (\<forall>n\<in>set ns. zone_holds (mem st) REDZONE_PATTERN (?bz n))), s1)"
    "patched ({} \<union> ZL) REDZONE_PATTERN st s1"
    unfolding ZL_def
  proof (rule checks_fold [where zone = ?bz and body = check_alloc_body, OF _ ns(1) _ patched_start _ f1])
    fix n Z r s fl
    assume n: "n \<in> set ns" "patched Z REDZONE_PATTERN st s" "?bz n \<inter> Z = {}" "check_alloc_body n (r, s) = Some fl"
    then obtain b where b: "b \<in> N Live" "n = memptr_of b" using ns(2) by auto
    show "\<exists>s'. fl = Next (or r (verdict (zone_holds (mem st) REDZONE_PATTERN (?bz n))), s') \<and> patched (Z \<union> ?bz n) REDZONE_PATTERN st s'"
      using check_alloc_step [of st b Z s r fl] B [OF b(1)] n b(2) by simp
  qed (use bzd in simp_all)
  have p1: "patched ZL REDZONE_PATTERN st s1" using s1(2) by simp
  note P1 = patchedD [OF p1]
  have fz1: "freed_zone s1 f = freed_zone st f" "freed_layout s1 f = freed_layout st f" for f
    using P1 by (simp_all add: freed_zone_def freed_layout_def Let_def)
  have f2': "fold_flow check_free_body fs (verdict (\<forall>n\<in>set ns. zone_holds (mem st) REDZONE_PATTERN (?bz n)), s1) = Some f2"
    using f2 s1(1) by (simp add: flow_state_def)
  obtain s2 where s2: "f2 = Next (verdict ((\<forall>n\<in>set ns. zone_holds (mem st) REDZONE_PATTERN (?bz n)) \<and>
        (\<forall>n\<in>set fs. zone_holds (mem s1) FREEDBUF_PATTERN (?fz n))), s2)"
    "patched ({} \<union> ZF) FREEDBUF_PATTERN s1 s2"
    unfolding ZF_def
  proof (rule checks_fold [where zone = ?fz and body = check_free_body, OF _ fs(1) _ patched_start _ f2'])
    fix n Z r s fl
    assume n: "n \<in> set fs" "patched Z FREEDBUF_PATTERN s1 s" "?fz n \<inter> Z = {}" "check_free_body n (r, s) = Some fl"
    then obtain f where f: "f \<in> F" "n = memptr_of f" using fs(2) by auto
    show "\<exists>s'. fl = Next (or r (verdict (zone_holds (mem s1) FREEDBUF_PATTERN (?fz n))), s') \<and> patched (Z \<union> ?fz n) FREEDBUF_PATTERN s1 s'"
      using check_free_step [of s1 f Z s r fl] FL [OF f(1)] n f(2) fz1 by simp
  qed (use fzd fz1 in simp_all)
  have p2: "patched ZF FREEDBUF_PATTERN s1 s2" using s2(2) by simp
  note P2 = patchedD [OF p2]
  have st': "st' = s2" using rc s2(1) by (simp add: flow_state_def)
  have freed: "zone_holds (mem s1) FREEDBUF_PATTERN (freed_zone st f) = zone_holds (mem st) FREEDBUF_PATTERN (freed_zone st f)" if "f \<in> F" for f
    by (rule zone_holds_patched [OF p1]) (use that sep zf bound(2) in auto)
  have "all_intact st \<longleftrightarrow> (\<forall>b\<in>N Live. zone_holds (mem st) REDZONE_PATTERN (block_zones st b)) \<and>
      (\<forall>f\<in>F. zone_holds (mem st) FREEDBUF_PATTERN (freed_zone st f))"
    unfolding all_intact_def Q using B V FL by fastforce
  then show "rc = verdict (all_intact st)"
    using rc s2(1) ns(2) fs(2) freed by (simp add: flow_state_def)
  show v: "live_view st' = live_view st" "quarantine_view st' = quarantine_view st"
    using patched_laid_out [OF p1] patched_laid_out [OF p2] st' by simp_all
  have L': "laid_out st'" using patched_laid_out [OF p1] patched_laid_out [OF p2] st' L by simp
  have "all_intact st'"
    unfolding all_intact_def v
  proof (intro conjI allI impI ballI)
    fix p m assume "live_view st p = Some m"
    then obtain b where b: "b \<in> N Live" "zones_of p m = block_zones st b" using V B by metis
    have "zone_holds (mem s1) REDZONE_PATTERN (block_zones st b)"
      by (rule zone_patched [OF p1 _ bound(1)]) (use b(1) zl in auto)
    moreover have "block_zones st b \<inter> ZF = {}" "block_zones st b \<subseteq> {..<2 ^ 64}" using b(1) sep zl bound(1) by auto
    ultimately show "zone_holds (mem st') REDZONE_PATTERN (zones_of p m)"
      using zone_holds_patched [OF p2] b(2) st' by simp
  next
    fix x assume "x \<in> set (quarantine_view st)"
    then obtain f where f: "f \<in> F" "snd x = fm_memblk (fm st f)" using Q by auto
    have "zone_holds (mem s2) FREEDBUF_PATTERN (freed_zone st f)"
      by (rule zone_patched [OF p2 _ bound(2)]) (use f(1) zf in auto)
    then show "case x of (p, m) \<Rightarrow> zone_holds (mem st') FREEDBUF_PATTERN (buffer_of m)"
      using f FL [OF f(1)] st' by (cases x) simp
  qed
  then show "clean st'" using L' clean_laid_out by blast
  show "mem st' (of_nat n) = mem st (of_nat n)" if m: "live_view st p = Some m" and n: "n \<in> user_bytes p m" for p m n
  proof -
    have e: "entry_ok (p, m)" using L m by (auto simp: laid_out_def entries_def)
    have nb: "n \<in> buffer_of m" "n < 2 ^ 64" using zones_in_buffer [OF e] buffer_bound [OF e] n by auto
    then have u: "unat (of_nat n :: addr) = n" by (intro unat_of_nat_u64)
    obtain b where b: "b \<in> N Live" "p = usr_of st b" "m = am_memblk (am st b)" using V [OF m] by blast
    have "n \<notin> block_zones st c" if c: "c \<in> N Live" for c
    proof (cases "c = b")
      case True
      have "layout_ok (mb_buf m) p (mb_bufsize m) (mb_usrsize m)" using e by (simp add: entry_ok_def)
      then show ?thesis using buffer_split(2) n B [OF b(1)] b(2,3) True by auto
    next
      case False
      have "p \<noteq> usr_of st c" using mc_invD(2) [OF I] b(1,2) c False by (auto simp: keys_ok_def inj_on_def)
      moreover have "(p, m) \<in> entries st" "(usr_of st c, am_memblk (am st c)) \<in> entries st"
        using m B [OF c] by (simp_all add: entries_def)
      ultimately have "buffer_of m \<inter> buffer_of (am_memblk (am st c)) = {}" using L unfolding laid_out_def apart_def by fast
      then show ?thesis using B [OF c] nb(1) by blast
    qed
    then have "n \<notin> ZL" by (simp add: zl)
    moreover have "n \<notin> ZF" using LF [OF _ m] nb(1) zf by auto
    ultimately show ?thesis using P1(7) [of "of_nat n"] P2(7) [of "of_nat n"] u st' by simp
  qed
qed

text \<open>When nothing is damaged the check returns and leaves no trace.\<close>

lemma fold_flow_still: "(\<And>n. n \<in> set ns \<Longrightarrow> body n s = Some (Next s)) \<Longrightarrow> fold_flow body ns s = Some (Next s)"
  by (induction ns) simp_all

lemma check_all_clean:
  assumes "clean st"
  shows "mc_check_all_memblk st = Some (0, st)"
proof -
  have L: "laid_out st" "all_intact st" using assms clean_laid_out by auto
  obtain N F C where I: "mc_inv N F C st"
    and B: "\<And>b. b \<in> N Live \<Longrightarrow> live_view st (usr_of st b) = Some (am_memblk (am st b)) \<and> block_layout st b \<and>
       block_zones st b = zones_of (usr_of st b) (am_memblk (am st b)) \<and> block_zones st b \<subseteq> buffer_of (am_memblk (am st b))"
    and FL: "\<And>f. f \<in> F \<Longrightarrow> freed_layout st f \<and> freed_zone st f = buffer_of (fm_memblk (fm st f))"
    and Q: "set (quarantine_view st) = (\<lambda>f. (fusr_of st f, fm_memblk (fm st f))) ` F"
    by (rule laid_out_tables [OF L(1)]) (rule that)
  obtain ns fs where ns: "set ns = memptr_of ` N Live" and fs: "set fs = memptr_of ` F"
    and loops: "mc_check_all_memblk st = do {
       fl \<leftarrow> fold_flow check_alloc_body ns (0, st);
       fl \<leftarrow> fold_flow check_free_body fs (flow_state fl);
       Some (flow_state fl) }"
    by (rule check_loops [OF mc_invD(1) [OF I]])
  have "check_alloc_body n (0, st) = Some (Next (0, st))" if n: "n \<in> set ns" for n
  proof -
    obtain b where b: "b \<in> N Live" "n = memptr_of b" using n ns by auto
    have "block_intact st b" using B [OF b(1)] L(2) by (simp add: block_intact_def all_intact_def)
    then show ?thesis using mc_check_allocated_buffer_intact [of st b False] B [OF b(1)] b(2) by (simp add: check_alloc_body_def)
  qed
  moreover have "check_free_body n (0, st) = Some (Next (0, st))" if n: "n \<in> set fs" for n
  proof -
    obtain f where f: "f \<in> F" "n = memptr_of f" using n fs by auto
    then have "(fusr_of st f, fm_memblk (fm st f)) \<in> set (quarantine_view st)" using Q by auto
    then have "freed_intact st f" using L(2) FL [OF f(1)] by (auto simp: freed_intact_def all_intact_def)
    then show ?thesis using mc_check_freed_buffer_intact [of st f] FL [OF f(1)] f(2) by (simp add: check_free_body_def)
  qed
  ultimately show ?thesis using loops by (simp add: fold_flow_still flow_state_def)
qed

end
