(* ===== verification/MC_Returns.thy ===== *)
theory MC_Returns
  imports MC_Reading MC_Check
begin

text \<open>
  The commands of the worker return, all but the one for the virtual memory. What they need beside a
  settled record is that the frames of the call stacks can be resolved: \<open>ready\<close> of \<open>MC_Lookup\<close> gives
  one reading of \<open>/proc/self/maps\<close> for each report, and the objects the frames lie in.
\<close>

section \<open>The listings\<close>

text \<open>What the steps before a report keep.\<close>

definition printable :: "addr set \<Rightarrow> addr set \<Rightarrow> mc \<Rightarrow> bool" where
  "printable A C st \<longleftrightarrow> frames_in A C st \<and> permutes (qsort st)"

lemma printable_report: "report_only st st' \<Longrightarrow> printable A C st' = printable A C st"
  using frames_in_report report_qsort by (simp add: printable_def)

lemma printable_blocks: "only_blocks st st' \<Longrightarrow> printable A C st' = printable A C st"
  by (simp add: printable_def frames_in_def only_blocks_simps(3,22))

lemma printable_links:
  assumes "only_links st st'"
  shows "printable A C st' = printable A C st"
proof -
  have "cs_trace (csh st' c) = cs_trace (csh st c)" for c
  proof -
    obtain g where "csh st' c = (csh st c)\<lparr>cs_group_next := g\<rparr>" using assms unfolding only_links_def by blast
    then show ?thesis by simp
  qed
  moreover have "qsort st' = qsort st" using assms by (auto simp: only_links_def)
  ultimately show ?thesis using only_links_simps(21) [OF assms] by (simp add: printable_def frames_in_def)
qed

lemma printable_groups: "only_groups st st' \<Longrightarrow> printable A C st' = printable A C st"
  by (rule printable_links [OF only_links_groups])

lemma print_all_returns:
  assumes st: "settled_at N F C st" and sup: "supplied (card (N Live)) st" and n: "card (N Live) < 2 ^ 31"
    and p: "printable A C st" and r: "ready (Suc k) A ms (fmaps st)"
  shows "\<exists>rc st'. mc_print_all_memblk st = Some (rc, st')"
proof -
  obtain s D where d: "mc_duplicate_all_alloc_memblk Copy Live st = Some (0, s)" "mc_inv (N(Copy := D)) F C s" "only_blocks st s"
    "table_view Copy s = table_view Live st" "card D = card (N Live)"
    by (rule copy_ok [OF st, of 0]) (use sup in auto)
  obtain s1 where s1: "init_fmaps s = Some s1" "reading k A ms (fmaps s1)"
    using init_fmaps_ready [of k A ms s] r only_blocks_simps(10) [OF d(3)] by auto
  note r1 = init_fmaps_quiet [THEN quiet_report_only, OF s1(1)]
  have i1: "mc_inv (N(Copy := D)) F C s1" by (rule report_only_inv [OF r1 d(2)])
  have "all_traced Copy s1" using settled_atD(5) [OF st] traced_same [OF d(4)] report_only_traced [OF r1] by simp
  then have t: "\<forall>b\<in>(N(Copy := D)) Copy. am_allocator (am s1 b) \<in> C" using all_traced_blocks [OF i1] by blast
  have "printable A C s1" using p printable_blocks [OF d(3)] printable_report [OF r1] by simp
  then have p1: "frames_in A C s1" "permutes (qsort s1)" by (simp_all add: printable_def)
  obtain rc s2 where s2: "print_all_memblk_on_hashtable Copy s1 = Some (rc, s2)" "reading k A ms (fmaps s2)"
    using print_table_reading [OF i1 t p1(1) _ p1(2) s1(2)] n d(5) by auto
  obtain s3 where s3: "term_fmaps s2 = Some s3" using term_fmaps_ready [OF s2(2)] by blast
  have "report_only s1 s3"
    using report_only_trans [OF print_table_report [OF s2(1)] term_fmaps_quiet [THEN quiet_report_only, OF s3]] .
  from report_only_inv [OF this i1] obtain s4 where "mc_destroy_all_alloc_memblk Copy s3 = Some s4"
    by (rule mc_destroy_ok [of _ F C s3 Copy]) auto
  then show ?thesis using d(1) s1(1) s2(1) s3 by (simp add: mc_print_all_memblk_def)
qed

lemma grouped_report: "report_only st st' \<Longrightarrow> grouped C st' U S = grouped C st U S"
  using groups_ok_report report_only_simps(3) by (simp add: grouped_def)

lemma print_groups_table:
  assumes inv: "mc_inv N F C st" and g: "grouped C st U {}" and fin: "finite U" "card U < 2 ^ 31"
    and p: "printable A C st" and r: "reading k A ms (fmaps st)"
  shows "\<exists>rc st'. print_all_memblk_per_callstack l st = Some (rc, st') \<and> reading k A ms (fmaps st')"
proof -
  from count_groups_returns [OF inv g fin(1), of "[l]"] fin(2) obtain n where n: "count_groups [l] st = Some n" "n < 2 ^ 31"
    by auto
  have "unat (scast (of_nat n :: i32) :: size_t) < 2 ^ 50" using small_count [OF n(2)] n(2) by simp
  from sort_buffer_returns [OF this] obtain ok s where s:
    "mc_allocate_sort_buffer (scast (of_nat n :: i32)) st = Some (ok, s)" "fmaps s = fmaps st" "qsort s = qsort st" by blast
  note rs = sort_buffer_report [OF s(1)]
  show ?thesis
  proof (cases ok)
    case False
    then show ?thesis using n(1) s r by (simp add: print_all_memblk_per_callstack_def)
  next
    case True
    have i: "mc_inv N F C s" by (rule report_only_inv [OF rs inv])
    have "grouped C s U {}" using g grouped_report [OF rs] by simp
    then obtain G where G: "groups_ok C s G" unfolding grouped_def by blast
    obtain arr t where t: "each_callstack_array (total_per_callstack l) s = Some (arr, t)" "fmaps t = fmaps s" "set arr \<subseteq> C"
      using array_returns [OF i G, of "total_per_callstack l"] total_returns total_per_callstack_report by blast
    note rt = callstack_array_report [OF t(1) total_per_callstack_report]
    have "printable A C t" using p printable_report [OF report_only_trans [OF rs rt]] by simp
    then have q: "permutes (qsort t)" "frames_in A C t" by (simp_all add: printable_def)
    have "set (fst (mc_sort_per_callstack arr t)) \<subseteq> C" using sorted_set(2) [OF q(1)] t(3) by simp
    then obtain st' where "print_groups l 0 (fst (mc_sort_per_callstack arr t)) t = Some st'" "reading k A ms (fmaps st')"
      using print_groups_reading [of k A ms t C G "fst (mc_sort_per_callstack arr t)" l 0] q(2) r s(2) t(2) groups_ok_report [OF rt] G
      by auto
    then show ?thesis using True n(1) s(1) t(1) sort_steps(2) [of arr t]
      by (cases "mc_sort_per_callstack arr t") (simp add: print_all_memblk_per_callstack_def)
  qed
qed

lemma print_per_callstack_returns:
  assumes st: "settled_at N F C st" and sup: "supplied (card (N Live)) st" and n: "card (N Live) < 2 ^ 31"
    and p: "printable A C st" and r: "ready (Suc k) A ms (fmaps st)"
  shows "\<exists>rc st'. mc_print_all_memblk_per_callstack st = Some (rc, st')"
proof -
  note S = settled_atD [OF st]
  obtain s D where d: "mc_duplicate_all_alloc_memblk Copy Live st = Some (0, s)" "mc_inv (N(Copy := D)) F C s" "only_blocks st s"
    "table_view Copy s = table_view Live st" "card D = card (N Live)"
    by (rule copy_ok [OF st, of 0]) (use sup in auto)
  have u: "ungrouped C s" using S(4) blocks_ungrouped [OF d(3)] by simp
  have "all_traced Copy s" using S(5) traced_same [OF d(4)] by simp
  then obtain l where l: "mc_link_same_callstack_group Copy LINK_CURRENT s = Some l" "only_groups s l"
    "grouped C l ((N(Copy := D)) Copy) {}" by (rule link_copy_ok [OF d(2) u]) (rule that)
  have il: "mc_inv (N(Copy := D)) F C l" by (rule mc_inv_only_groups [OF l(2) d(2)])
  obtain s1 where s1: "init_fmaps l = Some s1" "reading k A ms (fmaps s1)"
    using init_fmaps_ready [of k A ms l] r only_blocks_simps(10) [OF d(3)] only_groups_simps(12) [OF l(2)] by auto
  note r1 = init_fmaps_quiet [THEN quiet_report_only, OF s1(1)]
  have i1: "mc_inv (N(Copy := D)) F C s1" by (rule report_only_inv [OF r1 il])
  have g1: "grouped C s1 D {}" using l(3) grouped_report [OF r1] by simp
  have p1: "printable A C s1" using p printable_blocks [OF d(3)] printable_groups [OF l(2)] printable_report [OF r1] by simp
  have "finite D" by simp
  then obtain rc s2 where s2: "print_all_memblk_per_callstack LINK_CURRENT s1 = Some (rc, s2)" "reading k A ms (fmaps s2)"
    using print_groups_table [OF i1 g1 _ _ p1 s1(2), of LINK_CURRENT] n d(5) by auto
  obtain s3 where s3: "term_fmaps s2 = Some s3" using term_fmaps_ready [OF s2(2)] by blast
  have "report_only s1 s3"
    using report_only_trans [OF print_per_callstack_report [OF s2(1)] term_fmaps_quiet [THEN quiet_report_only, OF s3]] .
  note i3 = report_only_inv [OF this i1]
  obtain s4 where s4: "mc_reset_same_callstack_group LINK_CURRENT s3 = Some s4" "only_groups s3 s4"
    using reset_ok [OF mc_invD(1) [OF i3]] by blast
  from mc_inv_only_groups [OF s4(2) i3] obtain s5 where "mc_destroy_all_alloc_memblk Copy s4 = Some s5"
    by (rule mc_destroy_ok [of _ F C s4 Copy]) auto
  then show ?thesis using d(1) l(1) s1(1) s2(1) s3 s4(1) by (simp add: mc_print_all_memblk_per_callstack_def)
qed

section \<open>The comparisons\<close>

lemma print_remaining_reading:
  assumes inv: "mc_inv N F C st" and t: "\<forall>b\<in>N i. am_allocator (am st b) \<in> C" and n: "card (N i) < 2 ^ 31"
    and p: "printable A C st" and r: "reading k A ms (fmaps st)"
  shows "\<exists>st'. print_remaining m some none i st = Some st' \<and> reading k A ms (fmaps st')"
proof (cases "m = 0")
  case False
  let ?s = "mc_log_print (some m) st"
  have "printable A C ?s" using p printable_report [OF log_report_only] by simp
  then have p1: "frames_in A C ?s" "permutes (qsort ?s)" by (simp_all add: printable_def)
  have "\<forall>b\<in>N i. am_allocator (am ?s b) \<in> C" using t report_only_simps(3) [OF log_report_only] by simp
  from print_table_reading [OF report_only_inv [OF log_report_only inv] this p1(1) n p1(2), of k ms] r obtain rc st' where
    "print_all_memblk_on_hashtable i ?s = Some (rc, st')" "reading k A ms (fmaps st')" by auto
  then show ?thesis using False by (simp add: print_remaining_def)
qed (use r in \<open>simp add: print_remaining_def\<close>)

text \<open>After the cancellation: what is left has its call stacks, and can be printed.\<close>

lemma left_printable:
  assumes inv: "mc_inv N F C s" and t: "all_traced Copy s" "all_traced Snapshot_Copy s" and p: "printable A C s"
    and o: "only_links s s3" "U \<subseteq> N Copy" "S \<subseteq> N Snapshot_Copy"
  shows "printable A C s3" "\<forall>b\<in>U \<union> S. am_allocator (am s3 b) \<in> C"
proof -
  show "printable A C s3" using p printable_links [OF o(1)] by simp
  show "\<forall>b\<in>U \<union> S. am_allocator (am s3 b) \<in> C"
    using all_traced_blocks [OF inv t(1)] all_traced_blocks [OF inv t(2)] o(2,3) only_links_simps(18) [OF o(1)] by auto
qed

lemma compare_listing_returns:
  assumes inv: "mc_inv N F C s" and u: "ungrouped C s" and t: "all_traced Copy s" "all_traced Snapshot_Copy s"
    and n: "card (N Copy) < 2 ^ 31" "card (N Snapshot_Copy) < 2 ^ 31" and p: "printable A C s" and r: "ready (Suc k) A ms (fmaps s)"
  shows "\<exists>rc s'. mc_compare_snapshot_and_current_alloc_memblk Copy Snapshot_Copy s = Some (rc, s')"
proof -
  obtain s1 s2 s3 U S where
    o: "mc_link_same_callstack_group Copy LINK_CURRENT s = Some s1"
      "mc_link_same_callstack_group Snapshot_Copy LINK_SNAPSHOT s1 = Some s2"
      "offset_snapshot_against_current_alloc_memblk Copy Snapshot_Copy s2 = Some ((of_nat (card U), of_nat (card S)), s3)"
      "mc_inv (N(Copy := U, Snapshot_Copy := S)) F C s3" "U \<subseteq> N Copy" "S \<subseteq> N Snapshot_Copy" and ol: "only_links s s3"
    by (rule offset_copies_ok [OF inv u t]) (rule that)
  note L = left_printable [OF inv t p ol o(5,6)]
  have c: "card U < 2 ^ 31" "card S < 2 ^ 31" using card_mono [OF _ o(5)] card_mono [OF _ o(6)] n by simp_all
  obtain a where a: "init_fmaps s3 = Some a" "reading k A ms (fmaps a)"
    using init_fmaps_ready [of k A ms s3] r only_links_simps(9) [OF ol] by auto
  note ra = init_fmaps_quiet [THEN quiet_report_only, OF a(1)]
  let ?N = "N(Copy := U, Snapshot_Copy := S)"
  have st: "mc_inv ?N F C x \<and> (\<forall>b\<in>?N Copy. am_allocator (am x b) \<in> C) \<and> (\<forall>b\<in>?N Snapshot_Copy. am_allocator (am x b) \<in> C) \<and> printable A C x"
    if "report_only s3 x" for x
    using report_only_inv [OF that o(4)] L printable_report [OF that] report_only_simps(3) [OF that] by auto
  obtain b where b: "print_remaining (of_nat (card U)) Blocks_increased No_block_increased Copy a = Some b" "reading k A ms (fmaps b)"
    using print_remaining_reading [of ?N F C a Copy] st [OF ra] c a(2) by fastforce
  have rb: "report_only s3 b" by (rule report_only_trans [OF ra print_remaining_report [OF b(1)]])
  obtain d where d: "print_remaining (of_nat (card S)) Blocks_decreased No_block_decreased Snapshot_Copy b = Some d" "reading k A ms (fmaps d)"
    using print_remaining_reading [of ?N F C b Snapshot_Copy] st [OF rb] c b(2) by fastforce
  obtain e where e: "term_fmaps d = Some e" using term_fmaps_ready [OF d(2)] by blast
  have "report_only s3 e"
    by (rule report_only_trans [OF rb report_only_trans [OF print_remaining_report [OF d(1)] term_fmaps_quiet [THEN quiet_report_only, OF e]]])
  then have "mc_inv ?N F C e" by (rule report_only_inv [OF _ o(4)])
  from reset_both_ok [OF this] obtain x y where "mc_reset_same_callstack_group LINK_CURRENT e = Some x"
    "mc_reset_same_callstack_group LINK_SNAPSHOT x = Some y" by metis
  then show ?thesis using o(1-3) a(1) b(1) d(1) e by (simp add: mc_compare_snapshot_and_current_alloc_memblk_def)
qed

lemma compare_per_callstack_returns:
  assumes inv: "mc_inv N F C s" and u: "ungrouped C s" and t: "all_traced Copy s" "all_traced Snapshot_Copy s"
    and n: "card (N Copy) < 2 ^ 31" "card (N Snapshot_Copy) < 2 ^ 31" and p: "printable A C s" and r: "ready (Suc k) A ms (fmaps s)"
  shows "\<exists>rc s'. mc_compare_snapshot_and_current_alloc_memblk_per_callstack Copy Snapshot_Copy s = Some (rc, s')"
proof -
  obtain s1 s2 s3 U S where
    o: "mc_link_same_callstack_group Copy LINK_CURRENT s = Some s1"
      "mc_link_same_callstack_group Snapshot_Copy LINK_SNAPSHOT s1 = Some s2"
      "offset_snapshot_against_current_alloc_memblk Copy Snapshot_Copy s2 = Some ((of_nat (card U), of_nat (card S)), s3)"
      "mc_inv (N(Copy := U, Snapshot_Copy := S)) F C s3" "U \<subseteq> N Copy" "S \<subseteq> N Snapshot_Copy" "grouped C s3 U S" and ol: "only_links s s3"
    by (rule offset_copies_ok [OF inv u t]) (rule that)
  note def = mc_compare_snapshot_and_current_alloc_memblk_per_callstack_def
  note L = left_printable [OF inv t p ol o(5,6)]
  have c: "card U < 2 ^ 31" "card S < 2 ^ 31" using card_mono [OF _ o(5)] card_mono [OF _ o(6)] n by simp_all
  show ?thesis
  proof (cases "(of_nat (card U) + of_nat (card S) :: i32) = 0")
    case True
    then show ?thesis using o(1-3) by (simp add: def)
  next
    case False
    note nz = this
    obtain a where a: "init_fmaps s3 = Some a" "reading k A ms (fmaps a)"
      using init_fmaps_ready [of k A ms s3] r only_links_simps(9) [OF ol] by auto
    note ra = init_fmaps_quiet [THEN quiet_report_only, OF a(1)]
    note ia = report_only_inv [OF ra o(4)]
    have ga: "grouped C a U S" using o(7) grouped_report [OF ra] by simp
    from count_groups_returns [OF ia ga, of "[LINK_CURRENT, LINK_SNAPSHOT]"] obtain m where
      m: "count_groups [LINK_CURRENT, LINK_SNAPSHOT] a = Some m" "m \<le> card U + card S" by auto
    have "m < 2 ^ 32" using m(2) c by simp
    then have "unat (of_nat m :: size_t) < 2 ^ 50" by (subst unat_of_nat_u64) simp_all
    from sort_buffer_returns [OF this] obtain ok d where d: "mc_allocate_sort_buffer (of_nat m) a = Some (ok, d)" "fmaps d = fmaps a" by blast
    note rd = report_only_trans [OF ra sort_buffer_report [OF d(1)]]
    show ?thesis
    proof (cases ok)
      case False
      then show ?thesis using nz o(1-3) a(1) m(1) d(1) by (simp add: def)
    next
      case True
      note id = report_only_inv [OF rd o(4)]
      have "grouped C d U S" using o(7) grouped_report [OF rd] by simp
      then obtain G where G: "groups_ok C d G" unfolding grouped_def by blast
      obtain arr e where e: "each_callstack_array difference_per_callstack d = Some (arr, e)" "fmaps e = fmaps d" "set arr \<subseteq> C"
        using array_returns [OF id G, of difference_per_callstack] difference_returns difference_per_callstack_report by blast
      note re = callstack_array_report [OF e(1) difference_per_callstack_report]
      have "printable A C e" using L(1) printable_report [OF report_only_trans [OF rd re]] by simp
      then have q: "permutes (qsort e)" "frames_in A C e" by (simp_all add: printable_def)
      have "set (fst (mc_sort_per_callstack arr e)) \<subseteq> C" using sorted_set(2) [OF q(1)] e(3) by simp
      then obtain f where f: "print_differences 0 (fst (mc_sort_per_callstack arr e)) e = Some f" "reading k A ms (fmaps f)"
        using print_differences_reading [of k A ms e C G "fst (mc_sort_per_callstack arr e)" 0] q(2) a(2) d(2) e(2) groups_ok_report [OF re] G
        by auto
      obtain g where g: "term_fmaps f = Some g" using term_fmaps_ready [OF f(2)] by blast
      have "report_only s3 g"
        by (rule report_only_trans [OF report_only_trans [OF rd re]
              report_only_trans [OF print_differences_report [OF f(1)] term_fmaps_quiet [THEN quiet_report_only, OF g]]])
      then have "mc_inv (N(Copy := U, Snapshot_Copy := S)) F C g" by (rule report_only_inv [OF _ o(4)])
      from reset_both_ok [OF this] obtain x y where "mc_reset_same_callstack_group LINK_CURRENT g = Some x"
        "mc_reset_same_callstack_group LINK_SNAPSHOT x = Some y" by metis
      then show ?thesis using True nz o(1-3) a(1) m(1) d(1) e(1) f(1) g sort_steps(2) [of arr e]
        by (cases "mc_sort_per_callstack arr e") (simp add: def)
    qed
  qed
qed

text \<open>Both comparisons, between the copies and their release.\<close>

lemma with_copies_returns:
  assumes st: "settled_at N F C st" and sup: "supplied (card (N Live) + card (N Snapshot)) st"
    and p: "printable A C st" and r: "ready (Suc k) A ms (fmaps st)"
    and cmp: "\<And>N' s. mc_inv N' F C s \<Longrightarrow> ungrouped C s \<Longrightarrow> all_traced Copy s \<Longrightarrow> all_traced Snapshot_Copy s \<Longrightarrow>
      card (N' Copy) = card (N Live) \<Longrightarrow> card (N' Snapshot_Copy) = card (N Snapshot) \<Longrightarrow> sort_mmaps s = sort_mmaps st \<Longrightarrow>
      printable A C s \<Longrightarrow> ready (Suc k) A ms (fmaps s) \<Longrightarrow> \<exists>r s'. cmp Copy Snapshot_Copy s = Some (r, s') \<and> compares N' F C s s'"
  shows "\<exists>rc st'. with_copies cmp st = Some (rc, st')"
proof -
  obtain s s2 D E where d: "mc_duplicate_all_alloc_memblk Copy Live st = Some (0, s)"
    "mc_duplicate_all_alloc_memblk Snapshot_Copy Snapshot s = Some (0, s2)"
    and d2: "mc_inv (N(Copy := D, Snapshot_Copy := E)) F C s2" and ob: "only_blocks st s2"
    and cd: "card D = card (N Live)" "card E = card (N Snapshot)"
    and u: "ungrouped C s2" "all_traced Copy s2" "all_traced Snapshot_Copy s2"
    by (rule two_copies_ok [OF st sup]) (rule that)
  let ?N = "N(Copy := D, Snapshot_Copy := E)"
  have "\<exists>r s'. cmp Copy Snapshot_Copy s2 = Some (r, s') \<and> compares ?N F C s2 s'"
    by (rule cmp [OF d2 u _ _ only_blocks_simps(21) [OF ob]]) (use cd p r printable_blocks [OF ob] only_blocks_simps(10) [OF ob] in simp_all)
  then obtain rc s3 U S where c: "cmp Copy Snapshot_Copy s2 = Some (rc, s3)" "mc_inv (?N(Copy := U, Snapshot_Copy := S)) F C s3"
    by (auto simp: compares_def)
  let ?M = "?N(Copy := U, Snapshot_Copy := S)"
  obtain t where t: "mc_destroy_all_alloc_memblk Copy s3 = Some t" "mc_inv (?M(Copy := {})) F C t"
    by (rule mc_destroy_ok [OF c(2), of Copy]) auto
  obtain q where "mc_destroy_all_alloc_memblk Snapshot_Copy t = Some q"
    by (rule mc_destroy_ok [OF t(2), of Snapshot_Copy]) auto
  then show ?thesis using d c(1) t(1) by (simp add: with_copies_def)
qed

section \<open>The check of all blocks\<close>

lemma report_block_ready:
  assumes "c \<in> C" "frames_in A C st" "ready (Suc k) A ms (fmaps st)" and now: "now \<longrightarrow> (\<forall>n. set (backtraces st n) \<subseteq> A)"
  shows "\<exists>st'. report_allocated_block c now st = Some st' \<and> ready k A ms (fmaps st')"
proof -
  obtain s where s: "init_fmaps st = Some s" "reading k A ms (fmaps s)" using init_fmaps_ready [OF assms(3)] by blast
  note qs = init_fmaps_quiet [OF s(1)]
  have f: "frames_in A C s" using assms(2) frames_in_report [OF quiet_report_only [OF qs]] by simp
  then have c: "c \<noteq> NULL" "trace_ok (csh s c)" "set (cs_trace (csh s c)) \<subseteq> A" using assms(1) by (auto simp: frames_in_def)
  from print_callstack_reading [OF _ c(2,3), of k ms "mc_log_print Allocated_from s" 2] s(2) obtain t where
    t: "mc_print_callstack (cs_depth (csh s c)) (cs_trace (csh s c)) 2 (mc_log_print Allocated_from s) = Some t" "reading k A ms (fmaps t)"
    by auto
  have qt: "quiet st t" by (rule quiet_trans [OF qs quiet_unlog [OF print_callstack_quiet [OF t(1)]]])
  obtain u where u: "(if now then mc_print_current_callstack 3 (mc_log_print Being_freed_from t) else Some t) = Some u"
    "reading k A ms (fmaps u)"
  proof (cases now)
    case True
    have b: "\<forall>n. set (backtraces (mc_log_print Being_freed_from t) n) \<subseteq> A"
      using now True quiet_simps(19) [OF quiet_log_print [OF qt]] by simp
    have "reading k A ms (fmaps (mc_log_print Being_freed_from t))" using t(2) by simp
    from print_current_reading [OF this b] show ?thesis using that True by auto
  qed (use that t(2) in simp)
  from term_fmaps_ready [OF u(2)] obtain st' where "term_fmaps u = Some st'" "ready k A ms (fmaps st')" by blast
  then show ?thesis using s(1) t(1) c(1) u(1) by (simp add: report_allocated_block_def cs_at_def)
qed

lemma fmaps_underrun: "check_underrun m u st = (e, s) \<Longrightarrow> fmaps s = fmaps st"
  "check_overrun m u x st = (e, s) \<Longrightarrow> fmaps s = fmaps st"
  by (auto simp: check_underrun_def check_overrun_def Let_def split: option.splits)

lemma report_underrun: "check_underrun m u st = (e, s) \<Longrightarrow> report_only st s"
  "check_overrun m u x st = (e, s) \<Longrightarrow> report_only st s"
proof -
  have l: "report_only st (mc_log_print a (mc_log_print b (mc_log_print c st)))" "report_only st (mc_log_print a (mc_log_print b st))" for a b c st
    using report_only_trans [OF report_only_trans [OF log_report_only log_report_only] log_report_only]
      report_only_trans [OF log_report_only log_report_only] by blast+
  show "check_underrun m u st = (e, s) \<Longrightarrow> report_only st s"
    by (cases "check_leading (mem st) (mb_buf m) (leading_size m u)") (auto simp: check_underrun_def Let_def intro: l)
  show "check_overrun m u x st = (e, s) \<Longrightarrow> report_only st s"
    by (cases "check_trailing (mem st) (mb_buf m) (leading_size m u) (mb_usrsize m) (trailing_size m u)")
      (auto simp: check_overrun_def Let_def intro: l)
qed

lemma check_allocated_ready:
  assumes b: "am_allocator (am st b) \<in> C" and f: "frames_in A C st" and r: "ready (Suc k) A ms (fmaps st)"
    and now: "now \<longrightarrow> (\<forall>n. set (backtraces st n) \<subseteq> A)"
  shows "\<exists>rc st'. mc_check_allocated_buffer b now st = Some (rc, st') \<and> ready k A ms (fmaps st')"
proof -
  let ?m = "am_memblk (am st b)" and ?u = "mp_ptr (amp st (memptr_of b))"
  obtain e1 s1 where 1: "check_underrun ?m ?u st = (e1, s1)" by fastforce
  obtain e2 s2 where 2: "check_overrun ?m ?u e1 s1 = (e2, s2)" by fastforce
  have q: "report_only st s2" by (rule report_only_trans [OF report_underrun(1) [OF 1] report_underrun(2) [OF 2]])
  have fm: "fmaps s2 = fmaps st" using fmaps_underrun(1) [OF 1] fmaps_underrun(2) [OF 2] by simp
  have a: "am s2 = am st" by (rule report_only_simps(3) [OF q])
  have "quiet st s2" by (rule quiet_trans [OF check_underrun_quiet [OF 1] check_overrun_quiet [OF 2]])
  then have "backtraces s2 = backtraces st" by (rule quiet_simps)
  then obtain s3 where s3: "report_allocated_block (am_allocator (am s2 b)) now s2 = Some s3" "ready k A ms (fmaps s3)"
    using report_block_ready [of "am_allocator (am s2 b)" C A s2 k ms now] b f r now frames_in_report [OF q] fm a by auto
  have e: "mc_check_allocated_buffer b now st = (if e1 \<or> e2 then Some (- 1, s3) else Some (0, s2))"
    using s3(1) unfolding mc_check_allocated_buffer_def Let_def 1 prod.case 2 by simp
  show ?thesis using e s3(2) ready_less [OF r] fm by (cases "e1 \<or> e2") auto
qed

text \<open>A freed block is reported with both its call stacks, and is small enough for the loop.\<close>

definition freed_traced :: "addr set \<Rightarrow> mc \<Rightarrow> addr \<Rightarrow> bool" where
  "freed_traced C st f \<longleftrightarrow> fm_allocator (fm st f) \<in> C \<and> fm_freer (fm st f) \<in> C \<and> unat (mb_bufsize (fm_memblk (fm st f))) < 2 ^ 31"

lemma report_freed_ready:
  assumes c: "freed_traced C st b" and f: "frames_in A C st" and r: "ready (Suc k) A ms (fmaps st)"
  shows "\<exists>st'. report_freed_block (fm st b) u i st = Some st' \<and> ready k A ms (fmaps st')"
proof -
  let ?fb = "fm st b" and ?m = "fm_memblk (fm st b)"
  let ?a = "fm_allocator ?fb" and ?z = "fm_freer ?fb"
  let ?s0 = "mc_log_print (Freed_area_written u (mb_usrsize ?m)) (mc_log_print Separator st)"
  obtain s1 where s1: "init_fmaps ?s0 = Some s1" "reading k A ms (fmaps s1)" using init_fmaps_ready [of k A ms ?s0] r by auto
  let ?s2 = "mc_log_print Allocated_from (mc_log_print (Detected_at_offset i)
    (mc_log_print (Checked_area (leading_size ?m u) (mb_usrsize ?m) (trailing_size ?m u)) s1))"
  have ca: "?a \<in> C" "?z \<in> C" using c by (simp_all add: freed_traced_def)
  have q1: "report_only st s1"
    by (rule report_only_trans [OF report_only_trans [OF log_report_only log_report_only] init_fmaps_quiet [THEN quiet_report_only, OF s1(1)]])
  have "frames_in A C s1" using f frames_in_report [OF q1] by simp
  then have f1: "?a \<noteq> NULL" "trace_ok (csh s1 ?a)" "set (cs_trace (csh s1 ?a)) \<subseteq> A" using ca(1) by (auto simp: frames_in_def)
  obtain s3 where s3: "mc_print_callstack (cs_depth (csh s1 ?a)) (cs_trace (csh s1 ?a)) 2 ?s2 = Some s3" "reading k A ms (fmaps s3)"
    using print_callstack_reading [OF _ f1(2,3), of k ms ?s2 2] s1(2) by auto
  have q3: "report_only s1 s3"
    by (rule report_only_trans [OF report_only_trans [OF report_only_trans [OF log_report_only log_report_only] log_report_only]
          print_callstack_quiet [THEN quiet_report_only, OF s3(1)]])
  have "frames_in A C s3" using f frames_in_report [OF report_only_trans [OF q1 q3]] by simp
  then have f3: "?z \<noteq> NULL" "trace_ok (csh s3 ?z)" "set (cs_trace (csh s3 ?z)) \<subseteq> A" using ca(2) by (auto simp: frames_in_def)
  obtain s4 where s4: "mc_print_callstack (cs_depth (csh s3 ?z)) (cs_trace (csh s3 ?z)) 2 (mc_log_print Freed_from s3) = Some s4"
    "reading k A ms (fmaps s4)"
    using print_callstack_reading [OF _ f3(2,3), of k ms "mc_log_print Freed_from s3" 2] s3(2) by auto
  obtain s5 where "term_fmaps s4 = Some s5" "ready k A ms (fmaps s5)" using term_fmaps_ready [OF s4(2)] by blast
  then show ?thesis using s1(1) s3(1) s4(1) f1(1) f3(1) by (simp add: report_freed_block_def cs_at_def Let_def)
qed

lemma check_freed_ready:
  assumes b: "freed_traced C st b" and f: "frames_in A C st" and r: "ready (Suc k) A ms (fmaps st)"
  shows "\<exists>rc st'. mc_check_freed_buffer b st = Some (rc, st') \<and> ready k A ms (fmaps st')"
proof -
  let ?m = "fm_memblk (fm st b)"
  have "check_freed (mem st) (mb_buf ?m) (mb_bufsize ?m) \<noteq> None"
    using b by (auto simp: check_freed_def freed_traced_def split: option.split)
  then obtain x where x: "check_freed (mem st) (mb_buf ?m) (mb_bufsize ?m) = Some x" by blast
  show ?thesis
  proof (cases x)
    case None
    then show ?thesis using x ready_less [OF r] by (simp add: mc_check_freed_buffer_def Let_def)
  next
    case (Some i)
    from report_freed_ready [OF b f r] obtain st' where
      "report_freed_block (fm st b) (mp_ptr (fmp st (memptr_of b))) (int i) st = Some st'" "ready k A ms (fmaps st')" by blast
    then show ?thesis using x Some by (simp add: mc_check_freed_buffer_def Let_def)
  qed
qed

lemma checks_return:
  fixes body :: "addr \<Rightarrow> int \<times> mc \<Rightarrow> (unit, int \<times> mc) flow option"
  assumes step: "\<And>n k s. n \<in> set ns \<Longrightarrow> P (snd s) \<Longrightarrow> ready (Suc k) A ms (fmaps (snd s)) \<Longrightarrow>
      \<exists>s'. body n s = Some (Next s') \<and> P (snd s') \<and> ready k A ms (fmaps (snd s'))"
    and "P (snd s)" "ready (length ns + k) A ms (fmaps (snd s))"
  shows "\<exists>s'. fold_flow body ns s = Some (Next s') \<and> P (snd s') \<and> ready k A ms (fmaps (snd s'))"
  using assms
proof (induction ns arbitrary: s)
  case (Cons n ns)
  have "ready (Suc (length ns + k)) A ms (fmaps (snd s))" using Cons.prems(3) by simp
  from Cons.prems(1) [OF list.set_intros(1) Cons.prems(2) this] obtain s1 where
    s1: "body n s = Some (Next s1)" "P (snd s1)" "ready (length ns + k) A ms (fmaps (snd s1))" by blast
  have "\<exists>s'. fold_flow body ns s1 = Some (Next s') \<and> P (snd s') \<and> ready k A ms (fmaps (snd s'))"
    by (rule Cons.IH [OF _ s1(2,3)]) (rule Cons.prems(1), simp_all)
  then show ?case using s1(1) by simp
qed simp

lemma fmaps_buffers [simp]: "fmaps (mc_set_allocated_buffer b x st) = fmaps st" "fmaps (mc_set_freed_buffer b st) = fmaps st"
  by (simp_all add: mc_set_allocated_buffer_def mc_set_freed_buffer_def Let_def)

lemma check_all_returns:
  assumes inv: "mc_inv N F C st" and t: "\<forall>b\<in>N Live. am_allocator (am st b) \<in> C" "\<forall>f\<in>F. freed_traced C st f"
    and f: "frames_in A C st" and r: "ready (card (N Live) + card F) A ms (fmaps st)"
  shows "\<exists>rc st'. mc_check_all_memblk st = Some (rc, st')"
proof -
  obtain ns fs where ns: "distinct ns" "set ns = memptr_of ` N Live" "distinct fs" "set fs = memptr_of ` F"
    and run: "mc_check_all_memblk st = do {
       fl \<leftarrow> fold_flow check_alloc_body ns (0, st);
       fl \<leftarrow> fold_flow check_free_body fs (flow_state fl);
       Some (flow_state fl) }"
    by (rule check_loops [OF mc_invD(1) [OF inv]])
  have inj: "inj_on memptr_of X" for X by (rule inj_memptr_of)
  have len: "length ns = card (N Live)" "length fs = card F"
    using ns distinct_card [of ns] distinct_card [of fs] card_image [OF inj] by simp_all
  let ?P = "report_only st"
  have "\<exists>s'. fold_flow check_alloc_body ns (0, st) = Some (Next s') \<and> ?P (snd s') \<and> ready (card F) A ms (fmaps (snd s'))"
  proof (rule checks_return)
    fix n k and s :: "int \<times> mc" assume a: "n \<in> set ns" "?P (snd s)" "ready (Suc k) A ms (fmaps (snd s))"
    obtain b where b: "b \<in> N Live" "n = memptr_of b" using a(1) ns(2) by auto
    have "am_allocator (am (snd s) b) \<in> C" "frames_in A C (snd s)"
      using t(1) b(1) report_only_simps(3) [OF a(2)] f frames_in_report [OF a(2)] by auto
    from check_allocated_ready [OF this a(3), of False] obtain rc s1 where
      c: "mc_check_allocated_buffer b False (snd s) = Some (rc, s1)" "ready k A ms (fmaps s1)" by blast
    let ?s' = "(or (fst s) rc, if rc \<noteq> 0 then mc_set_allocated_buffer b False s1 else s1)"
    have e: "check_alloc_body n s = Some (Next ?s')" using c(1) b(2) by (simp add: check_alloc_body_def case_prod_beta')
    have "?P (snd ?s')" using report_only_trans [OF a(2) check_alloc_body_report [OF e]] by simp
    then show "\<exists>s'. check_alloc_body n s = Some (Next s') \<and> ?P (snd s') \<and> ready k A ms (fmaps (snd s'))"
      using e c(2) by (intro exI [of _ ?s']) simp
  qed (use r len in simp_all)
  then obtain s1 where s1: "fold_flow check_alloc_body ns (0, st) = Some (Next s1)" "?P (snd s1)" "ready (card F) A ms (fmaps (snd s1))" by blast
  have "\<exists>s'. fold_flow check_free_body fs s1 = Some (Next s') \<and> ?P (snd s') \<and> ready 0 A ms (fmaps (snd s'))"
  proof (rule checks_return)
    fix n k and s :: "int \<times> mc" assume a: "n \<in> set fs" "?P (snd s)" "ready (Suc k) A ms (fmaps (snd s))"
    obtain b where b: "b \<in> F" "n = memptr_of b" using a(1) ns(4) by auto
    have "freed_traced C (snd s) b" "frames_in A C (snd s)"
      using t(2) b(1) report_only_simps(5) [OF a(2)] f frames_in_report [OF a(2)] by (auto simp: freed_traced_def)
    from check_freed_ready [OF this a(3)] obtain rc s2 where
      c: "mc_check_freed_buffer b (snd s) = Some (rc, s2)" "ready k A ms (fmaps s2)" by blast
    let ?s' = "(or (fst s) rc, if rc \<noteq> 0 then mc_set_freed_buffer b s2 else s2)"
    have e: "check_free_body n s = Some (Next ?s')" using c(1) b(2) by (simp add: check_free_body_def case_prod_beta')
    have "?P (snd ?s')" using report_only_trans [OF a(2) check_free_body_report [OF e]] by simp
    then show "\<exists>s'. check_free_body n s = Some (Next s') \<and> ?P (snd s') \<and> ready k A ms (fmaps (snd s'))"
      using e c(2) by (intro exI [of _ ?s']) simp
  qed (use s1 len in simp_all)
  then obtain s2 where "fold_flow check_free_body fs s1 = Some (Next s2)" by blast
  then show ?thesis using run s1(1) by (cases s2) (simp add: flow_state_def)
qed

section \<open>Every command\<close>

text \<open>
  What a command needs of its surroundings: the call stacks of the blocks lie in \<open>A\<close>, those of the
  quarantine are there, \<open>qsort\<close> permutes, and the symbols can be read once for every block.
\<close>

definition environment :: "addr set \<Rightarrow> mapping list \<Rightarrow> mc \<Rightarrow> bool" where
  "environment A ms st \<longleftrightarrow>
     (\<forall>c\<in>blk_live Callstack (blk st). set (cs_trace (csh st c)) \<subseteq> A) \<and>
     (\<forall>f\<in>set (quarantine st). fm_allocator (fm st f) \<noteq> NULL \<and> fm_freer (fm st f) \<noteq> NULL \<and>
        unat (mb_bufsize (fm_memblk (fm st f))) < 2 ^ 31) \<and>
     permutes (qsort st) \<and>
     ready (Suc (card (dom (table_view Live st)) + length (quarantine st))) A ms (fmaps st)"

lemma environmentD:
  assumes st: "settled_at N F C st" and e: "environment A ms st"
  shows "printable A C st" "\<forall>f\<in>F. freed_traced C st f" "ready (Suc (card (N Live) + card F)) A ms (fmaps st)"
proof -
  note S = settled_atD [OF st] and I = mc_invD [OF settled_atD(1) [OF st]]
  note D = tables_okD [OF I(1)]
  have q: "set (quarantine st) = F" "distinct (quarantine st)" using I(3) by (simp_all add: queue_ok_def)
  have "NULL \<notin> C" using blk.live_nonnull [OF D(1), of Callstack] D(10) by simp
  then show "printable A C st" using e D(10,11) by (auto simp: environment_def printable_def frames_in_def)
  show "\<forall>f\<in>F. freed_traced C st f" using e I(4) q(1) by (auto simp: environment_def freed_traced_def owners_ok_def)
  show "ready (Suc (card (N Live) + card F)) A ms (fmaps st)"
    using e card_table_view [OF st, of Live] q distinct_card [OF q(2)] by (simp add: environment_def)
qed

lemma every_command_returns:
  assumes st: "settled (base vm)" and e: "environment A ms (base vm)" and cmd: "cmd \<noteq> GET_VIRTUAL_MEMORY_STATUS"
    and sup: "supplied (card (dom (table_view Live (base vm))) + card (dom (table_view Snapshot (base vm)))) (base vm)"
    and n: "card (dom (table_view Live (base vm))) < 2 ^ 31" "card (dom (table_view Snapshot (base vm))) < 2 ^ 31"
    and b: "sort_mmaps (base vm) = True # oks"
  shows "\<exists>vm'. run_command cmd vm = Some vm'"
proof -
  let ?st = "base vm"
  from st obtain N F C where S: "settled_at N F C ?st" by (auto simp: settled_def)
  note E = environmentD [OF S e]
  have c: "card (N Live) < 2 ^ 31" "card (N Snapshot) < 2 ^ 31" "card (N Live) + card (N Snapshot) < 2 ^ 32"
    and sup2: "supplied (card (N Live) + card (N Snapshot)) ?st"
    using n sup by (simp_all add: card_table_view [OF S])
  have sup1: "supplied (card (N Live)) ?st" using sup2 granted_mono [of _ _ "card (N Live)"] by (simp add: supplied_def)
  have inv: "mc_inv N F C ?st" by (rule settled_atD(1) [OF S])
  have t: "\<forall>b\<in>N Live. am_allocator (am ?st b) \<in> C" using all_traced_blocks [OF inv settled_atD(5) [OF S]] by blast
  have f: "frames_in A C ?st" using E(1) by (simp add: printable_def)
  show ?thesis
  proof (cases cmd)
    case GET_ALL_MEMBLK
    then show ?thesis using print_all_returns [OF S sup1 c(1) E(1,3)] by (auto simp: run_command_def on_base_def)
  next
    case GET_ALL_MEMBLK_PER_CALLSTACK
    then show ?thesis using print_per_callstack_returns [OF S sup1 c(1) E(1,3)] by (auto simp: run_command_def on_base_def)
  next
    case CHECK_ALL_MEMBLK
    then show ?thesis using check_all_returns [OF inv t E(2) f ready_less [OF E(3)]] by (auto simp: run_command_def on_base_def)
  next
    case COMPARE_WITH_SNAPSHOT
    have "\<exists>rc st'. with_copies mc_compare_snapshot_and_current_alloc_memblk ?st = Some (rc, st')"
    proof (rule with_copies_returns [OF S sup2 E(1,3)])
      fix N' s assume a: "mc_inv N' F C s" "ungrouped C s" "all_traced Copy s" "all_traced Snapshot_Copy s"
        "card (N' Copy) = card (N Live)" "card (N' Snapshot_Copy) = card (N Snapshot)" "printable A C s"
        "ready (Suc (card (N Live) + card F)) A ms (fmaps s)"
      obtain r s' where "mc_compare_snapshot_and_current_alloc_memblk Copy Snapshot_Copy s = Some (r, s')"
        using compare_listing_returns [OF a(1-4) _ _ a(7,8)] c a(5,6) by auto
      then show "\<exists>r s'. mc_compare_snapshot_and_current_alloc_memblk Copy Snapshot_Copy s = Some (r, s') \<and> compares N' F C s s'"
        using compare_copies_ok [OF a(1-4)] by blast
    qed
    then show ?thesis using COMPARE_WITH_SNAPSHOT by (auto simp: run_command_def on_base_def mc_compare_with_snapshot_def)
  next
    case COMPARE_WITH_SNAPSHOT_PER_CALLSTACK
    have "\<exists>rc st'. with_copies mc_compare_snapshot_and_current_alloc_memblk_per_callstack ?st = Some (rc, st')"
    proof (rule with_copies_returns [OF S sup2 E(1,3)])
      fix N' s assume a: "mc_inv N' F C s" "ungrouped C s" "all_traced Copy s" "all_traced Snapshot_Copy s"
        "card (N' Copy) = card (N Live)" "card (N' Snapshot_Copy) = card (N Snapshot)" "printable A C s"
        "ready (Suc (card (N Live) + card F)) A ms (fmaps s)" and sm: "sort_mmaps s = sort_mmaps ?st"
      obtain r s' where "mc_compare_snapshot_and_current_alloc_memblk_per_callstack Copy Snapshot_Copy s = Some (r, s')"
        using compare_per_callstack_returns [OF a(1-4) _ _ a(7,8)] c a(5,6) by auto
      then show "\<exists>r s'. mc_compare_snapshot_and_current_alloc_memblk_per_callstack Copy Snapshot_Copy s = Some (r, s') \<and>
          compares N' F C s s'"
        using compare_copies_per_callstack_ok [OF a(1-4)] c(3) a(5,6) sm b by fastforce
    qed
    then show ?thesis using COMPARE_WITH_SNAPSHOT_PER_CALLSTACK
      by (auto simp: run_command_def on_base_def mc_compare_with_snapshot_per_callstack_def)
  qed (use run_command_returns [OF st] cmd in auto)
qed

section \<open>A state where every command returns\<close>

text \<open>The state of \<open>mc_settled\<close> in a process of one file, whose symbols the BFD library knows.\<close>

definition mc_readable :: mc where
  "mc_readable = mc_settled\<lparr>fmaps := bin_fmaps 2, qsort := \<lambda>cmp xs. xs\<rparr>"

lemma fmaps_report_only: "report_only st (st\<lparr>fmaps := fs\<rparr>)"
  by (rule report_onlyI [where m = "mem st" and ls = "log st" and fs = fs and n = "num_backtraces st" and
        sm = "sort_mmaps st" and h = "csh st"]) (simp_all add: same_total)

lemma settled_qsort:
  assumes "settled_at N F C st"
  shows "settled_at N F C (st\<lparr>qsort := q\<rparr>)" "table_view i (st\<lparr>qsort := q\<rparr>) = table_view i st"
proof -
  let ?s = "st\<lparr>qsort := q\<rparr>"
  have f: "find_ptr j p ?s = find_ptr j p st" for j p by (simp add: find_ptr_def ptr_table_def)
  show v: "table_view i ?s = table_view i st" for i
    by (rule ext) (simp add: table_view_def f cong: option.case_cong if_cong)
  have "tables_ok N {} F {} C ?s = tables_ok N {} F {} C st"
    by (simp add: tables_ok_def ptr_table_def free_table_def cs_table_def)
  moreover have "usr_of ?s = usr_of st" "fusr_of ?s = fusr_of st" "quarantine ?s = quarantine st" "fifo_ok ?s = fifo_ok st"
    by (simp_all add: usr_of_def fusr_of_def quarantine_def fifo_ok_def fun_eq_iff)
  moreover have "owners_ok N F C ?s = owners_ok N F C st" "ungrouped C ?s = ungrouped C st"
    by (simp_all add: owners_ok_def ungrouped_def group_head_def)
  ultimately show "settled_at N F C ?s"
    using assms by (simp add: settled_at_def mc_inv_def keys_ok_def queue_ok_def all_traced_def v)
qed

lemma mc_readable:
  "settled mc_readable" "environment UNIV [bin_a] mc_readable" "supplied 4 mc_readable" "sort_mmaps mc_readable = [True]"
  "table_view Live mc_readable = table_view Live mc_one" "table_view Snapshot mc_readable = Map.empty"
  "card (dom (table_view Live mc_readable)) = 1"
proof -
  let ?s = "mc_settled\<lparr>fmaps := bin_fmaps 2\<rparr>"
  have e: "mc_readable = ?s\<lparr>qsort := \<lambda>cmp xs. xs\<rparr>" by (simp add: mc_readable_def)
  have r: "report_only mc_settled ?s" by (rule fmaps_report_only)
  from mc_settled(1) obtain N F C where S: "settled_at N F C mc_settled" by (auto simp: settled_def)
  note R = report_settled [OF S r]
  then have S': "settled_at N F C ?s" by blast
  then show s: "settled mc_readable" unfolding settled_def e using settled_qsort(1) by blast
  show v: "table_view Live mc_readable = table_view Live mc_one" "table_view Snapshot mc_readable = Map.empty"
    using R mc_settled(3,4) settled_qsort(2) [OF S'] unfolding e by (simp_all add: same_record_def del: mc.update_convs)
  show "supplied 4 mc_readable" using mc_settled(2) by (simp add: mc_readable_def supplied_def)
  show "sort_mmaps mc_readable = [True]" using mc_settled(5) by (simp add: mc_readable_def)
  show c: "card (dom (table_view Live mc_readable)) = 1" using v(1) mc_one_traced(3) by auto
  have "quarantine mc_readable = []" using mc_settled(6) by (simp add: mc_readable_def quarantine_def quarantine_view_def)
  moreover have "permutes (qsort mc_readable)" by (simp add: mc_readable_def permutes_def)
  moreover have "fmaps mc_readable = bin_fmaps 2" by (simp add: mc_readable_def)
  moreover have "ready 2 UNIV [bin_a] (bin_fmaps 2)" by (rule bin_fmaps_ready)
  ultimately show "environment UNIV [bin_a] mc_readable" using c by (simp add: environment_def numeral_2_eq_2)
qed

end
