(* ===== verification/MC_Traced.thy ===== *)
theory MC_Traced
  imports MC_Returns
begin

text \<open>
  Releases that report return. A state is \<open>traced\<close> when every live and every freed block has its call
  stacks, and all frames, those of calls to come included, lie in files whose symbols can be read. The
  hooks keep this while the kernel grants mappings.
\<close>

section \<open>Blocks with their call stacks\<close>

definition traced_at :: "(table_id \<Rightarrow> addr set) \<Rightarrow> addr set \<Rightarrow> addr set \<Rightarrow> addr set \<Rightarrow> mc \<Rightarrow> bool" where
  "traced_at N F C A st \<longleftrightarrow> mc_inv N F C st \<and> (\<forall>b\<in>N Live. am_allocator (am st b) \<in> C) \<and>
     (\<forall>f\<in>F. fm_allocator (fm st f) \<in> C \<and> fm_freer (fm st f) \<in> C) \<and> frames_at A C st"

definition traced :: "addr set \<Rightarrow> mc \<Rightarrow> bool" where
  "traced A st \<longleftrightarrow> (\<exists>N F C. traced_at N F C A st)"

lemma traced_atD:
  assumes "traced_at N F C A st"
  shows "mc_inv N F C st" "\<forall>b\<in>N Live. am_allocator (am st b) \<in> C" "\<forall>f\<in>F. fm_allocator (fm st f) \<in> C \<and> fm_freer (fm st f) \<in> C"
    "frames_at A C st" "frames_in A C st" "\<forall>n. set (backtraces st n) \<subseteq> A"
proof -
  note t = assms [unfolded traced_at_def]
  show inv: "mc_inv N F C st" using t by blast
  show "\<forall>b\<in>N Live. am_allocator (am st b) \<in> C" "\<forall>f\<in>F. fm_allocator (fm st f) \<in> C \<and> fm_freer (fm st f) \<in> C"
    "frames_at A C st" using t by blast+
  note D = tables_okD [OF mc_invD(1) [OF inv]]
  have "NULL \<notin> C" using blk.live_nonnull [OF D(1), of Callstack] D(10) by simp
  then show "frames_in A C st" "\<forall>n. set (backtraces st n) \<subseteq> A"
    using t D(11) by (auto simp: frames_in_def frames_at_def trace_at_def)
qed

lemma traced_quiet:
  assumes "quiet st st'"
  shows "traced_at N F C A st' = traced_at N F C A st"
  using quiet_mc_inv [OF assms] quiet_simps [OF assms] frames_at_cong [of st' st] by (simp add: traced_at_def)

lemma traced_set_libc [simp]: "traced_at N F C A (set_libc e st) = traced_at N F C A st"
  unfolding set_libc_def by (rule traced_quiet [OF quiet_fmaps])

lemma traced_mem [simp]: "traced_at N F C A (st\<lparr>mem := m\<rparr>) = traced_at N F C A st"
proof -
  have r: "report_only s (s\<lparr>mem := n\<rparr>)" for s n
    by (rule report_onlyI [where m = n and ls = "log s" and fs = "fmaps s" and n = "num_backtraces s" and
          sm = "sort_mmaps s" and h = "csh s"]) (simp_all add: same_total)
  have "mc_inv N F C (st\<lparr>mem := m\<rparr>) = mc_inv N F C st"
    using report_only_inv [OF r [of st m]] report_only_inv [OF r [of "st\<lparr>mem := m\<rparr>" "mem st"]] by auto
  then show ?thesis using frames_at_cong [of "st\<lparr>mem := m\<rparr>" st] by (simp add: traced_at_def)
qed

lemma traced_frame [simp]: "traced A (set_libc e st) = traced A st" "traced A (st\<lparr>mem := m\<rparr>) = traced A st"
  by (simp_all add: traced_def)

lemma ready_libc [simp]: "ready k A ms (fs\<lparr>fs_libc := e\<rparr>) = ready k A ms fs"
  by (simp add: ready_def rounds_def)

section \<open>The hooks keep it\<close>

lemma second_object_nonnull:
  assumes "second_object k st c" "blk_ok (blk st)" "supplied (Suc (Suc n)) st"
  shows "c \<noteq> NULL"
proof -
  from assms(1) obtain p s0 s s1 N X F Y C where so: "do_allocate k st = Some (p, s0)" "blk s = blk s0" "tables_ok N X F Y C s"
    "mc_get_callstack s = Some (c, s1)" unfolding second_object_def by blast
  have "supplied (Suc n) s" using do_allocate_supplied(2) [OF assms(2,3) so(1)] supplied_blk [OF so(2)] by simp
  from mc_get_callstack_supplied(1) [OF so(3) this so(4)] show ?thesis .
qed

lemma register_traced_at:
  assumes T: "traced_at N F C A st" and u: "live_view st p = None" "p \<notin> fst ` set (quarantine_view st)"
    and sup: "supplied (Suc (Suc n)) st" and run: "mc_register_memblk buf p bufsize usrsize st = Some (rc, st')"
  shows "traced A st'"
proof -
  note D = traced_atD [OF T] and I = mc_invD [OF traced_atD(1) [OF T]]
  have "mc_ok st" using D(1) by (auto simp: mc_ok_def)
  from mc_register_memblk_supplied [OF this sup, of buf p bufsize usrsize] have rc: "rc = 0" using run by auto
  show ?thesis
  proof (cases rule: mc_register_memblk_stages [OF I(1), of buf p bufsize usrsize])
    case (1 bs)
    then show ?thesis using run rc by simp
  next
    case (2 b c s C')
    have c: "c \<in> C'" using second_object_nonnull [OF 2(14) tables_okD(1) [OF I(1)] sup] 2(7) by simp
    let ?N = "N(Live := insert b (N Live))"
    have inv: "mc_inv ?N F C' s" by (rule registered_inv [OF D(1) u 2(2,3,4,5) 2(7,6)])
    have am: "am s x = am st x" if "x \<noteq> b" for x using 2(4) that by (simp add: registered_def)
    have fm: "fm s = fm st" using 2(4) by (simp add: registered_def)
    have "\<forall>x\<in>?N Live. am_allocator (am s x) \<in> C'" using D(2) am 2(5,6) c by (metis fun_upd_same insertE subset_iff)
    moreover have "\<forall>f\<in>F. fm_allocator (fm s f) \<in> C' \<and> fm_freer (fm s f) \<in> C'" using D(3) fm 2(6) by auto
    ultimately have "traced_at ?N F C' A (count_alloc usrsize s)"
      using inv 2(15) [OF D(4)] frames_at_cong [of "count_alloc usrsize s" s] by (simp add: traced_at_def, simp add: count_alloc_def)
    then show ?thesis using run 2(1) by (auto simp: traced_def)
  qed
qed

lemma evict_frames:
  assumes "evict_free_memblk old st = Some (buf, st')"
  shows "csh st' = csh st" "backtraces st' = backtraces st"
proof -
  from assms obtain rc s n t where s: "mc_check_freed_buffer old st = Some (rc, s)"
    "remove_free (mp_ptr (fmp s (memptr_of old))) s = Some (n, t)" "st' = do_release FreeMemblk old t"
    by (auto simp: evict_free_memblk_def split: Option.bind_splits)
  have "csh t = csh s" "backtraces t = backtraces s"
    using s(2) by (auto simp: remove_free_def set_free_table_def split: Option.bind_splits)
  then show "csh st' = csh st" "backtraces st' = backtraces st"
    using quiet_simps(6,19) [OF mc_check_freed_buffer_quiet [OF s(1)]] s(3) by (simp_all add: do_release_def)
qed

lemma quarantine_traced:
  assumes rel: "releasing N F C a st" and t: "\<forall>b\<in>N Live. am_allocator (am st b) \<in> C" "am_allocator (am st a) \<in> C"
      "\<forall>f\<in>F. fm_allocator (fm st f) \<in> C \<and> fm_freer (fm st f) \<in> C" "frames_at A C st"
    and sup: "supplied (Suc (Suc n)) st" and run: "quarantine_memblk a sz st = Some ((rc, out), st')"
  shows "traced A st'"
proof -
  have R: "tables_ok N {a} F {} C st" "queue_ok F st" using rel by (simp_all add: releasing_def)
  note blk = tables_okD(1) [OF R(1)]
  show ?thesis
  proof (cases rule: quarantine_memblk_stages [OF R(1), of sz])
    case (1 s)
    obtain f s3 where al: "do_allocate FreeMemblk st = Some (f, s3)" using run by (auto simp: quarantine_memblk_def split: Option.bind_splits)
    have "f \<noteq> NULL" by (rule do_allocate_supplied(1) [OF blk sup al])
    then show ?thesis using 1(1) al by (auto simp: quarantine_memblk_def Let_def split: Option.bind_splits prod.splits if_splits)
  next
    case (2 f c st1 C')
    have c: "c \<in> C'" using second_object_nonnull [OF 2(10) blk sup] 2(8) by simp
    obtain old st2 where p: "push_fifo f (count_free sz st1) = (old, st2)" by fastforce
    note Q = retired_queue [OF R(2) 2(1,2,5) p]
    have sv: "usr_of st2 = usr_of st1" "fusr_of st2 = fusr_of st1" "am st2 = am st1" "fm st2 = fm st1"
      using Q(1) by (simp_all add: same_views_def usr_of_def fusr_of_def fun_eq_iff)
    have ok2: "tables_ok N {} (insert f F) {} C' st2" using 2(4) tables_ok_push_fifo [OF p] by simp
    have own: "fm_allocator (fm st1 f) \<in> C'" "fm_freer (fm st1 f) \<in> C'" using 2(3,6,7) c t(2) by auto
    have old_fm: "fm st1 x = fm st x" if "x \<in> F" for x using 2(1,5) that by (auto simp: retired_def)
    have am1: "am st1 = am st" using 2(5) by (simp add: retired_def)
    have f2: "csh st2 = csh st1" "backtraces st2 = backtraces st1"
      using p by (auto simp: push_fifo_def count_free_def Let_def)
    have kept: "traced_at N G C' A s" if "mc_inv N G C' s" "G \<subseteq> insert f F" "am s = am st1" "fm s = fm st1" "csh s = csh st1" "backtraces s = backtraces st1" for G s
    proof -
      have "fm_allocator (fm s x) \<in> C' \<and> fm_freer (fm s x) \<in> C'" if "x \<in> G" for x
      proof (cases "x = f")
        case False
        then have "x \<in> F" using that \<open>G \<subseteq> insert f F\<close> by blast
        then show ?thesis using old_fm t(3) 2(3) \<open>fm s = fm st1\<close> by auto
      qed (use own \<open>fm s = fm st1\<close> in simp)
      then show ?thesis using that t(1) am1 2(3) 2(11) [OF t(4)] frames_at_cong [of s st1] by (auto simp: traced_at_def)
    qed
    have own0: "fm_allocator (fm st1 f) \<in> insert NULL C'" "fm_freer (fm st1 f) \<in> insert NULL C'" using own by auto
    note I = retired_inv [OF rel 2(1,3,5) own0]
    show ?thesis
    proof (cases "old = NULL")
      case True
      then have r: "st' = st2" using run 2(9) p by simp
      have "queue_ok (insert f F) st2" using Q(2) [OF True] by blast
      from kept [OF I(1) [OF sv subset_refl ok2 this] subset_refl sv(3,4) f2] show ?thesis using r by (auto simp: traced_def)
    next
      case False
      then obtain buf where ev: "evict_free_memblk old st2 = Some (buf, st')" using run 2(9) p by (auto split: Option.bind_splits)
      obtain rc' st4 where chk: "mc_check_freed_buffer old st2 = Some (rc', st4)"
        using ev by (auto simp: evict_free_memblk_def split: Option.bind_splits)
      note Q3 = Q(3) [OF False]
      have inj: "inj_on (fusr_of st2) (insert f F)" using retired_inj [OF _ _ 2(1,5), of N] rel sv by (simp add: releasing_def)
      from evict_free_memblk_ok [OF ok2 inj _ chk] Q3 ev have
        e: "tables_ok N {} (insert f F - {old}) {} C' st'" "same_views st2 st'" by auto
      have sv3: "usr_of st' = usr_of st1" "fusr_of st' = fusr_of st1" "am st' = am st1" "fm st' = fm st1"
        using e(2) sv by (simp_all add: same_views_def)
      have q3: "queue_ok (insert f F - {old}) st'"
        using Q3 e(2) quarantine_cong [of st' st2] by (simp_all add: same_views_def queue_ok_def)
      have g: "insert f F - {old} \<subseteq> insert f F" by blast
      have f3: "csh st' = csh st1" "backtraces st' = backtraces st1" using evict_frames [OF ev] f2 by simp_all
      from kept [OF I(1) [OF sv3 g e(1) q3] g sv3(3,4) f3] show ?thesis by (auto simp: traced_def)
    qed
  qed
qed

lemma remove_ptr_frames: "remove_ptr i p st = Some (n, st') \<Longrightarrow> csh st' = csh st \<and> backtraces st' = backtraces st \<and> blk st' = blk st"
  by (auto simp: remove_ptr_def set_ptr_table_def split: Option.bind_splits)

text \<open>The live block that is released, and the state in which it has left the table.\<close>

lemma remove_traced:
  assumes T: "traced_at N F C A st" and live: "live_view st p = Some m"
  obtains b s where "remove_ptr Live p st = Some (memptr_of b, s)" "memptr_of b \<noteq> NULL" "am_memblk (am s b) = m"
    "releasing (N(Live := N Live - {b})) F C b s" "\<forall>x\<in>N Live. am_allocator (am s x) \<in> C" "am_allocator (am s b) \<in> C"
    "\<forall>f\<in>F. fm_allocator (fm s f) \<in> C \<and> fm_freer (fm s f) \<in> C" "frames_at A C s" "frames_in A C s" "\<forall>n. set (backtraces s n) \<subseteq> A"
    "\<And>k. supplied k s = supplied k st" "fmaps s = fmaps st" "mem s = mem st" "quarantine_view s = quarantine_view st"
proof -
  note D = traced_atD [OF T] and I = mc_invD [OF traced_atD(1) [OF T]]
  obtain n s where rem: "remove_ptr Live p st = Some (n, s)" "n \<noteq> NULL"
  proof (cases rule: remove_ptr_ok [OF I(1), of Live p])
    case 1
    then have "live_view st p = None" by (intro live_view_absent [OF I(1)]) auto
    then show ?thesis using live by simp
  next
    case (2 b h t)
    then show ?thesis using that by blast
  qed
  from remove_ptr_releasing [OF D(1) rem] obtain b where
    b: "n = memptr_of b" "b \<in> N Live" "am s = am st" "fm s = fm st" "live_view st p = Some (am_memblk (am st b))"
      "outside s = outside st" "mem s = mem st" "quarantine_view s = quarantine_view st" "releasing (N(Live := N Live - {b})) F C b s" by blast
  note R = remove_ptr_frames [OF rem(1)]
  have "frames_at A C s" using D(4) R frames_at_cong [of s st] by simp
  moreover have "frames_in A C s" using D(5) R by (simp add: frames_in_def)
  ultimately show ?thesis
    using that [of b s] rem b D(2,3,6) R live supplied_blk [of s st] by (simp add: outside_def)
qed

lemma unregister_traced:
  assumes T: "traced A st" and live: "live_view st p = Some m" and sup: "supplied (Suc (Suc n)) st"
    and run: "mc_unregister_memblk p st = Some ((rc, out), st')"
  shows "traced A st'"
proof -
  from T obtain N F C where "traced_at N F C A st" by (auto simp: traced_def)
  from remove_traced [OF this live] obtain b s where
    s: "remove_ptr Live p st = Some (memptr_of b, s)" "memptr_of b \<noteq> NULL" "releasing (N(Live := N Live - {b})) F C b s"
      "\<forall>x\<in>N Live. am_allocator (am s x) \<in> C" "am_allocator (am s b) \<in> C"
      "\<forall>f\<in>F. fm_allocator (fm s f) \<in> C \<and> fm_freer (fm s f) \<in> C" "frames_at A C s" "\<And>k. supplied k s = supplied k st" by metis
  obtain rc1 t where c: "mc_check_allocated_buffer b True s = Some (rc1, t)"
    and q: "quarantine_memblk b (mb_usrsize (am_memblk (am s b))) t = Some ((rc, out), st')"
    using run s(1,2) by (auto simp: mc_unregister_memblk_def split: Option.bind_splits)
  note Q = mc_check_allocated_buffer_quiet [OF c]
  note E = quiet_simps [OF Q]
  have rel: "releasing (N(Live := N Live - {b})) F C b t" using s(3) quiet_releasing [OF Q] by simp
  have "supplied (Suc (Suc n)) t" using sup s(8) supplied_blk [OF E(1)] by simp
  moreover have "frames_at A C t" using s(7) frames_at_cong [OF E(6,19)] by simp
  ultimately show ?thesis by (intro quarantine_traced [OF rel _ _ _ _ _ q]) (use s E in simp_all)
qed

section \<open>The reports return\<close>

lemma unregister_live_returns:
  assumes T: "traced A st" and live: "live_view st p = Some m" and r: "ready (Suc k) A ms (fmaps st)"
    and buf: "unat (mb_buf m) + unat (mb_bufsize m) \<le> 2 ^ 64"
    and oldest: "length (quarantine_view st) = FREE_FIFO_SIZE \<longrightarrow> quarantine_intact (mem st) (snd (hd (quarantine_view st)))"
  shows "\<exists>r. mc_unregister_memblk p st = Some r"
proof -
  from T obtain N F C where "traced_at N F C A st" by (auto simp: traced_def)
  from remove_traced [OF this live] obtain b s where
    s: "remove_ptr Live p st = Some (memptr_of b, s)" "memptr_of b \<noteq> NULL" "am_memblk (am s b) = m"
      "releasing (N(Live := N Live - {b})) F C b s" "am_allocator (am s b) \<in> C" "frames_in A C s" "\<forall>n. set (backtraces s n) \<subseteq> A"
      "fmaps s = fmaps st" "mem s = mem st" "quarantine_view s = quarantine_view st" by metis
  from check_allocated_ready [OF s(5,6), of k ms True] r s(7,8) obtain rc t where
    c: "mc_check_allocated_buffer b True s = Some (rc, t)" by auto
  note q = mc_check_allocated_buffer_quiet [OF c]
  have "releasing (N(Live := N Live - {b})) F C b t" using s(4) quiet_releasing [OF q] by simp
  from quarantine_memblk_returns [OF this, of "mb_usrsize m"] obtain rc out st' where
    "quarantine_memblk b (mb_usrsize m) t = Some ((rc, out), st')"
    using quiet_simps [OF q] quiet_views [OF q] s(3,9,10) buf oldest by auto
  then show ?thesis using s(1-3) c by (simp add: mc_unregister_memblk_def)
qed

lemma report_double_free_reading:
  assumes b: "fm_allocator fb \<in> C" "fm_freer fb \<in> C" and f: "frames_in A C st" "\<forall>n. set (backtraces st n) \<subseteq> A"
    and r: "reading k A ms (fmaps st)"
  shows "\<exists>st'. report_double_free p fb st = Some st' \<and> reading k A ms (fmaps st')"
proof -
  let ?a = "fm_allocator fb" and ?z = "fm_freer fb" and ?s1 = "mc_log_print Allocated_from (mc_log_print (Double_free p) st)"
  have fr: "x \<noteq> NULL \<and> trace_ok (csh s x) \<and> set (cs_trace (csh s x)) \<subseteq> A" if "quiet st s" "x \<in> C" for s x
    using frames_in_report [OF quiet_report_only [OF that(1)]] f(1) that(2) by (auto simp: frames_in_def)
  have q1: "quiet st ?s1" by (intro quiet_log_print quiet_refl)
  obtain s2 where s2: "mc_print_callstack (cs_depth (csh ?s1 ?a)) (cs_trace (csh ?s1 ?a)) 2 ?s1 = Some s2" "reading k A ms (fmaps s2)"
    using print_callstack_reading [of k A ms ?s1 "csh ?s1 ?a" 2] fr [OF q1 b(1)] r by auto
  let ?s3 = "mc_log_print Freed_from s2"
  have q3: "quiet st ?s3" by (intro quiet_log_print quiet_trans [OF q1 print_callstack_quiet [OF s2(1)]])
  obtain s4 where s4: "mc_print_callstack (cs_depth (csh ?s3 ?z)) (cs_trace (csh ?s3 ?z)) 2 ?s3 = Some s4" "reading k A ms (fmaps s4)"
    using print_callstack_reading [of k A ms ?s3 "csh ?s3 ?z" 2] fr [OF q3 b(2)] s2(2) by auto
  let ?s5 = "mc_log_print Then_being_freed_from s4"
  have q5: "quiet st ?s5" by (intro quiet_log_print quiet_trans [OF q3 print_callstack_quiet [OF s4(1)]])
  have "\<forall>n. set (backtraces ?s5 n) \<subseteq> A" using f(2) quiet_simps(19) [OF q5] by simp
  then obtain st' where "mc_print_current_callstack 3 ?s5 = Some st'" "reading k A ms (fmaps st')"
    using print_current_reading [of k A ms ?s5 3] s4(2) by auto
  then show ?thesis using s2(1) s4(1) fr [OF q1 b(1)] fr [OF q3 b(2)] by (simp add: report_double_free_def cs_at_def)
qed

lemma unregister_unknown_returns:
  assumes T: "traced A st" and dead: "live_view st p = None" and r: "ready (Suc k) A ms (fmaps st)"
  shows "\<exists>r. mc_unregister_memblk p st = Some r"
proof -
  from T obtain N F C where "traced_at N F C A st" by (auto simp: traced_def)
  note D = traced_atD [OF this] and I = mc_invD [OF traced_atD(1) [OF this]]
  have inj: "inj_on (usr_of st) (N Live)" using I(2) by (simp add: keys_ok_def)
  have rem: "remove_ptr Live p st = Some (NULL, st)"
  proof (cases rule: remove_ptr_ok [OF I(1), of Live p])
    case (2 b h t)
    then show ?thesis using live_view_at [OF I(1) inj 2(1)] dead by simp
  qed
  obtain s where s: "init_fmaps st = Some s" "reading k A ms (fmaps s)" using init_fmaps_ready [OF r] by blast
  let ?s = "mc_log_print Separator s"
  have q: "quiet st ?s" by (intro quiet_log_print init_fmaps_quiet [OF s(1)])
  have f: "frames_in A C ?s" "\<forall>n. set (backtraces ?s n) \<subseteq> A"
    using D(5,6) frames_in_report [OF quiet_report_only [OF q]] quiet_simps(19) [OF q] by simp_all
  obtain n t where n: "find_free p st = Some n" and t: "(if n = NULL then report_illegal_free p ?s
      else report_double_free p (fm ?s (get_free_memblk_from_memptr n)) ?s) = Some t" "reading k A ms (fmaps t)"
  proof (cases rule: find_free_ok [OF I(1), of p])
    case 1
    let ?u = "mc_log_print Being_freed_from (mc_log_print (Illegal_free p) ?s)"
    have "\<forall>n. set (backtraces ?u n) \<subseteq> A" using f(2) by (simp add: mc_log_print_def)
    then obtain t where "report_illegal_free p ?s = Some t" "reading k A ms (fmaps t)"
      using print_current_reading [of k A ms ?u 3] s(2) by (auto simp: report_illegal_free_def)
    then show ?thesis using that 1 by simp
  next
    case (2 x)
    have "fm ?s x = fm st x" using quiet_simps(5) [OF q] by simp
    then have "fm_allocator (fm ?s x) \<in> C" "fm_freer (fm ?s x) \<in> C" using D(3) 2(2) by auto
    from report_double_free_reading [OF this f, of k ms p] s(2) show ?thesis using that 2 by auto
  qed
  obtain st' where "term_fmaps t = Some st'" using term_fmaps_ready [OF t(2)] by blast
  then have "handle_illegally_freed_buffer p st = Some st'" using n s(1) t(1) by (simp add: handle_illegally_freed_buffer_def)
  then show ?thesis using rem by (simp add: mc_unregister_memblk_def)
qed

text \<open>The check of all blocks.\<close>

lemma check_traced_returns:
  assumes T: "traced A st" and e: "\<forall>x\<in>set (quarantine_view st). unat (mb_bufsize (snd x)) < 2 ^ 31"
    and r: "ready (card (dom (live_view st)) + length (quarantine_view st)) A ms (fmaps st)"
  shows "\<exists>rc st'. mc_check_all_memblk st = Some (rc, st')"
proof -
  from T obtain N F C where "traced_at N F C A st" by (auto simp: traced_def)
  note D = traced_atD [OF this] and I = mc_invD [OF traced_atD(1) [OF this]]
  have q: "set (quarantine st) = F" "distinct (quarantine st)" using I(3) by (simp_all add: queue_ok_def)
  have "unat (mb_bufsize (fm_memblk (fm st f))) < 2 ^ 31" if "f \<in> F" for f
    using e that q(1) by (auto simp: quarantine_view_def)
  then have ft: "\<forall>f\<in>F. freed_traced C st f" using D(3) by (simp add: freed_traced_def)
  have "inj_on (usr_of st) (N Live)" using I(2) by (simp add: keys_ok_def)
  then have "card (dom (live_view st)) = card (N Live)" using dom_live_view [OF I(1)] card_image by metis
  moreover have "length (quarantine_view st) = card F" using q distinct_card [OF q(2)] by (simp add: quarantine_view_def)
  ultimately show ?thesis using check_all_returns [OF D(1,2) ft D(5), of ms] r by simp
qed

end
