(* ===== verification/MC_Mctest.thy ===== *)
theory MC_Mctest
  imports MC_Copies MC_Traced
begin

text \<open>
  The test program of the repository, \<open>mctest.c\<close>, under the hooks: a program with one function for
  every kind of error that the library is made to find. Dereferencing a null pointer is \<open>None\<close>. The
  lines it prints are left out; the answers of \<open>fgets\<close> are a parameter.
\<close>

section \<open>The C library\<close>

text \<open>A byte stored through a pointer.\<close>

definition store_at :: "addr \<Rightarrow> size_t \<Rightarrow> u8 \<Rightarrow> mc \<Rightarrow> mc option" where
  "store_at ptr i v st = (if ptr = NULL then None else Some (st\<lparr>mem := (mem st)(ptr + i := v)\<rparr>))"

fun write_bytes :: "addr \<Rightarrow> u8 list \<Rightarrow> (addr \<Rightarrow> u8) \<Rightarrow> addr \<Rightarrow> u8" where
  "write_bytes p [] m = m"
| "write_bytes p (b # bs) m = write_bytes (p + 1) bs (m(p := b))"

definition strcpy :: "addr \<Rightarrow> string \<Rightarrow> mc \<Rightarrow> mc option" where
  "strcpy dest s st =
     (if dest = NULL then None else Some (st\<lparr>mem := write_bytes dest (map of_char s @ [0]) (mem st)\<rparr>))"

definition strdup :: "string \<Rightarrow> mc \<Rightarrow> (addr \<times> mc) option" where
  "strdup s st =
     do {
       (p, st) \<leftarrow> malloc (of_nat (length s + 1)) st;
       (if p = NULL then Some (NULL, st) else do { st \<leftarrow> strcpy p s st; Some (p, st) })
     }"

section \<open>The program\<close>

definition access_freed_area :: "mc \<Rightarrow> mc option" where
  "access_freed_area st =
     do {
       (ptr, st) \<leftarrow> malloc 10 st;
       st \<leftarrow> free ptr st;
       strcpy ptr ''hoge'' st
     }"

definition double_free :: "mc \<Rightarrow> mc option" where
  "double_free st =
     do {
       (ptr, st) \<leftarrow> malloc 10 st;
       st \<leftarrow> free ptr st;
       free ptr st
     }"

definition memory_overrun :: "mc \<Rightarrow> mc option" where
  "memory_overrun st =
     do {
       (ptr, st) \<leftarrow> malloc 10 st;
       st \<leftarrow> store_at ptr 10 (of_char (CHR ''a'')) st;
       free ptr st
     }"

definition memory_leak :: "mc \<Rightarrow> mc option" where
  "memory_leak st =
     do {
       (ptr, st) \<leftarrow> malloc 10 st;
       (str, st) \<leftarrow> strdup ''hoge'' st;
       st \<leftarrow> (if ptr = NULL then None else Some (st\<lparr>mem := memset ptr 0 10 (mem st)\<rparr>));
       store_at str 0 (of_char (CHR ''b'')) st
     }"

text \<open>\<open>answer k\<close> tells whether the \<open>k\<close>th \<open>fgets\<close> got a line.\<close>

definition mctest_main :: "(nat \<Rightarrow> bool) \<Rightarrow> mc \<Rightarrow> (int \<times> mc) option" where
  "mctest_main answer st =
     (if \<not> answer 0 then Some (- 1, st) else do {
        (ptr1, st) \<leftarrow> memalign 8 30 st;
        (ptr2, st) \<leftarrow> valloc 30 st;
        (ret, st) \<leftarrow> posix_memalign 8 30 st;
        (ptr4_0, st) \<leftarrow> malloc 64 st;
        (ptr4_1, st) \<leftarrow> malloc 64 st;
        (if \<not> answer 1 then Some (- 1, st) else do {
           st \<leftarrow> access_freed_area st;
           (if \<not> answer 2 then Some (- 1, st) else do {
              st \<leftarrow> double_free st;
              (if \<not> answer 3 then Some (- 1, st) else do {
                 st \<leftarrow> memory_overrun st;
                 (if \<not> answer 4 then Some (- 1, st) else do {
                    st \<leftarrow> memory_leak st;
                    Some (if \<not> answer 5 then (- 1, st) else (0, st))
                 })
              })
           })
        })
      })"

section \<open>What the library finds\<close>

lemma supplied_mono: "supplied n st \<Longrightarrow> m \<le> n \<Longrightarrow> supplied m st"
  unfolding supplied_def using granted_mono by blast

text \<open>Releasing a damaged block: what the check of the trailing zone writes stays in the log.\<close>

lemma unregister_damaged:
  assumes inv: "mc_ok st" and live: "live_view st p = Some m" and e: "entry_ok (p, m)"
    and oldest: "length (quarantine_view st) = FREE_FIFO_SIZE \<longrightarrow> quarantine_intact (mem st) (snd (hd (quarantine_view st)))"
    and run: "mc_unregister_memblk p st = Some ((rc, out), st')"
    and w: "n \<in> trailing_zone (mb_buf m) p (mb_bufsize m) (mb_usrsize m)" "mem st (of_nat n) \<noteq> REDZONE_PATTERN"
    and most: "\<forall>k\<in>trailing_zone (mb_buf m) p (mb_bufsize m) (mb_usrsize m). n < k \<longrightarrow> mem st (of_nat k) = REDZONE_PATTERN"
    and n: "n + 1 < unat (mb_buf m) + unat (mb_bufsize m)"
  shows "Overrun (int (n + 1 - (unat p + unat (mb_usrsize m)))) p (mb_usrsize m) \<in> set (new_lines st st')"
proof -
  from inv obtain N F C where I: "mc_inv N F C st" by (auto simp: mc_ok_def)
  obtain a st1 where rem: "remove_ptr Live p st = Some (a, st1)" using run by (auto simp: mc_unregister_memblk_def split: Option.bind_splits)
  have a: "a \<noteq> NULL"
  proof (cases rule: remove_ptr_ok [OF mc_invD(1) [OF I], of Live p])
    case 1
    then have "live_view st p = None" by (intro live_view_absent [OF mc_invD(1) [OF I]]) auto
    then show ?thesis using live by simp
  next
    case (2 b h t)
    then show ?thesis using rem by simp
  qed
  from remove_ptr_releasing [OF I rem a] obtain b where
    b: "a = memptr_of b" "usr_of st1 b = p" "am st1 = am st" "mem st1 = mem st" "live_view st p = Some (am_memblk (am st b))"
      "quarantine_view st1 = quarantine_view st" "releasing (N(Live := N Live - {b})) F C b st1" "log st1 = log st" by blast
  have m: "am_memblk (am st1 b) = m" using b(3,5) live by simp
  have layout: "layout_ok (mb_buf m) p (mb_bufsize m) (mb_usrsize m)" using e by (simp add: entry_ok_def)
  obtain rc1 s2 where c: "mc_check_allocated_buffer b True st1 = Some (rc1, s2)"
    and rest: "quarantine_memblk b (mb_usrsize m) s2 = Some ((rc, out), st')"
    using run rem a b(1) m b(3) by (auto simp: mc_unregister_memblk_def split: Option.bind_splits)
  note q = mc_check_allocated_buffer_quiet [OF c]
  obtain u s where us: "check_underrun m p st1 = (u, s)" by fastforce
  have ms: "mem s = mem st" using quiet_simps(17) [OF check_underrun_quiet [OF us]] b(4) by simp
  have line: "Overrun (int (n + 1 - (unat p + unat (mb_usrsize m)))) p (mb_usrsize m) \<in> set (new_lines s (snd (check_overrun m p u s)))"
    using check_overrun_report [OF layout w(1), of s u] w(2) most n ms by simp
  obtain v s1 where vs: "check_overrun m p u s = (v, s1)" by fastforce
  have v: v using check_overrun_iff [OF layout, of u s] vs w ms by (auto simp: zone_holds_def)
  have rep: "report_allocated_block (am_allocator (am s1 b)) True s1 = Some s2"
    using c us vs v m b(2) by (auto simp: mc_check_allocated_buffer_def Let_def usr_of_def split: Option.bind_splits)
  note qu = check_underrun_quiet [OF us] and qo = check_overrun_quiet [OF vs] and qr = report_allocated_block_quiet [OF rep]
  have "new_lines st1 s2 = new_lines st1 s @ new_lines s s1 @ new_lines s1 s2"
    using new_lines_trans [OF qu quiet_trans [OF qo qr]] new_lines_trans [OF qo qr] by simp
  with line vs have in2: "Overrun (int (n + 1 - (unat p + unat (mb_usrsize m)))) p (mb_usrsize m) \<in> set (new_lines st1 s2)" by simp
  have rel: "releasing (N(Live := N Live - {b})) F C b s2" using quiet_releasing [OF q] b(7) by simp
  have f: "mem s2 = mem st" "am s2 = am st1" "quarantine_view s2 = quarantine_view st"
    using quiet_simps [OF q] quiet_views [OF q] b(4,6) by simp_all
  have "\<exists>rc out st''. quarantine_memblk b (mb_usrsize m) s2 = Some ((rc, out), st'') \<and> log st'' = log s2"
    using quarantine_memblk_returns [OF rel, of "mb_usrsize m"] f oldest layout m by (auto simp: layout_ok_def)
  then have "log st' = log s2" using rest by auto
  then show ?thesis using in2 new_lines_same(1) [OF b(8), of s2] new_lines_same(2) [of s2 st' st] by simp
qed

text \<open>The addresses of a block that malloc handed out.\<close>

lemma block_of_range:
  assumes "entry_ok (p, block_of p n)"
  shows "unat (p - REDZONE_SIZE) + 16 = unat p" "trailing_zone (p - REDZONE_SIZE) p (n + REDZONE_SIZE * 2) n =
     {unat p + unat n ..< unat (p - REDZONE_SIZE) + unat (n + REDZONE_SIZE * 2)}"
    "unat p + unat n \<le> unat (p - REDZONE_SIZE) + unat (n + REDZONE_SIZE * 2)" "unat (p - REDZONE_SIZE) + unat (n + REDZONE_SIZE * 2) \<le> 2 ^ 64"
proof -
  have l: "p - REDZONE_SIZE \<le> p" "unat p + unat n \<le> unat (p - REDZONE_SIZE) + unat (n + REDZONE_SIZE * 2)"
    "unat (p - REDZONE_SIZE) + unat (n + REDZONE_SIZE * 2) \<le> 2 ^ 64"
    using assms by (auto simp: entry_ok_def layout_ok_def block_of_def)
  then show "unat p + unat n \<le> unat (p - REDZONE_SIZE) + unat (n + REDZONE_SIZE * 2)"
    "unat (p - REDZONE_SIZE) + unat (n + REDZONE_SIZE * 2) \<le> 2 ^ 64" by blast+
  have "unat (p - (p - REDZONE_SIZE)) = unat p - unat (p - REDZONE_SIZE)" using l(1) by (rule unat_sub)
  moreover have "unat (p - (p - REDZONE_SIZE)) = 16" by (simp add: REDZONE_SIZE_def)
  ultimately show "unat (p - REDZONE_SIZE) + 16 = unat p" by simp
  show "trailing_zone (p - REDZONE_SIZE) p (n + REDZONE_SIZE * 2) n =
     {unat p + unat n ..< unat (p - REDZONE_SIZE) + unat (n + REDZONE_SIZE * 2)}" by (simp add: trailing_zone_def)
qed

text \<open>One byte in the buffer of a live block leaves the quarantine as it was.\<close>

lemma poke_quarantine:
  assumes cl: "clean st" and live: "live_view st p = Some m" and a: "unat a \<in> buffer_of m" and q: "(r, b) \<in> set (quarantine_view st)"
  shows "quarantine_intact ((mem st)(a := v)) b"
proof -
  have e: "(p, m) \<in> entries st" "(r, b) \<in> entries st" using live q by (simp_all add: entries_def)
  have "r \<noteq> p" using live_not_quarantined [OF cleanD(1) [OF cl] live] q by force
  then have "buffer_of b \<inter> {unat a} = {}" using cleanD(5) [OF cl] e a unfolding apart_def by fast
  then have "zone_holds ((mem st)(a := v)) FREEDBUF_PATTERN (buffer_of b)"
    by (intro clean_others(2) [OF cl _ q, of "{unat a}"]) auto
  then show ?thesis using clean_quarantine [OF cl q] by (simp add: quarantine_intact_def)
qed

text \<open>What a call of malloc and a release of a live block do in a clean state, for the reports that follow.\<close>

lemma free_queues:
  assumes cl: "clean st" and sup: "supplied 2 st" and live: "live_view st p = Some m" and p: "p \<noteq> NULL"
    and t: "traced A st" and r: "ready k A ms (fmaps st)"
  obtains s where "free p st = Some s" "clean s" "log s = log st" "live_view s = (live_view st)(p := None)"
    "(p, m) \<in> set (quarantine_view s)" "length (quarantine_view s) \<le> Suc (length (quarantine_view st))" "traced A s" "ready k A ms (fmaps s)"
proof -
  have "supplied 1 st" by (rule supplied_mono [OF sup]) simp
  from unregister_clean [OF cl this live] obtain out s where
    u: "mc_unregister_memblk p st = Some ((0, Some out), s)" "clean s" "log s = log st" "live_view s = (live_view st)(p := None)"
      "outside s = outside st" by blast
  have "supplied (Suc (Suc 0)) st" using sup by (simp add: numeral_2_eq_2)
  note T = unregister_traced [OF t live this u(1)]
  have "(0 :: int) \<noteq> - 1" by simp
  with conjunct2 [OF mc_unregister_memblk_known [OF cleanD(1) [OF cl] live u(1)]] obtain old where
    "spec_unregister p (spec_of st) = Some (old, spec_of s)" by blast
  then have e: "spec_enqueue (p, m) (quarantine_view st) = (old, quarantine_view s)"
    using live by (auto simp: spec_unregister_def spec_of_def split: prod.splits)
  then have q: "(p, m) \<in> set (quarantine_view s)" using spec_enqueue_set by blast
  have l: "length (quarantine_view s) \<le> Suc (length (quarantine_view st))"
    using e by (auto simp: spec_enqueue_def dest: arg_cong [where f = length] split: if_splits)
  have f: "free p st = Some (if out \<noteq> NULL then mc_orig_free out s else s)" using u(1) p cleanD(3) [OF cl] by (simp add: free_def)
  have "fmaps s = fmaps st" using u(5) by (simp add: outside_def)
  then have "ready k A ms (fmaps (if out \<noteq> NULL then mc_orig_free out s else s))" using r by (simp add: mc_orig_free_def set_libc_def)
  from that [OF f _ _ _ _ _ _ this] show ?thesis using u q l T by (simp add: mc_orig_free_def)
qed

lemma malloc_traced:
  assumes cl: "clean st" and sup: "supplied (Suc (Suc k)) st" and g: "grants (n + REDZONE_SIZE * 2) st" and n: "unat n + 32 < 2 ^ 31"
    and o: "fst (mc_orig_malloc (n + REDZONE_SIZE * 2) st) \<noteq> NULL" and run: "malloc n st = Some (p, st')"
  shows "p = fst (mc_orig_malloc (n + REDZONE_SIZE * 2) st) + REDZONE_SIZE" "traced A st \<Longrightarrow> traced A st'"
    "ready j A ms (fmaps st) \<Longrightarrow> ready j A ms (fmaps st')" "quarantine_view st' = quarantine_view st"
proof -
  let ?n = "n + REDZONE_SIZE * 2"
  obtain buf e where b: "mc_orig_malloc ?n st = (buf, set_libc e st)"
    using that by (cases "orig_malloc ?n (libc st)") (simp add: mc_orig_malloc_def)
  have un: "unused buf ?n st" using g o b by (simp add: grants_def)
  note E = malloc_entry [OF conjunct1 [OF un [unfolded unused_def]] n]
  have e: "entry_ok (buf + REDZONE_SIZE, \<lparr>mb_buf = buf, mb_bufsize = ?n, mb_usrsize = n\<rparr>)" using E(1) by (simp add: block_of_def)
  have cl': "clean (set_libc e st)" "supplied (Suc (Suc k)) (set_libc e st)" "unused buf ?n (set_libc e st)" using cl sup un by simp_all
  from register_clean(2) [OF cl' e] obtain s where
    s: "mc_register_memblk buf (buf + REDZONE_SIZE) ?n n (set_libc e st) = Some (0, s)" "outside s = outside (set_libc e st)"
      "quarantine_view s = quarantine_view st" unfolding libc_frame by blast
  have new: "live_view (set_libc e st) (buf + REDZONE_SIZE) = None" by (rule register_clean(1) [OF cl' e])
  have "(q, m) \<notin> set (quarantine_view st)" if "q = buf + REDZONE_SIZE" for q m
  proof
    assume "(q, m) \<in> set (quarantine_view st)"
    then have "(q, m) \<in> entries st" by (simp add: entries_def)
    moreover from this have "unat q \<in> buffer_of m" using cleanD(4) [OF cl, of "(q, m)"] by (simp add: entry_ok_def)
    moreover have "unat q \<in> {unat buf ..< unat buf + unat ?n}" using E(2,3) that by simp
    ultimately show False using un unfolding unused_def by blast
  qed
  then have nq: "buf + REDZONE_SIZE \<notin> fst ` set (quarantine_view (set_libc e st))" by auto
  have r: "p = buf + REDZONE_SIZE" "st' = s"
    using run b o s(1) cleanD(2,3) [OF cl] by (auto simp: malloc_def mc_init_def Let_def)
  show "p = fst (mc_orig_malloc ?n st) + REDZONE_SIZE" using r b by simp
  show "quarantine_view st' = quarantine_view st" using r s(3) by simp
  show "ready j A ms (fmaps st) \<Longrightarrow> ready j A ms (fmaps st')" using s(2) r by (simp add: outside_def set_libc_def)
  assume "traced A st"
  then obtain N F C where "traced_at N F C A (set_libc e st)" by (auto simp: traced_def)
  from register_traced_at [OF this new nq cl'(2) s(1)] show "traced A st'" using r by simp
qed

lemma malloc_nonnull:
  assumes cl: "clean st" and sup: "supplied (Suc (Suc k)) st" and g: "grants (n + REDZONE_SIZE * 2) st" and n: "unat n + 32 < 2 ^ 31"
    and o: "fst (mc_orig_malloc (n + REDZONE_SIZE * 2) st) \<noteq> NULL"
  obtains p st' where "malloc n st = Some (p, st')" "p \<noteq> NULL" "clean st'" "supplied k st'" "log st' = log st" "live_view st p = None"
    "live_view st' = (live_view st)(p \<mapsto> block_of p n)" "\<And>A. traced A st \<Longrightarrow> traced A st'"
    "\<And>j A ms. ready j A ms (fmaps st) \<Longrightarrow> ready j A ms (fmaps st')" "quarantine_view st' = quarantine_view st"
proof -
  from malloc_clean [OF cl sup g n] o obtain p st' where m: "malloc n st = Some (p, st')" "clean st'" "supplied k st'" "log st' = log st"
    "p \<noteq> NULL" "live_view st p = None \<and> live_view st' = (live_view st)(p \<mapsto> block_of p n)" by blast
  show ?thesis by (rule that [OF m(1,5)]) (use m malloc_traced [OF cl sup g n o m(1)] in blast)+
qed

lemma overrun_found:
  assumes cl: "clean st" and sup: "supplied 4 st" and g: "grants (10 + REDZONE_SIZE * 2) st"
    and o: "fst (mc_orig_malloc (10 + REDZONE_SIZE * 2) st) \<noteq> NULL" and t: "traced A st" and r: "ready (Suc k) A ms (fmaps st)"
  shows "\<exists>s p. memory_overrun st = Some s \<and> live_view st p = None \<and> Overrun 1 p 10 \<in> set (new_lines st s)"
proof -
  have "supplied (Suc (Suc 2)) st" using sup by (simp add: eval_nat_numeral)
  then obtain p st1 where m: "malloc 10 st = Some (p, st1)" "p \<noteq> NULL" "clean st1" "supplied 2 st1" "log st1 = log st"
    "live_view st p = None" "live_view st1 = (live_view st)(p \<mapsto> block_of p 10)"
    "traced A st1" "ready (Suc k) A ms (fmaps st1)"
    by (rule malloc_nonnull [OF cl _ g _ o]) (use t r in auto)
  define st2 where "st2 = st1\<lparr>mem := (mem st1)(p + 10 := of_char (CHR ''a''))\<rparr>"
  have L: "live_view st1 p = Some (block_of p 10)" using m(7) by simp
  note C = clean_live [OF m(3) L]
  note R = block_of_range [OF C(3)]
  have n42: "unat (10 + REDZONE_SIZE * 2 :: size_t) = 42" by (simp add: REDZONE_SIZE_def)
  have at: "unat (p + 10) = unat p + 10" using unat_add_bounded [of p 10] R(1,4) n42 by simp
  have hook: "do_not_hook st2 = 0" using cleanD(3) [OF m(3)] by (simp add: st2_def)
  have st2: "mc_ok st2" "live_view st2 p = Some (block_of p 10)" using cleanD(1) [OF m(3)] L by (simp_all add: st2_def)
  have "unat (p + 10) \<in> buffer_of (block_of p 10)" using at R(1) n42 by (simp add: buffer_of_def block_of_def)
  then have oldest: "length (quarantine_view st2) = FREE_FIFO_SIZE \<longrightarrow> quarantine_intact (mem st2) (snd (hd (quarantine_view st2)))"
    using poke_quarantine [OF m(3) L, of "p + 10" "fst (hd (quarantine_view st1))" "snd (hd (quarantine_view st1))"]
      hd_in_set [of "quarantine_view st1"] by (cases "quarantine_view st1") (auto simp: st2_def FREE_FIFO_SIZE_def)
  have buf: "unat (mb_buf (block_of p 10)) + unat (mb_bufsize (block_of p 10)) \<le> 2 ^ 64" using R(4) by (simp add: block_of_def)
  have "traced A st2" "ready (Suc k) A ms (fmaps st2)" using m(8,9) by (simp_all add: st2_def)
  from unregister_live_returns [OF this(1) st2(2) this(2) buf oldest] obtain rc out s1 where
    u: "mc_unregister_memblk p st2 = Some ((rc, out), s1)" by auto
  have "supplied (Suc 1) st2" using m(4) by (simp add: st2_def eval_nat_numeral)
  from mc_unregister_memblk_supplied [OF st2(1) this _ u] have "rc = 0" using st2(2) by simp
  then obtain buf where out: "out = Some buf" using mc_unregister_memblk_known [OF st2 u] by auto
  define s where "s = (if buf \<noteq> NULL then mc_orig_free buf s1 else s1)"
  have run: "memory_overrun st = Some s" and ls: "log s = log s1"
    using m(1,2) u out hook by (simp_all add: memory_overrun_def store_at_def st2_def free_def s_def mc_orig_free_def)
  have zone: "trailing_zone (mb_buf (block_of p 10)) p (mb_bufsize (block_of p 10)) (mb_usrsize (block_of p 10)) = {unat p + 10 ..< unat p + 26}"
  proof -
    have e: "unat (p - REDZONE_SIZE) + 42 = unat p + 26" using R(1) by linarith
    show ?thesis unfolding block_of_def memblk.simps R(2) n42 e by simp
  qed
  have "Overrun (int (unat p + 10 + 1 - (unat p + unat (mb_usrsize (block_of p 10))))) p (mb_usrsize (block_of p 10)) \<in> set (new_lines st2 s1)"
  proof (rule unregister_damaged [of st2 p "block_of p 10" rc out s1 "unat p + 10"])
    show "mc_ok st2" "live_view st2 p = Some (block_of p 10)" by (rule st2)+
    show "entry_ok (p, block_of p 10)" by (rule C(3))
    show "mc_unregister_memblk p st2 = Some ((rc, out), s1)" by (rule u)
    show "length (quarantine_view st2) = FREE_FIFO_SIZE \<longrightarrow> quarantine_intact (mem st2) (snd (hd (quarantine_view st2)))" by (rule oldest)
    show "unat p + 10 \<in> trailing_zone (mb_buf (block_of p 10)) p (mb_bufsize (block_of p 10)) (mb_usrsize (block_of p 10))"
      unfolding zone by simp
    have "of_nat (unat p + 10) = p + 10" by simp
    then show "mem st2 (of_nat (unat p + 10)) \<noteq> REDZONE_PATTERN" by (simp add: st2_def REDZONE_PATTERN_def)
    show "\<forall>k\<in>trailing_zone (mb_buf (block_of p 10)) p (mb_bufsize (block_of p 10)) (mb_usrsize (block_of p 10)).
        unat p + 10 < k \<longrightarrow> mem st2 (of_nat k) = REDZONE_PATTERN"
      unfolding zone
    proof (intro ballI impI)
      fix k assume k: "k \<in> {unat p + 10 ..< unat p + 26}" "unat p + 10 < k"
      then have u: "unat (of_nat k :: addr) = k" using R(1,4) n42 by (intro unat_of_nat_u64) simp
      then have "(of_nat k :: addr) \<noteq> p + 10" using at k(2) by auto
      moreover have "k \<in> zones_of p (block_of p 10)" using k zone by (simp add: zones_of_def)
      ultimately show "mem st2 (of_nat k) = REDZONE_PATTERN"
        using cleanD(6) [OF m(3) L] by (simp add: st2_def zone_holds_def)
    qed
    show "unat p + 10 + 1 < unat (mb_buf (block_of p 10)) + unat (mb_bufsize (block_of p 10))"
      using R(1) n42 by (simp add: block_of_def)
  qed
  moreover have "new_lines st s = new_lines st2 s1"
    using new_lines_same(1) [of st2 st s] new_lines_same(2) [OF ls, of st2] m(5) by (simp add: st2_def)
  ultimately have "Overrun 1 p 10 \<in> set (new_lines st s)" by (simp add: block_of_def)
  then show ?thesis using run m(6) by blast
qed

lemma double_free_found:
  assumes cl: "clean st" and sup: "supplied 4 st" and g: "grants (10 + REDZONE_SIZE * 2) st"
    and o: "fst (mc_orig_malloc (10 + REDZONE_SIZE * 2) st) \<noteq> NULL" and t: "traced A st" and r: "ready (Suc k) A ms (fmaps st)"
  shows "\<exists>s p. double_free st = Some s \<and> live_view st p = None \<and> filter free_report (new_lines st s) = [Double_free p]"
proof -
  have "supplied (Suc (Suc 2)) st" using sup by (simp add: eval_nat_numeral)
  then obtain p st1 where m: "malloc 10 st = Some (p, st1)" "p \<noteq> NULL" "clean st1" "supplied 2 st1" "log st1 = log st" "live_view st p = None"
    "live_view st1 = (live_view st)(p \<mapsto> block_of p 10)" "traced A st1" "ready (Suc k) A ms (fmaps st1)"
    by (rule malloc_nonnull [OF cl _ g _ o]) (use t r in auto)
  have "live_view st1 p = Some (block_of p 10)" using m(7) by simp
  then obtain st2 where f: "free p st1 = Some st2" "clean st2" "log st2 = log st1" "live_view st2 = (live_view st1)(p := None)"
    "(p, block_of p 10) \<in> set (quarantine_view st2)" "traced A st2" "ready (Suc k) A ms (fmaps st2)"
    by (rule free_queues [OF m(3,4) _ m(2) m(8,9)])
  have dead: "live_view st2 p = None" using f(4) by simp
  from unregister_unknown_returns [OF f(6) dead f(7)] obtain rc out s where u: "mc_unregister_memblk p st2 = Some ((rc, out), s)" by auto
  note U = mc_unregister_memblk_unknown [OF cleanD(1) [OF f(2)] dead u]
  have "double_free st = Some s"
    using m(1,2) f(1) u U(2) cleanD(3) [OF f(2)] by (simp add: double_free_def free_def [of p st2])
  moreover have "p \<in> fst ` set (quarantine_view st2)" using f(5) by force
  with mc_unregister_memblk_reports [OF cleanD(1) [OF f(2)] dead u] have "filter free_report (new_lines st2 s) = [Double_free p]" by simp
  moreover have "new_lines st2 s = new_lines st s" using f(3) m(5) by (intro new_lines_same) simp
  ultimately show ?thesis using m(6) by auto
qed

lemma hoge_first: "write_bytes p (map of_char ''hoge'' @ [0]) m p = of_char (CHR ''h'')"
  by simp

lemma access_found:
  assumes cl: "clean st" and sup: "supplied 4 st" and g: "grants (10 + REDZONE_SIZE * 2) st"
    and o: "fst (mc_orig_malloc (10 + REDZONE_SIZE * 2) st) \<noteq> NULL" and t: "traced A st"
    and r: "ready (Suc (card (dom (live_view st)) + length (quarantine_view st))) A ms (fmaps st)"
  obtains s s' where "access_freed_area st = Some s" "log s = log st" "mc_check_all_memblk s = Some (- 1, s')" "clean s'"
proof -
  let ?k = "Suc (card (dom (live_view st)) + length (quarantine_view st))"
  have "supplied (Suc (Suc 2)) st" using sup by (simp add: eval_nat_numeral)
  then obtain p st1 where m: "malloc 10 st = Some (p, st1)" "p \<noteq> NULL" "clean st1" "supplied 2 st1" "log st1 = log st"
    "live_view st1 = (live_view st)(p \<mapsto> block_of p 10)" "live_view st p = None"
    "traced A st1" "ready ?k A ms (fmaps st1)" "quarantine_view st1 = quarantine_view st"
    by (rule malloc_nonnull [OF cl _ g _ o]) (use t r in auto)
  have L: "live_view st1 p = Some (block_of p 10)" using m(6) by simp
  obtain st2 where f: "free p st1 = Some st2" "clean st2" "log st2 = log st1" "live_view st2 = (live_view st1)(p := None)"
    "(p, block_of p 10) \<in> set (quarantine_view st2)" "length (quarantine_view st2) \<le> Suc (length (quarantine_view st1))"
    "traced A st2" "ready ?k A ms (fmaps st2)"
    by (rule free_queues [OF m(3,4) L m(2,8,9)])
  define s where "s = st2\<lparr>mem := write_bytes p (map of_char ''hoge'' @ [0]) (mem st2)\<rparr>"
  have run: "access_freed_area st = Some s" using m(1,2) f(1) by (simp add: access_freed_area_def strcpy_def s_def)
  have lo: "laid_out s" using f(2) clean_laid_out [of st2] by (simp add: laid_out_def s_def)
  have "mem s p = of_char (CHR ''h'')" unfolding s_def using hoge_first by simp
  then have h: "mem s p \<noteq> FREEDBUF_PATTERN" by (simp add: FREEDBUF_PATTERN_def)
  have "unat p \<in> buffer_of (block_of p 10)" using clean_live(3) [OF m(3) L] by (simp add: entry_ok_def)
  then have "\<not> zone_holds (mem s) FREEDBUF_PATTERN (buffer_of (block_of p 10))"
    using h by (auto simp: zone_holds_def intro!: bexI [of _ "unat p"])
  then have n: "\<not> all_intact s" using f(5) by (auto simp: all_intact_def s_def)
  have "\<forall>x\<in>set (quarantine_view s). unat (mb_bufsize (snd x)) < 2 ^ 31"
  proof
    fix x assume "x \<in> set (quarantine_view s)"
    then have "x \<in> entries st2" by (simp add: s_def entries_def)
    from cleanD(4) [OF f(2) this] show "unat (mb_bufsize (snd x)) < 2 ^ 31" by (cases x) (simp add: entry_ok_def)
  qed
  moreover have "(live_view st)(p \<mapsto> block_of p 10, p := None) = live_view st" using m(7) by auto
  then have "live_view st2 = live_view st" using f(4) m(6) by simp
  with ready_mono [OF f(8), of "card (dom (live_view s)) + length (quarantine_view s)"] have
    "ready (card (dom (live_view s)) + length (quarantine_view s)) A ms (fmaps s)" using f(6) m(10) by (simp add: s_def)
  moreover have "traced A s" using f(7) by (simp add: s_def)
  ultimately obtain rc s' where c: "mc_check_all_memblk s = Some (rc, s')" using check_traced_returns by blast
  then have "rc = - 1" "clean s'" using check_all_result(1,2) [OF lo c] n by (simp_all add: verdict_def)
  then show ?thesis using that [OF run _ _ ] f(3) m(5) c by (simp add: s_def)
qed

text \<open>What is leaked stays on the record.\<close>

lemma write_bytes_outside:
  assumes "unat p + length bs \<le> 2 ^ 64" "unat a \<notin> {unat p ..< unat p + length bs}"
  shows "write_bytes p bs m a = m a"
  using assms
proof (induction bs arbitrary: p m)
  case (Cons b bs)
  have ap: "a \<noteq> p" using Cons.prems(2) by auto
  show ?case
  proof (cases "bs = []")
    case False
    then have "unat p + 1 < 2 ^ 64" using Cons.prems(1) by (cases bs) auto
    then have "unat (p + 1) = unat p + 1" using unat_add_bounded [of p 1] by simp
    then have "write_bytes (p + 1) bs (m(p := b)) a = (m(p := b)) a" using Cons.prems by (intro Cons.IH) auto
    then show ?thesis using ap by simp
  qed (use ap in simp)
qed simp

lemma leak_recorded:
  assumes cl: "clean st" and sup: "supplied 4 st" and g: "grants (10 + REDZONE_SIZE * 2) st"
    and o: "fst (mc_orig_malloc (10 + REDZONE_SIZE * 2) st) \<noteq> NULL"
    and g2: "\<And>p st1. malloc 10 st = Some (p, st1) \<Longrightarrow> grants (5 + REDZONE_SIZE * 2) st1 \<and> fst (mc_orig_malloc (5 + REDZONE_SIZE * 2) st1) \<noteq> NULL"
  obtains p q s where "memory_leak st = Some s" "clean s" "log s = log st" "p \<noteq> q" "live_view st p = None" "live_view st q = None"
    "live_view s = (live_view st)(p \<mapsto> block_of p 10, q \<mapsto> block_of q 5)"
proof -
  have "supplied (Suc (Suc 2)) st" using sup by (simp add: eval_nat_numeral)
  then obtain p st1 where m: "malloc 10 st = Some (p, st1)" "p \<noteq> NULL" "clean st1" "supplied 2 st1" "log st1 = log st" "live_view st p = None"
    "live_view st1 = (live_view st)(p \<mapsto> block_of p 10)"
    by (rule malloc_nonnull [OF cl _ g _ o]) auto
  have "supplied (Suc (Suc 0)) st1" using m(4) by (simp add: numeral_2_eq_2)
  then obtain q st2 where n: "malloc 5 st1 = Some (q, st2)" "q \<noteq> NULL" "clean st2" "supplied 0 st2" "log st2 = log st1" "live_view st1 q = None"
    "live_view st2 = (live_view st1)(q \<mapsto> block_of q 5)"
    by (rule malloc_nonnull [OF m(3) _ conjunct1 [OF g2 [OF m(1)]] _ conjunct2 [OF g2 [OF m(1)]]]) auto
  have pq: "p \<noteq> q" "live_view st q = None" using n(6) m(7) by (auto split: if_splits)
  have Lp: "live_view st2 p = Some (block_of p 10)" and Lq: "live_view st2 q = Some (block_of q 5)" using n(7) m(7) pq by simp_all
  have bp: "unat p + 10 \<le> 2 ^ 64" and bq: "unat q + 5 \<le> 2 ^ 64"
    using block_of_range(3,4) [OF clean_live(3) [OF n(3) Lp]] block_of_range(3,4) [OF clean_live(3) [OF n(3) Lq]] by auto
  define m1 where "m1 = write_bytes q (map of_char ''hoge'' @ [0]) (mem st2)"
  define m2 where "m2 = memset p 0 10 m1"
  define m3 where "m3 = m2(q := of_char (CHR ''b''))"
  have c1: "clean (st2\<lparr>mem := m1\<rparr>)"
    by (rule write_clean [OF n(3) Lq], unfold m1_def, rule write_bytes_outside) (use bq in \<open>auto simp: user_bytes_def block_of_def\<close>)
  have "m2 a = m1 a" if "unat a \<notin> user_bytes p (block_of p 10)" for a
    using that memset_in [of p 10 0 m1 a] bp by (auto simp: m2_def user_bytes_def block_of_def)
  then have c2: "clean (st2\<lparr>mem := m2\<rparr>)"
    using write_clean [OF c1, of p "block_of p 10" m2] Lp by simp
  have m3: "m3 a = m2 a" if "unat a \<notin> user_bytes q (block_of q 5)" for a
    using that by (auto simp: m3_def user_bytes_def block_of_def)
  have c3: "clean (st2\<lparr>mem := m3\<rparr>)"
    using write_clean [OF c2, of q "block_of q 5" m3] Lq m3 by simp
  have sd: "strdup ''hoge'' st1 = Some (q, st2\<lparr>mem := m1\<rparr>)" using n(1,2) by (simp add: strdup_def strcpy_def m1_def)
  have "memory_leak st = Some (st2\<lparr>mem := m3\<rparr>)"
    unfolding memory_leak_def using m(1,2) sd n(2) by (simp add: store_at_def m2_def m3_def)
  then show ?thesis
    by (rule that [OF _ c3 _ pq(1) m(6) pq(2)]) (use m(5,7) n(5,7) in simp_all)
qed

section \<open>A run of the test program\<close>

text \<open>The state after the start, in a process of one file whose symbols can be read once.\<close>

definition mc_traceable :: mc where
  "mc_traceable = mc_started\<lparr>fmaps := bin_fmaps 1\<rparr>"

lemma mc_traceable:
  "clean mc_traceable" "traced UNIV mc_traceable" "supplied 4 mc_traceable" "unat n < 2 ^ 31 \<Longrightarrow> grants n mc_traceable"
  "fst (mc_orig_malloc n mc_traceable) \<noteq> NULL" "live_view mc_traceable = Map.empty" "quarantine_view mc_traceable = []"
  "ready 1 UNIV [bin_a] (fmaps mc_traceable)" "log mc_traceable = [Started]"
proof -
  have q: "quiet mc_started mc_traceable" unfolding mc_traceable_def by (rule quiet_fmaps)
  show v: "live_view mc_traceable = Map.empty" "quarantine_view mc_traceable = []" using quiet_views [OF q] mc_started(5,6) by simp_all
  have ok: "mc_ok mc_traceable" using quiet_mc_inv [OF q] mc_started(2) by (simp add: mc_ok_def)
  then show "clean mc_traceable" using v mc_started(4,8) by (simp add: clean_def entries_def apart_def mc_traceable_def)
  show "supplied 4 mc_traceable" using supplied_mono [OF mc_started(9), of 4] by (simp add: mc_traceable_def supplied_def)
  have b: "fst (mc_orig_malloc n mc_traceable) = 0x700000" for n
    by (simp add: mc_orig_malloc_def libc_def mc_traceable_def bin_fmaps_def orig_malloc_def)
  then show "fst (mc_orig_malloc n mc_traceable) \<noteq> NULL" by simp
  show "unat n < 2 ^ 31 \<Longrightarrow> grants n mc_traceable" using v b by (simp add: grants_def unused_def entries_def)
  show "ready 1 UNIV [bin_a] (fmaps mc_traceable)" using bin_fmaps_ready [of 1] by (simp add: mc_traceable_def)
  show "log mc_traceable = [Started]" using mc_started(10) by (simp add: mc_traceable_def)
  from ok obtain N F C where I: "mc_inv N F C mc_traceable" by (auto simp: mc_ok_def)
  note T = mc_invD [OF I]
  have "inj_on (usr_of mc_traceable) (N Live)" using T(2) by (simp add: keys_ok_def)
  from dom_live_view [OF T(1) this] have "N Live = {}" using v(1) by simp
  moreover have "F = {}" using quarantine_addresses [OF T(3)] v(2) by simp
  ultimately have "traced_at N F C UNIV mc_traceable" using I by (simp add: traced_at_def frames_at_def)
  then show "traced UNIV mc_traceable" by (auto simp: traced_def)
qed

end
