(* ===== verification/MC_Regions.thy ===== *)
theory MC_Regions
  imports MC_Virtmem MC_Duplicate
begin

text \<open>
  The chain of page regions: ordered, disjoint and not even adjacent. Registering a block adds
  its pages, when the candidate where the search may start is a node of the chain.
\<close>

section \<open>Regions\<close>

abbreviation region_next :: "virtmem \<Rightarrow> addr \<Rightarrow> addr" where "region_next vm p \<equiv> pr_next (pr vm p)"

definition region_of :: "virtmem \<Rightarrow> addr \<Rightarrow> u64 \<times> u64" where
  "region_of vm p = (pr_start (pr vm p), pr_end (pr vm p))"

lemma region_of_fst_snd [simp]: "fst (region_of vm p) = pr_start (pr vm p)" "snd (region_of vm p) = pr_end (pr vm p)"
  by (simp_all add: region_of_def)

definition separated :: "(u64 \<times> u64) list \<Rightarrow> bool" where
  "separated rs \<longleftrightarrow> sorted_wrt (\<lambda>a b. snd a < fst b) rs \<and> (\<forall>r\<in>set rs. fst r \<le> snd r)"

definition bytes_of :: "(u64 \<times> u64) list \<Rightarrow> u64 set" where
  "bytes_of rs = (\<Union>r\<in>set rs. {fst r ..< snd r})"

lemma bytes_of_simps [simp]:
  "bytes_of [] = {}" "bytes_of (r # rs) = {fst r ..< snd r} \<union> bytes_of rs" "bytes_of (xs @ ys) = bytes_of xs \<union> bytes_of ys"
  by (auto simp: bytes_of_def)

lemma separated_append:
  "separated (xs @ ys) \<longleftrightarrow> separated xs \<and> separated ys \<and> (\<forall>x\<in>set xs. \<forall>y\<in>set ys. snd x < fst y)"
  by (auto simp: separated_def sorted_wrt_append)

lemma separated_Cons: "separated (r # rs) \<longleftrightarrow> fst r \<le> snd r \<and> separated rs \<and> (\<forall>y\<in>set rs. snd r < fst y)"
  by (auto simp: separated_def)

lemma separated_Nil [simp]: "separated []"
  by (simp add: separated_def)

text \<open>Only the pool of page regions changes.\<close>

definition pages_only :: "mc \<Rightarrow> mc \<Rightarrow> bool" where
  "pages_only st st' \<longleftrightarrow> (\<exists>b. st' = st\<lparr>blk := b\<rparr> \<and> blk_ok b \<and> (\<forall>j. j \<noteq> Pageregion \<longrightarrow> blk_live j b = blk_live j (blk st)))"

lemma pages_only_refl: "blk_ok (blk st) \<Longrightarrow> pages_only st st"
  unfolding pages_only_def by (intro exI [of _ "blk st"]) simp

lemma pages_only_trans: "pages_only st s \<Longrightarrow> pages_only s st' \<Longrightarrow> pages_only st st'"
  by (auto simp: pages_only_def)

lemma pages_only_blk: "pages_only st st' \<Longrightarrow> blk_ok (blk st')"
  by (auto simp: pages_only_def)

definition regions_ok :: "virtmem \<Rightarrow> addr list \<Rightarrow> bool" where
  "regions_ok vm ps \<longleftrightarrow>
     blk_ok (blk (base vm)) \<and> lst (region_next vm) (head_next vm) ps \<and>
     set ps \<subseteq> blk_live Pageregion (blk (base vm)) \<and> separated (map (region_of vm) ps)"

lemma regions_okD:
  assumes "regions_ok vm ps"
  shows "blk_ok (blk (base vm))" "lst (region_next vm) (head_next vm) ps" "set ps \<subseteq> blk_live Pageregion (blk (base vm))"
    "separated (map (region_of vm) ps)" "distinct ps" "NULL \<notin> set ps"
  using assms lst_distinct [of "region_next vm" "head_next vm" ps] lst_nonnull_mem [of "region_next vm" "head_next vm" ps]
  unfolding regions_ok_def by blast+

section \<open>Nodes\<close>

lemma allocate_pageregion_ok:
  assumes "blk_ok (blk (base vm))"
  obtains (failed) b where "allocate_pageregion s e vm = Some (NULL, upd_base (\<lambda>st. st\<lparr>blk := b\<rparr>) vm)"
      "pages_only (base vm) ((base vm)\<lparr>blk := b\<rparr>)" "blk_live Pageregion b = blk_live Pageregion (blk (base vm))"
      "\<And>k. \<not> supplied (Suc k) (base vm)"
  | (fresh) p b where
      "allocate_pageregion s e vm =
         Some (p, (upd_base (\<lambda>st. st\<lparr>blk := b\<rparr>) vm)\<lparr>pr := (pr vm)(p := \<lparr>pr_start = s, pr_end = e, pr_next = NULL\<rparr>)\<rparr>)"
      "p \<noteq> NULL" "p \<notin> blk_live Pageregion (blk (base vm))" "pages_only (base vm) ((base vm)\<lparr>blk := b\<rparr>)"
      "blk_live Pageregion b = insert p (blk_live Pageregion (blk (base vm)))"
      "mc_allocate_pageregion (blk (base vm)) = Some (p, b)" "\<And>k. supplied (Suc k) (base vm) \<Longrightarrow> supplied k ((base vm)\<lparr>blk := b\<rparr>)"
proof -
  from blk.alloc_returns [OF assms, of Pageregion] obtain p b where
    a: "allocate_kind Pageregion (blk (base vm)) = Some (p, b)" by blast
  note A = blk.alloc_inv [OF assms a] blk.alloc_other [OF assms a]
  have G: "p \<noteq> NULL" "supplied k ((base vm)\<lparr>blk := b\<rparr>)" if "supplied (Suc k) (base vm)" for k
    using that allocate_kind_granted [OF assms _ a] by (simp_all add: supplied_def)
  have po: "pages_only (base vm) ((base vm)\<lparr>blk := b\<rparr>)" unfolding pages_only_def using A by (intro exI [of _ b]) simp
  show ?thesis
  proof (cases "p = NULL")
    case True
    then show ?thesis
      using failed [of b] G(1) a po blk.alloc_fail [OF assms, of Pageregion b]
      by (simp add: allocate_pageregion_def mc_allocate_pageregion_def upd_base_def Let_def) blast
  next
    case False
    then show ?thesis
      using fresh [of p b] G(2) a po blk.alloc_fresh [OF assms a False] blk.alloc_live [OF assms a False]
      by (simp add: allocate_pageregion_def mc_allocate_pageregion_def upd_base_def upd_pr_def Let_def)
  qed
qed

lemma free_pageregion_ok:
  assumes "blk_ok (blk (base vm))" "p \<in> blk_live Pageregion (blk (base vm))"
  shows "pages_only (base vm) (base (free_pageregion p vm))"
    "blk_live Pageregion (blk (base (free_pageregion p vm))) = blk_live Pageregion (blk (base vm)) - {p}"
    "pr (free_pageregion p vm) = pr vm" "head_next (free_pageregion p vm) = head_next vm"
    "pageregion_cand (free_pageregion p vm) = pageregion_cand vm"
    "vmarea_array (free_pageregion p vm) = vmarea_array vm" "vma_cnt (free_pageregion p vm) = vma_cnt vm"
    "supplied k (base (free_pageregion p vm)) = supplied k (base vm)"
proof -
  note F = blk.release_inv [OF assms] blk.release_live [OF assms] blk.release_other [OF assms]
  show "pages_only (base vm) (base (free_pageregion p vm))"
    unfolding pages_only_def free_pageregion_def upd_base_def mc_free_pageregion_def
    by (rule exI [of _ "free_kind Pageregion p (blk (base vm))"]) (use F in simp)
  show "supplied k (base (free_pageregion p vm)) = supplied k (base vm)"
    using supplied_release [of k Pageregion p "base vm"]
    by (simp add: free_pageregion_def upd_base_def mc_free_pageregion_def do_release_def)
qed (use blk.release_live [OF assms] in \<open>simp_all add: free_pageregion_def upd_base_def mc_free_pageregion_def\<close>)

section \<open>Chains\<close>

lemma lst_congI: "lst nx p xs \<Longrightarrow> (\<And>z. z \<in> set xs \<Longrightarrow> nx' z = nx z) \<Longrightarrow> lst nx' p xs"
  using lst_cong [of xs nx nx'] by simp

lemma lst_set_next:
  "lst nx h (us @ y # ws) \<Longrightarrow> lst nx n vs \<Longrightarrow> y \<notin> set vs \<Longrightarrow> lst (nx(y := n)) h (us @ y # vs)"
proof (induction us arbitrary: h)
  case Nil
  then show ?case by (simp add: lst_upd_notin del: fun_upd_apply) simp
next
  case (Cons u us)
  have "distinct (u # us @ y # ws)" using lst_distinct [OF Cons.prems(1)] by simp
  then show ?case using Cons by simp
qed

text \<open>The pointer that the code carries along: the last node of \<open>us\<close>, or the head.\<close>

definition prev_of :: "addr list \<Rightarrow> region_ptr" where
  "prev_of us = (if us = [] then Region_head else Region (last us))"

lemma insert_region:
  fixes s e :: u64
  assumes "lst (region_next vm) (head_next vm) (us @ vs)" "lst (region_next vm) x vs"
    and p: "p \<noteq> NULL" "p \<notin> set (us @ vs)"
  defines "vm' \<equiv> set_next (prev_of us) p (vm\<lparr>pr := (pr vm)(p := \<lparr>pr_start = s, pr_end = e, pr_next = x\<rparr>)\<rparr>)"
  shows "lst (region_next vm') (head_next vm') (us @ p # vs)"
    "map (region_of vm') (us @ p # vs) = map (region_of vm) us @ (s, e) # map (region_of vm) vs"
    "base vm' = base vm" "pageregion_cand vm' = pageregion_cand vm"
proof -
  define nm where "nm = vm\<lparr>pr := (pr vm)(p := \<lparr>pr_start = s, pr_end = e, pr_next = x\<rparr>)\<rparr>"
  have old: "region_next nm z = region_next vm z" if "z \<noteq> p" for z using that by (simp add: nm_def)
  have vs: "lst (region_next nm) x vs" by (rule lst_congI [OF assms(2)]) (use old p(2) in \<open>metis Un_iff set_append\<close>)
  have hn: "head_next nm = head_next vm" by (simp add: nm_def)
  have all: "lst (region_next nm) (head_next nm) (us @ vs)"
    unfolding hn by (rule lst_congI [OF assms(1)]) (use old p(2) in metis)
  have np: "region_next nm p = x" by (simp add: nm_def)
  have pv: "lst (region_next nm) p (p # vs)" using vs p(1) np by simp
  have vm': "vm' = set_next (prev_of us) p nm" by (simp add: vm'_def nm_def)
  show "base vm' = base vm" "pageregion_cand vm' = pageregion_cand vm"
    by (simp_all add: vm'_def set_next_def upd_pr_def split: region_ptr.splits)
  have reg: "region_of vm' z = (if z = p then (s, e) else region_of vm z)" for z
    by (simp add: vm'_def set_next_def upd_pr_def region_of_def split: region_ptr.splits)
  show "map (region_of vm') (us @ p # vs) = map (region_of vm) us @ (s, e) # map (region_of vm) vs"
    using p(2) reg by auto
  show "lst (region_next vm') (head_next vm') (us @ p # vs)"
  proof (cases us rule: rev_cases)
    case Nil
    then have "vm' = nm\<lparr>head_next := p\<rparr>" by (simp add: vm' prev_of_def set_next_def)
    then show ?thesis using Nil pv by simp
  next
    case (snoc ws u)
    have "distinct (us @ vs)" using lst_distinct [OF assms(1)] .
    then have u: "u \<notin> set (p # vs)" using p(2) snoc by auto
    have "vm' = upd_pr u (\<lambda>x. x\<lparr>pr_next := p\<rparr>) nm" using snoc by (simp add: vm' prev_of_def set_next_def)
    then have "region_next vm' = (region_next nm)(u := p)" "head_next vm' = head_next nm"
      by (auto simp: upd_pr_def fun_eq_iff)
    then show ?thesis using lst_set_next [of "region_next nm" "head_next nm" ws u vs p "p # vs"] all pv u snoc by simp
  qed
qed

section \<open>Merging\<close>

lemma separated_bounds:
  "separated rs \<Longrightarrow> x \<in> set rs \<Longrightarrow> fst (rs ! 0) \<le> fst x \<and> snd x \<le> snd (last rs)"
proof (induction rs)
  case (Cons r rs)
  have r: "fst r \<le> snd r" "\<And>y. y \<in> set rs \<Longrightarrow> snd r < fst y" "\<And>y. y \<in> set rs \<Longrightarrow> fst y \<le> snd y"
    using Cons.prems(1) by (auto simp: separated_def)
  show ?case
  proof (cases "x = r")
    case True
    then show ?thesis using r(2,3) [of "last rs"] by fastforce
  next
    case False
    then have x: "x \<in> set rs" using Cons.prems(2) by simp
    then have "snd x \<le> snd (last rs)" using Cons.IH Cons.prems(1) by (simp add: separated_Cons)
    moreover have "fst r \<le> fst x" using r(1) r(2) [OF x] by simp
    ultimately show ?thesis using x by auto
  qed
qed simp

lemma merged_bytes:
  assumes "separated (r # ds)" "\<forall>d\<in>set (r # ds). fst d \<le> e" "s \<le> snd r" "s \<le> e"
  shows "bytes_of (r # ds) \<union> {s ..< e} = {min s (fst r) ..< max (snd (last (r # ds))) e}" (is "?L = ?R")
proof (rule set_eqI)
  fix x
  let ?l = "last (r # ds)"
  have l: "?l \<in> set (r # ds)" by simp
  show "x \<in> ?L \<longleftrightarrow> x \<in> ?R"
  proof
    assume "x \<in> ?L"
    then consider z where "z \<in> set (r # ds)" "fst z \<le> x" "x < snd z" | "s \<le> x" "x < e"
      by (simp only: bytes_of_def Un_iff UN_iff atLeastLessThan_iff) blast
    then show "x \<in> ?R"
    proof cases
      case 1
      have "fst r \<le> x" "x < snd ?l" using separated_bounds [OF assms(1) 1(1)] 1(2,3) by auto
      then show ?thesis by (auto simp: min_def max_def)
    qed (auto simp: min_def max_def)
  next
    assume x: "x \<in> ?R"
    consider "x < s" | "s \<le> x" "x < e" | "e \<le> x" by force
    then show "x \<in> ?L"
    proof cases
      case 1
      then have "fst r \<le> x" "x < snd r" using x assms(3) by (auto simp: min_def split: if_splits)
      then show ?thesis by simp
    next
      case 3
      have "fst ?l \<le> e" using assms(2) l by blast
      then have "fst ?l \<le> x" using 3 by order
      moreover have "x < snd ?l" using x 3 by (simp add: max_def split: if_splits)
      ultimately show ?thesis using l unfolding bytes_of_def by auto
    qed simp
  qed
qed

lemma merge_regions_ok:
  assumes "blk_ok (blk (base vm))" "lst (region_next vm) q zs" "set zs \<subseteq> blk_live Pageregion (blk (base vm))"
  obtains ds rs q' vm' where
    "zs = ds @ rs" "lst (region_next vm) q' rs"
    "merge_regions e ne q vm = Some (if ds = [] then ne else pr_end (pr vm (last ds)), q', vm')"
    "\<forall>d\<in>set ds. pr_start (pr vm d) \<le> e" "\<forall>r ws. rs = r # ws \<longrightarrow> e < pr_start (pr vm r)"
    "pages_only (base vm) (base vm')" "blk_live Pageregion (blk (base vm')) = blk_live Pageregion (blk (base vm)) - set ds"
    "pr vm' = pr vm" "head_next vm' = head_next vm" "pageregion_cand vm' = pageregion_cand vm"
    "\<And>k. supplied k (base vm') = supplied k (base vm)"
  using assms
proof (induction zs arbitrary: q ne vm thesis)
  case Nil
  then show ?case
    by (intro Nil.prems(1) [of "[]" "[]" NULL vm]) (auto simp: merge_regions.simps pages_only_refl)
next
  case (Cons z zs)
  have q: "q = z" "z \<noteq> NULL" "lst (region_next vm) (region_next vm z) zs" using Cons.prems(3) by auto
  show ?case
  proof (cases "e < pr_start (pr vm z)")
    case True
    then show ?thesis
      using q Cons.prems(2) by (intro Cons.prems(1) [of "[]" "z # zs" z vm]) (auto simp: merge_regions.simps [of e ne z vm] pages_only_refl)
  next
    case False
    define vm1 where "vm1 = free_pageregion z vm"
    have zl: "z \<in> blk_live Pageregion (blk (base vm))" using Cons.prems(4) by simp
    note F = free_pageregion_ok [OF Cons.prems(2) zl, folded vm1_def]
    have nz: "z \<notin> set zs" using lst_notin_tail [OF q(3)] .
    have l1: "lst (region_next vm1) (region_next vm z) zs" using q(3) F(3) by simp
    have s1: "set zs \<subseteq> blk_live Pageregion (blk (base vm1))" using F(2) nz Cons.prems(4) by auto
    obtain ds rs q' vm' where I:
      "zs = ds @ rs" "lst (region_next vm1) q' rs"
      "merge_regions e (pr_end (pr vm z)) (region_next vm z) vm1 =
         Some (if ds = [] then pr_end (pr vm z) else pr_end (pr vm1 (last ds)), q', vm')"
      "\<forall>d\<in>set ds. pr_start (pr vm1 d) \<le> e" "\<forall>r ws. rs = r # ws \<longrightarrow> e < pr_start (pr vm1 r)"
      "pages_only (base vm1) (base vm')" "blk_live Pageregion (blk (base vm')) = blk_live Pageregion (blk (base vm1)) - set ds"
      "pr vm' = pr vm1" "head_next vm' = head_next vm1" "pageregion_cand vm' = pageregion_cand vm1"
      "\<And>k. supplied k (base vm') = supplied k (base vm1)"
      by (rule Cons.IH [OF _ pages_only_blk [OF F(1)] l1 s1]) (rule that)
    have "merge_regions e ne q vm = merge_regions e (pr_end (pr vm z)) (region_next vm z) vm1"
      using q False by (subst merge_regions.simps) (simp add: vm1_def)
    then show ?thesis
      using I F False pages_only_trans [OF F(1) I(6)]
      by (intro Cons.prems(1) [of "z # ds" rs q' vm']) (auto split: if_splits)
  qed
qed

section \<open>Registration\<close>

text \<open>What a registration leaves: the bytes are added, or there was no node for them.\<close>

definition registered :: "virtmem \<Rightarrow> addr list \<Rightarrow> u64 \<Rightarrow> u64 \<Rightarrow> int \<Rightarrow> virtmem \<Rightarrow> addr list \<Rightarrow> bool" where
  "registered vm ps s e rc vm' ps' \<longleftrightarrow>
     regions_ok vm' ps' \<and> pages_only (base vm) (base vm') \<and> (rc = 0 \<or> rc = - 1) \<and>
     (\<forall>k. supplied (Suc k) (base vm) \<longrightarrow> rc = 0 \<and> supplied k (base vm')) \<and>
     (if rc = 0 then bytes_of (map (region_of vm') ps') = bytes_of (map (region_of vm) ps) \<union> {s ..< e}
      else ps' = ps \<and> map (region_of vm') ps = map (region_of vm) ps) \<and>
     (pageregion_cand vm' \<in> set ps' \<or> pageregion_cand vm' = pageregion_cand vm) \<and>
     (set ps \<subseteq> set ps' \<or> pageregion_cand vm' = pageregion_cand vm)"

lemma separated_insert:
  assumes "separated (us @ vs)" "s \<le> e" "\<forall>u\<in>set us. snd u < s" "vs = [] \<or> e < fst (vs ! 0)"
  shows "separated (us @ (s, e) # vs)"
proof -
  have "e < fst y" if "y \<in> set vs" for y
    using assms(1,4) separated_bounds [of vs y] that by (auto simp: separated_append)
  then show ?thesis using assms by (auto simp: separated_append separated_Cons)
qed

lemma separated_merged:
  assumes "separated (us @ (r # ds) @ rs)" "s \<le> e" "\<forall>u\<in>set us. snd u < s" "rs = [] \<or> e < fst (rs ! 0)"
  shows "separated (us @ (min s (fst r), max (snd (last (r # ds))) e) # rs)"
proof (rule separated_insert)
  show "separated (us @ rs)" using assms(1) by (simp add: separated_append separated_Cons)
  show "min s (fst r) \<le> max (snd (last (r # ds))) e"
    by (rule order_trans [OF min.cobounded1 order_trans [OF assms(2) max.cobounded2]])
  show "\<forall>u\<in>set us. snd u < min s (fst r)" using assms(1,3) by (auto simp: separated_append)
  have "snd (last (r # ds)) < fst (rs ! 0)" if "rs \<noteq> []"
    using assms(1) that last_in_set [of "r # ds"] nth_mem [of 0 rs] unfolding separated_append by blast
  then show "rs = [] \<or> max (snd (last (r # ds))) e < fst (rs ! 0)" using assms(4) by auto
qed

text \<open>A new region before \<open>q\<close>, as both ends of the loop enter it.\<close>

lemma insert_ok:
  assumes R: "regions_ok vm (us @ vs)" and q: "lst (region_next vm) q vs" and se: "s \<le> e"
    and us: "\<forall>u\<in>set us. pr_end (pr vm u) < s" and vs: "vs = [] \<or> e < pr_start (pr vm (vs ! 0))"
    and a: "allocate_pageregion s e vm = Some (p, vm1)"
  shows "if p = NULL then registered vm (us @ vs) s e (- 1) vm1 (us @ vs)
     else registered vm (us @ vs) s e 0 (set_next (prev_of us) p (set_next (Region p) q vm1)) (us @ p # vs)"
  using regions_okD(1) [OF R]
proof (cases rule: allocate_pageregion_ok [of vm s e])
  case (failed b)
  have vm1: "p = NULL" "vm1 = upd_base (\<lambda>st. st\<lparr>blk := b\<rparr>) vm" using a failed(1) by auto
  have "pages_only (base vm) (base vm1)" "blk_live Pageregion (blk (base vm1)) = blk_live Pageregion (blk (base vm))"
    "pr vm1 = pr vm" "head_next vm1 = head_next vm" "pageregion_cand vm1 = pageregion_cand vm"
    using failed by (simp_all add: vm1 upd_base_def)
  moreover have "region_of vm1 = region_of vm" using calculation(3) by (simp add: region_of_def fun_eq_iff)
  ultimately have "registered vm (us @ vs) s e (- 1) vm1 (us @ vs)"
    using R pages_only_blk [of "base vm" "base vm1"] failed(4) by (simp add: registered_def regions_ok_def)
  then show ?thesis using vm1 by simp
next
  case (fresh p' b)
  define vmb where "vmb = upd_base (\<lambda>st. st\<lparr>blk := b\<rparr>) vm"
  have vm1: "p = p'" "vm1 = vmb\<lparr>pr := (pr vmb)(p := \<lparr>pr_start = s, pr_end = e, pr_next = NULL\<rparr>)\<rparr>"
    using a fresh(1) by (auto simp: vmb_def upd_base_def)
  have B: "pr vmb = pr vm" "head_next vmb = head_next vm" "pageregion_cand vmb = pageregion_cand vm"
    "base vmb = (base vm)\<lparr>blk := b\<rparr>" by (simp_all add: vmb_def upd_base_def)
  have p: "p \<noteq> NULL" "p \<notin> set (us @ vs)" using fresh(2,3) regions_okD(3) [OF R] by (auto simp: vm1)
  let ?vm = "set_next (prev_of us) p (set_next (Region p) q vm1)"
  have eq: "?vm = set_next (prev_of us) p (vmb\<lparr>pr := (pr vmb)(p := \<lparr>pr_start = s, pr_end = e, pr_next = q\<rparr>)\<rparr>)"
    by (simp add: vm1 set_next_def upd_pr_def)
  have rb: "region_of vmb = region_of vm" using B by (auto simp: region_of_def)
  have "lst (region_next vmb) (head_next vmb) (us @ vs)" "lst (region_next vmb) q vs"
    using regions_okD(2) [OF R] q B by simp_all
  note I = insert_region [OF this p, of s e, folded eq, unfolded rb]
  have us': "\<forall>u\<in>set (map (region_of vm) us). snd u < s" using us by (auto simp: region_of_def)
  have vs': "map (region_of vm) vs = [] \<or> e < fst (map (region_of vm) vs ! 0)" using vs by (cases vs) (auto simp: region_of_def)
  have "separated (map (region_of vm) us @ (s, e) # map (region_of vm) vs)"
    by (rule separated_insert [OF _ se us' vs']) (use regions_okD(4) [OF R] in simp)
  then have sep: "separated (map (region_of ?vm) (us @ p # vs))" unfolding I(2) .
  have po: "pages_only (base vm) (base ?vm)" using fresh(4) I(3) B by simp
  have "regions_ok ?vm (us @ p # vs)"
    unfolding regions_ok_def using I(1) sep pages_only_blk [OF po] I(3) B fresh(5) regions_okD(3) [OF R] vm1(1) by auto
  moreover have "bytes_of (map (region_of ?vm) (us @ p # vs)) = bytes_of (map (region_of vm) (us @ vs)) \<union> {s ..< e}"
    unfolding I(2) by auto
  ultimately have "registered vm (us @ vs) s e 0 ?vm (us @ p # vs)"
    using po I(3,4) B fresh(7) by (auto simp: registered_def)
  then show ?thesis using p by simp
qed

lemma merge_into_ok:
  assumes R: "regions_ok vm (us @ v # vs)" and se: "s \<le> e"
    and us: "\<forall>u\<in>set us. pr_end (pr vm u) < s" and v: "\<not> e < pr_start (pr vm v)" "s \<le> pr_end (pr vm v)"
  obtains vm' ps' where "merge_into s e v vm = Some vm'" "registered vm (us @ v # vs) s e 0 vm' ps'"
proof -
  note D = regions_okD [OF R]
  have nv: "lst (region_next vm) (region_next vm v) vs" using lst_suffix [OF D(2)] .
  obtain ds rs q' vm1 where M:
    "vs = ds @ rs" "lst (region_next vm) q' rs"
    "merge_regions e (pr_end (pr vm v)) (region_next vm v) vm =
       Some (if ds = [] then pr_end (pr vm v) else pr_end (pr vm (last ds)), q', vm1)"
    "\<forall>d\<in>set ds. pr_start (pr vm d) \<le> e" "\<forall>r ws. rs = r # ws \<longrightarrow> e < pr_start (pr vm r)"
    "pages_only (base vm) (base vm1)" "blk_live Pageregion (blk (base vm1)) = blk_live Pageregion (blk (base vm)) - set ds"
    "pr vm1 = pr vm" "head_next vm1 = head_next vm" "pageregion_cand vm1 = pageregion_cand vm"
    "\<And>k. supplied k (base vm1) = supplied k (base vm)"
    by (rule merge_regions_ok [OF D(1) nv, of e "pr_end (pr vm v)"]) (use D(3) in \<open>auto intro: that\<close>)
  define ns where "ns = min s (pr_start (pr vm v))"
  define ne where "ne = max (pr_end (pr vm (last (v # ds)))) e"
  define vm' where "vm' = upd_pr v (\<lambda>x. \<lparr>pr_start = ns, pr_end = ne, pr_next = q'\<rparr>) vm1"
  have run: "merge_into s e v vm = Some vm'"
    using M(3) by (cases "pr vm v") (simp add: merge_into_def vm'_def ns_def ne_def upd_pr_def M(8) min_def max_def)
  have nv: "v \<notin> set us" "v \<notin> set ds" "v \<notin> set rs" using D(5) M(1) by auto
  have reg: "region_of vm' z = (if z = v then (ns, ne) else region_of vm z)" for z
    by (simp add: vm'_def upd_pr_def region_of_def M(8))
  have nxt: "region_next vm' = (region_next vm)(v := q')" by (auto simp: vm'_def upd_pr_def M(8) fun_eq_iff)
  have regs: "map (region_of vm') (us @ v # rs) = map (region_of vm) us @ (ns, ne) # map (region_of vm) rs"
    using nv reg by auto
  have sep: "separated (map (region_of vm) us)" "separated (map (region_of vm) (v # ds))" "separated (map (region_of vm) rs)"
    using D(4) M(1) by (auto simp: separated_append separated_Cons)
  have bytes: "bytes_of (map (region_of vm) (v # ds)) \<union> {s ..< e} = {ns ..< ne}"
    using merged_bytes [of "region_of vm v" "map (region_of vm) ds" e s] sep(2) M(4) v se
    by (simp add: ns_def ne_def region_of_def last_map not_less split: if_splits)
  have us': "\<forall>u\<in>set (map (region_of vm) us). snd u < s" using us by (auto simp: region_of_def)
  have rs': "map (region_of vm) rs = [] \<or> e < fst (map (region_of vm) rs ! 0)" using M(5) by (cases rs) (auto simp: region_of_def)
  have "separated (map (region_of vm) us @ (region_of vm v # map (region_of vm) ds) @ map (region_of vm) rs)"
    using D(4) M(1) by simp
  note merged = separated_merged [OF this se us' rs']
  show ?thesis
  proof (rule that [OF run])
    have "lst (region_next vm') (head_next vm') (us @ v # rs)"
      using lst_set_next [OF D(2), of q' rs] M(2,9) nv(3) nxt by (simp add: vm'_def upd_pr_def)
    moreover have "set (us @ v # rs) \<subseteq> blk_live Pageregion (blk (base vm'))"
      using D(3,5) M(1,7) by (auto simp: vm'_def upd_pr_def)
    moreover have "separated (map (region_of vm') (us @ v # rs))"
      unfolding regs ns_def ne_def using merged by (cases ds rule: rev_cases) (simp_all add: region_of_def)
    moreover have "pages_only (base vm) (base vm')" using M(6) by (simp add: vm'_def upd_pr_def)
    moreover have "bytes_of (map (region_of vm') (us @ v # rs)) = bytes_of (map (region_of vm) (us @ v # vs)) \<union> {s ..< e}"
      unfolding regs using bytes M(1) by auto
    moreover have "pageregion_cand vm' = pageregion_cand vm" using M(10) by (simp add: vm'_def upd_pr_def)
    moreover have "supplied k (base vm')" if "supplied (Suc k) (base vm)" for k
      using that M(11) granted_mono [of "Suc k" _ k] by (simp add: vm'_def upd_pr_def supplied_def)
    ultimately show "registered vm (us @ v # vs) s e 0 vm' (us @ v # rs)"
      using pages_only_blk [of "base vm" "base vm'"] by (simp add: registered_def regions_ok_def)
  qed
qed

lemma region_of_upd [simp]:
  "region_of (vm\<lparr>pageregion_cand := c\<rparr>) = region_of vm" "region_of (vm\<lparr>prev_pageregion_cand := r\<rparr>) = region_of vm"
  by (simp_all add: region_of_def fun_eq_iff)

lemma registered_cand:
  "registered vm ps s e 0 vm' ps' \<Longrightarrow> p \<in> set ps' \<Longrightarrow> set ps \<subseteq> set ps' \<Longrightarrow>
     registered vm ps s e 0 (vm'\<lparr>pageregion_cand := p, prev_pageregion_cand := r\<rparr>) ps'"
  by (simp add: registered_def regions_ok_def)

lemma allocate_returns:
  assumes "blk_ok (blk (base vm))"
  obtains p vm1 where "allocate_pageregion s e vm = Some (p, vm1)" "p \<noteq> NULL \<Longrightarrow> set_next (Region p) NULL vm1 = vm1"
  using assms
proof (cases rule: allocate_pageregion_ok [of vm s e])
  case (failed b)
  then show ?thesis using that by blast
next
  case (fresh p b)
  show ?thesis by (rule that [OF fresh(1)]) (simp add: set_next_def upd_pr_def)
qed

lemma register_loop_ok:
  assumes "regions_ok vm (us @ vs)" "lst (region_next vm) q vs" "s \<le> e" "\<forall>u\<in>set us. pr_end (pr vm u) < s"
  obtains rc vm' ps' where "register_loop s e q (prev_of us) vm = Some (rc, vm')" "registered vm (us @ vs) s e rc vm' ps'"
  using assms
proof (induction vs arbitrary: us q thesis)
  case Nil
  obtain p vm1 where a: "allocate_pageregion s e vm = Some (p, vm1)" "p \<noteq> NULL \<Longrightarrow> set_next (Region p) NULL vm1 = vm1"
    by (rule allocate_returns [OF regions_okD(1) [OF Nil.prems(2)], of s e]) (rule that)
  have q: "q = NULL" using Nil.prems(3) by simp
  note I = insert_ok [OF Nil.prems(2-5) _ a(1), unfolded q]
  show ?case
  proof (cases "p = NULL")
    case True
    then have "register_loop s e q (prev_of us) vm = Some (- 1, vm1)" by (subst register_loop.simps) (simp add: q a)
    then show ?thesis using I True by (intro Nil.prems(1)) auto
  next
    case False
    then have "register_loop s e q (prev_of us) vm = Some (0, set_next (prev_of us) p vm1)"
      by (subst register_loop.simps) (simp add: q a)
    then show ?thesis using I False a(2) by (intro Nil.prems(1)) auto
  qed
next
  case (Cons v vs)
  have q: "q = v" "v \<noteq> NULL" "lst (region_next vm) (region_next vm v) vs" using Cons.prems(3) by auto
  consider (before) "e < pr_start (pr vm v)" | (merge) "\<not> e < pr_start (pr vm v)" "s \<le> pr_end (pr vm v)"
    | (after) "\<not> e < pr_start (pr vm v)" "pr_end (pr vm v) < s" by force
  then show ?case
  proof cases
    case before
    obtain p vm1 where a: "allocate_pageregion s e vm = Some (p, vm1)"
      by (rule allocate_returns [OF regions_okD(1) [OF Cons.prems(2)], of s e]) (rule that)
    have "v # vs = [] \<or> e < pr_start (pr vm ((v # vs) ! 0))" using before by simp
    note I = insert_ok [OF Cons.prems(2-5) this a]
    show ?thesis
    proof (cases "p = NULL")
      case True
      then have "register_loop s e q (prev_of us) vm = Some (- 1, vm1)" using before q by (subst register_loop.simps) (simp add: a)
      then show ?thesis using I True by (intro Cons.prems(1)) auto
    next
      case False
      then have "register_loop s e q (prev_of us) vm =
          Some (0, (set_next (prev_of us) p (set_next (Region p) q vm1))\<lparr>pageregion_cand := p, prev_pageregion_cand := prev_of us\<rparr>)"
        using before q by (subst register_loop.simps) (simp add: a)
      moreover have "registered vm (us @ v # vs) s e 0
          ((set_next (prev_of us) p (set_next (Region p) q vm1))\<lparr>pageregion_cand := p, prev_pageregion_cand := prev_of us\<rparr>)
          (us @ p # v # vs)"
        by (rule registered_cand) (use I False in auto)
      ultimately show ?thesis by (rule Cons.prems(1))
    qed
  next
    case merge
    obtain vm' ps' where "merge_into s e v vm = Some vm'" "registered vm (us @ v # vs) s e 0 vm' ps'"
      by (rule merge_into_ok [OF Cons.prems(2,4,5) merge])
    moreover from this(1) have "register_loop s e q (prev_of us) vm = Some (0, vm')"
      using merge q by (subst register_loop.simps) simp
    ultimately show ?thesis by (intro Cons.prems(1))
  next
    case after
    have R': "regions_ok vm ((us @ [v]) @ vs)" "\<forall>u\<in>set (us @ [v]). pr_end (pr vm u) < s" using Cons.prems after by auto
    obtain rc vm' ps' where I:
      "register_loop s e (region_next vm v) (prev_of (us @ [v])) vm = Some (rc, vm')" "registered vm ((us @ [v]) @ vs) s e rc vm' ps'"
      by (rule Cons.IH [OF _ R'(1) q(3) Cons.prems(4) R'(2)]) (rule that)
    have "register_loop s e q (prev_of us) vm = register_loop s e (region_next vm v) (prev_of (us @ [v])) vm"
      using after q by (subst register_loop.simps) (auto simp: prev_of_def)
    then show ?thesis using I by (intro Cons.prems(1)) auto
  qed
qed

lemma register_block_ok:
  assumes R: "regions_ok vm ps" and c: "ps \<noteq> [] \<Longrightarrow> pageregion_cand vm \<in> set ps" and se: "page_start a \<le> page_end a n"
  obtains rc vm' ps' where "register_block a n vm = Some (rc, vm')" "registered vm ps (page_start a) (page_end a n) rc vm' ps'"
proof -
  let ?s = "page_start a" and ?e = "page_end a n"
  note D = regions_okD [OF R]
  consider (empty) "ps = []" | (front) "ps \<noteq> []" "\<not> pr_end (pr vm (pageregion_cand vm)) < ?s"
    | (middle) xs ys where "ps = xs @ pageregion_cand vm # ys" "pr_end (pr vm (pageregion_cand vm)) < ?s"
    using c split_list [of "pageregion_cand vm" ps] by blast
  then show ?thesis
  proof cases
    case empty
    obtain p vm1 where a: "allocate_pageregion ?s ?e vm = Some (p, vm1)" "p \<noteq> NULL \<Longrightarrow> set_next (Region p) NULL vm1 = vm1"
      by (rule allocate_returns [OF D(1), of ?s ?e]) (rule that)
    have "regions_ok vm ([] @ [])" "lst (region_next vm) NULL []" using R empty by simp_all
    note I = insert_ok [OF this se _ _ a(1)]
    have h: "head_next vm = NULL" using D(2) empty by simp
    show ?thesis
    proof (cases "p = NULL")
      case True
      then show ?thesis using I empty by (intro that [of "- 1" vm1 "[]"]) (auto simp: register_block_def Let_def h a)
    next
      case False
      then have "registered vm [] ?s ?e 0
          ((set_next Region_head p vm1)\<lparr>pageregion_cand := p, prev_pageregion_cand := Region_head\<rparr>) [p]"
        using I a(2) by (intro registered_cand) (auto simp: prev_of_def)
      then show ?thesis
        using False empty by (intro that [of 0 _ "[p]"]) (auto simp: register_block_def Let_def h a set_next_def)
    qed
  next
    case front
    obtain rc vm' ps' where "register_loop ?s ?e (head_next vm) (prev_of []) vm = Some (rc, vm')" "registered vm ([] @ ps) ?s ?e rc vm' ps'"
      by (rule register_loop_ok [of vm "[]" ps "head_next vm" ?s ?e]) (use R D(2) se in auto)
    moreover have "head_next vm \<noteq> NULL" "pageregion_cand vm \<noteq> NULL" using front c D by (auto simp: lst_nonnull_mem)
    ultimately show ?thesis using front by (intro that) (auto simp: register_block_def Let_def prev_of_def)
  next
    case middle
    let ?c = "pageregion_cand vm"
    have nc: "lst (region_next vm) (region_next vm ?c) ys" using lst_suffix [of "region_next vm" "head_next vm" xs ?c ys] D(2) middle(1) by simp
    have sep: "separated (map (region_of vm) xs @ region_of vm ?c # map (region_of vm) ys)" using D(4) middle(1) by simp
    have cr: "pr_start (pr vm ?c) \<le> pr_end (pr vm ?c)" "\<forall>u\<in>set xs. pr_end (pr vm u) < pr_start (pr vm ?c)"
      using sep by (auto simp: separated_append separated_Cons region_of_def)
    have us: "\<forall>u\<in>set (xs @ [?c]). pr_end (pr vm u) < ?s" using cr middle(2) by auto
    have R': "regions_ok vm ((xs @ [?c]) @ ys)" using R middle(1) by simp
    obtain rc vm' ps' where L: "register_loop ?s ?e (region_next vm ?c) (prev_of (xs @ [?c])) vm = Some (rc, vm')"
      "registered vm ((xs @ [?c]) @ ys) ?s ?e rc vm' ps'"
      by (rule register_loop_ok [OF R' nc se us])
    have "?c \<noteq> NULL" using D(6) middle(1) by auto
    moreover have "\<not> ?e < pr_start (pr vm ?c)" using cr(1) middle(2) se by auto
    ultimately have "register_loop ?s ?e ?c r vm = register_loop ?s ?e (region_next vm ?c) (prev_of (xs @ [?c])) vm" for r
      using middle(2) by (subst register_loop.simps) (auto simp: prev_of_def)
    moreover have "head_next vm \<noteq> NULL" "?c \<noteq> NULL" using D(2,6) middle(1) by auto
    ultimately show ?thesis using L middle by (intro that) (auto simp: register_block_def Let_def)
  qed
qed

end
