(* ===== verification/MC_Usage.thy ===== *)
theory MC_Usage
  imports MC_Regions MC_Instance
begin

text \<open>
  What is counted from the page regions: the sum of their sizes is the number of bytes they cover,
  a mapping is charged with the bytes of a region that lie in it, and a region that is entered
  behind a released candidate is counted nowhere.
\<close>

section \<open>Pages of a block\<close>

lemma unat_page_start: "unat (page_start a) = unat a div PAGE_SIZE * PAGE_SIZE"
  using unat_page_down [of a] by (simp add: page_start_def page_down_def)

lemma unat_page_end:
  assumes "unat a + unat n + PAGE_SIZE \<le> 2 ^ 64"
  shows "unat (page_end a n) = (unat a + unat n + (PAGE_SIZE - 1)) div PAGE_SIZE * PAGE_SIZE"
proof -
  have "a + n + of_nat PAGE_SIZE - 1 = of_nat (unat a + unat n + (PAGE_SIZE - 1))" by (simp add: PAGE_SIZE_def)
  then have "unat (a + n + of_nat PAGE_SIZE - 1) = unat a + unat n + (PAGE_SIZE - 1)"
    using assms by (simp only:) (rule unat_of_nat_u64, simp add: PAGE_SIZE_def)
  then show ?thesis unfolding page_end_def page_mask by (subst unat_and_not_mask) (simp add: PAGE_SIZE_def)
qed

lemma page_range:
  assumes "unat a + unat n + PAGE_SIZE \<le> 2 ^ 64"
  shows "page_start a \<le> a" "unat a + unat n \<le> unat (page_end a n)" "page_start a \<le> page_end a n"
    "unat (page_end a n) < unat a + unat n + PAGE_SIZE"
proof -
  let ?m = "unat a + unat n + (PAGE_SIZE - 1)"
  have d: "?m div PAGE_SIZE * PAGE_SIZE \<le> ?m" "?m < ?m div PAGE_SIZE * PAGE_SIZE + PAGE_SIZE"
    using div_mult_mod_eq [of ?m PAGE_SIZE] mod_less_divisor [of PAGE_SIZE ?m] by (auto simp: PAGE_SIZE_def)
  have s: "unat (page_start a) \<le> unat a" unfolding unat_page_start by simp
  show e: "unat a + unat n \<le> unat (page_end a n)" "unat (page_end a n) < unat a + unat n + PAGE_SIZE"
    unfolding unat_page_end [OF assms] using d by (auto simp: PAGE_SIZE_def)
  show "page_start a \<le> a" "page_start a \<le> page_end a n" using s e by (simp_all add: word_le_nat_alt)
qed

section \<open>The sum of the sizes\<close>

lemma card_range: "card {a ..< b :: u64} = unat b - unat a"
proof -
  have "unat ` {a ..< b} = {unat a ..< unat b}"
  proof (rule set_eqI)
    fix x
    show "x \<in> unat ` {a ..< b} \<longleftrightarrow> x \<in> {unat a ..< unat b}"
    proof
      assume x: "x \<in> {unat a ..< unat b}"
      have "x < 2 ^ 64" using less_trans [OF _ unat_lt_u64 [of b], of x] x by simp
      then have "unat (of_nat x :: u64) = x" by (rule unat_of_nat_u64)
      then show "x \<in> unat ` {a ..< b}"
        using x by (intro image_eqI [of _ _ "of_nat x"]) (auto simp: word_le_nat_alt word_less_nat_alt)
    qed (auto simp: word_le_nat_alt word_less_nat_alt)
  qed
  moreover have "inj_on unat {a ..< b}" by (rule inj_onI) (simp add: word_eq_iff_unsigned [where ?'a = nat])
  ultimately show ?thesis using card_image [of unat "{a ..< b}"] by simp
qed

lemma of_nat_range: "a \<le> b \<Longrightarrow> of_nat (card {a ..< b :: u64}) = b - a"
  by (simp add: card_range word_le_nat_alt of_nat_diff)

lemma card_bytes_of:
  "separated (r # rs) \<Longrightarrow> card (bytes_of (r # rs)) = card {fst r ..< snd r} + card (bytes_of rs)"
proof -
  assume s: "separated (r # rs)"
  have "{fst r ..< snd r} \<inter> bytes_of rs = {}"
    using s unfolding separated_Cons bytes_of_def by fastforce
  moreover have "finite (bytes_of rs)" "finite {fst r ..< snd r}" by simp_all
  ultimately show ?thesis by (simp add: card_Un_disjoint)
qed

text \<open>The array holds the mappings it is said to hold.\<close>

definition array_ok :: "virtmem \<Rightarrow> bool" where
  "array_ok vm \<longleftrightarrow> nat (vma_cnt vm) = 0 \<or> (\<exists>as. vmarea_array vm = Some as \<and> nat (vma_cnt vm) \<le> length as)"

lemma register_areas_length: "register_areas as s e m = (as', m') \<Longrightarrow> length as' = length as"
  by (induction as s e m arbitrary: as' m' rule: register_areas.induct) (auto split: if_splits prod.splits)

lemma register_pageregion_ok:
  assumes "array_ok vm"
  obtains vm' where "register_pageregion p vm = Some vm'" "array_ok vm'" "pr vm' = pr vm" "head_next vm' = head_next vm"
    "pageregion_cand vm' = pageregion_cand vm" "blk (base vm') = blk (base vm)"
proof (cases "nat (vma_cnt vm) = 0")
  case True
  then show ?thesis
    using assms by (intro that [of "upd_base (mc_log_print (Pageregion_unmatched (pr_start (pr vm p)) (pr_end (pr vm p))
        (pr_end (pr vm p) - pr_start (pr vm p)))) vm"])
      (auto simp: register_pageregion_def Let_def upd_base_def mc_log_print_def array_ok_def)
next
  case False
  then obtain as where as: "vmarea_array vm = Some as" "nat (vma_cnt vm) \<le> length as"
    using assms by (auto simp: array_ok_def)
  obtain as' m where r: "register_areas (take (nat (vma_cnt vm)) as) (pr_start (pr vm p)) (pr_end (pr vm p)) False = (as', m)"
    by fastforce
  have l: "length as' = nat (vma_cnt vm)" using register_areas_length [OF r] as(2) by simp
  let ?vm = "vm\<lparr>vmarea_array := Some (as' @ drop (nat (vma_cnt vm)) as)\<rparr>"
  show ?thesis
    by (rule that [of "if m then ?vm else upd_base (mc_log_print (Pageregion_unmatched (pr_start (pr vm p)) (pr_end (pr vm p))
        (pr_end (pr vm p) - pr_start (pr vm p)))) ?vm"])
      (use False as r l in \<open>auto simp: register_pageregion_def Let_def upd_base_def mc_log_print_def array_ok_def\<close>)
qed

lemma count_regions_ok:
  assumes "array_ok vm" "lst (region_next vm) q zs" "separated (map (region_of vm) zs)"
  obtains vm' where "count_regions q ret vm = Some (ret + of_nat (card (bytes_of (map (region_of vm) zs))), vm')"
    "array_ok vm'" "pr vm' = pr vm" "head_next vm' = head_next vm" "blk (base vm') = blk (base vm)"
  using assms
proof (induction zs arbitrary: q ret vm thesis)
  case Nil
  then show ?case by (intro Nil.prems(1) [of vm]) (auto simp: count_regions.simps)
next
  case (Cons z zs)
  have q: "q = z" "z \<noteq> NULL" "lst (region_next vm) (region_next vm z) zs" using Cons.prems(3) by auto
  obtain vm1 where 1: "register_pageregion z vm = Some vm1" "array_ok vm1" "pr vm1 = pr vm" "head_next vm1 = head_next vm"
    "pageregion_cand vm1 = pageregion_cand vm" "blk (base vm1) = blk (base vm)"
    by (rule register_pageregion_ok [OF Cons.prems(2)])
  have rg: "region_of vm1 = region_of vm" using 1(3) by (simp add: region_of_def fun_eq_iff)
  have l: "lst (region_next vm1) (region_next vm z) zs" using q(3) 1(3) by simp
  have s: "separated (map (region_of vm1) zs)" using Cons.prems(4) rg by (simp add: separated_Cons)
  define ret' where "ret' = ret + (pr_end (pr vm z) - pr_start (pr vm z))"
  obtain vm' where I: "count_regions (region_next vm z) ret' vm1 =
      Some (ret' + of_nat (card (bytes_of (map (region_of vm1) zs))), vm')"
    "array_ok vm'" "pr vm' = pr vm1" "head_next vm' = head_next vm1" "blk (base vm') = blk (base vm1)"
    by (rule Cons.IH [OF _ 1(2) l s]) (rule that)
  have le: "pr_start (pr vm z) \<le> pr_end (pr vm z)" using Cons.prems(4) by (simp add: separated_Cons region_of_def)
  have "card (bytes_of (map (region_of vm) (z # zs))) =
      card {pr_start (pr vm z) ..< pr_end (pr vm z)} + card (bytes_of (map (region_of vm) zs))"
    using card_bytes_of [of "region_of vm z" "map (region_of vm) zs"] Cons.prems(4) by simp
  then have "ret' + of_nat (card (bytes_of (map (region_of vm1) zs))) = ret + of_nat (card (bytes_of (map (region_of vm) (z # zs))))"
    using of_nat_range [OF le] rg by (simp add: ret'_def)
  then show ?case
    using I 1 q by (intro Cons.prems(1) [of vm']) (auto simp: count_regions.simps [of z] ret'_def)
qed

section \<open>Mappings\<close>

text \<open>The mappings as the kernel lists them: in order and disjoint.\<close>

definition areas_ok :: "vmarea list \<Rightarrow> bool" where
  "areas_ok as \<longleftrightarrow> sorted_wrt (\<lambda>a b. va_end a \<le> va_start b) as \<and> (\<forall>a\<in>set as. va_start a \<le> va_end a)"

definition area_bytes :: "vmarea \<Rightarrow> u64 set" where
  "area_bytes a = {va_start a ..< va_end a}"

definition charge :: "u64 set \<Rightarrow> vmarea \<Rightarrow> vmarea" where
  "charge bs a = a\<lparr>va_usage := va_usage a + of_nat (card (area_bytes a \<inter> bs))\<rparr>"

lemma charge_none: "area_bytes a \<inter> bs = {} \<Longrightarrow> charge bs a = a"
  by (simp add: charge_def)

lemma register_areas_covered:
  assumes "areas_ok as" "s < e" "{s ..< e} \<subseteq> (\<Union>a\<in>set as. area_bytes a)"
  shows "register_areas as s e m = (map (charge {s ..< e}) as, True)"
  using assms
proof (induction as arbitrary: s m)
  case Nil
  then show ?case by fastforce
next
  case (Cons a as)
  have a: "va_start a \<le> va_end a" "areas_ok as" "\<And>b. b \<in> set as \<Longrightarrow> va_end a \<le> va_start b"
    using Cons.prems(1) by (auto simp: areas_ok_def)
  have later: "area_bytes b \<inter> {x ..< y} = {}" if "b \<in> set as" "y \<le> va_end a" for b x y
    using a(3) [OF that(1)] that(2) by (fastforce simp: area_bytes_def)
  have s: "s \<in> {s ..< e}" using Cons.prems(2) by simp
  consider (inside) "va_start a \<le> s" "e \<le> va_end a" | (overlap) "va_start a \<le> s" "s < va_end a" "va_end a < e"
    | (later) "\<not> (va_start a \<le> s \<and> s < va_end a)"
    by force
  then show ?case
  proof cases
    case inside
    have "area_bytes a \<inter> {s ..< e} = {s ..< e}" using inside by (auto simp: area_bytes_def)
    then have "charge {s ..< e} a = a\<lparr>va_usage := va_usage a + (e - s)\<rparr>"
      using of_nat_range [of s e] Cons.prems(2) by (simp add: charge_def)
    moreover have "map (charge {s ..< e}) as = as" using later [OF _ inside(2)] by (intro map_idI charge_none) blast
    ultimately show ?thesis using inside by simp
  next
    case overlap
    have eq: "area_bytes a \<inter> {s ..< e} = {s ..< va_end a}" using overlap by (auto simp: area_bytes_def)
    have c1: "charge {s ..< e} a = a\<lparr>va_usage := va_usage a + (va_end a - s)\<rparr>"
      using of_nat_range [of s "va_end a"] overlap by (simp add: charge_def eq)
    have "area_bytes b \<inter> {s ..< e} = area_bytes b \<inter> {va_end a ..< e}" if "b \<in> set as" for b
      using a(3) [OF that] overlap by (fastforce simp: area_bytes_def)
    then have c2: "map (charge {va_end a ..< e}) as = map (charge {s ..< e}) as" by (simp add: charge_def)
    have "{va_end a ..< e} \<subseteq> (\<Union>b\<in>set as. area_bytes b)"
    proof
      fix x assume x: "x \<in> {va_end a ..< e}"
      then have "x \<in> {s ..< e}" "x \<notin> area_bytes a" using overlap by (auto simp: area_bytes_def)
      then show "x \<in> (\<Union>b\<in>set as. area_bytes b)" using Cons.prems(3) by auto
    qed
    have "\<not> e \<le> va_end a" using overlap(3) by simp
    with Cons.IH [OF a(2) overlap(3) \<open>{va_end a ..< e} \<subseteq> _\<close>, of True] show ?thesis using overlap c1 c2 by simp
  next
    case later
    then have na: "s \<notin> area_bytes a" by (auto simp: area_bytes_def)
    then obtain b where b: "b \<in> set as" "s \<in> area_bytes b" using Cons.prems(3) s by auto
    then have past: "va_end a \<le> s" using a(3) [OF b(1)] by (auto simp: area_bytes_def)
    then have d: "area_bytes a \<inter> {s ..< e} = {}" by (auto simp: area_bytes_def)
    then have "{s ..< e} \<subseteq> (\<Union>b\<in>set as. area_bytes b)" using Cons.prems(3) by auto
    note I = Cons.IH [OF a(2) Cons.prems(2) this, of m]
    have "\<not> e \<le> va_end a" "\<not> s < va_end a" using past Cons.prems(2) by auto
    then show ?thesis using I charge_none [OF d] by simp
  qed
qed

section \<open>A released candidate\<close>

text \<open>
  A merge releases regions and leaves \<open>pageregion_cand\<close> as it is. When it was one of them, the next
  block past it is hung behind a node that the chain no longer holds.
\<close>

lemma dangling_candidate:
  assumes R: "regions_ok vm ps" "ps \<noteq> []"
    and c: "pageregion_cand vm = c" "c \<noteq> NULL" "c \<notin> set ps" "pr_start (pr vm c) \<le> pr_end (pr vm c)"
    and se: "pr_end (pr vm c) < page_start a" "page_start a \<le> page_end a n"
    and nx: "region_next vm c = NULL \<or> page_end a n < pr_start (pr vm (region_next vm c))"
  obtains rc vm' where "register_block a n vm = Some (rc, vm')" "regions_ok vm' ps"
    "map (region_of vm') ps = map (region_of vm) ps" "\<And>k. supplied (Suc k) (base vm) \<Longrightarrow> rc = 0"
proof -
  let ?s = "page_start a" and ?e = "page_end a n" and ?q = "region_next vm c"
  note D = regions_okD [OF R(1)]
  have h: "head_next vm \<noteq> NULL" using D(2) R(2) by (cases ps) auto
  have step: "register_block a n vm = register_loop ?s ?e ?q (Region c) vm"
  proof -
    have "\<not> ?e < pr_start (pr vm c)" "\<not> ?s \<le> pr_end (pr vm c)" using c(4) se by auto
    then show ?thesis using h c(1,2) se(1) by (simp add: register_block_def Let_def register_loop.simps [of ?s ?e c])
  qed
  have kept: "regions_ok vm' ps" "map (region_of vm') ps = map (region_of vm) ps"
    if "pages_only (base vm) (base vm')" "blk_live Pageregion (blk (base vm)) \<subseteq> blk_live Pageregion (blk (base vm'))"
      "head_next vm' = head_next vm" "\<And>z. z \<in> set ps \<Longrightarrow> pr vm' z = pr vm z" for vm'
  proof -
    show r: "map (region_of vm') ps = map (region_of vm) ps" using that(4) by (simp add: region_of_def)
    have "lst (region_next vm') (head_next vm) ps" by (rule lst_congI [OF D(2)]) (simp add: that(4))
    then show "regions_ok vm' ps"
      unfolding regions_ok_def r using D(3,4) pages_only_blk [OF that(1)] that(2,3) by auto
  qed
  show ?thesis
    using D(1)
  proof (cases rule: allocate_pageregion_ok [of vm ?s ?e])
    case (failed b)
    let ?vm = "upd_base (\<lambda>st. st\<lparr>blk := b\<rparr>) vm"
    have 1: "register_loop ?s ?e ?q (Region c) vm = Some (- 1, ?vm)"
      using nx failed(1) by (subst register_loop.simps) auto
    have 2: "regions_ok ?vm ps" "map (region_of ?vm) ps = map (region_of vm) ps"
      by (rule kept; use failed in \<open>simp add: upd_base_def\<close>)+
    show ?thesis by (rule that [OF trans [OF step 1] 2]) (use failed(4) in simp)
  next
    case (fresh p b)
    let ?vm1 = "(upd_base (\<lambda>st. st\<lparr>blk := b\<rparr>) vm)\<lparr>pr := (pr vm)(p := \<lparr>pr_start = ?s, pr_end = ?e, pr_next = NULL\<rparr>)\<rparr>"
    have p: "p \<notin> set ps" using fresh(3) D(3) by blast
    show ?thesis
    proof (cases "?q = NULL")
      case True
      have 1: "register_loop ?s ?e ?q (Region c) vm = Some (0, set_next (Region c) p ?vm1)"
        using True fresh(1,2) by (subst register_loop.simps) simp
      have 2: "regions_ok (set_next (Region c) p ?vm1) ps"
        "map (region_of (set_next (Region c) p ?vm1)) ps = map (region_of vm) ps"
        by (rule kept; use fresh c(3) p in \<open>auto simp: upd_base_def set_next_def upd_pr_def\<close>)+
      show ?thesis by (rule that [OF trans [OF step 1] 2]) simp
    next
      case False
      let ?vm' = "(set_next (Region c) p (set_next (Region p) ?q ?vm1))\<lparr>pageregion_cand := p, prev_pageregion_cand := Region c\<rparr>"
      have 1: "register_loop ?s ?e ?q (Region c) vm = Some (0, ?vm')"
        using False nx fresh(1,2) by (subst register_loop.simps) simp
      have 2: "regions_ok ?vm' ps" "map (region_of ?vm') ps = map (region_of vm) ps"
        by (rule kept; use fresh c(3) p in \<open>auto simp: upd_base_def set_next_def upd_pr_def\<close>)+
      show ?thesis by (rule that [OF trans [OF step 1] 2]) simp
    qed
  qed
qed

section \<open>A run that loses a region\<close>

text \<open>The pages of blocks registered one after another, and the answers.\<close>

primrec register_all :: "(u64 \<times> size_t) list \<Rightarrow> virtmem \<Rightarrow> (int list \<times> virtmem) option" where
  "register_all [] vm = Some ([], vm)"
| "register_all (b # bs) vm =
     do {
       (rc, vm) \<leftarrow> register_block (fst b) (snd b) vm;
       (rcs, vm) \<leftarrow> register_all bs vm;
       Some (rc # rcs, vm)
     }"

lemma fresh_node:
  assumes "blk_ok (blk st)" "supplied (Suc k) st"
  obtains p b where "p \<noteq> NULL" "p \<notin> blk_live Pageregion (blk st)" "blk_ok b"
    "blk_live Pageregion b = insert p (blk_live Pageregion (blk st))" "supplied k (st\<lparr>blk := b\<rparr>)"
    "\<And>s e vm. base vm = st \<Longrightarrow> allocate_pageregion s e vm =
       Some (p, vm\<lparr>base := st\<lparr>blk := b\<rparr>, pr := (pr vm)(p := \<lparr>pr_start = s, pr_end = e, pr_next = NULL\<rparr>)\<rparr>)"
proof -
  from blk.alloc_returns [OF assms(1), of Pageregion] obtain p b where
    a: "allocate_kind Pageregion (blk st) = Some (p, b)" by blast
  have G: "p \<noteq> NULL" "supplied k (st\<lparr>blk := b\<rparr>)"
    using assms(2) allocate_kind_granted [OF assms(1) _ a] by (simp_all add: supplied_def)
  show ?thesis
  proof (rule that [of p b])
    show "allocate_pageregion s e vm =
       Some (p, vm\<lparr>base := st\<lparr>blk := b\<rparr>, pr := (pr vm)(p := \<lparr>pr_start = s, pr_end = e, pr_next = NULL\<rparr>)\<rparr>)"
      if "base vm = st" for s e vm
      using a G(1) that by (simp add: allocate_pageregion_def mc_allocate_pageregion_def upd_base_def upd_pr_def Let_def)
  qed (use G blk.alloc_inv [OF assms(1) a] blk.alloc_fresh [OF assms(1) a G(1)] blk.alloc_live [OF assms(1) a G(1)] in auto)
qed

lemma demo_pages:
  "page_start 0x10000 = 0x10000" "page_end 0x10000 0x1000 = 0x11000"
  "page_start 0x18000 = 0x18000" "page_end 0x18000 0x1000 = 0x19000"
  "page_start 0x14000 = 0x14000" "page_end 0x14000 0x1000 = 0x15000"
  "page_start 0x11000 = 0x11000" "page_end 0x11000 0x3000 = 0x14000"
  "page_start 0x16000 = 0x16000" "page_end 0x16000 0x1000 = 0x17000"
  by (simp_all add: page_start_def page_end_def PAGE_SIZE_def)

text \<open>The last block lies between two regions, behind the one that the fourth block has swallowed.\<close>

definition lost_blocks :: "(u64 \<times> size_t) list" where
  "lost_blocks = [(0x10000, 0x1000), (0x18000, 0x1000), (0x14000, 0x1000), (0x11000, 0x3000), (0x16000, 0x1000)]"

lemma lost_region_run:
  assumes ok: "blk_ok (blk (base vm))" and h: "head_next vm = NULL" and sup: "supplied 4 (base vm)"
  obtains vm' ps where "register_all lost_blocks vm = Some ([0, 0, 0, 0, 0], vm')" "regions_ok vm' ps"
    "bytes_of (map (region_of vm') ps) = {0x10000 ..< 0x15000} \<union> {0x18000 ..< 0x19000}"
proof -
  let ?st = "base vm"
  have sup: "supplied (Suc (Suc (Suc (Suc 0)))) ?st" using sup by (simp add: eval_nat_numeral)
  obtain p1 b1 where n1: "p1 \<noteq> NULL" "p1 \<notin> blk_live Pageregion (blk ?st)" "blk_ok b1"
    "blk_live Pageregion b1 = insert p1 (blk_live Pageregion (blk ?st))" "supplied (Suc (Suc (Suc 0))) (?st\<lparr>blk := b1\<rparr>)"
    "\<And>s e v. base v = ?st \<Longrightarrow> allocate_pageregion s e v =
       Some (p1, v\<lparr>base := ?st\<lparr>blk := b1\<rparr>, pr := (pr v)(p1 := \<lparr>pr_start = s, pr_end = e, pr_next = NULL\<rparr>)\<rparr>)"
    by (rule fresh_node [OF ok sup]) (rule that)
  let ?st1 = "?st\<lparr>blk := b1\<rparr>"
  have k1: "blk_ok (blk ?st1)" using n1 by simp
  obtain p2 b2 where n2: "p2 \<noteq> NULL" "p2 \<notin> blk_live Pageregion (blk ?st1)" "blk_ok b2"
    "blk_live Pageregion b2 = insert p2 (blk_live Pageregion (blk ?st1))" "supplied (Suc (Suc 0)) (?st1\<lparr>blk := b2\<rparr>)"
    "\<And>s e v. base v = ?st1 \<Longrightarrow> allocate_pageregion s e v =
       Some (p2, v\<lparr>base := ?st1\<lparr>blk := b2\<rparr>, pr := (pr v)(p2 := \<lparr>pr_start = s, pr_end = e, pr_next = NULL\<rparr>)\<rparr>)"
    by (rule fresh_node [OF k1 n1(5)]) (rule that)
  let ?st2 = "?st1\<lparr>blk := b2\<rparr>"
  have k2: "blk_ok (blk ?st2)" using n2 by simp
  obtain p3 b3 where n3: "p3 \<noteq> NULL" "p3 \<notin> blk_live Pageregion (blk ?st2)" "blk_ok b3"
    "blk_live Pageregion b3 = insert p3 (blk_live Pageregion (blk ?st2))" "supplied (Suc 0) (?st2\<lparr>blk := b3\<rparr>)"
    "\<And>s e v. base v = ?st2 \<Longrightarrow> allocate_pageregion s e v =
       Some (p3, v\<lparr>base := ?st2\<lparr>blk := b3\<rparr>, pr := (pr v)(p3 := \<lparr>pr_start = s, pr_end = e, pr_next = NULL\<rparr>)\<rparr>)"
    by (rule fresh_node [OF k2 n2(5)]) (rule that)
  have d: "p1 \<noteq> p2" "p1 \<noteq> p3" "p2 \<noteq> p3" "p2 \<noteq> p1" "p3 \<noteq> p1" "p3 \<noteq> p2" using n1(4) n2(2,4) n3(2) by auto
  define pr3 where "pr3 = (pr vm)(p1 := \<lparr>pr_start = 0x10000, pr_end = 0x11000, pr_next = p3\<rparr>,
    p2 := \<lparr>pr_start = 0x18000, pr_end = 0x19000, pr_next = NULL\<rparr>,
    p3 := \<lparr>pr_start = 0x14000, pr_end = 0x15000, pr_next = p2\<rparr>)"
  define vm1 where "vm1 = vm\<lparr>base := ?st1, pr := (pr vm)(p1 := \<lparr>pr_start = 0x10000, pr_end = 0x11000, pr_next = NULL\<rparr>),
    head_next := p1, pageregion_cand := p1, prev_pageregion_cand := Region_head\<rparr>"
  have r1: "register_block 0x10000 0x1000 vm = Some (0, vm1)"
    by (simp add: register_block_def Let_def demo_pages h n1(1,6) vm1_def)
  define vm2 where "vm2 = vm1\<lparr>base := ?st2, pr := (pr vm1)(p1 := \<lparr>pr_start = 0x10000, pr_end = 0x11000, pr_next = p2\<rparr>,
    p2 := \<lparr>pr_start = 0x18000, pr_end = 0x19000, pr_next = NULL\<rparr>)\<rparr>"
  have e1: "head_next vm1 = p1" "pageregion_cand vm1 = p1" "base vm1 = ?st1"
    "pr vm1 p1 = \<lparr>pr_start = 0x10000, pr_end = 0x11000, pr_next = NULL\<rparr>" by (simp_all add: vm1_def)
  have r2: "register_block 0x18000 0x1000 vm1 = Some (0, vm2)"
    using n2(1) d by (simp add: register_block_def Let_def demo_pages e1 n1(1) register_loop.simps [of _ _ p1]
        register_loop.simps [of _ _ NULL] n2(6) set_next_def upd_pr_def vm2_def fun_upd_twist)
  have e2: "head_next vm2 = p1" "pageregion_cand vm2 = p1" "base vm2 = ?st2"
    "pr vm2 p1 = \<lparr>pr_start = 0x10000, pr_end = 0x11000, pr_next = p2\<rparr>"
    "pr vm2 p2 = \<lparr>pr_start = 0x18000, pr_end = 0x19000, pr_next = NULL\<rparr>"
    using d by (simp_all add: vm2_def e1)
  define vm3 where "vm3 = vm2\<lparr>base := ?st2\<lparr>blk := b3\<rparr>, pr := (pr vm2)(p1 := \<lparr>pr_start = 0x10000, pr_end = 0x11000, pr_next = p3\<rparr>,
    p3 := \<lparr>pr_start = 0x14000, pr_end = 0x15000, pr_next = p2\<rparr>), pageregion_cand := p3, prev_pageregion_cand := Region p1\<rparr>"
  have r3: "register_block 0x14000 0x1000 vm2 = Some (0, vm3)"
    using d n3(1) by (simp add: register_block_def Let_def demo_pages e2 n1(1) n2(1) register_loop.simps [of _ _ p1]
        register_loop.simps [of _ _ p2] n3(6) set_next_def upd_pr_def vm3_def fun_upd_twist)
  have e3: "head_next vm3 = p1" "pageregion_cand vm3 = p3" "base vm3 = ?st2\<lparr>blk := b3\<rparr>"
    "pr vm3 p1 = \<lparr>pr_start = 0x10000, pr_end = 0x11000, pr_next = p3\<rparr>"
    "pr vm3 p2 = \<lparr>pr_start = 0x18000, pr_end = 0x19000, pr_next = NULL\<rparr>"
    "pr vm3 p3 = \<lparr>pr_start = 0x14000, pr_end = 0x15000, pr_next = p2\<rparr>"
    using d e2 by (simp_all add: vm3_def)
  define vm4 where "vm4 = (free_pageregion p3 vm3)\<lparr>pr := (pr vm3)(p1 := \<lparr>pr_start = 0x10000, pr_end = 0x15000, pr_next = p2\<rparr>)\<rparr>"
  have l3: "p3 \<in> blk_live Pageregion (blk (base vm3))" "blk_ok (blk (base vm3))" using n3 by (simp_all add: e3)
  note F = free_pageregion_ok [OF l3(2,1)]
  have r4: "register_block 0x11000 0x3000 vm3 = Some (0, vm4)"
    using d by (simp add: register_block_def Let_def demo_pages e3 n1(1) n2(1) n3(1) register_loop.simps [of _ _ p1] merge_into_def
        merge_regions.simps [of _ _ p3] merge_regions.simps [of _ _ p2] F(3) upd_pr_def vm4_def)
  have b4: "blk_ok (blk (base vm4))" "blk_live Pageregion (blk (base vm4)) = blk_live Pageregion (blk (base vm3)) - {p3}"
    "supplied (Suc 0) (base vm4)" "head_next vm4 = p1" "pageregion_cand vm4 = p3"
    using pages_only_blk [OF F(1)] F(2,4,5) F(8) [of "Suc 0"] n3(5) by (simp_all add: vm4_def e3)
  have p4: "pr vm4 p1 = \<lparr>pr_start = 0x10000, pr_end = 0x15000, pr_next = p2\<rparr>"
    "pr vm4 p2 = \<lparr>pr_start = 0x18000, pr_end = 0x19000, pr_next = NULL\<rparr>"
    "pr vm4 p3 = \<lparr>pr_start = 0x14000, pr_end = 0x15000, pr_next = p2\<rparr>"
    using d by (simp_all add: vm4_def e3)
  have "regions_ok vm4 [p1, p2]"
    using b4(1,2) d n1(1) n2(1) n1(4) n2(4) n3(4)
    by (simp add: regions_ok_def b4(4) p4 region_of_def e3 separated_def)
  moreover have "[p1, p2] \<noteq> []" "p3 \<notin> set [p1, p2]" using d by simp_all
  ultimately obtain rc vm' where D: "register_block 0x16000 0x1000 vm4 = Some (rc, vm')" "regions_ok vm' [p1, p2]"
    "map (region_of vm') [p1, p2] = map (region_of vm4) [p1, p2]" "\<And>k. supplied (Suc k) (base vm4) \<Longrightarrow> rc = 0"
    using dangling_candidate [of vm4 "[p1, p2]" p3 "0x16000" "0x1000"] n3(1) by (auto simp: b4(5) p4 demo_pages)
  have "rc = 0" using D(4) b4(3) by blast
  then have run: "register_all lost_blocks vm = Some ([0, 0, 0, 0, 0], vm')"
    using D(1) by (simp add: lost_blocks_def r1 r2 r3 r4)
  show ?thesis
    by (rule that [OF run D(2)]) (simp only: D(3) bytes_of_simps, simp add: p4)
qed

section \<open>A start\<close>

text \<open>The statics of \<open>memchk_virtmem.c\<close> as the program starts, beside a started library.\<close>

definition virtmem_start :: virtmem where
  "virtmem_start = \<lparr>base = mc_started, pr = (\<lambda>_. \<lparr>pr_start = 0, pr_end = 0, pr_next = NULL\<rparr>), head_next = NULL,
     pageregion_cand = NULL, prev_pageregion_cand = Region_head, vmarea_array = None, vma_cnt = 0\<rparr>"

lemma virtmem_start:
  "regions_ok virtmem_start []" "head_next virtmem_start = NULL" "supplied 6 (base virtmem_start)" "array_ok virtmem_start"
proof -
  from mc_started(2) obtain N F C where "mc_inv N F C mc_started" by (auto simp: mc_ok_def)
  then have "blk_ok (blk mc_started)" using mc_invD(1) tables_okD(1) by blast
  then show "regions_ok virtmem_start []" by (simp add: regions_ok_def virtmem_start_def)
qed (use mc_started(9) in \<open>simp_all add: virtmem_start_def array_ok_def\<close>)

lemma one_region:
  obtains vm ps where "regions_ok vm ps" "array_ok vm" "bytes_of (map (region_of vm) ps) = {0x10000 ..< 0x11000}"
proof -
  have le: "page_start 0x10000 \<le> page_end 0x10000 0x1000" unfolding demo_pages by simp
  obtain rc vm ps where r: "registered virtmem_start [] (page_start 0x10000) (page_end 0x10000 0x1000) rc vm ps"
    by (rule register_block_ok [OF virtmem_start(1) _ le]) auto
  have "supplied (Suc 5) (base virtmem_start)" using virtmem_start(3) by simp
  then have "rc = 0" using r unfolding registered_def by blast
  then have "regions_ok vm ps" "bytes_of (map (region_of vm) ps) = {0x10000 ..< 0x11000}"
    using r unfolding registered_def demo_pages by auto
  moreover have "region_of (vm\<lparr>vma_cnt := 0\<rparr>) = region_of vm" by (simp add: region_of_def fun_eq_iff)
  ultimately show ?thesis
    by (intro that [of "vm\<lparr>vma_cnt := 0\<rparr>" ps]) (simp_all add: regions_ok_def array_ok_def)
qed

end
