(* ===== verification/MC_Client.thy ===== *)
theory MC_Client
  imports MC_Filemap
begin

text \<open>
  The command line program, \<open>memchk_client.c\<close>: options to signals. \<open>getopt\<close>, \<open>atoi\<close> and the
  conversion of \<open>printf\<close> are the C library's, modelled as far as the program uses them.
  \<open>SIGRTMIN\<close> is a parameter. What the program does to its surroundings is a list of
  actions; messages about failed calls are left out.
\<close>

section \<open>The C library\<close>

definition is_digit :: "char \<Rightarrow> bool" where
  "is_digit c \<longleftrightarrow> 48 \<le> (of_char c :: nat) \<and> (of_char c :: nat) \<le> 57"

fun digits_value :: "nat \<Rightarrow> string \<Rightarrow> nat" where
  "digits_value v [] = v"
| "digits_value v (c # cs) = (if is_digit c then digits_value (10 * v + (of_char c - 48)) cs else v)"

text \<open>\<open>(int)strtol(s, NULL, 10)\<close>: a value that does not fit a \<open>long\<close> is clamped, then cut to an \<open>int\<close>.\<close>

definition int_of_long :: "int \<Rightarrow> int" where
  "int_of_long v = sint (word_of_int (max (- (2 ^ 63)) (min v (2 ^ 63 - 1))) :: 32 word)"

definition atoi :: "string \<Rightarrow> int" where
  "atoi s =
     (case dropWhile isspace s of
        [] \<Rightarrow> 0
      | c # cs \<Rightarrow> int_of_long
          (if c = CHR ''-'' then - int (digits_value 0 cs)
           else if c = CHR ''+'' then int (digits_value 0 cs)
           else int (digits_value 0 (c # cs))))"

text \<open>\<open>%d\<close>\<close>

fun print_nat :: "nat \<Rightarrow> string" where
  "print_nat n = (if n < 10 then [] else print_nat (n div 10)) @ [char_of (48 + n mod 10)]"

declare print_nat.simps [simp del]

definition print_int :: "int \<Rightarrow> string" where
  "print_int i = (if i < 0 then CHR ''-'' # print_nat (nat (- i)) else print_nat (nat i))"

text \<open>What \<open>getopt\<close> says of a letter: unknown, without or with an argument.\<close>

fun opt_spec :: "string \<Rightarrow> char \<Rightarrow> bool option" where
  "opt_spec [] c = None"
| "opt_spec (x # xs) c =
     (if x = c \<and> c \<noteq> CHR '':'' then Some (case xs of [] \<Rightarrow> False | y # ys \<Rightarrow> y = CHR '':'') else opt_spec xs c)"

text \<open>The next word with options; other words are passed over, \<open>--\<close> ends the options.\<close>

fun next_word :: "string list \<Rightarrow> (string \<times> string list) option" where
  "next_word [] = None"
| "next_word (a # as) =
     (if a = ''--'' then None
      else if 2 \<le> length a \<and> a ! 0 = CHR ''-'' then Some (tl a, as)
      else next_word as)"

text \<open>
  A call of \<open>getopt\<close>: the letter returned, \<open>optopt\<close> and \<open>optarg\<close> as far as they are set, and the
  rest of the command line. \<open>None\<close> is the answer -1.
\<close>

definition getopt ::
  "string \<Rightarrow> string \<times> string list \<Rightarrow> (char \<times> char option \<times> string option \<times> string \<times> string list) option" where
  "getopt optstring s =
     do {
       (word, args) \<leftarrow> (if fst s = [] then next_word (snd s) else Some s);
       let c = hd word;
       Some (case opt_spec optstring c of
          None \<Rightarrow> (CHR ''?'', Some c, None, tl word, args)
        | Some False \<Rightarrow> (c, None, None, tl word, args)
        | Some True \<Rightarrow>
            if tl word \<noteq> [] then (c, None, Some (tl word), [], args)
            else case args of
                   [] \<Rightarrow> (CHR ''?'', Some c, None, [], [])
                 | a # as \<Rightarrow> (c, None, Some a, [], as))
     }"

section \<open>The surroundings\<close>

datatype action =
    Kill int int                       \<comment> \<open>\<open>system("kill -sig pid")\<close>\<close>
  | Current_target int
  | Other_target int
  | Print_usage
  | No_settings
  | Remove_logs

text \<open>
  The settings file, whether it can be written, what the buffer of \<open>get_settings\<close> holds before
  anything is read into it, the lines of \<open>ps\<close>, the processes that have the library mapped, and
  what has been done so far.
\<close>

record client =
  cl_settings :: "string option"
  cl_writable :: bool
  cl_stack :: string
  cl_ps :: "string list"
  cl_hooked :: "int \<Rightarrow> bool"
  cl_out :: "action list"

definition emit :: "action \<Rightarrow> client \<Rightarrow> client" where
  "emit a cl = cl\<lparr>cl_out := cl_out cl @ [a]\<rparr>"

section \<open>Settings\<close>

text \<open>
  \<open>fread\<close> puts no terminator behind what it reads, so \<open>atoi\<close> goes on in what the buffer held;
  \<open>None\<close> when the digits go on behind its end.
\<close>

definition SETTINGS_BUFSIZE :: nat where "SETTINGS_BUFSIZE = 32"

definition runs_over :: "string \<Rightarrow> bool" where
  "runs_over s \<longleftrightarrow>
     (case dropWhile isspace s of
        [] \<Rightarrow> True
      | c # cs \<Rightarrow> list_all is_digit (if c = CHR ''-'' \<or> c = CHR ''+'' then cs else c # cs))"

definition get_settings :: "client \<Rightarrow> (int \<times> client) option" where
  "get_settings cl =
     (case cl_settings cl of
        None \<Rightarrow> Some (- 1, emit No_settings cl)
      | Some contents \<Rightarrow>
          let n = min (length contents) SETTINGS_BUFSIZE;
              buf = take n contents @ drop n (take SETTINGS_BUFSIZE (cl_stack cl)) in
          if runs_over buf then None else Some (atoi buf, cl))"

definition set_settings :: "int \<Rightarrow> client \<Rightarrow> client" where
  "set_settings pid cl = (if cl_writable cl then cl\<lparr>cl_settings := Some (print_int pid)\<rparr> else cl)"

section \<open>Requests\<close>

definition send_signal :: "int \<Rightarrow> int \<Rightarrow> client \<Rightarrow> client" where
  "send_signal pid sig cl = emit (Kill sig pid) cl"

text \<open>The functions that send the signals, by the option letter that calls them.\<close>

definition signal_of_option :: "char \<Rightarrow> nat option" where
  "signal_of_option c =
     (if c = CHR ''m'' then Some 0
      else if c = CHR ''a'' then Some 1
      else if c = CHR ''A'' then Some 2
      else if c = CHR ''b'' then Some 3
      else if c = CHR ''s'' then Some 4
      else if c = CHR ''c'' then Some 5
      else if c = CHR ''C'' then Some 6
      else if c = CHR ''d'' then Some 7
      else if c = CHR ''g'' then Some 8
      else if c = CHR ''M'' then Some 9
      else None)"

definition request :: "int \<Rightarrow> char \<Rightarrow> int \<Rightarrow> client \<Rightarrow> client" where
  "request sigrtmin c pid cl =
     (case signal_of_option c of None \<Rightarrow> cl | Some k \<Rightarrow> send_signal pid (sigrtmin + int k) cl)"

fun update_from :: "string list \<Rightarrow> bool \<Rightarrow> client \<Rightarrow> client" where
  "update_from [] pid_set cl = cl"
| "update_from (buf # bufs) pid_set cl =
     (let pid = atoi buf in
      if cl_hooked cl pid then
        (if \<not> pid_set then update_from bufs True (emit (Current_target pid) (set_settings pid cl))
         else update_from bufs pid_set (emit (Other_target pid) cl))
      else update_from bufs pid_set cl)"

definition auto_update_settings :: "client \<Rightarrow> client" where
  "auto_update_settings cl = update_from (cl_ps cl) False cl"

section \<open>The program\<close>

definition optstring :: string where "optstring = ''a:A:b:s:c:C:p:m:M:uhlg:''"

text \<open>
  One turn of the option loop. The option \<open>d\<close> is not among the options of \<open>optstring\<close>, so its case
  in the outer \<open>switch\<close> is never reached.
\<close>

definition handle_option ::
  "int \<Rightarrow> char \<Rightarrow> char option \<Rightarrow> string option \<Rightarrow> client \<Rightarrow> client option" where
  "handle_option sigrtmin c optopt optarg cl =
     (if c \<in> set ''aAbscCdmMg'' then do { arg \<leftarrow> optarg; Some (request sigrtmin c (atoi arg) cl) }
      else if c = CHR ''p'' then do {
        arg \<leftarrow> optarg;
        Some (emit (Current_target (atoi arg)) (set_settings (atoi arg) cl))
      }
      else if c = CHR ''u'' then Some (auto_update_settings cl)
      else if c = CHR ''h'' then Some (emit Print_usage cl)
      else if c = CHR ''l'' then Some (emit Remove_logs cl)
      else do {
        (pid, cl) \<leftarrow> get_settings cl;
        Some (if pid = - 1 then cl
              else case optopt of None \<Rightarrow> cl
                   | Some c \<Rightarrow> if c \<in> set ''aAbscCdmMg'' then request sigrtmin c pid cl else cl)
      })"

lemma next_word_size:
  "next_word args = Some (w, as) \<Longrightarrow> length w + sum_list (map length as) < sum_list (map length args)"
  by (induction args rule: next_word.induct) (auto split: if_splits)

lemma next_word_nonempty: "next_word args = Some (w, as) \<Longrightarrow> w \<noteq> []"
proof (induction args rule: next_word.induct)
  case (2 a as')
  show ?case
  proof (cases "2 \<le> length a")
    case True
    then have "tl a \<noteq> []" by (cases a) auto
    then show ?thesis using 2 by (auto split: if_splits)
  qed (use 2 in \<open>auto split: if_splits\<close>)
qed simp

lemma getopt_size:
  assumes "getopt ostr (word, args) = Some (c, oo, oa, word', args')"
  shows "length word' + sum_list (map length args') < length word + sum_list (map length args)"
proof -
  obtain w as where w: "(if word = [] then next_word args else Some (word, args)) = Some (w, as)"
    using assms unfolding getopt_def fst_conv snd_conv
    by (cases "if word = [] then next_word args else Some (word, args)") (simp_all only: bind.simps not_None_eq, auto)
  have "w \<noteq> []" "length w + sum_list (map length as) \<le> length word + sum_list (map length args)"
    using w next_word_size [of args w as] next_word_nonempty [of args w as] by (auto split: if_splits)
  then show ?thesis
    using assms w by (cases w) (auto simp: getopt_def split: option.splits bool.splits if_splits list.splits)
qed

function option_loop :: "int \<Rightarrow> string \<times> string list \<Rightarrow> client \<Rightarrow> client option" where
  "option_loop sigrtmin s cl =
     (case getopt optstring s of
        None \<Rightarrow> Some cl
      | Some (c, optopt, optarg, word, args) \<Rightarrow> do {
          cl \<leftarrow> handle_option sigrtmin c optopt optarg cl;
          option_loop sigrtmin (word, args) cl
        })"
  by pat_completeness auto

termination
  by (relation "measure (\<lambda>(sg, (word, args), cl). length word + sum_list (map length args))")
    (auto dest: getopt_size)

declare option_loop.simps [simp del]

definition main :: "int \<Rightarrow> string list \<Rightarrow> client \<Rightarrow> client option" where
  "main sigrtmin args cl =
     (if args = [] then do { (pid, cl) \<leftarrow> get_settings cl; Some (emit (Current_target pid) cl) }
      else option_loop sigrtmin ([], args) cl)"

end
