(* ===== verification/MC_Requests.thy ===== *)
theory MC_Requests
  imports MC_Client MC_Signal
begin

text \<open>
  What the command line program asks for and what the library does about it: numbers survive
  printing and reading, options become signals and signals commands.
\<close>

section \<open>Numbers\<close>

lemma digit_char: "n < 10 \<Longrightarrow> (of_char (char_of (48 + n :: nat)) :: nat) = 48 + n"
  by simp

lemma is_digit_char: "n < 10 \<Longrightarrow> is_digit (char_of (48 + n :: nat))"
  by (simp add: is_digit_def)

lemma print_nat_digits: "list_all is_digit (print_nat n)" "print_nat n \<noteq> []"
proof -
  show "list_all is_digit (print_nat n)"
  proof (induction n rule: print_nat.induct)
    case (1 n)
    then show ?case by (subst print_nat.simps) (simp add: is_digit_char)
  qed
  show "print_nat n \<noteq> []" by (subst print_nat.simps) simp
qed

lemma digits_print:
  assumes "rest = [] \<or> \<not> is_digit (hd rest)"
  shows "digits_value v (print_nat n @ rest) = v * 10 ^ length (print_nat n) + n"
  using assms
proof (induction n arbitrary: rest v rule: less_induct)
  case (less n)
  have step: "digits_value w (char_of (48 + n mod 10) # rest) = 10 * w + n mod 10" for w
  proof -
    have "digits_value x rest = x" for x using less.prems by (cases rest) auto
    then show ?thesis using is_digit_char [of "n mod 10"] digit_char [of "n mod 10"] by simp
  qed
  show ?case
  proof (cases "n < 10")
    case True
    then show ?thesis using step [of v] by (simp add: print_nat.simps [of n])
  next
    case False
    have e: "print_nat n = print_nat (n div 10) @ [char_of (48 + n mod 10)]" using False by (simp add: print_nat.simps [of n])
    have gen: "digits_value v (print_nat (n div 10) @ xs) = digits_value (v * 10 ^ length (print_nat (n div 10)) + n div 10) xs"
      for xs
    proof -
      have split: "digits_value w (ds @ xs) = digits_value (digits_value w ds) xs" if "list_all is_digit ds" for ds w
        using that by (induction ds arbitrary: w) simp_all
      show ?thesis using split [OF print_nat_digits(1)] less.IH [of "n div 10" "[]" v] False by simp
    qed
    show ?thesis unfolding e using gen [of "char_of (48 + n mod 10) # rest"] step by (simp add: algebra_simps)
  qed
qed

lemma digit_not_special: "is_digit c \<Longrightarrow> \<not> isspace c \<and> c \<noteq> CHR ''-'' \<and> c \<noteq> CHR ''+''"
  by (auto simp: is_digit_def isspace_def)

definition int_range :: "int set" where "int_range = {- (2 ^ 31) ..< 2 ^ 31}"

lemma sint_word_of_int_small: "- (2 ^ 31) \<le> i \<Longrightarrow> i < 2 ^ 31 \<Longrightarrow> sint (word_of_int i :: 32 word) = i"
  by (simp add: signed_of_int signed_take_bit_int_eq_self)

lemma int_of_long_small: "i \<in> int_range \<Longrightarrow> int_of_long i = i"
  by (simp add: int_of_long_def int_range_def sint_word_of_int_small)

lemma hd_print_nat: "\<exists>c cs. print_nat n = c # cs \<and> is_digit c"
  using print_nat_digits [of n] by (cases "print_nat n") auto

lemma drop_space_print: "dropWhile isspace (print_int i @ rest) = print_int i @ rest"
proof -
  obtain c cs where "print_nat (nat i) = c # cs \<and> is_digit c" using hd_print_nat by blast
  then show ?thesis using digit_not_special [of c] by (simp add: print_int_def isspace_def)
qed

lemma atoi_print:
  assumes "i \<in> int_range" "rest = [] \<or> \<not> is_digit (hd rest)"
  shows "atoi (print_int i @ rest) = i"
proof (cases "i < 0")
  case True
  then show ?thesis
    using digits_print [OF assms(2), of 0 "nat (- i)"] int_of_long_small [OF assms(1)] drop_space_print [of i rest]
    by (simp add: atoi_def print_int_def)
next
  case False
  obtain c cs where c: "print_nat (nat i) = c # cs" "is_digit c" using hd_print_nat by blast
  then have ns: "c \<noteq> CHR ''-''" "c \<noteq> CHR ''+''" using digit_not_special [of c] by auto
  have "digits_value 0 (c # cs @ rest) = nat i" using digits_print [OF assms(2), of 0 "nat i"] c(1) by simp
  then show ?thesis
    using False int_of_long_small [OF assms(1)] drop_space_print [of i rest] c(1) ns
    by (simp add: atoi_def print_int_def del: digits_value.simps)
qed

section \<open>The settings file\<close>

lemma length_print_nat: "length (print_nat n) \<le> 10" if "n < 10 ^ 10"
proof -
  have "n < 10 ^ k \<Longrightarrow> 0 < k \<Longrightarrow> length (print_nat n) \<le> k" for k n
  proof (induction k arbitrary: n)
    case (Suc k)
    show ?case
    proof (cases "n < 10")
      case True
      then show ?thesis by (simp add: print_nat.simps [of n])
    next
      case False
      then have "n div 10 < 10 ^ k" "0 < k" using Suc.prems by (cases k; simp add: less_mult_imp_div_less)+
      from Suc.IH [OF this] show ?thesis using False by (simp add: print_nat.simps [of n])
    qed
  qed simp
  from this [OF that] show ?thesis by simp
qed

lemma length_print_int: "i \<in> int_range \<Longrightarrow> length (print_int i) \<le> 11"
proof -
  assume i: "i \<in> int_range"
  then have "nat i < 10 ^ 10" "nat (- i) < 10 ^ 10" unfolding int_range_def by (simp, arith)+
  from length_print_nat [OF this(1)] length_print_nat [OF this(2)] show ?thesis by (simp add: print_int_def)
qed

text \<open>
  What is saved is read back when the byte of the buffer behind it happens not to be a digit.
\<close>

lemma settings_read_back:
  assumes "cl_writable cl" "pid \<in> int_range" "length (cl_stack cl) = SETTINGS_BUFSIZE"
    and stack: "\<not> is_digit (cl_stack cl ! length (print_int pid))"
  shows "get_settings (set_settings pid cl) = Some (pid, set_settings pid cl)"
proof -
  let ?n = "length (print_int pid)" and ?rest = "drop (length (print_int pid)) (cl_stack cl)"
  have n: "?n < SETTINGS_BUFSIZE" using length_print_int [OF assms(2)] by (simp add: SETTINGS_BUFSIZE_def)
  have hd: "hd ?rest = cl_stack cl ! ?n" "?rest \<noteq> []" using n assms(3) by (simp_all add: hd_drop_conv_nth)
  have "runs_over (print_int pid @ ?rest) \<Longrightarrow> False"
  proof -
    assume r: "runs_over (print_int pid @ ?rest)"
    have nd: "\<not> list_all is_digit (xs @ ?rest)" for xs using hd stack by (cases ?rest) auto
    show False
    proof (cases "pid < 0")
      case True
      then show False using r nd drop_space_print [of pid ?rest] by (simp add: runs_over_def print_int_def)
    next
      case False
      obtain c cs where "print_nat (nat pid) = c # cs" "is_digit c" using hd_print_nat by blast
      then show False
        using False r nd [of "c # cs"] drop_space_print [of pid ?rest] digit_not_special [of c]
        by (auto simp: runs_over_def print_int_def)
    qed
  qed
  moreover have "atoi (print_int pid @ ?rest) = pid" using hd stack by (intro atoi_print [OF assms(2)]) simp
  ultimately show ?thesis
    using assms(1,3) n by (auto simp: get_settings_def set_settings_def Let_def min_absorb1)
qed

section \<open>Options\<close>

lemma opt_spec_with_argument: "c \<in> set ''aAbscCpmMg'' \<Longrightarrow> opt_spec optstring c = Some True"
proof -
  have "list_all (\<lambda>c. opt_spec optstring c = Some True) ''aAbscCpmMg''" by code_simp
  then show "c \<in> set ''aAbscCpmMg'' \<Longrightarrow> ?thesis" unfolding list_all_iff by blast
qed

lemma opt_spec_unknown: "opt_spec optstring CHR ''d'' = None"
  by code_simp

lemma getopt_with_argument:
  assumes "c \<in> set ''aAbscCpmMg''"
  shows "getopt optstring ([], [[CHR ''-'', c], arg]) = Some (c, None, Some arg, [], [])"
proof -
  have "c \<noteq> CHR ''-''" using assms by auto
  then show ?thesis using opt_spec_with_argument [OF assms] by (simp add: getopt_def)
qed

lemma getopt_done: "getopt optstring ([], []) = None"
  by (simp add: getopt_def)

lemma option_with_argument:
  assumes "c \<in> set ''aAbscCmMg''"
  shows "main sigrtmin [[CHR ''-'', c], arg] cl = Some (request sigrtmin c (atoi arg) cl)"
proof -
  have c: "c \<in> set ''aAbscCpmMg''" "c \<in> set ''aAbscCdmMg''" using assms by auto
  show ?thesis
    using getopt_with_argument [OF c(1), of arg] getopt_done c(2)
    by (simp add: main_def option_loop.simps [of _ "([], [[CHR ''-'', c], arg])"] option_loop.simps [of _ "([], [])"]
        handle_option_def del: list.set)
qed

text \<open>The option of the usage text that \<open>optstring\<close> leaves out: the process id is not read.\<close>

lemma destroy_option:
  assumes "get_settings cl = Some (pid, cl)" "pid \<noteq> - 1" "length arg < 2 \<or> arg ! 0 \<noteq> CHR ''-''"
  shows "main sigrtmin [''-d'', arg] cl = Some (request sigrtmin CHR ''d'' pid cl)"
proof -
  have 1: "getopt optstring ([], [''-d'', arg]) = Some (CHR ''?'', Some CHR ''d'', None, [], [arg])"
    by (simp add: getopt_def opt_spec_unknown)
  have "arg \<noteq> ''--''" using assms(3) by auto
  then have 2: "getopt optstring ([], [arg]) = None" using assms(3) by (auto simp: getopt_def)
  show ?thesis
    using 1 2 assms(1,2)
    by (simp add: main_def option_loop.simps [of _ "([], [''-d'', arg])"] option_loop.simps [of _ "([], [arg])"] handle_option_def)
qed

section \<open>Every option has its argument\<close>

text \<open>A letter that \<open>getopt\<close> returns is \<open>?\<close>, or one of the options, with an argument exactly when it takes one.\<close>

lemma getopt_letters:
  assumes "getopt optstring s = Some (c, oo, oa, r)"
  shows "c = CHR ''?'' \<and> oo \<noteq> None \<and> oa = None \<or> opt_spec optstring c = Some (oa \<noteq> None)"
  using assms
  by (auto simp: getopt_def Let_def simp del: opt_spec.simps split: Option.bind_splits option.splits bool.splits if_splits list.splits)

lemma takes_argument: "c \<in> set ''aAbscCdmMg'' \<or> c = CHR ''p'' \<Longrightarrow> opt_spec optstring c \<noteq> Some False"
proof -
  have "list_all (\<lambda>c. opt_spec optstring c \<noteq> Some False) ''aAbscCdmMgp''" by code_simp
  then show "c \<in> set ''aAbscCdmMg'' \<or> c = CHR ''p'' \<Longrightarrow> ?thesis" unfolding list_all_iff by auto
qed

text \<open>The buffer of \<open>get_settings\<close> ends with a null byte and the file leaves it there.\<close>

definition terminated :: "client \<Rightarrow> bool" where
  "terminated cl \<longleftrightarrow> length (cl_stack cl) = SETTINGS_BUFSIZE \<and> cl_stack cl ! (SETTINGS_BUFSIZE - 1) = char_of (0 :: nat) \<and>
     (\<forall>s. cl_settings cl = Some s \<longrightarrow> length s < SETTINGS_BUFSIZE)"

lemma not_runs_over: "xs \<noteq> [] \<Longrightarrow> last xs = char_of (0 :: nat) \<Longrightarrow> \<not> runs_over xs"
proof -
  assume xs: "xs \<noteq> []" "last xs = char_of (0 :: nat)"
  have z: "\<not> isspace (char_of (0 :: nat))" "\<not> is_digit (char_of (0 :: nat))"
    "char_of (0 :: nat) \<noteq> CHR ''-''" "char_of (0 :: nat) \<noteq> CHR ''+''" by (simp_all add: isspace_def is_digit_def) code_simp+
  then have "dropWhile isspace xs \<noteq> []" using last_in_set [OF xs(1)] unfolding dropWhile_eq_Nil_conv xs(2) by blast
  then obtain c cs where d: "dropWhile isspace xs = c # cs" by (cases "dropWhile isspace xs") auto
  have l: "last (c # cs) = char_of (0 :: nat)" using xs(2) d takeWhile_dropWhile_id [of isspace xs] last_appendR [of "c # cs" "takeWhile isspace xs"]
    by simp
  show "\<not> runs_over xs"
  proof (cases "cs = []")
    case True
    then show ?thesis using d l z by (simp add: runs_over_def)
  next
    case False
    then have "char_of (0 :: nat) \<in> set cs" using l last_in_set [of cs] by simp
    then show ?thesis using d z(2) by (auto simp: runs_over_def list_all_iff)
  qed
qed

lemma get_settings_defined:
  assumes "terminated cl"
  obtains pid cl' where "get_settings cl = Some (pid, cl')" "terminated cl'"
proof (cases "cl_settings cl")
  case None
  then show ?thesis using assms by (intro that [of "- 1"]) (auto simp: get_settings_def terminated_def emit_def)
next
  case (Some s)
  have n: "length s < SETTINGS_BUFSIZE" "length (cl_stack cl) = SETTINGS_BUFSIZE"
    "cl_stack cl ! (SETTINGS_BUFSIZE - 1) = char_of (0 :: nat)" using assms Some by (auto simp: terminated_def)
  let ?buf = "s @ drop (length s) (cl_stack cl)"
  have "drop (length s) (cl_stack cl) \<noteq> []" using n by simp
  moreover from this have "last ?buf = last (cl_stack cl)" using n by simp
  moreover have "cl_stack cl \<noteq> []" using n by auto
  then have "last (cl_stack cl) = char_of (0 :: nat)" using n(2,3) by (simp add: last_conv_nth)
  ultimately have "\<not> runs_over ?buf" by (intro not_runs_over) auto
  then show ?thesis using Some n assms by (intro that) (auto simp: get_settings_def Let_def min_absorb1)
qed

lemma atoi_range: "atoi s \<in> int_range"
proof -
  have "int_of_long v \<in> int_range" for v
    using sint_range_size [of "word_of_int (max (- (2 ^ 63)) (min v (2 ^ 63 - 1))) :: 32 word"]
    by (simp add: int_of_long_def int_range_def word_size)
  then show ?thesis by (auto simp: atoi_def int_range_def split: list.split)
qed

lemma terminated_simps [simp]:
  "terminated (emit a cl) = terminated cl" "terminated (request sg c pid cl) = terminated cl"
  by (auto simp: terminated_def emit_def request_def send_signal_def split: option.splits)

lemma terminated_set_settings: "terminated cl \<Longrightarrow> terminated (set_settings (atoi s) cl)"
  using length_print_int [OF atoi_range, of s] by (auto simp: terminated_def set_settings_def SETTINGS_BUFSIZE_def)

lemma terminated_update: "terminated cl \<Longrightarrow> terminated (update_from ls b cl)"
  by (induction ls b cl rule: update_from.induct) (auto simp: Let_def terminated_set_settings)

lemma option_without_argument:
  "handle_option sg CHR ''u'' oo oa cl = Some (update_from (cl_ps cl) False cl)"
  "handle_option sg CHR ''h'' oo oa cl = Some (emit Print_usage cl)"
  "handle_option sg CHR ''l'' oo oa cl = Some (emit Remove_logs cl)"
  by (simp_all add: handle_option_def auto_update_settings_def)

lemma handle_option_defined:
  assumes "terminated cl" "getopt optstring s = Some (c, oo, oa, r)"
  obtains cl' where "handle_option sg c oo oa cl = Some cl'" "terminated cl'"
proof -
  obtain pid cl1 where g: "get_settings cl = Some (pid, cl1)" "terminated cl1" by (rule get_settings_defined [OF assms(1)])
  consider (arg) a where "c \<in> set ''aAbscCdmMg'' \<or> c = CHR ''p''" "oa = Some a"
    | (other) "c \<notin> set ''aAbscCdmMg''" "c \<noteq> CHR ''p''"
  proof (cases "c \<in> set ''aAbscCdmMg'' \<or> c = CHR ''p''")
    case True
    have "c \<noteq> CHR ''?''" using True by auto
    then have "opt_spec optstring c = Some (oa \<noteq> None)" using getopt_letters [OF assms(2)] by blast
    then have "oa \<noteq> None" using takes_argument [OF True] by (cases oa) simp_all
    then show ?thesis using arg True by blast
  next
    case False
    then show ?thesis using other by blast
  qed
  then show ?thesis
  proof cases
    case arg
    then show ?thesis
      using assms(1) terminated_set_settings [OF assms(1)] by (cases "c \<in> set ''aAbscCdmMg''") (auto simp: handle_option_def intro: that)
  next
    case other
    note e = handle_option_def other if_False if_True
    consider "c = CHR ''u''" | "c = CHR ''h''" | "c = CHR ''l''" | "c \<noteq> CHR ''u''" "c \<noteq> CHR ''h''" "c \<noteq> CHR ''l''" by blast
    then show ?thesis
    proof cases
      case 1
      show ?thesis by (rule that [OF option_without_argument(1)[folded 1] terminated_update [OF assms(1), of "cl_ps cl" False]])
    next
      case 2
      show ?thesis by (rule that [OF option_without_argument(2)[folded 2]]) (use assms(1) in simp)
    next
      case 3
      show ?thesis by (rule that [OF option_without_argument(3)[folded 3]]) (use assms(1) in simp)
    next
      case 4
      let ?cl = "if pid = - 1 then cl1
        else case oo of None \<Rightarrow> cl1 | Some c \<Rightarrow> if c \<in> set ''aAbscCdmMg'' then request sg c pid cl1 else cl1"
      have "handle_option sg c oo oa cl = Some ?cl" by (simp only: e 4 g(1) bind.simps prod.case)
      moreover have "terminated ?cl" using g(2) by (cases oo) simp_all
      ultimately show ?thesis by (rule that)
    qed
  qed
qed

lemma option_loop_defined: "terminated cl \<Longrightarrow> \<exists>cl'. option_loop sg s cl = Some cl' \<and> terminated cl'"
proof (induction sg s cl rule: option_loop.induct)
  case (1 sg s cl)
  show ?case
  proof (cases "getopt optstring s")
    case None
    then show ?thesis using 1(2) by (simp add: option_loop.simps [of sg s])
  next
    case (Some x)
    obtain c oo oa word args where x: "x = (c, oo, oa, word, args)" by (cases x)
    obtain cl1 where h: "handle_option sg c oo oa cl = Some cl1" "terminated cl1"
      by (rule handle_option_defined [OF 1(2)]) (use Some x in auto)
    have "\<exists>cl'. option_loop sg (word, args) cl1 = Some cl' \<and> terminated cl'"
      by (rule 1(1) [OF Some [unfolded x] refl refl refl refl h])
    then show ?thesis using Some x h by (simp add: option_loop.simps [of sg s])
  qed
qed

lemma main_defined:
  assumes "terminated cl"
  shows "\<exists>cl'. main sg args cl = Some cl'"
proof (cases "args = []")
  case True
  obtain pid cl' where "get_settings cl = Some (pid, cl')" by (rule get_settings_defined [OF assms])
  then show ?thesis using True by (simp add: main_def)
next
  case False
  then show ?thesis using option_loop_defined [OF assms, of sg "([], args)"] by (auto simp: main_def)
qed

section \<open>The commands documented\<close>

text \<open>The usage text, by the option letter.\<close>

definition documented :: "char \<Rightarrow> handler option" where
  "documented c =
     map_of [(CHR ''a'', Notify GET_ALL_MEMBLK), (CHR ''A'', Notify GET_ALL_MEMBLK_PER_CALLSTACK), (CHR ''b'', Notify CHECK_ALL_MEMBLK),
       (CHR ''c'', Notify COMPARE_WITH_SNAPSHOT), (CHR ''C'', Notify COMPARE_WITH_SNAPSHOT_PER_CALLSTACK),
       (CHR ''d'', Notify DESTROY_SNAPSHOT), (CHR ''g'', Notify GET_HISTOGRAM_MEMBLK), (CHR ''m'', Get_status),
       (CHR ''M'', Notify GET_VIRTUAL_MEMORY_STATUS), (CHR ''s'', Notify CREATE_SNAPSHOT)] c"

lemma requests_documented: "Option.bind (signal_of_option c) installed_handler = documented c"
  by (auto simp: signal_of_option_def documented_def installed_handler_def)

end
