(* ===== verification/MC_Log.thy ===== *)
theory MC_Log
  imports MC_Requests
begin

text \<open>
  The opening of the log, \<open>memchk_log.c\<close>: the name of the file and the lines that say which program it
  is about. One buffer of 500 bytes serves for the name of the directory and for what is read from
  \<open>/proc\<close>; \<open>None\<close> is an access outside of it, or through a null pointer. The other theories keep the
  log as a list of lines in the state and take the file to be open.
\<close>

definition NUL :: char where "NUL = char_of (0 :: nat)"

definition MC_LOG_DIR :: string where "MC_LOG_DIR = ''.memchk''"

definition LOG_BUFSIZE :: nat where "LOG_BUFSIZE = 500"
definition LOG_NAMESIZE :: nat where "LOG_NAMESIZE = 512"

text \<open>What the calls of \<open>mc_log_print\<close> in \<open>mc_log_init\<close> write.\<close>

datatype intro_line = Checker_started int | Comm string | Cmdline | Word string | Blank_lines

text \<open>
  The surroundings: the variable \<open>HOME\<close>, the process id, whether the file can be opened, the two files
  under \<open>/proc/self\<close>, and what the buffer holds at first.
\<close>

record log_env =
  le_home :: "string option"
  le_pid :: int
  le_opens :: bool
  le_comm :: "string option"
  le_cmdline :: "string option"
  le_buf :: string

text \<open>The file, as far as it is written, or no file.\<close>

type_synonym logfile = "intro_line list option"

definition print_line :: "intro_line \<Rightarrow> logfile \<Rightarrow> logfile" where
  "print_line l fp = map_option (\<lambda>ls. ls @ [l]) fp"

text \<open>Bytes stored at the beginning of a buffer; the string at an index of it.\<close>

definition overwrite :: "string \<Rightarrow> string \<Rightarrow> string" where
  "overwrite s buf = s @ drop (length s) buf"

definition string_at :: "nat \<Rightarrow> string \<Rightarrow> string option" where
  "string_at i buf = (let s = takeWhile (\<lambda>c. c \<noteq> NUL) (drop i buf) in if i + length s < length buf then Some s else None)"

text \<open>The loop over the arguments; \<open>ptr\<close> counts from the beginning of the buffer.\<close>

function print_words :: "string \<Rightarrow> nat \<Rightarrow> nat \<Rightarrow> logfile \<Rightarrow> logfile option" where
  "print_words buf sz ptr fp =
     (if ptr < sz
      then case string_at ptr buf of
             None \<Rightarrow> None
           | Some w \<Rightarrow> print_words buf sz (ptr + length w + 1) (print_line (Word w) fp)
      else Some fp)"
  by pat_completeness auto
termination by (relation "measure (\<lambda>(buf, sz, ptr, fp). sz - ptr)") auto

declare print_words.simps [simp del]

definition log_directory :: "log_env \<Rightarrow> string option" where
  "log_directory e =
     do {
       home \<leftarrow> le_home e;
       let dir = home @ ''/'' @ MC_LOG_DIR;
       (if length dir < LOG_BUFSIZE then Some dir else None)
     }"

definition log_filename :: "string \<Rightarrow> int \<Rightarrow> string option" where
  "log_filename dir pid =
     (let name = dir @ ''/mc'' @ print_int pid @ ''.log'' in if length name < LOG_NAMESIZE then Some name else None)"

definition mc_log_init :: "log_env \<Rightarrow> (string \<times> logfile) option" where
  "mc_log_init e =
     do {
       dir \<leftarrow> log_directory e;
       let buf = overwrite (dir @ [NUL]) (le_buf e);
       filename \<leftarrow> log_filename dir (le_pid e);
       let fp = (if le_opens e then Some [] else None);
       let fp = print_line (Checker_started (le_pid e)) fp;
       comm \<leftarrow> le_comm e;
       let buf = overwrite (replicate 17 NUL) buf;
       let buf = overwrite (take LOG_BUFSIZE comm) buf;
       s \<leftarrow> string_at 0 buf;
       let fp = print_line (Comm s) fp;
       cmdline \<leftarrow> le_cmdline e;
       let sz = min (length cmdline) LOG_BUFSIZE;
       let buf = overwrite (take LOG_BUFSIZE cmdline) buf;
       let buf = buf[LOG_BUFSIZE - 1 := NUL];
       let fp = print_line Cmdline fp;
       fp \<leftarrow> print_words buf sz 0 fp;
       Some (filename, print_line Blank_lines fp)
     }"

section \<open>The buffer\<close>

lemma length_overwrite: "length s \<le> length buf \<Longrightarrow> length (overwrite s buf) = length buf"
  by (simp add: overwrite_def)

lemma string_at_terminated:
  assumes "i \<le> j" "j < length buf" "buf ! j = NUL"
  obtains s where "string_at i buf = Some s"
proof -
  let ?s = "takeWhile (\<lambda>c. c \<noteq> NUL) (drop i buf)"
  have "drop i buf ! (j - i) = NUL" using assms by simp
  then have "length ?s \<le> j - i" using nth_length_takeWhile [of "\<lambda>c. c \<noteq> NUL" "drop i buf"] takeWhile_nth [of "j - i" "\<lambda>c. c \<noteq> NUL" "drop i buf"]
    set_takeWhileD [OF nth_mem, of "j - i" "\<lambda>c. c \<noteq> NUL" "drop i buf"] by (cases "j - i < length ?s") auto
  then have "i + length ?s < length buf" using assms by simp
  then show ?thesis using that by (simp add: string_at_def Let_def)
qed

text \<open>The last byte of the buffer ends the loop inside of it, whatever the file holds.\<close>

lemma print_words_returns:
  assumes "buf ! (length buf - 1) = NUL" "sz \<le> length buf"
  shows "\<exists>fp'. print_words buf sz ptr fp = Some fp'"
  using assms
proof (induction buf sz ptr fp rule: print_words.induct)
  case (1 buf sz ptr fp)
  show ?case
  proof (cases "ptr < sz")
    case True
    obtain s where s: "string_at ptr buf = Some s" 
    by (rule string_at_terminated [of ptr "length buf - 1" buf]) (use 1(2,3) True in auto)
    show ?thesis using 1(1) [OF True s 1(2,3)] True s by (subst print_words.simps) simp
  qed (simp add: print_words.simps)
qed

text \<open>A line of arguments, each ended by a zero byte, is printed word for word.\<close>

definition arguments :: "string list \<Rightarrow> string" where
  "arguments as = concat (map (\<lambda>a. a @ [NUL]) as)"

lemma string_at_append: "NUL \<notin> set a \<Longrightarrow> string_at (length xs) (xs @ a @ NUL # ys) = Some a"
proof -
  assume "NUL \<notin> set a"
  then have "takeWhile (\<lambda>c. c \<noteq> NUL) (a @ NUL # ys) = a" by (subst takeWhile_append2) auto
  then show ?thesis by (simp add: string_at_def Let_def)
qed

lemma print_words_arguments:
  assumes "\<And>a. a \<in> set as \<Longrightarrow> NUL \<notin> set a"
  shows "print_words (xs @ arguments as @ ys) (length xs + length (arguments as)) (length xs) fp =
     Some (map_option (\<lambda>ls. ls @ map Word as) fp)"
  using assms
proof (induction as arbitrary: xs fp)
  case Nil
  then show ?case by (subst print_words.simps) (simp add: arguments_def option.map_ident)
next
  case (Cons a as)
  have s: "string_at (length xs) (xs @ arguments (a # as) @ ys) = Some a"
    using string_at_append [of a xs "arguments as @ ys"] Cons.prems [of a] by (simp add: arguments_def)
  have "print_words (xs @ arguments (a # as) @ ys) (length xs + length (arguments (a # as))) (length xs) fp =
     print_words ((xs @ a @ [NUL]) @ arguments as @ ys) (length (xs @ a @ [NUL]) + length (arguments as)) (length (xs @ a @ [NUL]))
       (print_line (Word a) fp)"
    by (subst print_words.simps, simp only: s) (simp add: arguments_def add.assoc)
  also have "\<dots> = Some (map_option (\<lambda>ls. ls @ map Word as) (print_line (Word a) fp))"
    by (rule Cons.IH) (use Cons.prems in auto)
  finally show ?case by (simp add: print_line_def option.map_comp comp_def)
qed

text \<open>The zero byte put at the end of the buffer spares what ends with one.\<close>

lemma terminated_prefix:
  assumes "length s \<le> length buf" "s = [] \<or> last s = NUL"
  shows "\<exists>ys. (overwrite s buf)[length buf - 1 := NUL] = s @ ys"
proof (cases "length s = length buf")
  case True
  then have o: "overwrite s buf = s" by (simp add: overwrite_def)
  have "s[length buf - 1 := NUL] = s"
  proof (cases "s = []")
    case False
    then have "s ! (length buf - 1) = NUL" using assms(2) True by (simp add: last_conv_nth)
    then show ?thesis by (metis list_update_id)
  qed simp
  then show ?thesis using o by simp
next
  case False
  then have "\<not> length buf - 1 < length s" using assms(1) by linarith
  then have "(overwrite s buf)[length buf - 1 := NUL] = s @ (drop (length s) buf)[length buf - 1 - length s := NUL]"
    unfolding overwrite_def by (subst list_update_append) (simp only: if_False)
  then show ?thesis by blast
qed

section \<open>What the log says\<close>

lemma mc_log_init_lines:
  assumes home: "le_home e = Some home" "length home + 8 < LOG_BUFSIZE" and pid: "le_pid e \<in> int_range"
    and name: "length home + 26 < LOG_NAMESIZE"
    and buf: "length (le_buf e) = LOG_BUFSIZE"
    and comm: "le_comm e = Some comm" "length comm \<le> 16" "NUL \<notin> set comm"
    and line: "le_cmdline e = Some (arguments as)" "\<And>a. a \<in> set as \<Longrightarrow> NUL \<notin> set a" "length (arguments as) \<le> LOG_BUFSIZE"
  shows "mc_log_init e = Some (home @ ''/.memchk/mc'' @ print_int (le_pid e) @ ''.log'',
     if le_opens e then Some ([Checker_started (le_pid e), Comm comm, Cmdline] @ map Word as @ [Blank_lines]) else None)"
proof -
  let ?dir = "home @ ''/'' @ MC_LOG_DIR"
  let ?b0 = "overwrite (?dir @ [NUL]) (le_buf e)"
  let ?b1 = "overwrite (replicate 17 NUL) ?b0" and ?args = "arguments as"
  let ?b2 = "overwrite comm ?b1"
  let ?b3 = "(overwrite ?args ?b2)[LOG_BUFSIZE - 1 := NUL]"
  have d: "log_directory e = Some ?dir" "log_filename ?dir (le_pid e) = Some (home @ ''/.memchk/mc'' @ print_int (le_pid e) @ ''.log'')"
    using home name length_print_int [OF pid] by (simp_all add: log_directory_def log_filename_def MC_LOG_DIR_def Let_def)
  have l0: "length ?b0 = LOG_BUFSIZE" using home(2) buf by (simp add: length_overwrite MC_LOG_DIR_def)
  then have l1: "length ?b1 = LOG_BUFSIZE" by (simp add: length_overwrite LOG_BUFSIZE_def)
  have c16: "length comm \<le> LOG_BUFSIZE" using comm(2) by (simp add: LOG_BUFSIZE_def)
  then have l2: "length ?b2 = LOG_BUFSIZE" using l1 by (simp add: length_overwrite)
  have "replicate (17 - length comm) NUL = NUL # replicate (16 - length comm) NUL"
    using Suc_diff_le [OF comm(2)] by simp
  then have "?b2 = comm @ NUL # drop (Suc (length comm)) ?b1" using comm(2) by (simp add: overwrite_def)
  then have c: "string_at 0 ?b2 = Some comm" using string_at_append [OF comm(3), of "[]"] by simp
  have t: "take LOG_BUFSIZE comm = comm" "take LOG_BUFSIZE ?args = ?args" using c16 line(3) by simp_all
  have "?args = [] \<or> last ?args = NUL" by (cases as rule: rev_cases) (auto simp: arguments_def)
  then have "\<exists>ys. ?b3 = ?args @ ys" using terminated_prefix [of ?args ?b2] line(3) by (simp only: l2)
  then obtain ys where ys: "?b3 = ?args @ ys" by blast
  have w: "print_words ?b3 (min (length ?args) LOG_BUFSIZE) 0 fp = Some (map_option (\<lambda>ls. ls @ map Word as) fp)" for fp
    using print_words_arguments [OF line(2), of as "[]" ys fp] line(3)
    unfolding ys by (simp add: min_absorb1)
  show ?thesis
    unfolding mc_log_init_def using d comm(1) line(1) c w
    by (simp add: t Let_def) (simp add: print_line_def)
qed

text \<open>Longer command lines are cut, and still printed without leaving the buffer.\<close>

lemma mc_log_init_returns:
  assumes home: "le_home e = Some home" "length home + 8 < LOG_BUFSIZE" and pid: "le_pid e \<in> int_range"
    and name: "length home + 26 < LOG_NAMESIZE" and buf: "length (le_buf e) = LOG_BUFSIZE"
    and comm: "le_comm e = Some comm" "length comm \<le> 16" and line: "le_cmdline e = Some line"
  shows "\<exists>r. mc_log_init e = Some r"
proof -
  let ?dir = "home @ ''/'' @ MC_LOG_DIR"
  let ?b2 = "overwrite comm (overwrite (replicate 17 NUL) (overwrite (?dir @ [NUL]) (le_buf e)))"
  let ?b3 = "(overwrite (take LOG_BUFSIZE line) ?b2)[LOG_BUFSIZE - 1 := NUL]"
  obtain fname where d: "log_directory e = Some ?dir" "log_filename ?dir (le_pid e) = Some fname"
    using home name length_print_int [OF pid] by (simp add: log_directory_def log_filename_def MC_LOG_DIR_def Let_def)
  have l2: "length ?b2 = LOG_BUFSIZE" using home(2) buf comm(2) by (simp add: length_overwrite MC_LOG_DIR_def LOG_BUFSIZE_def)
  have "16 - length comm < 17 - length comm" using comm(2) by linarith
  then have n: "?b2 ! 16 = NUL" using comm(2) by (simp add: overwrite_def nth_append)
  obtain c where c: "string_at 0 ?b2 = Some c" by (rule string_at_terminated [OF le0 _ n]) (use l2 in \<open>simp_all add: LOG_BUFSIZE_def\<close>)
  have l3: "length ?b3 = LOG_BUFSIZE" using l2 by (simp add: length_overwrite)
  then have "?b3 ! (length ?b3 - 1) = NUL" by (simp add: LOG_BUFSIZE_def)
  then have "\<exists>fp'. print_words ?b3 (min (length line) LOG_BUFSIZE) 0 fp = Some fp'" for fp
    using l3 by (intro print_words_returns) auto
  then obtain fp' where w: "print_words ?b3 (min (length line) LOG_BUFSIZE) 0
      (print_line Cmdline (print_line (Comm c) (print_line (Checker_started (le_pid e)) (if le_opens e then Some [] else None)))) = Some fp'"
    by blast
  have "take LOG_BUFSIZE comm = comm" using comm(2) by (simp add: LOG_BUFSIZE_def)
  then have "mc_log_init e = Some (fname, print_line Blank_lines fp')"
    unfolding mc_log_init_def using d comm(1) line c w by (simp add: Let_def)
  then show ?thesis by blast
qed

text \<open>Whatever the log says, this is where it is written, if anywhere.\<close>

lemma print_words_open: "print_words buf sz ptr fp = Some fp' \<Longrightarrow> fp' = None \<longleftrightarrow> fp = None"
proof (induction buf sz ptr fp rule: print_words.induct)
  case (1 buf sz ptr fp)
  show ?case
  proof (cases "ptr < sz")
    case True
    then obtain w where w: "string_at ptr buf = Some w" "print_words buf sz (ptr + length w + 1) (print_line (Word w) fp) = Some fp'"
      using 1(2) by (subst (asm) print_words.simps) (auto split: option.splits)
    show ?thesis using 1(1) [OF True w] by (simp add: print_line_def)
  qed (use 1(2) in \<open>simp add: print_words.simps\<close>)
qed

lemma mc_log_init_file:
  assumes "mc_log_init e = Some (name, fp)"
  obtains home where "le_home e = Some home" "name = home @ ''/.memchk/mc'' @ print_int (le_pid e) @ ''.log''"
    "fp \<noteq> None \<longleftrightarrow> le_opens e"
proof -
  from assms show ?thesis
    by (auto simp: mc_log_init_def log_directory_def log_filename_def MC_LOG_DIR_def print_line_def Let_def
        Option.bind_eq_Some_conv split: if_splits dest!: print_words_open intro: that)
qed

end
