(* ===== verification/MC_Start.thy ===== *)
theory MC_Start
  imports MC_Log MC_Returns
begin

text \<open>
  The start of a checked process, all of \<open>__mc_init\<close> in \<open>memchk_init.c\<close>: the environment variable, the
  original functions, the pools, the log file, the handlers and the worker. \<open>mc_init\<close> of \<open>MC_Boot\<close> is
  the part of it that the hooks see. What \<open>dlsym\<close> answers is a parameter.
\<close>

section \<open>The process\<close>

text \<open>
  \<open>ps_originals\<close> holds the pointers \<open>mc_orig_*\<close>; \<open>ps_log_name\<close> and \<open>ps_fp\<close> are the statics of the log.
  The library's own state is that of the worker, who runs once \<open>ps_created\<close>.
\<close>

record process =
  ps_environ :: "string \<Rightarrow> string option"
  ps_originals :: "string \<Rightarrow> addr"
  ps_log_name :: string
  ps_fp :: logfile
  ps_handlers :: "nat \<Rightarrow> handler option"
  ps_created :: bool
  ps_worker :: worker_state

definition library :: "process \<Rightarrow> mc" where
  "library p = base (sg_vm (ps_worker p))"

definition on_library :: "(mc \<Rightarrow> mc) \<Rightarrow> process \<Rightarrow> process" where
  "on_library f p = p\<lparr>ps_worker := (ps_worker p)\<lparr>sg_vm := upd_base f (sg_vm (ps_worker p))\<rparr>\<rparr>"

definition ORIGINALS :: "string list" where
  "ORIGINALS = [''malloc'', ''free'', ''realloc'', ''calloc'', ''aligned_alloc'', ''memalign'', ''posix_memalign'']"

text \<open>\<open>signal\<close> for the ten signals, and \<open>pthread_create\<close>.\<close>

definition start_signals :: "process \<Rightarrow> process" where
  "start_signals p =
     p\<lparr>ps_handlers := (\<lambda>k. case installed_handler k of None \<Rightarrow> ps_handlers p k | Some h \<Rightarrow> Some h),
       ps_created := True, ps_worker := mc_signal_init (sg_vm (ps_worker p))\<rparr>"

definition start_library :: "log_env \<Rightarrow> (string \<Rightarrow> addr) \<Rightarrow> process \<Rightarrow> process option" where
  "start_library e dlsym p =
     do {
       let p = on_library mc_disable_hook p;
       let p = p\<lparr>ps_environ := (ps_environ p)(''LD_PRELOAD'' := None)\<rparr>;
       let p = p\<lparr>ps_originals := fold (\<lambda>f orig. orig(f := dlsym f)) ORIGINALS (ps_originals p)\<rparr>;
       b \<leftarrow> mc_alloc_blk_init (blk (library p));
       let p = on_library (\<lambda>st. st\<lparr>blk := b\<rparr>) p;
       (name, fp) \<leftarrow> mc_log_init (e\<lparr>le_home := ps_environ p ''HOME''\<rparr>);
       let p = on_library (mc_log_print Started) (p\<lparr>ps_log_name := name, ps_fp := fp\<rparr>);
       let p = start_signals p;
       Some (on_library mc_enable_hook p)
     }"

definition process_init :: "log_env \<Rightarrow> (string \<Rightarrow> addr) \<Rightarrow> process \<Rightarrow> process option" where
  "process_init e dlsym p =
     (if initialized (library p) then Some p
      else start_library e dlsym (on_library (\<lambda>st. st\<lparr>initialized := True\<rparr>) p))"

lemma on_library_simps [simp]:
  "library (on_library f p) = f (library p)" "ps_environ (on_library f p) = ps_environ p"
  "ps_originals (on_library f p) = ps_originals p" "ps_log_name (on_library f p) = ps_log_name p"
  "ps_fp (on_library f p) = ps_fp p" "ps_handlers (on_library f p) = ps_handlers p"
  "ps_created (on_library f p) = ps_created p"
  by (simp_all add: on_library_def library_def upd_base_def)

lemma library_updates [simp]:
  "library (p\<lparr>ps_environ := e\<rparr>) = library p" "library (p\<lparr>ps_originals := og\<rparr>) = library p"
  "library (p\<lparr>ps_log_name := n, ps_fp := f\<rparr>) = library p" "library (start_signals p) = library p"
  by (simp_all add: library_def start_signals_def mc_signal_init_def)

lemma started_simps [simp]:
  "ps_environ (start_signals p) = ps_environ p" "ps_originals (start_signals p) = ps_originals p"
  "ps_log_name (start_signals p) = ps_log_name p" "ps_fp (start_signals p) = ps_fp p" "ps_created (start_signals p)"
  "installed_handler k = Some h \<Longrightarrow> ps_handlers (start_signals p) k = Some h"
  by (simp_all add: start_signals_def)

text \<open>The library sees what \<open>mc_init\<close> of \<open>MC_Boot\<close> says.\<close>

lemma process_init_mc_init:
  assumes "process_init e dlsym p = Some p'"
  shows "mc_init (library p) = Some (library p')"
  using assms by (auto simp: process_init_def start_library_def mc_init_def mc_disable_hook_def mc_enable_hook_def
      mc_log_print_def Option.bind_eq_Some_conv Let_def split: if_splits)

lemma fold_originals: "fold (\<lambda>f orig. orig(f := d f)) fs og g = (if g \<in> set fs then d g else og g)"
  by (induction fs arbitrary: og) auto

text \<open>The worker is new, and its slot empty.\<close>

lemma on_library_worker [simp]:
  "ps_worker (on_library f (start_signals p)) = mc_signal_init (upd_base f (sg_vm (ps_worker p)))"
  by (simp add: on_library_def start_signals_def mc_signal_init_def)

lemma started_worker: "ps_worker p = mc_signal_init vm \<Longrightarrow> ps_worker p = mc_signal_init (sg_vm (ps_worker p))"
  by (simp add: mc_signal_init_def)

section \<open>The start\<close>

definition log_env_ok :: "string \<Rightarrow> log_env \<Rightarrow> bool" where
  "log_env_ok home e \<longleftrightarrow> length home + 26 < LOG_NAMESIZE \<and> le_pid e \<in> int_range \<and> length (le_buf e) = LOG_BUFSIZE \<and>
     (\<exists>comm. le_comm e = Some comm \<and> length comm \<le> 16) \<and> le_cmdline e \<noteq> None"

lemma log_env_returns:
  assumes "log_env_ok home e"
  obtains name fp where "mc_log_init (e\<lparr>le_home := Some home\<rparr>) = Some (name, fp)"
    "name = home @ ''/.memchk/mc'' @ print_int (le_pid e) @ ''.log''" "fp \<noteq> None \<longleftrightarrow> le_opens e"
proof -
  let ?e = "e\<lparr>le_home := Some home\<rparr>"
  have l: "length home + 8 < LOG_BUFSIZE" "length home + 26 < LOG_NAMESIZE" "le_pid ?e \<in> int_range" "length (le_buf ?e) = LOG_BUFSIZE"
    using assms by (simp_all add: log_env_ok_def LOG_BUFSIZE_def LOG_NAMESIZE_def)
  from assms obtain comm line' where c: "le_comm ?e = Some comm" "length comm \<le> 16" "le_cmdline ?e = Some line'"
    by (auto simp: log_env_ok_def)
  from mc_log_init_returns [OF _ l(1,3,2,4) c] obtain name fp where r: "mc_log_init ?e = Some (name, fp)" by auto
  then have "name = home @ ''/.memchk/mc'' @ print_int (le_pid e) @ ''.log''" "fp \<noteq> None \<longleftrightarrow> le_opens e"
    using mc_log_init_file [OF r] by fastforce+
  then show ?thesis by (rule that [OF r])
qed

lemma process_init_ok:
  assumes z: "zero_statics (library p)" "heads_ok (blk (library p))"
    and e: "ps_environ p ''HOME'' = Some home" "log_env_ok home e"
  shows "\<exists>p'. process_init e dlsym p = Some p' \<and> process_init e dlsym p' = Some p' \<and> mc_init (library p) = Some (library p') \<and>
     ps_environ p' = (ps_environ p)(''LD_PRELOAD'' := None) \<and>
     (\<forall>f. ps_originals p' f = (if f \<in> set ORIGINALS then dlsym f else ps_originals p f)) \<and>
     ps_log_name p' = home @ ''/.memchk/mc'' @ print_int (le_pid e) @ ''.log'' \<and> (ps_fp p' \<noteq> None \<longleftrightarrow> le_opens e) \<and>
     (\<forall>k h. installed_handler k = Some h \<longrightarrow> ps_handlers p' k = Some h) \<and> ps_created p' \<and>
     ps_worker p' = mc_signal_init (sg_vm (ps_worker p'))"
proof -
  from mc_init_ok [OF z] obtain st where st: "mc_init (library p) = Some st" "initialized st" by blast
  then obtain b where b: "mc_alloc_blk_init (blk (library p)) = Some b"
    using z(1) by (auto simp: mc_init_def zero_statics_def mc_disable_hook_def Let_def Option.bind_eq_Some_conv)
  obtain name fp where l: "mc_log_init (e\<lparr>le_home := Some home\<rparr>) = Some (name, fp)"
    "name = home @ ''/.memchk/mc'' @ print_int (le_pid e) @ ''.log''" "fp \<noteq> None \<longleftrightarrow> le_opens e"
    by (rule log_env_returns [OF e(2)])
  have "\<exists>p'. process_init e dlsym p = Some p' \<and> ps_environ p' = (ps_environ p)(''LD_PRELOAD'' := None) \<and>
     (\<forall>f. ps_originals p' f = (if f \<in> set ORIGINALS then dlsym f else ps_originals p f)) \<and>
     ps_log_name p' = name \<and> ps_fp p' = fp \<and>
     (\<forall>k h. installed_handler k = Some h \<longrightarrow> ps_handlers p' k = Some h) \<and> ps_created p' \<and>
     ps_worker p' = mc_signal_init (sg_vm (ps_worker p'))"
    unfolding process_init_def start_library_def
    using z(1) b l(1) e(1) started_worker
    by (simp add: zero_statics_def mc_disable_hook_def Let_def fold_originals, simp add: mc_signal_init_def)
  then obtain p' where p': "process_init e dlsym p = Some p'" "ps_environ p' = (ps_environ p)(''LD_PRELOAD'' := None)"
     "\<forall>f. ps_originals p' f = (if f \<in> set ORIGINALS then dlsym f else ps_originals p f)"
     "ps_log_name p' = name" "ps_fp p' = fp"
     "\<forall>k h. installed_handler k = Some h \<longrightarrow> ps_handlers p' k = Some h" "ps_created p'"
     "ps_worker p' = mc_signal_init (sg_vm (ps_worker p'))" by blast
  have i: "mc_init (library p) = Some (library p')" by (rule process_init_mc_init [OF p'(1)])
  then have "initialized (library p')" using st by simp
  then have "process_init e dlsym p' = Some p'" by (simp add: process_init_def)
  then show ?thesis using p' i l(2,3) by blast
qed

section \<open>A command that is requested is executed\<close>

lemma log_print_settled:
  "settled st \<Longrightarrow> settled (mc_log_print l st)" "same_record st (mc_log_print l st)"
  "table_view i (mc_log_print l st) = table_view i st" "environment A ms (mc_log_print l st) = environment A ms st"
  "supplied n (mc_log_print l st) = supplied n st" "sort_mmaps (mc_log_print l st) = sort_mmaps st"
proof -
  have r: "report_only st (mc_log_print l st)" by (rule quiet_report_only [OF quiet_log_print [OF quiet_refl]])
  show "settled st \<Longrightarrow> settled (mc_log_print l st)" using report_settled [OF _ r] unfolding settled_def by blast
  show "same_record st (mc_log_print l st)" and v: "table_view i (mc_log_print l st) = table_view i st" for i
    using report_record [OF r] by simp_all
  show "environment A ms (mc_log_print l st) = environment A ms st"
    unfolding environment_def v by (simp add: mc_log_print_def quarantine_def)
  show "supplied n (mc_log_print l st) = supplied n st" "sort_mmaps (mc_log_print l st) = sort_mmaps st"
    by (simp_all add: mc_log_print_def supplied_def)
qed

text \<open>What a command needs so that it returns.\<close>

definition commandable :: "addr set \<Rightarrow> mapping list \<Rightarrow> mc \<Rightarrow> bool" where
  "commandable A ms st \<longleftrightarrow>
     settled st \<and> environment A ms st \<and>
     supplied (card (dom (table_view Live st)) + card (dom (table_view Snapshot st))) st \<and>
     card (dom (table_view Live st)) < 2 ^ 31 \<and> card (dom (table_view Snapshot st)) < 2 ^ 31 \<and>
     (\<exists>oks. sort_mmaps st = True # oks)"

lemma commandable_log: "commandable A ms st \<Longrightarrow> commandable A ms (mc_log_print l st)"
  by (simp add: commandable_def log_print_settled)

lemma commandable_runs:
  assumes c: "commandable A ms (base vm)" and cmd: "cmd \<noteq> GET_VIRTUAL_MEMORY_STATUS"
  obtains vm' where "run_command cmd vm = Some vm'" "settles cmd (base vm) (base vm')"
proof -
  let ?n = "\<lambda>i. card (dom (table_view i (base vm)))"
  from c obtain oks where C: "settled (base vm)" "environment A ms (base vm)" "supplied (?n Live + ?n Snapshot) (base vm)"
    "?n Live < 2 ^ 31" "?n Snapshot < 2 ^ 31" "sort_mmaps (base vm) = True # oks" by (auto simp: commandable_def)
  from every_command_returns [OF C(1,2) cmd C(3-6)] obtain vm' where r: "run_command cmd vm = Some vm'" by blast
  have "?n Live + ?n Snapshot < 2 ^ 32" using C(4,5) by simp
  from that [OF r run_command_settles [OF C(1,3) this C(6) cmd refl r]] show ?thesis .
qed

lemma slot_executed:
  assumes s: "sg_handler s = None" "sg_cmd s = Some cmd" "cmd \<noteq> GET_VIRTUAL_MEMORY_STATUS"
    and c: "commandable A ms (base (sg_vm s))"
  shows "\<exists>es s'. signal_run s es s' \<and> length es \<le> 3 \<and> notified es = [] \<and> executed es = [cmd] \<and> sg_cmd s' = None \<and>
     sg_pc s' = Testing \<and> settles cmd (base (sg_vm s)) (base (sg_vm s'))"
proof -
  have w: "commandable A ms (base (worker_vm s))"
    using c commandable_log by (simp add: worker_vm_def upd_base_def)
  obtain vm' where r: "run_command cmd (worker_vm s) = Some vm'" "settles cmd (base (worker_vm s)) (base vm')"
    by (rule commandable_runs [OF w s(3)])
  have "settles cmd (base (sg_vm s)) (base vm')"
    using r(2) log_print_settled(2,3) same_record_trans
    by (fastforce simp: worker_vm_def upd_base_def settles_def snapshot_after_def split: if_splits)
  with pending_runs [OF s(1,2) r(1)] show ?thesis by blast
qed

section \<open>The first command\<close>

lemma do_not_hook_same:
  "do_not_hook st = n \<Longrightarrow> st\<lparr>initialized := i, blk := b, log := ls, do_not_hook := n\<rparr> = st\<lparr>initialized := i, blk := b, log := ls\<rparr>"
  by simp

text \<open>A process that has just started is settled; it can answer when its files can be read.\<close>

lemma started_commandable:
  assumes z: "zero_statics st" "heads_ok (blk st)" and st': "mc_init st = Some st'"
    and q: "permutes (qsort st)" "ready 1 A ms (fmaps st)" "sort_mmaps st = True # oks"
  shows "commandable A ms st'"
proof -
  from mc_alloc_blk_init_ok [OF z(2)] obtain b where
    b: "mc_alloc_blk_init (blk st) = Some b" "blk_ok b" "\<forall>k. blk_live k b = {}" by blast
  have e: "st' = mc_log_print Started (st\<lparr>initialized := True, blk := b\<rparr>)"
    using z(1) b(1) st' do_not_hook_same [of st]
    by (auto simp: mc_init_def zero_statics_def mc_disable_hook_def mc_enable_hook_def mc_log_print_def Let_def)
  have i: "mc_inv (\<lambda>_. {}) {} {} st'" using zero_statics_inv(1) [OF z(1) b(2,3)] by (simp add: e)
  have v: "table_view k st' = Map.empty" for k using table_view_empty [OF i] by simp
  then have s: "settled st'"
    using i by (auto simp: settled_def settled_at_def ungrouped_def all_traced_def intro!: exI [of _ "\<lambda>_. {}"] exI [of _ "{}"])
  have "quarantine st' = []" using z(1) by (simp add: quarantine_def e mc_log_print_def zero_statics_def)
  then have "environment A ms st'" using q b(3) v by (simp add: environment_def e mc_log_print_def)
  then show ?thesis using s v q(3) by (simp add: commandable_def supplied_def granted_def e mc_log_print_def)
qed

text \<open>From the start of the process to the end of the first command.\<close>

lemma first_command_executed:
  assumes z: "zero_statics (library p)" "heads_ok (blk (library p))"
    and e: "ps_environ p ''HOME'' = Some home" "log_env_ok home e"
    and q: "permutes (qsort (library p))" "ready 1 A ms (fmaps (library p))" "sort_mmaps (library p) = True # oks"
    and h: "installed_handler k = Some (Notify cmd)" "cmd \<noteq> GET_VIRTUAL_MEMORY_STATUS"
  shows "\<exists>p' es s'. process_init e dlsym p = Some p' \<and> ps_handlers p' k = Some (Notify cmd) \<and>
     signal_run (ps_worker p') (Notified cmd # es) s' \<and> length es \<le> 3 \<and> executed es = [cmd] \<and> sg_cmd s' = None \<and>
     settled (base (sg_vm s'))"
proof -
  from process_init_ok [OF z e, of dlsym] obtain p' where
    p': "process_init e dlsym p = Some p'" "mc_init (library p) = Some (library p')"
      "\<forall>k h. installed_handler k = Some h \<longrightarrow> ps_handlers p' k = Some h" "ps_worker p' = mc_signal_init (sg_vm (ps_worker p'))"
    by blast
  let ?w = "ps_worker p'" and ?s = "(ps_worker p')\<lparr>sg_cmd := Some cmd\<rparr>"
  have "sg_pc ?w = Starting" "sg_handler ?w = None" by (subst p'(4), simp add: mc_signal_init_def)+
  then have n: "signal_step ?w (Notified cmd) ?s" "sg_handler ?s = None"
    by (auto intro: signal_step.handler_elsewhere simp: notify_def mutex_free_def)
  have "commandable A ms (base (sg_vm ?s))" using started_commandable [OF z p'(2) q] by (simp add: library_def)
  from slot_executed [OF n(2) _ h(2) this] obtain es s' where
    "signal_run ?s es s'" "length es \<le> 3" "executed es = [cmd]" "sg_cmd s' = None" "settles cmd (base (sg_vm ?s)) (base (sg_vm s'))"
    by auto
  then have "signal_run ?w (Notified cmd # es) s' \<and> length es \<le> 3 \<and> executed es = [cmd] \<and> sg_cmd s' = None \<and> settled (base (sg_vm s'))"
    using signal_run_step [OF n(1)] by (simp add: settles_def)
  then show ?thesis using p'(1,3) h(1) by blast
qed

section \<open>A concrete process\<close>

definition boot_env :: log_env where
  "boot_env = \<lparr>le_home = None, le_pid = 4711, le_opens = True, le_comm = Some ''prog'', le_cmdline = Some (arguments [''./prog'', ''-v'']),
     le_buf = replicate LOG_BUFSIZE NUL\<rparr>"

definition boot_process :: process where
  "boot_process = \<lparr>ps_environ = [''HOME'' \<mapsto> ''/home/a'', ''LD_PRELOAD'' \<mapsto> ''libmemchk.so''], ps_originals = (\<lambda>_. NULL),
     ps_log_name = [], ps_fp = None, ps_handlers = (\<lambda>_. None), ps_created = False,
     ps_worker = \<lparr>sg_cmd = None, sg_pc = Starting, sg_handler = None,
       sg_vm = \<lparr>base = boot_mc\<lparr>fmaps := bin_fmaps 1, sort_mmaps := [True]\<rparr>,
         pr = (\<lambda>_. \<lparr>pr_start = 0, pr_end = 0, pr_next = NULL\<rparr>), head_next = NULL, pageregion_cand = NULL,
         prev_pageregion_cand = Region_head, vmarea_array = None, vma_cnt = 0\<rparr>\<rparr>\<rparr>"

lemma boot_process:
  "zero_statics (library boot_process)" "heads_ok (blk (library boot_process))"
  "ps_environ boot_process ''HOME'' = Some ''/home/a''" "log_env_ok ''/home/a'' boot_env"
  "permutes (qsort (library boot_process))" "ready 1 UNIV [bin_a] (fmaps (library boot_process))"
  "sort_mmaps (library boot_process) = [True]"
proof -
  have l: "library boot_process = boot_mc\<lparr>fmaps := bin_fmaps 1, sort_mmaps := [True]\<rparr>"
    by (simp add: library_def boot_process_def)
  show "zero_statics (library boot_process)" "heads_ok (blk (library boot_process))"
    using boot_mc_start by (simp_all add: l zero_statics_def)
  show "ps_environ boot_process ''HOME'' = Some ''/home/a''" by (simp add: boot_process_def)
  show "log_env_ok ''/home/a'' boot_env"
    by (simp add: log_env_ok_def boot_env_def LOG_NAMESIZE_def int_range_def)
  show "permutes (qsort (library boot_process))" by (simp add: l boot_mc_def permutes_def)
  show "ready 1 UNIV [bin_a] (fmaps (library boot_process))" using bin_fmaps_ready [of 1] by (simp add: l)
  show "sort_mmaps (library boot_process) = [True]" by (simp add: l)
qed

end
