(* ===== verification/Spec2Isabelle.thy ===== *)
theory Spec2Isabelle
  imports MC_Mctest MC_Sort MC_Usage MC_Start
begin

text \<open>
  A model of memchk, a library that is preloaded into a process to watch its heap, and of the command
  line program that asks it for reports.

  THE PROGRAM. The library replaces \<open>malloc\<close>, \<open>free\<close>, \<open>realloc\<close>, \<open>calloc\<close> and the aligned allocators
  (\<open>memchk_hook.c\<close>). A block of the process gets 16 bytes before and at least 16 behind it, the red
  zones, filled with a pattern (\<open>memchk_buffer.c\<close>). For each block \<open>memchk_manage_memblk.c\<close> keeps an
  object in a hash table (\<open>memchk_hashtable.c\<close>) with its buffer, size and interned call stack
  (\<open>memchk_callstack.c\<close>). Freeing checks the red zones, fills the buffer with another pattern, and puts
  it into a queue of 128 buffers, the quarantine; only a buffer that leaves the queue goes back to the C
  library. The objects come from pools of mapped pages with a bitmap of free slots
  (\<open>memchk_allocator.c\<close>, \<open>memchk_alloc_blk.c\<close>). Signals ask for reports (\<open>memchk_signal.c\<close>): listings,
  sorted by size (\<open>memchk_sort.c\<close>), the check of all blocks, a snapshot of the table and the
  comparison with it (\<open>memchk_snapshot.c\<close>), and the pages the blocks lie in (\<open>memchk_virtmem.c\<close>). Frames
  of a call stack are named with the BFD library over the mappings of the process
  (\<open>memchk_filemap.c\<close>, \<open>memchk_symbol.c\<close>). \<open>memchk_client.c\<close> turns options into signals, \<open>mctest.c\<close> makes
  the errors the library is to find.

  CONVENTIONS. \<open>MC_Prelude\<close>. Machine words have their width; \<open>int\<close> arithmetic that wraps in practice is
  written with its conversions. A pointer is a 64 bit address; the structures live in stores, functions
  from addresses to records, one for each structure, all of them parts of the record \<open>mc\<close> of
  \<open>MC_State\<close>. A result \<open>None\<close> is undefined behaviour (a null pointer followed, a local variable read
  before it is set) or a loop that does not end. Loops over chains are \<open>partial_function (option)\<close>, so
  that ending is part of what is proved, and nothing runs on fuel. Answers from outside are in the state:
  the mappings of the kernel (\<open>mmaps\<close>), the addresses of the C library (\<open>libc_env\<close>), the frames of
  \<open>backtrace\<close>, the text of \<open>/proc/self/maps\<close>. \<open>qsort\<close>, BFD and \<open>SIGRTMIN\<close> are parameters.

  THE THEORIES, from the bottom.
  \<open>MC_Chain\<close>: null-terminated chains and walks over them; used for buckets, pools, groups, regions.
  \<open>MC_Align\<close>, \<open>MC_Allocator\<close>: \<open>memchk_alloc.h\<close> and \<open>memchk_allocator.c\<close>. \<open>MC_Allocator_Bits\<close>, \<open>MC_Pool\<close>,
  \<open>MC_Pool_Ops\<close>: the bitmap as a set, the invariant of a chain of pools, the operations under it.
  \<open>MC_Alloc_Blk\<close>: \<open>memchk_alloc_blk.c\<close> and the locale \<open>block_source\<close>: what the users of the allocator rely
  on, interpreted on the model of the pools.
  \<open>MC_Hashtable\<close>, \<open>MC_Table\<close>: \<open>memchk_hashtable.c\<close> and the locale \<open>keyed_table\<close>, interpreted on the table of
  addresses and on that of call stacks.
  \<open>MC_Filemap\<close>, \<open>MC_Symbol\<close>: \<open>memchk_filemap.c\<close> and \<open>memchk_symbol.c\<close>. \<open>MC_Mappings\<close>, \<open>MC_Lookup\<close>: the lines
  of \<open>/proc/self/maps\<close> as the kernel prints them, what the table made from them holds, and that addresses
  are resolved by it.
  \<open>MC_State\<close>: the state of the library. \<open>MC_Callstack\<close>, \<open>MC_Buffer\<close>, \<open>MC_Sort\<close>, \<open>MC_Manage\<close>, \<open>MC_Boot\<close>,
  \<open>MC_Hook\<close>, \<open>MC_Snapshot\<close>, \<open>MC_Listing\<close>, \<open>MC_Virtmem\<close>, \<open>MC_Util\<close>, \<open>MC_Signal\<close>, \<open>MC_Client\<close>, \<open>MC_Log\<close>,
  \<open>MC_Mctest\<close>: one model for each source file, a definition for each function and under its name
  without leading underscores. \<open>MC_Start\<close>: the whole of \<open>memchk_init.c\<close>, of which \<open>MC_Boot\<close> has what the
  hooks see, up to the first command a process executes.
  \<open>MC_Redzone\<close>: what the checks of one block detect. \<open>MC_Manage_Inv\<close>, \<open>MC_Refine\<close>, \<open>MC_Manage_Ops\<close>: the
  invariant \<open>mc_ok\<close>, the abstract machine (a finite map of live blocks and a queue), and that registration
  and release implement it. \<open>MC_Counters\<close>: counters and histogram as functions of the map. \<open>MC_Supply\<close>:
  progress while the kernel grants mappings. \<open>MC_Clean\<close>, \<open>MC_Program\<close>, \<open>MC_Run\<close>: states with nothing
  damaged, the hooks on them, and the runs of a program that keeps to its blocks, as the step relation
  \<open>step\<close>. \<open>MC_Walk\<close>, \<open>MC_Duplicate\<close>, \<open>MC_Group\<close>, \<open>MC_Offset\<close>, \<open>MC_Cancel\<close>, \<open>MC_Difference\<close>, \<open>MC_Compare\<close>:
  traversals of a table, copies of it, the groups of a call stack, and the comparison of two tables
  up to its meaning as a difference of multisets. \<open>MC_Report\<close>, \<open>MC_Commands\<close>: what a report changes, and
  that the commands of the worker leave the record as it was. \<open>MC_Reading\<close>, \<open>MC_Returns\<close>, \<open>MC_Traced\<close>: that
  reports, commands and the releases that report return. \<open>MC_Check\<close>: the check of all blocks. \<open>MC_Regions\<close>,
  \<open>MC_Usage\<close>: the chain of page regions and what is counted from it. \<open>MC_Requests\<close>: from options to
  commands. \<open>MC_Instance\<close>, \<open>MC_Copies\<close>, the end of \<open>MC_Run\<close> and of \<open>MC_Mctest\<close>: one concrete run of the
  library, on which the hypotheses of the properties hold.

  CONDITIONS. A state is \<open>clean\<close> when the library is started and its hooks are enabled, the invariant \<open>mc_ok\<close>
  holds, the buffers of the recorded blocks do not overlap, and their red zones and fill patterns are intact;
  it is \<open>traced A\<close> when all blocks have their call stacks and the frames of these and of the calls to come lie
  in \<open>A\<close>. \<open>supplied n\<close> says that \<open>n\<close> more mappings are granted, and each allocation of an object takes at most
  one of them; \<open>grants n\<close> says that the C library answers a request of \<open>n\<close> bytes with NULL or with memory
  that no recorded buffer covers; \<open>ready k A\<close> says that \<open>/proc/self/maps\<close> can be read \<open>k\<close> more times, each
  time two passes that find the same lines, and that the BFD library can open the files that \<open>A\<close> lies in.

  BOUNDS. A block is shorter than 2 ^ 31 - 32 bytes where the code converts sizes to \<open>int\<close>; a pool holds
  fewer than 192 objects, as every pool of the program does; \<open>get_aligned_size\<close> is used below
  2 ^ 64 minus the alignment.

  WHAT DOES NOT HOLD is proved too: \<open>free\<close> without memory for its record, and the counters then
  (\<open>free_undefined_without_memory\<close>, \<open>failed_release_keeps_counting\<close>), the option d of the client, which
  ignores its process id (\<open>destroy_option\<close> in \<open>MC_Requests\<close>), sizes cut to \<open>int\<close> in the sort
  (\<open>comparison_truncates\<close>), the product of \<open>calloc\<close> (\<open>calloc_wraps_around\<close>), a full pool of 192 objects
  (\<open>lowest_bit_full_page\<close>), addresses of anonymous code given to another file (\<open>anonymous_takes_name\<close> in
  \<open>MC_Mappings\<close>), page regions that get lost (\<open>region_lost\<close>), commands that get lost and a
  worker that locks itself up (\<open>overwritten\<close> in \<open>MC_Signal\<close>, \<open>handler_deadlock\<close>).

  NOT MODELLED. The mutexes, but for that of the worker: every operation that one brackets is a single
  step. Threads of the process that allocate at the same time. The text of the log: a line is a value
  of a datatype, times of day are left out, and of the reports the model keeps the lines that are
  printed, which reach the file when \<open>ps_fp\<close> says that it is open. Calls that \<open>dlsym\<close> may make of the
  hooks. \<open>mc_init_filemaps_from_file\<close>, which nothing calls. \<open>/proc/self/maps\<close> can always be opened; when no
  pass is left it reads as an empty file. What the C library writes to its own memory, its headers: \<open>malloc\<close>
  and \<open>free\<close> of the C library change no byte. A \<open>HOME\<close> that is too long for the buffer of the name of the
  settings file. Writes of the process to the pages of the library. The failures of \<open>mc_register_memblk\<close>
  are modelled, and ignored by the hooks as the code ignores them. The debug output that is compiled out, and the other choices of the macros in
  \<open>memchk.h\<close> (ascending order, no call stacks, no red zones).
\<close>

section \<open>Programs under the hooks\<close>

text \<open>C1: No false alarm: take a program that calls malloc, calloc, realloc, free, posix_memalign, memalign and
  aligned_alloc, frees and resizes only what it holds, and writes only to bytes of its own blocks or to bytes
  outside every buffer of the library and the library's own pages. When at each call the kernel grants the
  mappings for the records of the call, the C library's malloc hands out NULL or memory that overlaps no
  buffer in use, and sizes and alignments stay below 2 ^ 31 with the red zones, then along every run from a
  clean state the log stays as it was, the invariants hold, and the table of live blocks is the program's own
  view of its blocks and their sizes.\<close>

theorem no_false_alarm:
  assumes "reachable (st, map_option mb_usrsize \<circ> live_view st) (st', h')" "clean st"
  shows "clean st' \<and> log st' = log st \<and> h' = map_option mb_usrsize \<circ> live_view st'"
proof -
  have "in_step (log st) (st, map_option mb_usrsize \<circ> live_view st)" using assms(2) by (simp add: in_step_def)
  from reachable_in_step [OF assms(1) this] show ?thesis by (simp add: in_step_def)
qed

theorem no_false_alarm_witness: "clean (snd mc_run) \<and> log (snd mc_run) = log mc_started"
  using no_false_alarm [OF mc_run_reachable started_clean] by simp

text \<open>C2: malloc in a clean state, when the kernel grants two mappings for the record, the C library's answer
  overlaps no buffer in use and the size is below 2 ^ 31 - 32, returns, reports nothing and keeps the state
  clean; it answers NULL, exactly when the C library does, and changes no block, or an address that was not
  live, which is entered with its size, whose bytes hold the initial pattern, and nothing outside the new
  buffer is written.\<close>

theorem malloc_contract:
  assumes "clean st" "supplied (Suc (Suc k)) st" "grants (n + REDZONE_SIZE * 2) st" "unat n + 32 < 2 ^ 31"
  shows "\<exists>p st'. malloc n st = Some (p, st') \<and> clean st' \<and> supplied k st' \<and> log st' = log st \<and>
     (p = NULL \<longleftrightarrow> fst (mc_orig_malloc (n + REDZONE_SIZE * 2) st) = NULL) \<and>
     (p = NULL \<and> live_view st' = live_view st \<and> mem st' = mem st \<or>
      p \<noteq> NULL \<and> live_view st p = None \<and> live_view st' = (live_view st)(p \<mapsto> block_of p n) \<and>
        (\<forall>i < unat n. mem st' (p + of_nat i) = INITBUF_PATTERN) \<and>
        (\<forall>a. unat a \<notin> buffer_of (block_of p n) \<longrightarrow> mem st' a = mem st a))"
  by (rule malloc_clean [OF assms])

theorem malloc_contract_witness: "\<exists>p st'. malloc 32 mc_started = Some (p, st') \<and> clean st'"
  using malloc_contract [OF started_clean started_supplied(1) started_grants, of 32] by (fastforce simp: REDZONE_SIZE_def)

text \<open>C3: free of a live block, from a clean state (no block damaged) and when the kernel grants a mapping for
  the record of the freed block, returns, reports nothing, keeps the state clean, takes the block out of the
  table and writes only to the bytes of its buffer.\<close>

theorem free_contract:
  assumes "clean st" "supplied 1 st" "live_view st p = Some m" "p \<noteq> NULL"
  shows "\<exists>st'. free p st = Some st' \<and> clean st' \<and> log st' = log st \<and> live_view st' = (live_view st)(p := None) \<and>
     (\<forall>a. unat a \<notin> buffer_of m \<longrightarrow> mem st' a = mem st a)"
  by (rule free_clean [OF assms])

theorem free_contract_witness: "\<exists>st'. free 0x100010 (snd mc_run) = Some st' \<and> live_view st' 0x100010 = None"
  using free_contract [OF mc_run(2) mc_run_supplied(1), of "0x100010"] mc_run(4) by fastforce

text \<open>C4: realloc of a live block, from a clean state, when the kernel grants three mappings, the C library's
  answer overlaps no buffer in use and the new size is not 0 and below 2 ^ 31 - 32, returns and reports
  nothing. It answers NULL exactly when the C library has no memory, and then the old block and all bytes
  stay as they were; otherwise it moves the block: the new one, at an address that was not live, has the size
  asked for and holds the bytes of the old one up to the smaller of the two sizes, the old address is live no
  more, and nothing outside the two buffers is written.\<close>

theorem realloc_contract:
  assumes "clean st" "supplied 3 st" "grants (n + REDZONE_SIZE * 2) st" "unat n + 32 < 2 ^ 31" "n \<noteq> 0"
    and "live_view st p = Some m" "p \<noteq> NULL"
  shows "\<exists>q st'. realloc p n st = Some (q, st') \<and> clean st' \<and> log st' = log st \<and>
     (q = NULL \<longleftrightarrow> fst (mc_orig_malloc (n + REDZONE_SIZE * 2) st) = NULL) \<and>
     (q = NULL \<and> live_view st' = live_view st \<and> mem st' = mem st \<or>
      q \<noteq> NULL \<and> live_view st q = None \<and> live_view st' = (live_view st)(q \<mapsto> block_of q n, p := None) \<and> p \<noteq> q \<and>
        (\<forall>i < min (unat n) (unat (mb_usrsize m)). mem st' (q + of_nat i) = mem st (p + of_nat i)) \<and>
        (\<forall>a. unat a \<notin> buffer_of m \<union> buffer_of (block_of q n) \<longrightarrow> mem st' a = mem st a))"
  by (rule realloc_clean [OF assms])

theorem realloc_contract_witness: "\<exists>q st'. realloc 0x100010 64 (snd mc_run) = Some (q, st') \<and> clean st'"
  using realloc_contract [OF mc_run(2) mc_run_supplied(2) mc_run_grants, of 64 "0x100010"] mc_run(4)
  by (fastforce simp: REDZONE_SIZE_def)

text \<open>C5: calloc in a clean state, when the kernel grants two mappings, the C library's answer overlaps no
  buffer in use and the product of the arguments is positive and below 2 ^ 31 - 32, returns and reports
  nothing. It answers NULL exactly when the C library has no memory, and changes no block then; otherwise it
  hands out a new block of all the bytes asked for, every one of them zero.\<close>

theorem calloc_contract:
  assumes "clean st" "supplied (Suc (Suc k)) st" "grants (nm * sz + REDZONE_SIZE * 2) st"
    and "unat nm * unat sz + 32 < 2 ^ 31" "0 < unat nm * unat sz"
  shows "\<exists>p st'. calloc nm sz st = Some (p, st') \<and> clean st' \<and> supplied k st' \<and> log st' = log st \<and>
     (p = NULL \<longleftrightarrow> fst (mc_orig_malloc (nm * sz + REDZONE_SIZE * 2) st) = NULL) \<and>
     (p = NULL \<and> live_view st' = live_view st \<or>
      p \<noteq> NULL \<and> live_view st p = None \<and> live_view st' = (live_view st)(p \<mapsto> block_of p (nm * sz)) \<and>
        (\<forall>i < unat nm * unat sz. mem st' (p + of_nat i) = 0))"
  by (rule calloc_clean [OF assms])

theorem calloc_contract_witness:
  "\<exists>p st'. calloc 4 8 mc_started = Some (p, st') \<and> clean st' \<and> p \<noteq> NULL \<and> (\<forall>i<32. mem st' (p + of_nat i) = 0)"
  using calloc_contract [OF started_clean started_supplied(1), of 4 8] started_grants [of 64] started_libc
  by (fastforce simp: REDZONE_SIZE_def)

text \<open>calloc does not check its product: 2 ^ 32 + 1 members of 2 ^ 32 bytes get a block of 2 ^ 32
  bytes, the residue, as if that had been asked for.\<close>

lemma calloc_wraps_around:
  assumes "do_not_hook st = 0" "malloc (2 ^ 32) st = Some (p, s)"
  shows "calloc (2 ^ 32 + 1) (2 ^ 32) st = Some (p, if p \<noteq> NULL then s\<lparr>mem := memset p 0 (2 ^ 32) (mem s)\<rparr> else s)"
proof -
  have "(2 ^ 32 + 1) * 2 ^ 32 = (2 ^ 32 :: size_t)" by (simp add: word_eq_iff_unsigned)
  moreover have "(2 ^ 32 :: size_t) \<noteq> 0" by simp
  ultimately show ?thesis using assms unfolding calloc_def by (simp only: if_False not_False_eq_True) simp
qed

lemma calloc_wraps_around_witness: "\<exists>s. calloc (2 ^ 32 + 1) (2 ^ 32) mc_started = Some (0x100010, s)"
  using calloc_wraps_around [OF mc_started(4)] large_malloc by fastforce

text \<open>C6: The aligned allocators. For an alignment 2 ^ j, in a clean state, when the kernel grants two mappings,
  the C library's answer overlaps no buffer in use, and size and alignment stay below 2 ^ 31 with the red
  zones, memalign, aligned_alloc and posix_memalign return the same block and state, as do valloc for the
  alignment 4096, and pvalloc for a size that rounds up to this one; nothing is reported. The answer is NULL
  (posix_memalign: ENOMEM) exactly when the C library has no memory, and changes no block then; otherwise it
  is a new block at a multiple of the alignment, with at least 16 bytes of red zone on either side.
  An alignment that is no power of 2 is refused with NULL or EINVAL, and nothing changes.\<close>

theorem aligned_contract:
  assumes "clean st" "supplied (Suc (Suc k)) st" "j < 64" "unat n + 32 + 2 ^ j \<le> 2 ^ 31"
    and "grants (n + REDZONE_SIZE * 2 + 2 ^ j - 1) st"
  shows "(\<exists>p st'. memalign (2 ^ j) n st = Some (p, st') \<and> aligned_alloc (2 ^ j) n st = Some (p, st') \<and>
       posix_memalign (2 ^ j) n st = Some (if p = NULL then (ENOMEM, None) else (0, Some p), st') \<and>
       (j = 12 \<longrightarrow> valloc n st = Some (p, st') \<and>
          (\<forall>m. unat n = (unat m + 4095) div 4096 * 4096 \<longrightarrow> pvalloc m st = Some (p, st'))) \<and>
       clean st' \<and> log st' = log st \<and>
       (p = NULL \<longleftrightarrow> fst (mc_orig_malloc (n + REDZONE_SIZE * 2 + 2 ^ j - 1) st) = NULL) \<and>
       (p = NULL \<and> live_view st' = live_view st \<or>
        p \<noteq> NULL \<and> live_view st p = None \<and> 2 ^ j dvd unat p \<and> (\<exists>m. live_view st' = (live_view st)(p \<mapsto> m) \<and> mb_usrsize m = n \<and>
           unat (mb_buf m) + 16 \<le> unat p \<and> unat p + unat n + 16 \<le> unat (mb_buf m) + unat (mb_bufsize m)))) \<and>
     (\<forall>a. (\<forall>i<64. a \<noteq> 2 ^ i) \<longrightarrow> memalign a n st = Some (NULL, st) \<and> aligned_alloc a n st = Some (NULL, st) \<and>
        posix_memalign a n st = Some ((EINVAL, None), st))"
proof (intro conjI allI impI)
  note I = aligned_interface [OF assms(3), of n st]
  obtain p st' where a: "aligned_allocator (2 ^ j) n st = Some (p, st')" "clean st'" "log st' = log st"
    "p = NULL \<longleftrightarrow> fst (mc_orig_malloc (n + REDZONE_SIZE * 2 + 2 ^ j - 1) st) = NULL"
    "p = NULL \<and> live_view st' = live_view st \<or>
      p \<noteq> NULL \<and> live_view st p = None \<and> 2 ^ j dvd unat p \<and> (\<exists>m. live_view st' = (live_view st)(p \<mapsto> m) \<and> mb_usrsize m = n \<and>
         unat (mb_buf m) + 16 \<le> unat p \<and> unat p + unat n + 16 \<le> unat (mb_buf m) + unat (mb_bufsize m))"
    using aligned_allocator_clean [OF assms] by blast
  have "j = 12 \<longrightarrow> valloc n st = Some (p, st') \<and>
      (\<forall>m. unat n = (unat m + 4095) div 4096 * 4096 \<longrightarrow> pvalloc m st = Some (p, st'))"
    using page_allocators(1) [of n st] page_allocators(2) [of n _ st] I(1) a(1) by auto
  then show "\<exists>p st'. memalign (2 ^ j) n st = Some (p, st') \<and> aligned_alloc (2 ^ j) n st = Some (p, st') \<and>
       posix_memalign (2 ^ j) n st = Some (if p = NULL then (ENOMEM, None) else (0, Some p), st') \<and>
       (j = 12 \<longrightarrow> valloc n st = Some (p, st') \<and>
          (\<forall>m. unat n = (unat m + 4095) div 4096 * 4096 \<longrightarrow> pvalloc m st = Some (p, st'))) \<and>
       clean st' \<and> log st' = log st \<and>
       (p = NULL \<longleftrightarrow> fst (mc_orig_malloc (n + REDZONE_SIZE * 2 + 2 ^ j - 1) st) = NULL) \<and>
       (p = NULL \<and> live_view st' = live_view st \<or>
        p \<noteq> NULL \<and> live_view st p = None \<and> 2 ^ j dvd unat p \<and> (\<exists>m. live_view st' = (live_view st)(p \<mapsto> m) \<and> mb_usrsize m = n \<and>
           unat (mb_buf m) + 16 \<le> unat p \<and> unat p + unat n + 16 \<le> unat (mb_buf m) + unat (mb_bufsize m)))"
    using I(1,2) I(3) [OF a(1)] a by (intro exI [of _ p] exI [of _ st']) simp
next
  fix a :: size_t assume "\<forall>i<64. a \<noteq> 2 ^ i"
  from aligned_refused [OF this] show "memalign a n st = Some (NULL, st)" "aligned_alloc a n st = Some (NULL, st)"
    "posix_memalign a n st = Some ((EINVAL, None), st)" by blast+
qed

theorem aligned_contract_witness:
  "\<exists>p st'. posix_memalign 64 100 mc_started = Some ((0, Some p), st') \<and> 64 dvd unat p \<and> live_view st' p \<noteq> None"
proof -
  have "\<exists>p st'. posix_memalign (2 ^ 6) 100 mc_started = Some ((0, Some p), st') \<and> 2 ^ 6 dvd unat p \<and> live_view st' p \<noteq> None"
    using aligned_contract [OF started_clean started_supplied(1), of 6 100] started_grants [of 195] started_libc
    by (fastforce simp: REDZONE_SIZE_def)
  then show ?thesis by simp
qed

text \<open>When the record of the freed block cannot be allocated, the buffer that \<open>free\<close> hands back is read
  from a variable that was never set, so the call has no defined result.\<close>

lemma free_undefined_without_memory:
  assumes "do_not_hook st = 0" "p \<noteq> NULL" "remove_ptr Live p st = Some (n, s1)" "n \<noteq> NULL"
    and "mc_check_allocated_buffer (get_alloc_memblk_from_memptr n) True s1 = Some (rc, s2)"
    and "do_allocate FreeMemblk s2 = Some (NULL, s3)"
  shows "free p st = None"
  using mc_unregister_memblk_no_memory [OF assms(3-6)] assms(1,2) by (auto simp: free_def)

lemma free_undefined_without_memory_witness: "free 0x100010 starved = None"
  using free_undefined_without_memory [of starved "0x100010", OF _ _ starved_remove(1), of 0 starved_removed starved_removed]
    starved_check starved_allocate demo_memptr starved_hook by auto

section \<open>Registration and release refine the abstract machine\<close>

text \<open>C7: Registering a block (mc_register_memblk) at an address that is neither live nor quarantined
  returns, keeps the invariant of the whole library and either performs the abstract step, which
  maps the address to its description, with result 0, or changes nothing of the record, with result -1.\<close>

theorem register_refines:
  assumes "mc_ok st" "live_view st usrptr = None" "usrptr \<notin> fst ` set (quarantine_view st)"
  shows "\<exists>rc st'. mc_register_memblk buf usrptr bufsize usrsize st = Some (rc, st') \<and> mc_ok st' \<and>
     (rc = 0 \<and> spec_of st' = spec_register usrptr \<lparr>mb_buf = buf, mb_bufsize = bufsize, mb_usrsize = usrsize\<rparr> (spec_of st) \<or>
      rc = - 1 \<and> spec_of st' = spec_of st)"
  by (rule mc_register_memblk_ok [OF assms])

theorem register_refines_witness:
  "\<exists>rc st'. mc_register_memblk 0x100000 0x100010 64 32 mc_started = Some (rc, st') \<and> mc_ok st'"
  using register_refines [OF mc_started(2), of "0x100010" "0x100000" 64 32] mc_started(5,6) by auto

text \<open>C8: Releasing a live block (mc_unregister_memblk), when it returns, keeps the invariant, and either
  performs the abstract step, which moves the block to the end of the queue of 128 freed blocks and hands
  back the buffer of the block that leaves the queue, or finds no memory: then it returns -1, does not set
  the buffer to be freed and forgets the block.\<close>

theorem unregister_refines:
  assumes "mc_ok st" "live_view st p = Some m" "mc_unregister_memblk p st = Some ((rc, out), st')"
  shows "mc_ok st' \<and>
     (rc = - 1 \<and> out = None \<and> spec_of st' = (spec_of st)\<lparr>sp_live := (live_view st)(p := None)\<rparr> \<or>
      rc = 0 \<and> (\<exists>old. spec_unregister p (spec_of st) = Some (old, spec_of st') \<and>
                     out = Some (case old of None \<Rightarrow> NULL | Some (q, m) \<Rightarrow> mb_buf m)))"
  by (rule mc_unregister_memblk_known [OF assms])

theorem unregister_refines_witness:
  "mc_ok mc_freed \<and> (\<exists>old. spec_unregister 0x100010 (spec_of mc_one) = Some (old, spec_of mc_freed))"
  using unregister_refines [OF mc_one(1) _ mc_freed_run, of one_block] mc_one(3) by auto

text \<open>C9: Releasing an address that is not live (an illegal or a double free): when it returns, the result is
  -1, nothing is to be freed and nothing of the record changes, and among the lines that the call writes
  there is exactly one that tells of such a free: that of a double free exactly when the address is still in
  the quarantine, that of an illegal one otherwise. It does return when the call stacks of the blocks are
  recorded, the frames of these and of the calls to come lie in files whose symbols can be read, and
  \<open>/proc/self/maps\<close> can be read once.\<close>

theorem unknown_free_reported:
  assumes "mc_ok st" "live_view st p = None"
  shows "(traced A st \<longrightarrow> ready (Suc k) A ms (fmaps st) \<longrightarrow> (\<exists>r. mc_unregister_memblk p st = Some r)) \<and>
     (\<forall>rc out st'. mc_unregister_memblk p st = Some ((rc, out), st') \<longrightarrow>
        rc = - 1 \<and> out = Some NULL \<and> mc_ok st' \<and> spec_of st' = spec_of st \<and>
        filter free_report (new_lines st st') =
          [if p \<in> fst ` set (quarantine_view st) then Double_free p else Illegal_free p])"
proof (intro conjI impI allI)
  show "\<exists>r. mc_unregister_memblk p st = Some r" if "traced A st" "ready (Suc k) A ms (fmaps st)"
    by (rule unregister_unknown_returns [OF that(1) assms(2) that(2)])
next
  fix rc out st' assume run: "mc_unregister_memblk p st = Some ((rc, out), st')"
  note U = mc_unregister_memblk_unknown [OF assms run]
  show "rc = - 1" "out = Some NULL" "mc_ok st'" "spec_of st' = spec_of st" by (rule U)+
  show "filter free_report (new_lines st st') = [if p \<in> fst ` set (quarantine_view st) then Double_free p else Illegal_free p]"
    by (rule mc_unregister_memblk_reports [OF assms run])
qed

theorem unknown_free_reported_witness:
  "\<exists>st'. mc_unregister_memblk 0x500000 mc_traceable = Some ((- 1, Some NULL), st') \<and>
     filter free_report (new_lines mc_traceable st') = [Illegal_free 0x500000]"
proof -
  have "mc_ok mc_traceable" "live_view mc_traceable 0x500000 = None" "ready (Suc 0) UNIV [bin_a] (fmaps mc_traceable)"
    using cleanD(1) [OF mc_traceable(1)] mc_traceable(6,8) by simp_all
  from unknown_free_reported [OF this(1,2), of UNIV 0 "[bin_a]"] this(3) show ?thesis using mc_traceable(2,7) by fastforce
qed

section \<open>The checks\<close>

text \<open>A correct program leaves no trace: giving back a block whose red zones are intact, while the
  block that leaves the quarantine is untouched, returns and writes nothing to the log.\<close>

lemma clean_free_silent:
  assumes "mc_ok st" "live_view st p = Some m" "live_intact (mem st) p m"
    and "length (quarantine_view st) = FREE_FIFO_SIZE \<longrightarrow> quarantine_intact (mem st) (snd (hd (quarantine_view st)))"
  shows "\<exists>rc out st'. mc_unregister_memblk p st = Some ((rc, out), st') \<and> log st' = log st"
  using mc_unregister_memblk_clean [OF assms] by blast

lemma clean_free_silent_witness:
  "\<exists>rc out st'. mc_unregister_memblk 0x100010 mc_one = Some ((rc, out), st') \<and> log st' = log mc_one"
  using clean_free_silent [OF mc_one(1) _ mc_one_intact(1)] mc_one(3,4) by (simp add: FREE_FIFO_SIZE_def)

text \<open>C10: The check of an allocated block (mc_check_allocated_buffer) passes, and then leaves the state as
  it is, exactly when both red zones hold their pattern.\<close>

theorem redzone_check_exact:
  assumes "block_layout st b"
  shows "(block_intact st b \<longrightarrow> mc_check_allocated_buffer b now st = Some (0, st)) \<and>
     (\<not> block_intact st b \<longrightarrow> (\<forall>rc st'. mc_check_allocated_buffer b now st = Some (rc, st') \<longrightarrow> rc = - 1))"
  using mc_check_allocated_buffer_intact [OF assms] mc_check_allocated_buffer_rc [OF assms] by auto

theorem redzone_check_exact_witness:
  "mc_check_allocated_buffer 0x2000 True demo_block = Some (0, demo_block) \<and>
   \<not> (\<exists>st'. mc_check_allocated_buffer 0x2000 True demo_overrun = Some (0, st'))"
  using redzone_check_exact [OF demo_layout(1), of True] redzone_check_exact [OF demo_layout(2), of True] demo_intact
  by fastforce

text \<open>C11: An overrun is reported with its extent: the check writes a line with the distance from the end of the
  block to the last byte of the trailing zone that was written, as an exact number or as a lower bound when
  that byte is the last of the zone.\<close>

theorem overrun_extent:
  assumes "layout_ok (mb_buf m) u (mb_bufsize m) (mb_usrsize m)"
    and "n \<in> trailing_zone (mb_buf m) u (mb_bufsize m) (mb_usrsize m)" "mem st (of_nat n) \<noteq> REDZONE_PATTERN"
    and "\<forall>k\<in>trailing_zone (mb_buf m) u (mb_bufsize m) (mb_usrsize m). n < k \<longrightarrow> mem st (of_nat k) = REDZONE_PATTERN"
  shows "(if n + 1 = unat (mb_buf m) + unat (mb_bufsize m)
          then Overrun_at_least (int (n + 1 - (unat u + unat (mb_usrsize m)))) u (mb_usrsize m)
          else Overrun (int (n + 1 - (unat u + unat (mb_usrsize m)))) u (mb_usrsize m))
         \<in> set (new_lines st (snd (check_overrun m u e st)))"
  by (rule check_overrun_report [OF assms])

theorem overrun_extent_witness:
  "Overrun 1 0x100010 32 \<in> set (new_lines demo_overrun (snd (check_overrun one_block 0x100010 False demo_overrun)))"
  using overrun_extent [OF one_block_layout, of "0x100030" demo_overrun False] demo_overrun_zone
  by (simp add: one_block_def trailing_zone_def)

text \<open>An underrun is reported with the distance from the lowest byte written before the block up to
  the block, or as at least the size of the leading zone when its first byte was written.\<close>

lemma underrun_extent:
  assumes "layout_ok (mb_buf m) u (mb_bufsize m) (mb_usrsize m)"
    and "n \<in> leading_zone (mb_buf m) u" "mem st (of_nat n) \<noteq> REDZONE_PATTERN"
    and "\<forall>k\<in>leading_zone (mb_buf m) u. k < n \<longrightarrow> mem st (of_nat k) = REDZONE_PATTERN"
  shows "(if n = unat (mb_buf m)
          then Underrun_at_least (int (unat u - unat (mb_buf m))) u (mb_usrsize m)
          else Underrun (int (unat u - n)) u (mb_usrsize m)) \<in> set (log (snd (check_underrun m u st)))"
  by (rule check_underrun_report [OF assms])

lemma underrun_extent_witness:
  "Underrun 2 0x100010 32 \<in> set (log (snd (check_underrun one_block 0x100010 demo_underrun)))"
  using underrun_extent [OF one_block_layout, of "0x10000E" demo_underrun] demo_underrun_zone
  by (simp add: one_block_def leading_zone_def)

text \<open>C12: The check of a freed block (mc_check_freed_buffer) passes, and then leaves the state as it is,
  exactly when every byte of its buffer still holds the pattern written at the release.\<close>

theorem freed_check_exact:
  assumes "freed_layout st f"
  shows "(freed_intact st f \<longrightarrow> mc_check_freed_buffer f st = Some (0, st)) \<and>
     (\<not> freed_intact st f \<longrightarrow> (\<forall>rc st'. mc_check_freed_buffer f st = Some (rc, st') \<longrightarrow> rc = - 1))"
  using mc_check_freed_buffer_intact [OF assms] mc_check_freed_buffer_rc [OF assms] by auto

theorem freed_check_exact_witness:
  "mc_check_freed_buffer 0x3000 demo_freed = Some (0, demo_freed) \<and>
   \<not> (\<exists>st'. mc_check_freed_buffer 0x3000 demo_freed_written = Some (0, st'))"
  using freed_check_exact [OF demo_freed_layout(1)] freed_check_exact [OF demo_freed_layout(2)] demo_freed_intact
  by fastforce

text \<open>C13: The check of all blocks (mc_check_all_memblk): when no block is damaged it returns 0 and leaves the
  state as it is; and whenever it returns, it answers 0 exactly when no block was damaged, every block is
  intact afterwards, the blocks are the same and the bytes of the live ones are untouched.\<close>

theorem check_all_exact:
  assumes "laid_out st"
  shows "(all_intact st \<longrightarrow> mc_check_all_memblk st = Some (0, st)) \<and>
     (\<forall>rc st'. mc_check_all_memblk st = Some (rc, st') \<longrightarrow>
        rc = (if all_intact st then 0 else - 1) \<and> laid_out st' \<and> all_intact st' \<and>
        live_view st' = live_view st \<and> quarantine_view st' = quarantine_view st \<and>
        (\<forall>p m n. live_view st p = Some m \<and> n \<in> user_bytes p m \<longrightarrow> mem st' (of_nat n) = mem st (of_nat n)))"
proof (intro conjI allI impI)
  assume "all_intact st"
  then show "mc_check_all_memblk st = Some (0, st)" using assms check_all_clean clean_laid_out by blast
next
  fix rc st' assume run: "mc_check_all_memblk st = Some (rc, st')"
  note r = check_all_result [OF assms run]
  show "rc = (if all_intact st then 0 else - 1)" using r(1) by (simp add: verdict_def)
  show "laid_out st'" "all_intact st'" using r(2) clean_laid_out by blast+
  show "live_view st' = live_view st" "quarantine_view st' = quarantine_view st" by (rule r(3), rule r(4))
  show "mem st' (of_nat n) = mem st (of_nat n)" if "live_view st p = Some m \<and> n \<in> user_bytes p m" for p m n
    using r(5) that by blast
qed

theorem check_all_exact_witness: "mc_check_all_memblk (snd mc_run) = Some (0, snd mc_run)"
  using check_all_exact [of "snd mc_run"] mc_run(2) clean_laid_out by blast

section \<open>The test program\<close>

text \<open>C14: The errors of the test program are found: from a clean state, when the kernel grants four mappings,
  the C library hands out a buffer that overlaps none in use, the call stacks of the blocks are recorded,
  the frames of these and of the calls to come lie in files whose symbols can be read, and
  \<open>/proc/self/maps\<close> can be read once for each block and one time more, all three functions return. The
  byte written behind its block is logged as an overrun of 1 byte when the block is freed; the second free of
  a block is logged as a double free, the only line of such a free that is written; after the write to a
  freed block the check of all blocks returns -1, and every block is intact afterwards.\<close>

theorem test_program_errors:
  assumes "clean st" "supplied 4 st" "grants (10 + REDZONE_SIZE * 2) st"
    and "fst (mc_orig_malloc (10 + REDZONE_SIZE * 2) st) \<noteq> NULL" "traced A st"
    and "ready (Suc (card (dom (live_view st)) + length (quarantine_view st))) A ms (fmaps st)"
  shows "(\<exists>s p. memory_overrun st = Some s \<and> live_view st p = None \<and> Overrun 1 p 10 \<in> set (new_lines st s)) \<and>
     (\<exists>s p. double_free st = Some s \<and> live_view st p = None \<and> filter free_report (new_lines st s) = [Double_free p]) \<and>
     (\<exists>s s'. access_freed_area st = Some s \<and> log s = log st \<and> mc_check_all_memblk s = Some (- 1, s') \<and> clean s')"
  using overrun_found [OF assms] double_free_found [OF assms] access_found [OF assms] by metis

theorem test_program_errors_witness:
  "(\<exists>s p. memory_overrun mc_traceable = Some s \<and> Overrun 1 p 10 \<in> set (new_lines mc_traceable s)) \<and>
   (\<exists>s p. double_free mc_traceable = Some s \<and> filter free_report (new_lines mc_traceable s) = [Double_free p])"
proof -
  have "ready (Suc (card (dom (live_view mc_traceable)) + length (quarantine_view mc_traceable))) UNIV [bin_a] (fmaps mc_traceable)"
    using mc_traceable(6,7,8) by simp
  moreover have "grants (10 + REDZONE_SIZE * 2) mc_traceable" by (rule mc_traceable(4)) (simp add: REDZONE_SIZE_def)
  ultimately show ?thesis using test_program_errors [OF mc_traceable(1,3) _ mc_traceable(5,2)] by blast
qed

section \<open>Snapshots\<close>

text \<open>C15: Taking a snapshot returns, whatever memory there is, and leaves the record of live and quarantined
  blocks, the log and the memory as they were; the snapshot is the table of live blocks at this moment when
  the result is 0, which it is when the kernel has memory for the copies, and part of it when it is -1.\<close>

theorem snapshot_taken:
  assumes "mc_ok st"
  shows "\<exists>rc st'. mc_create_snapshot st = Some (rc, st') \<and> (rc = 0 \<or> rc = - 1) \<and> mc_ok st' \<and> spec_of st' = spec_of st \<and>
     table_view Snapshot st' \<subseteq>\<^sub>m table_view Live st \<and> (rc = 0 \<longrightarrow> table_view Snapshot st' = table_view Live st) \<and>
     (\<forall>k. supplied (k + card (dom (live_view st))) st \<longrightarrow> rc = 0 \<and> supplied k st') \<and> log st' = log st \<and> mem st' = mem st"
  using create_snapshot_ok [OF assms] by blast

theorem snapshot_taken_witness:
  "\<exists>st'. mc_create_snapshot mc_one = Some (0, st') \<and> table_view Snapshot st' = table_view Live mc_one"
proof -
  have "supplied (3 + card (dom (live_view mc_one))) mc_one" using mc_one(3) mc_one_run(2) by simp
  then show ?thesis using snapshot_taken [OF mc_one(1)] by metis
qed

text \<open>C16: The comparison of two copies: after the blocks of both are linked to their call stacks, the loop that
  cancels them returns the numbers of the blocks that are left; these are the multiset differences of the two
  tables by call stack and size, both ways, they are blocks of the tables they were in, and everything else is
  as it was.\<close>

theorem snapshot_difference:
  assumes "mc_ok st" "no_groups st" "all_traced cur st" "all_traced snap st" "cur \<noteq> snap" "cur \<noteq> Live" "snap \<noteq> Live"
  shows "\<exists>st1 st2 st3. mc_link_same_callstack_group cur LINK_CURRENT st = Some st1 \<and>
     mc_link_same_callstack_group snap LINK_SNAPSHOT st1 = Some st2 \<and>
     offset_snapshot_against_current_alloc_memblk cur snap st2 =
       Some ((of_nat (size (table_pairs cur st3)), of_nat (size (table_pairs snap st3))), st3) \<and>
     table_pairs cur st3 = table_pairs cur st - table_pairs snap st \<and>
     table_pairs snap st3 = table_pairs snap st - table_pairs cur st \<and>
     table_view cur st3 \<subseteq>\<^sub>m table_view cur st \<and> table_view snap st3 \<subseteq>\<^sub>m table_view snap st \<and>
     (\<forall>j. j \<noteq> cur \<longrightarrow> j \<noteq> snap \<longrightarrow> table_view j st3 = table_view j st) \<and>
     mc_ok st3 \<and> spec_of st3 = spec_of st \<and> log st3 = log st \<and> mem st3 = mem st"
  by (rule difference_ok [OF assms])

theorem snapshot_difference_witness:
  "\<exists>st1 st2 st3. mc_link_same_callstack_group Copy LINK_CURRENT mc_copied = Some st1 \<and>
     mc_link_same_callstack_group Snapshot_Copy LINK_SNAPSHOT st1 = Some st2 \<and>
     offset_snapshot_against_current_alloc_memblk Copy Snapshot_Copy st2 = Some ((1, 0), st3)"
proof -
  from snapshot_difference [OF mc_copied(1-4)] obtain st1 st2 st3 where
    "mc_link_same_callstack_group Copy LINK_CURRENT mc_copied = Some st1 \<and>
     mc_link_same_callstack_group Snapshot_Copy LINK_SNAPSHOT st1 = Some st2 \<and>
     offset_snapshot_against_current_alloc_memblk Copy Snapshot_Copy st2 =
       Some ((of_nat (size (table_pairs Copy st3)), of_nat (size (table_pairs Snapshot_Copy st3))), st3)"
    "table_pairs Copy st3 = table_pairs Copy mc_copied - table_pairs Snapshot_Copy mc_copied"
    "table_pairs Snapshot_Copy st3 = table_pairs Snapshot_Copy mc_copied - table_pairs Copy mc_copied" by auto
  then show ?thesis using mc_copied(5,6) by auto
qed

section \<open>Counters and histogram\<close>

text \<open>C17: The counters (numbers of allocations, releases and live blocks, allocated bytes, histogram)
  agree with the map of live blocks after every registration, whether it succeeds or not.\<close>

theorem register_keeps_counters:
  assumes "mc_ok st" "live_view st p = None" "p \<notin> fst ` set (quarantine_view st)"
    and "mc_register_memblk buf p bufsize usrsize st = Some (rc, st')" "counters_ok st"
  shows "counters_ok st'"
  by (rule mc_register_memblk_counters [OF assms])

theorem register_keeps_counters_witness: "counters_ok mc_one"
  using register_keeps_counters [OF mc_started(2) _ _ mc_one_run(1) mc_started(3)] mc_started(5,6) by simp

text \<open>C18: The counters agree with the map of live blocks after every release of a live block that ends
  with result 0.\<close>

theorem unregister_keeps_counters:
  assumes "mc_ok st" "live_view st p = Some m" "mc_unregister_memblk p st = Some ((0, out), st')" "counters_ok st"
  shows "counters_ok st'"
  by (rule mc_unregister_memblk_counters [OF assms])

theorem unregister_keeps_counters_witness: "counters_ok mc_freed"
  using unregister_keeps_counters [OF mc_one(1) _ mc_freed_run mc_one(2)] mc_one(3) by simp

text \<open>A release that finds no memory for the record of the freed block returns -1 before the counters
  are updated and without setting the buffer to be freed: the block is gone from the table, and the numbers
  of live blocks and bytes and the histogram still count it.\<close>

lemma failed_release_keeps_counting:
  assumes "remove_ptr Live p st = Some (n, s1)" "n \<noteq> NULL"
    and "mc_check_allocated_buffer (get_alloc_memblk_from_memptr n) True s1 = Some (rc, s2)"
    and "do_allocate FreeMemblk s2 = Some (NULL, s3)"
  shows "\<exists>st'. mc_unregister_memblk p st = Some ((- 1, None), st') \<and> counters st' = counters st \<and>
     ptr_tbls st' Live = ptr_tbls s1 Live"
  by (rule mc_unregister_memblk_no_memory [OF assms])

lemma failed_release_keeps_counting_witness:
  "\<exists>st'. mc_unregister_memblk 0x100010 starved = Some ((- 1, None), st') \<and> counters st' = counters starved"
  using failed_release_keeps_counting [OF starved_remove(1), of 0 starved_removed starved_removed] starved_check starved_allocate
    demo_memptr
  by auto

text \<open>Every size falls into one bin of the histogram; a bin other than the first holds only sizes
  above 4 to the power of its index, a bin other than the last only sizes up to 4 times that.\<close>

lemma histogram_bins:
  "histo_bin u < HISTO_BINS \<and> (histo_bin u = HISTO_BINS - 1 \<or> unat u \<le> 4 ^ (histo_bin u + 1)) \<and>
   (histo_bin u = 0 \<or> 4 ^ histo_bin u < unat u)"
  using histo_bin_bounds [of u] by linarith

section \<open>Start\<close>

text \<open>The part of the start that the hooks see.\<close>

lemma init_establishes:
  assumes "zero_statics st" "heads_ok (blk st)"
  shows "\<exists>st'. mc_init st = Some st' \<and> initialized st' \<and> mc_ok st' \<and> counters_ok st' \<and> do_not_hook st' = 0 \<and>
     spec_of st' = \<lparr>sp_live = (\<lambda>_. None), sp_quarantine = []\<rparr> \<and> mc_init st' = Some st'"
  using mc_init_ok [OF assms] by blast



section \<open>The allocator of the bookkeeping objects\<close>

text \<open>C20: An allocation of any of the four kinds returns and keeps the invariant of the pools. It answers NULL
  and changes no live block, which does not happen when the kernel grants a mapping, or a block that was not
  live before, whose bytes overlap no other live block of any kind; and only the live blocks of its kind grow
  by it.\<close>

theorem allocation_fresh:
  assumes "blk_ok bs"
  shows "\<exists>p bs'. allocate_kind k bs = Some (p, bs') \<and> blk_ok bs' \<and> (\<forall>j. j \<noteq> k \<longrightarrow> blk_live j bs' = blk_live j bs) \<and>
     (hd (mmaps (bs_alloc bs) @ [MAP_FAILED]) \<noteq> MAP_FAILED \<longrightarrow> p \<noteq> NULL) \<and>
     (if p = NULL then blk_live k bs' = blk_live k bs
      else p \<notin> blk_live k bs \<and> blk_live k bs' = insert p (blk_live k bs) \<and>
        (\<forall>j. \<forall>q\<in>blk_live j bs. blk_range j q \<inter> blk_range k p = {}))"
proof -
  from allocate_kind_ok [OF assms, of k] obtain p bs' where
    a: "allocate_kind k bs = Some (p, bs')" "blk_ok bs'" "\<forall>j. j \<noteq> k \<longrightarrow> blk_live j bs' = blk_live j bs"
      "if p = NULL then blk_live k bs' = blk_live k bs else p \<notin> blk_live k bs \<and> blk_live k bs' = insert p (blk_live k bs)" by blast
  have "blk_range j q \<inter> blk_range k p = {}" if q: "q \<in> blk_live j bs" "p \<noteq> NULL" for j q
    using blk_ranges_disjoint [OF a(2), of q j p k] a(3,4) q by (cases "j = k") auto
  then show ?thesis using a allocate_kind_succeeds [OF assms a(1)] by auto
qed

theorem allocation_fresh_witness:
  "\<exists>p bs'. allocate_kind Callstack (blk mc_started) = Some (p, bs') \<and> blk_ok bs' \<and>
     (p \<noteq> NULL \<longrightarrow> p \<notin> blk_live Callstack (blk mc_started))"
  using allocation_fresh [OF started_blk(1), of Callstack] by force

text \<open>C21: Releasing a block that was just allocated gives back the set of live blocks of every kind.\<close>

theorem allocate_release:
  assumes "blk_ok bs" "allocate_kind k bs = Some (p, bs')" "p \<noteq> NULL"
  shows "blk_ok (free_kind k p bs') \<and> blk_live j (free_kind k p bs') = blk_live j bs"
  using blk.alloc_release [OF assms] by simp

theorem allocate_release_witness:
  "\<exists>p bs'. allocate_kind Callstack (blk mc_started) = Some (p, bs') \<and> blk_ok (free_kind Callstack p bs')"
  using allocate_release [OF started_blk] started_blk(2) by blast

text \<open>C22: While the kernel grants mappings nothing runs out of memory: with two granted mappings left a
  registration returns 0, whatever the arguments are.\<close>

theorem register_succeeds:
  assumes "mc_ok st" "supplied (Suc (Suc n)) st"
  shows "\<exists>st'. mc_register_memblk buf usrptr bufsize usrsize st = Some (0, st') \<and> supplied n st'"
  by (rule mc_register_memblk_supplied [OF assms])

theorem register_succeeds_witness:
  "\<exists>st'. mc_register_memblk 0x100000 0x100010 64 32 mc_started = Some (0, st')"
  using register_succeeds [OF mc_started(2), of 4] mc_started(9) by fastforce

text \<open>C23: The bitmap of a pool page is searched correctly for all capacities below 192: the result is
  the least free slot, or -1 when every slot is taken.\<close>

theorem lowest_bit_exact:
  assumes "ph_num_memblk_in_pool hdr = int n" "n < 192" "\<forall>i. n \<le> i \<longrightarrow> i < 192 \<longrightarrow> slot_free hdr i"
  shows "get_lowest_bit hdr = - 1 \<and> (\<forall>i<n. \<not> slot_free hdr i) \<or>
     (\<exists>i<n. get_lowest_bit hdr = int i \<and> slot_free hdr i \<and> (\<forall>j<i. \<not> slot_free hdr j))"
  using get_lowest_bit_spec [OF assms] by metis

theorem lowest_bit_exact_witness:
  "get_lowest_bit demo_header = - 1 \<and> (\<forall>i<62. \<not> slot_free demo_header i) \<or>
     (\<exists>i<62. get_lowest_bit demo_header = int i \<and> slot_free demo_header i \<and> (\<forall>j<i. \<not> slot_free demo_header j))"
  by (rule lowest_bit_exact) (use demo_header_spare in \<open>simp_all add: demo_header_def\<close>)

text \<open>At capacity 192 the search is wrong: on a full page, where the third ffsl finds nothing, it
  answers slot 127, which is taken. No object of the library is small enough for that capacity.\<close>

lemma lowest_bit_full_page:
  assumes "ph_bitmap hdr = [0, 0, 0]" "ph_num_memblk_in_pool hdr = 192"
  shows "get_lowest_bit hdr = 127 \<and> \<not> slot_free hdr 127"
  using get_lowest_bit_no_spare [OF assms] assms by (simp add: slot_free_def)

lemma lowest_bit_full_page_witness: "get_lowest_bit demo_full_header = 127"
  using lowest_bit_full_page [OF demo_full_header] by simp

text \<open>C24: Rounding up to a multiple (get_aligned_size) gives the least positive multiple that is not below
  the size, when that is below 2 ^ 64.\<close>

theorem aligned_size_exact:
  assumes "0 < unat alignment" "aligned_up (unat sz) (unat alignment) < 2 ^ 64"
  shows "\<exists>r. get_aligned_size sz alignment = Some r \<and> unat alignment dvd unat r \<and> sz \<le> r \<and>
     (\<forall>k. 0 < k \<longrightarrow> unat alignment dvd k \<longrightarrow> unat sz \<le> k \<longrightarrow> unat r \<le> k)"
  by (rule get_aligned_size_least [OF assms])

theorem aligned_size_exact_witness: "\<exists>r. get_aligned_size 13 8 = Some r \<and> unat (8 :: size_t) dvd unat r \<and> 13 \<le> r"
  using aligned_size_exact [of 8 13] by (auto simp: aligned_up_def)

text \<open>Near the top of the address space the rounding loop never ends.\<close>

lemma aligned_size_hangs: "get_aligned_size (- 1) ALIGNMENT_SIZE = None"
  by (rule get_aligned_size_diverges)

section \<open>Hash tables and call stacks\<close>

text \<open>C25: A block entered under a new address is found by it, leaves the other addresses as they were, and
  after its removal the address is found no more and the table holds the old objects.\<close>

theorem ptr_table_round_trip:
  assumes "ptr_table_ok sz t N" "inj_on (ptr_key t) N" "m \<noteq> 0" "m \<notin> N" "ptr_key t m \<notin> ptr_key t ` N"
  shows "mc_find_ptr_hashtable sz (ptr_key t m) (mc_add_ptr_hashtable sz m t) = Some m \<and>
     (\<forall>k. k \<noteq> ptr_key t m \<longrightarrow> mc_find_ptr_hashtable sz k (mc_add_ptr_hashtable sz m t) = mc_find_ptr_hashtable sz k t) \<and>
     (\<exists>t'. mc_remove_ptr_hashtable sz (ptr_key t m) (mc_add_ptr_hashtable sz m t) = Some (m, t') \<and>
           ptr_table_ok sz t' N \<and> mc_find_ptr_hashtable sz (ptr_key t m) t' = Some 0)"
  using ptrs.lookup_add_same [OF assms(1,3,4,5) refl] ptrs.delete_add [OF assms(1,3,4,5) refl]
    ptrs.lookup_add_other [OF assms(1,3,4,5,2)] by blast

theorem ptr_table_round_trip_witness:
  "mc_find_ptr_hashtable 521 0x100010 (mc_add_ptr_hashtable 521 0x2018 demo_table) = Some 0x2018"
  using ptr_table_round_trip [OF demo_table(1), of "0x2018"] by (simp add: demo_table(2))

text \<open>C26: Call stacks are interned: mc_get_callstack returns, with memory for a new object never NULL, and an
  answer other than NULL is an object of the table: it is allocated, its trace is the current one, and the
  search of the table for this call stack finds it; it is the object already there when one has this trace.\<close>

theorem callstack_interned:
  assumes "mc_ok st"
  shows "\<exists>c st'. mc_get_callstack st = Some (c, st') \<and> (supplied 1 st \<longrightarrow> c \<noteq> NULL) \<and>
     (c \<noteq> NULL \<longrightarrow> c \<in> blk_live Callstack (blk st') \<and> trace_at st' c = next_trace st \<and> find_cs (csh st' c) st' = Some c \<and>
        (\<forall>d\<in>blk_live Callstack (blk st). trace_at st d = next_trace st \<longrightarrow> d = c))"
proof -
  from assms obtain N F C where "mc_inv N F C st" by (auto simp: mc_ok_def)
  note ok = mc_invD(1) [OF this]
  from mc_get_callstack_ok [OF ok] obtain c st' where r: "mc_get_callstack st = Some (c, st')" by blast
  have "c \<noteq> NULL" if "supplied 1 st" using mc_get_callstack_supplied(1) [OF ok _ r, of 0] that by simp
  then show ?thesis using r mc_get_callstack_interned [OF assms r] by blast
qed

theorem callstack_interned_witness:
  "\<exists>c st'. mc_get_callstack mc_started = Some (c, st') \<and> c \<noteq> NULL \<and> find_cs (csh st' c) st' = Some c"
proof -
  have "supplied 1 mc_started" by (rule supplied_mono [OF mc_started(9)]) simp
  then show ?thesis using callstack_interned [OF mc_started(2)] by blast
qed

section \<open>Sorting\<close>

text \<open>C27: The listing order: the sort returns a permutation of the blocks, largest first, when every size
  is below 2 ^ 31 and qsort sorts by its comparison function.\<close>

theorem blocks_sorted:
  assumes "sorts (qsort st)" "\<forall>b\<in>set bufs. unat (mb_usrsize (am_memblk (am st b))) < 2 ^ 31"
  shows "mset (fst (mc_sort_by_alloc_memblk bufs st)) = mset bufs \<and>
     sorted (rev (map (\<lambda>b. unat (mb_usrsize (am_memblk (am st b)))) (fst (mc_sort_by_alloc_memblk bufs st))))"
  using mc_sort_by_alloc_memblk_sorted [OF assms] by blast

theorem blocks_sorted_witness:
  "mset (fst (mc_sort_by_alloc_memblk [0x2000, 0x2040] (demo_block\<lparr>qsort := sort_by_cmp\<rparr>))) = mset [0x2000, 0x2040]"
  using blocks_sorted [of "demo_block\<lparr>qsort := sort_by_cmp\<rparr>" "[0x2000, 0x2040]"] sort_by_cmp_sorts demo_sizes by simp

text \<open>Beyond that the comparison is wrong: it puts an empty block before one of 2 ^ 31 + 1 bytes, and
  takes one of 2 ^ 32 bytes for equal to it.\<close>

lemma comparison_truncates: "compare_sizes (2 ^ 31 + 1) 0 > 0 \<and> compare_sizes (2 ^ 32) 0 = 0"
  using compare_sizes_wraps by blast

section \<open>Virtual memory usage\<close>

text \<open>C28: Registering a block in an ordered chain of separate page regions, whose candidate is a node of
  the chain, returns; the chain stays ordered and separate, and it covers the pages of the block beside
  what it covered, or, without memory for a node, is as it was, with result -1.\<close>

theorem region_registered:
  assumes "regions_ok vm ps" "ps \<noteq> [] \<longrightarrow> pageregion_cand vm \<in> set ps" "unat a + unat n + PAGE_SIZE \<le> 2 ^ 64"
  shows "\<exists>rc vm' ps'. register_block a n vm = Some (rc, vm') \<and> regions_ok vm' ps' \<and>
     (rc = 0 \<and> bytes_of (map (region_of vm') ps') = bytes_of (map (region_of vm) ps) \<union> {page_start a ..< page_end a n} \<or>
      rc = - 1 \<and> ps' = ps \<and> map (region_of vm') ps = map (region_of vm) ps) \<and>
     (\<forall>k. supplied (Suc k) (base vm) \<longrightarrow> rc = 0)"
proof -
  obtain rc vm' ps' where "register_block a n vm = Some (rc, vm')" "registered vm ps (page_start a) (page_end a n) rc vm' ps'"
    by (rule register_block_ok [OF assms(1) _ page_range(3) [OF assms(3)]]) (use assms(2) in auto)
  then show ?thesis by (intro exI [of _ rc] exI [of _ vm'] exI [of _ ps']) (auto simp: registered_def)
qed

theorem region_registered_witness:
  "\<exists>vm' ps'. register_block 0x10000 0x1000 virtmem_start = Some (0, vm') \<and> bytes_of (map (region_of vm') ps') = {0x10000 ..< 0x11000}"
proof -
  have "\<exists>rc vm' ps'. register_block 0x10000 0x1000 virtmem_start = Some (rc, vm') \<and> regions_ok vm' ps' \<and>
     (rc = 0 \<and> bytes_of (map (region_of vm') ps') = bytes_of (map (region_of virtmem_start) []) \<union> {0x10000 ..< 0x11000} \<or>
      rc = - 1 \<and> ps' = [] \<and> map (region_of vm') [] = map (region_of virtmem_start) []) \<and>
     (\<forall>k. supplied (Suc k) (base virtmem_start) \<longrightarrow> rc = 0)"
    using region_registered [OF virtmem_start(1), of "0x10000" "0x1000"] unfolding demo_pages by (simp add: PAGE_SIZE_def)
  moreover have "supplied (Suc 5) (base virtmem_start)" using virtmem_start(3) by simp
  ultimately show ?thesis by fastforce
qed

text \<open>C29: The size reported is the number of bytes the regions cover: the sum over the chain returns, when
  the array holds the mappings it is said to hold, and counts every byte once.\<close>

theorem regions_counted:
  assumes "regions_ok vm ps" "array_ok vm"
  shows "\<exists>vm'. count_virtual_memory_size vm = Some (of_nat (card (bytes_of (map (region_of vm) ps))), vm') \<and>
     regions_ok vm' ps \<and> map (region_of vm') ps = map (region_of vm) ps"
proof -
  note D = regions_okD [OF assms(1)]
  obtain vm' where "count_regions (head_next vm) 0 vm = Some (0 + of_nat (card (bytes_of (map (region_of vm) ps))), vm')"
    "array_ok vm'" "pr vm' = pr vm" "head_next vm' = head_next vm" "blk (base vm') = blk (base vm)"
    by (rule count_regions_ok [OF assms(2) D(2,4)])
  moreover from this(3) have "region_of vm' = region_of vm" by (simp add: region_of_def fun_eq_iff)
  ultimately show ?thesis
    using assms(1) by (intro exI [of _ vm']) (simp add: count_virtual_memory_size_def regions_ok_def)
qed

theorem regions_counted_witness: "\<exists>vm vm'. count_virtual_memory_size vm = Some (0x1000, vm')"
proof -
  obtain vm ps where "regions_ok vm ps" "array_ok vm" "bytes_of (map (region_of vm) ps) = {0x10000 ..< 0x11000}"
    by (rule one_region)
  then show ?thesis using regions_counted [of vm ps] card_range [of "0x10000" "0x11000"] by auto
qed

text \<open>C30: A region is charged to the mappings it lies in: when the mappings are in order and disjoint and
  cover the region, every mapping is charged with exactly the bytes that it shares with the region.\<close>

theorem mappings_charged:
  assumes "areas_ok as" "s < e" "{s ..< e} \<subseteq> (\<Union>a\<in>set as. area_bytes a)"
  shows "register_areas as s e m = (map (charge {s ..< e}) as, True)"
  by (rule register_areas_covered [OF assms])

theorem mappings_charged_witness:
  "map va_usage (fst (register_areas [\<lparr>va_start = 0x1000, va_end = 0x3000, va_usage = 0, va_next = NULL\<rparr>,
     \<lparr>va_start = 0x3000, va_end = 0x8000, va_usage = 5, va_next = NULL\<rparr>] 0x2000 0x4000 False)) = [0x1000, 0x1005]"
  using mappings_charged [of "[\<lparr>va_start = 0x1000, va_end = 0x3000, va_usage = 0, va_next = NULL\<rparr>,
     \<lparr>va_start = 0x3000, va_end = 0x8000, va_usage = 5, va_next = NULL\<rparr>]" "0x2000" "0x4000" False]
  by (simp add: charge_def area_bytes_def areas_ok_def card_range Int_atLeastLessThan)

text \<open>C31: The candidate is not cleared when its region is merged into another one: five blocks in this
  order are all registered with result 0, and the pages of the fifth are missing from the chain.\<close>

theorem region_lost:
  assumes "regions_ok vm []" "supplied 4 (base vm)"
  shows "\<exists>vm' ps. register_all lost_blocks vm = Some ([0, 0, 0, 0, 0], vm') \<and> regions_ok vm' ps \<and>
     last lost_blocks = (0x16000, 0x1000) \<and> 0x16000 \<notin> bytes_of (map (region_of vm') ps)"
proof -
  have "head_next vm = NULL" "blk_ok (blk (base vm))" using regions_okD(1,2) [OF assms(1)] by simp_all
  then obtain vm' ps where "register_all lost_blocks vm = Some ([0, 0, 0, 0, 0], vm')" "regions_ok vm' ps"
    "bytes_of (map (region_of vm') ps) = {0x10000 ..< 0x15000} \<union> {0x18000 ..< 0x19000}"
    using lost_region_run [of vm] assms(2) by blast
  then show ?thesis by (intro exI [of _ vm'] exI [of _ ps]) (simp add: lost_blocks_def)
qed

theorem region_lost_witness: "\<exists>vm'. register_all lost_blocks virtmem_start = Some ([0, 0, 0, 0, 0], vm')"
  using region_lost [OF virtmem_start(1)] granted_mono [of 6 _ 4] virtmem_start(3) by (auto simp: supplied_def)

section \<open>Signals\<close>

text \<open>C32: What the worker executes was requested: along every run the commands executed, and then the one in
  the slot, are a subsequence of the commands that the handlers stored.\<close>

theorem commands_requested:
  assumes "signal_run (mc_signal_init vm) es s"
  shows "subseq (executed es @ pending s) (notified es)"
  using signal_run_requests [OF assms] by (simp add: mc_signal_init_def requests_ok_def)

theorem commands_requested_witness:
  "\<exists>s. signal_run (mc_signal_init virtmem_start) [Notified CHECK_ALL_MEMBLK] s \<and> subseq (pending s) [CHECK_ALL_MEMBLK]"
proof -
  have "signal_run (mc_signal_init virtmem_start) [Notified CHECK_ALL_MEMBLK] ((mc_signal_init virtmem_start)\<lparr>sg_cmd := Some CHECK_ALL_MEMBLK\<rparr>)"
    by (rule signal_run_one, rule signal_step.handler_elsewhere) (simp add: notify_def mutex_free_def mc_signal_init_def)
  from this commands_requested [OF this] show ?thesis by auto
qed

text \<open>A command that returns is executed as soon as the worker gets to it.\<close>

lemma pending_command_runs:
  assumes "sg_handler s = None" "sg_cmd s = Some c" "run_command c (worker_vm s) = Some vm'"
  shows "\<exists>es s'. signal_run s es s' \<and> length es \<le> 3 \<and> notified es = [] \<and> executed es = [c] \<and>
     sg_cmd s' = None \<and> sg_vm s' = vm' \<and> sg_pc s' = Testing"
  by (rule pending_runs [OF assms])

lemma pending_command_runs_witness:
  "\<exists>es s'. signal_run ((mc_signal_init virtmem_start)\<lparr>sg_cmd := Some GET_HISTOGRAM_MEMBLK\<rparr>) es s' \<and>
     executed es = [GET_HISTOGRAM_MEMBLK] \<and> sg_cmd s' = None"
proof -
  let ?s = "(mc_signal_init virtmem_start)\<lparr>sg_cmd := Some GET_HISTOGRAM_MEMBLK\<rparr>"
  have "run_command GET_HISTOGRAM_MEMBLK (worker_vm ?s) = Some (upd_base mc_print_histogram_alloc_memblk (worker_vm ?s))"
    by (simp add: run_command_def)
  from pending_command_runs [OF _ _ this] show ?thesis by (fastforce simp: mc_signal_init_def)
qed

text \<open>C33: A command in the slot is executed: from a settled record, with memory for the copies and a sort
  buffer and with call stacks that can be resolved, every command but that for the virtual memory is
  executed within three steps of the worker, if no handler comes in between; the worker is then back at
  its test with an empty slot, the record settled, and the live blocks, the quarantine and the counters
  as they were.\<close>

theorem command_executed:
  assumes "sg_handler s = None" "sg_cmd s = Some cmd" "cmd \<noteq> GET_VIRTUAL_MEMORY_STATUS"
    and "commandable A ms (base (sg_vm s))"
  shows "\<exists>es s'. signal_run s es s' \<and> length es \<le> 3 \<and> notified es = [] \<and> executed es = [cmd] \<and>
     sg_cmd s' = None \<and> sg_pc s' = Testing \<and> settled (base (sg_vm s')) \<and>
     spec_of (base (sg_vm s')) = spec_of (base (sg_vm s)) \<and> counters (base (sg_vm s')) = counters (base (sg_vm s))"
proof -
  from slot_executed [OF assms] obtain es s' where r: "signal_run s es s'" "length es \<le> 3" "notified es = []" "executed es = [cmd]"
    "sg_cmd s' = None" "sg_pc s' = Testing" "settles cmd (base (sg_vm s)) (base (sg_vm s'))" by blast
  then have "settled (base (sg_vm s'))" "same_record (base (sg_vm s)) (base (sg_vm s'))" by (simp_all add: settles_def)
  with r same_record_spec [of "base (sg_vm s)" "base (sg_vm s')"] show ?thesis by (auto simp: same_record_def)
qed

theorem command_executed_witness:
  "\<exists>p' es s'. process_init boot_env (\<lambda>_. NULL) boot_process = Some p' \<and>
     signal_run ((ps_worker p')\<lparr>sg_cmd := Some CHECK_ALL_MEMBLK\<rparr>) es s' \<and>
     executed es = [CHECK_ALL_MEMBLK] \<and> sg_cmd s' = None \<and> settled (base (sg_vm s'))"
proof -
  obtain p' where p: "process_init boot_env (\<lambda>_. NULL) boot_process = Some p'" "mc_init (library boot_process) = Some (library p')"
    "ps_worker p' = mc_signal_init (sg_vm (ps_worker p'))"
    using process_init_ok [OF boot_process(1-4), of "\<lambda>_. NULL"] by blast
  let ?s = "(ps_worker p')\<lparr>sg_cmd := Some CHECK_ALL_MEMBLK\<rparr>"
  have "sg_handler ?s = None" by (simp, subst p(3), simp add: mc_signal_init_def)
  moreover have "commandable UNIV [bin_a] (base (sg_vm ?s))"
    using started_commandable [OF boot_process(1,2) p(2) boot_process(5,6,7)] by (simp add: library_def)
  ultimately show ?thesis using command_executed [of ?s CHECK_ALL_MEMBLK UNIV "[bin_a]"] p(1) by auto
qed

text \<open>C34: The library can lock itself up: a signal that interrupts the worker while it holds the mutex
  leaves a state without a step, with the command never executed.\<close>

theorem handler_deadlock:
  "\<exists>es s'. signal_run (mc_signal_init vm) es s' \<and> notified es = [c] \<and> executed es = [] \<and> (\<forall>e s''. \<not> signal_step s' e s'')"
  by (rule deadlock_reachable)

text \<open>C35: A command leaves the record as it was: between commands the working copies are empty and no call
  stack has a group. From such a state, with a mapping for each block of the table of live blocks and of the
  snapshot, which the copies need, with less than 2 ^ 32 blocks in the two, and with the first sort buffer
  asked for granted, every command but that for the virtual memory ends in such a state, if it returns, with the
  same live blocks, quarantine and counters; only the snapshot commands change the snapshot, and these and
  the histogram always return.\<close>

theorem commands_keep_record:
  assumes "settled (base vm)" "cmd \<noteq> GET_VIRTUAL_MEMORY_STATUS"
    and "supplied (card (dom (table_view Live (base vm))) + card (dom (table_view Snapshot (base vm)))) (base vm)"
    and "card (dom (table_view Live (base vm))) + card (dom (table_view Snapshot (base vm))) < 2 ^ 32"
    and "sort_mmaps (base vm) = True # oks"
  shows "(\<forall>vm'. run_command cmd vm = Some vm' \<longrightarrow>
       settled (base vm') \<and> spec_of (base vm') = spec_of (base vm) \<and> counters (base vm') = counters (base vm) \<and>
       table_view Live (base vm') = table_view Live (base vm) \<and>
       table_view Snapshot (base vm') = (if cmd = CREATE_SNAPSHOT then table_view Live (base vm)
         else if cmd = DESTROY_SNAPSHOT then Map.empty else table_view Snapshot (base vm))) \<and>
     (cmd \<in> {CREATE_SNAPSHOT, DESTROY_SNAPSHOT, GET_HISTOGRAM_MEMBLK} \<longrightarrow> (\<exists>vm'. run_command cmd vm = Some vm'))"
proof (intro conjI allI impI)
  fix vm' assume "run_command cmd vm = Some vm'"
  from run_command_settles [OF assms(1,3-5,2) refl this] have s: "settled (base vm')" "same_record (base vm) (base vm')"
    "table_view Snapshot (base vm') = snapshot_after cmd (base vm)" by (simp_all add: settles_def)
  show "settled (base vm')" by (rule s(1))
  show "spec_of (base vm') = spec_of (base vm)" by (rule same_record_spec [OF s(2)])
  show "counters (base vm') = counters (base vm)" "table_view Live (base vm') = table_view Live (base vm)"
    using s(2) by (simp_all add: same_record_def)
  show "table_view Snapshot (base vm') = (if cmd = CREATE_SNAPSHOT then table_view Live (base vm)
      else if cmd = DESTROY_SNAPSHOT then Map.empty else table_view Snapshot (base vm))"
    using s(3) by (simp add: snapshot_after_def)
next
  assume "cmd \<in> {CREATE_SNAPSHOT, DESTROY_SNAPSHOT, GET_HISTOGRAM_MEMBLK}"
  then show "\<exists>vm'. run_command cmd vm = Some vm'" by (rule run_command_returns [OF assms(1)])
qed

theorem commands_keep_record_witness:
  "\<exists>vm'. run_command CREATE_SNAPSHOT (virtmem_start\<lparr>base := mc_settled\<rparr>) = Some vm' \<and>
     table_view Snapshot (base vm') = table_view Live mc_one \<and> table_view Live mc_one 0x100010 \<noteq> None"
proof -
  obtain c where c: "table_view Live mc_one = [0x100010 \<mapsto> (one_block, c)]" using mc_one_traced(3) by blast
  have "supplied 1 mc_settled" by (rule supplied_mono [OF mc_settled(2)]) simp
  then show ?thesis
    using commands_keep_record [of "virtmem_start\<lparr>base := mc_settled\<rparr>" CREATE_SNAPSHOT "[]"] mc_settled c by auto
qed

text \<open>C36: The commands return: from such a state, with memory for the copies and a sort buffer, less than
  2 ^ 31 blocks, call stacks whose frames lie in files that the BFD library can open, and a
  \<open>/proc/self/maps\<close> that can be read once for each block, every command but that for the virtual memory
  runs to its end.\<close>

theorem commands_return:
  assumes "settled (base vm)" "environment A ms (base vm)" "cmd \<noteq> GET_VIRTUAL_MEMORY_STATUS"
    and "supplied (card (dom (table_view Live (base vm))) + card (dom (table_view Snapshot (base vm)))) (base vm)"
    and "card (dom (table_view Live (base vm))) < 2 ^ 31" "card (dom (table_view Snapshot (base vm))) < 2 ^ 31"
    and "sort_mmaps (base vm) = True # oks"
  shows "\<exists>vm'. run_command cmd vm = Some vm'"
  by (rule every_command_returns [OF assms])

theorem commands_return_witness:
  "(\<exists>vm'. run_command GET_ALL_MEMBLK (virtmem_start\<lparr>base := mc_readable\<rparr>) = Some vm') \<and>
   (\<exists>vm'. run_command COMPARE_WITH_SNAPSHOT (virtmem_start\<lparr>base := mc_readable\<rparr>) = Some vm')"
proof -
  have "supplied 1 mc_readable" by (rule supplied_mono [OF mc_readable(3)]) simp
  then have "\<exists>vm'. run_command cmd (virtmem_start\<lparr>base := mc_readable\<rparr>) = Some vm'" if "cmd \<noteq> GET_VIRTUAL_MEMORY_STATUS" for cmd
    using commands_return [of "virtmem_start\<lparr>base := mc_readable\<rparr>" UNIV "[bin_a]" cmd "[]"] that mc_readable by simp
  then show ?thesis by simp
qed

section \<open>Names of addresses\<close>



section \<open>The command line program\<close>

text \<open>C38: Client and library agree: each option to which the usage text gives a command, but d, sends one signal
  to the process whose id follows it, and the handler of this signal in the library is the one for the command
  of the usage text. The option d is left out: the usage text gives it a process id too, but its letter is
  not in the option string, so the code does not read the id that follows and uses the saved one
  (\<open>destroy_option\<close> in \<open>MC_Requests\<close>).\<close>

theorem client_requests:
  assumes "documented c \<noteq> None" "c \<noteq> CHR ''d''"
  shows "\<exists>k. main sigrtmin [[CHR ''-'', c], arg] cl = Some (emit (Kill (sigrtmin + int k) (atoi arg)) cl) \<and>
     installed_handler k = documented c"
proof -
  obtain k where "signal_of_option c = Some k" "installed_handler k = documented c"
    using requests_documented [of c] assms(1) by (cases "signal_of_option c") auto
  moreover have "c \<in> set ''aAbscCmMg''" using assms by (auto simp: documented_def split: if_splits)
  ultimately show ?thesis using option_with_argument [of c sigrtmin arg cl] by (auto simp: request_def send_signal_def)
qed

theorem client_requests_witness:
  "\<exists>k. main 34 [''-b'', ''1234''] \<lparr>cl_settings = None, cl_writable = True, cl_stack = replicate 32 (char_of (0 :: nat)), cl_ps = [],
      cl_hooked = (\<lambda>_. False), cl_out = []\<rparr> = Some (emit (Kill (34 + int k) (atoi ''1234''))
      \<lparr>cl_settings = None, cl_writable = True, cl_stack = replicate 32 (char_of (0 :: nat)), cl_ps = [],
      cl_hooked = (\<lambda>_. False), cl_out = []\<rparr>) \<and> installed_handler k = Some (Notify CHECK_ALL_MEMBLK)"
proof -
  have "documented CHR ''b'' = Some (Notify CHECK_ALL_MEMBLK)" by (simp add: documented_def)
  then show ?thesis using client_requests [of "CHR ''b''"] by simp
qed

text \<open>C39: No command line makes the client read an argument that is not there: from a settings buffer that
  ends with a null byte it returns, whatever its arguments are.\<close>

theorem client_defined:
  assumes "terminated cl"
  shows "\<exists>cl'. main sigrtmin args cl = Some cl'"
  by (rule main_defined [OF assms])

theorem client_defined_witness:
  "\<exists>cl'. main 34 [''-p'', ''12'', ''-q'', ''-a''] \<lparr>cl_settings = None, cl_writable = True,
      cl_stack = replicate 32 (char_of (0 :: nat)), cl_ps = [], cl_hooked = (\<lambda>_. False), cl_out = []\<rparr> = Some cl'"
  by (rule client_defined) (simp add: terminated_def SETTINGS_BUFSIZE_def)

text \<open>A process id that is saved is read back, for every int, when the byte of the buffer behind its
  digits happens not to be a digit.\<close>

lemma settings_round_trip:
  assumes "cl_writable cl" "pid \<in> int_range" "length (cl_stack cl) = SETTINGS_BUFSIZE"
    and "\<not> is_digit (cl_stack cl ! length (print_int pid))"
  shows "get_settings (set_settings pid cl) = Some (pid, set_settings pid cl)"
  by (rule settings_read_back [OF assms])

lemma settings_round_trip_witness:
  "\<exists>cl. get_settings (set_settings 1234 cl) = Some (1234, set_settings 1234 cl)"
  using settings_round_trip [of "\<lparr>cl_settings = None, cl_writable = True, cl_stack = replicate 32 (CHR '' ''), cl_ps = [],
      cl_hooked = (\<lambda>_. False), cl_out = []\<rparr>" 1234] length_print_int [of 1234]
  by (fastforce simp: SETTINGS_BUFSIZE_def int_range_def is_digit_def)

section \<open>Units\<close>

text \<open>C40: The size with a unit: the loop of mc_change_unit returns; the value times the power of 1024 that the
  unit stands for is the size rounded to a float, it is at most 1024, and above 1 for every unit but
  bytes.\<close>

theorem unit_exact:
  "\<exists>v k. mc_change_unit sz = (v, unit_name k) \<and> v * 1024 ^ k = float_of_size sz \<and> v \<le> 1024 \<and> (k = 0 \<or> 1 < v) \<and> k \<le> 6 \<and>
     \<bar>float_of_size sz - of_nat (unat sz)\<bar> * 2 ^ 24 \<le> of_nat (unat sz)"
proof -
  obtain v k where "mc_change_unit sz = (v, unit_name k)" "v * 1024 ^ k = float_of_size sz" "v \<le> 1024" "0 < k \<longrightarrow> 1 < v" "k \<le> 6"
    using mc_change_unit_spec [of sz] by blast
  then show ?thesis using float_of_size_near [of sz] by (intro exI [of _ v] exI [of _ k]) auto
qed

end
